(* ===== verification/Prelude.thy ===== *)
theory Prelude
  imports Main "HOL-Library.Word" "HOL-Library.Signed_Division" "HOL-Library.Multiset"
begin

text \<open>
  Shared vocabulary of the development: the faults a C statement can end in, the result type
  of every fallible operation, C's integer division and conversions, and list lemmas that
  several components use.
\<close>

section \<open>Faults and results\<close>

text \<open>
  A run of the C code either returns or stops at a fault. \<open>Assert_failed\<close> is a failed
  \<open>assert\<close>, \<open>Check_error\<close> a \<open>CHECK_ERROR\<close> whose condition held (it asserts as well, after
  printing), \<open>Null_deref\<close> and \<open>Bad_access\<close> are reads or writes through a null or a dead
  pointer, \<open>Bad_free\<close> is a \<open>free\<close> of something that is not an allocated object,
  \<open>Out_of_bounds\<close> an array index outside its array, \<open>Div_by_zero\<close> an integer division by
  zero, \<open>Would_block\<close> a wait that nothing in the run can end, \<open>Bad_alloc\<close> an allocation of an impossible
  size, \<open>Undefined\<close> an operation whose result the language leaves undefined, \<open>Exit_failure\<close> a call of
  \<open>exit (EXIT_FAILURE)\<close>, and \<open>No_fuel\<close> marks a
  bounded run of a loop that was not over.
\<close>

datatype fault = Assert_failed | Check_error | Null_deref | Bad_access | Bad_free
  | Out_of_bounds | Div_by_zero | Would_block | Bad_alloc | Undefined | Exit_failure | No_fuel

type_synonym 'a res = "fault + 'a"

definition bindE :: "'a res \<Rightarrow> ('a \<Rightarrow> 'b res) \<Rightarrow> 'b res" where
  "bindE m f = (case m of Inl e \<Rightarrow> Inl e | Inr x \<Rightarrow> f x)"

definition assertE :: "bool \<Rightarrow> unit res" where
  "assertE b = (if b then Inr () else Inl Assert_failed)"

text \<open>\<open>CHECK_ERROR(a)\<close> of \<open>stddefines.h\<close>: fails when its argument is true.\<close>

definition CHECK_ERROR :: "bool \<Rightarrow> unit res" where
  "CHECK_ERROR a = (if a then Inl Check_error else Inr ())"

lemma bindE_simps [simp]:
  "bindE (Inr x) f = f x"
  "bindE (Inl e) f = Inl e"
  by (simp_all add: bindE_def)

lemma bindE_assoc: "bindE (bindE m f) g = bindE m (\<lambda>x. bindE (f x) g)"
  by (simp add: bindE_def split: sum.split)

lemma bindE_Inr_conv: "bindE m f = Inr y \<longleftrightarrow> (\<exists>x. m = Inr x \<and> f x = Inr y)"
  by (simp add: bindE_def split: sum.split)

lemma bindE_cong [fundef_cong]:
  "m = m' \<Longrightarrow> (\<And>x. m' = Inr x \<Longrightarrow> f x = f' x) \<Longrightarrow> bindE m f = bindE m' f'"
  by (auto simp: bindE_def split: sum.split)

lemma assertE_True [simp]: "assertE True = Inr ()"
  by (simp add: assertE_def)

lemma assertE_False [simp]: "assertE False = Inl Assert_failed"
  by (simp add: assertE_def)

lemma assertE_Inr_conv [simp]: "assertE b = Inr u \<longleftrightarrow> b"
  by (simp add: assertE_def)

lemma CHECK_ERROR_simps [simp]:
  "CHECK_ERROR True = Inl Check_error"
  "CHECK_ERROR False = Inr ()"
  by (simp_all add: CHECK_ERROR_def)

lemma CHECK_ERROR_Inr_conv [simp]: "CHECK_ERROR b = Inr u \<longleftrightarrow> \<not> b"
  by (simp add: CHECK_ERROR_def)


text \<open>A loop over a list whose body may fault, and a list of results.\<close>

fun foldE :: "('s \<Rightarrow> 'v \<Rightarrow> 's res) \<Rightarrow> 's \<Rightarrow> 'v list \<Rightarrow> 's res" where
  "foldE step s [] = Inr s"
| "foldE step s (v # vs) = bindE (step s v) (\<lambda>s. foldE step s vs)"

fun mapE :: "('a \<Rightarrow> 'b res) \<Rightarrow> 'a list \<Rightarrow> 'b list res" where
  "mapE f [] = Inr []"
| "mapE f (x # xs) = bindE (f x) (\<lambda>y. bindE (mapE f xs) (\<lambda>ys. Inr (y # ys)))"

lemma foldE_append: "foldE step s (xs @ ys) = bindE (foldE step s xs) (\<lambda>s. foldE step s ys)"
  by (induction xs arbitrary: s) (simp_all add: bindE_assoc)

lemma foldE_upt:
  assumes "P 0 s" and "\<And>i s. i < n \<Longrightarrow> P i s \<Longrightarrow> \<exists>s'. step s i = Inr s' \<and> P (Suc i) s'"
  shows "\<exists>s'. foldE step s [0..<n] = Inr s' \<and> P n s'"
  using assms(2)
proof (induction n)
  case (Suc n)
  then obtain s1 where s1: "foldE step s [0..<n] = Inr s1" "P n s1" by (metis less_Suc_eq)
  obtain s2 where s2: "step s1 n = Inr s2" "P (Suc n) s2" using Suc.prems [of n s1] s1(2) by blast
  show ?case using s1(1) s2 by (simp add: foldE_append)
qed (simp add: assms(1))

lemma mapE_Inr: "(\<And>x. x \<in> set xs \<Longrightarrow> f x = Inr (g x)) \<Longrightarrow> mapE f xs = Inr (map g xs)"
  by (induction xs) simp_all

lemma mapE_Inl: "xs \<noteq> [] \<Longrightarrow> f (hd xs) = Inl e \<Longrightarrow> mapE f xs = Inl e"
  by (cases xs) simp_all

section \<open>C integers\<close>

text \<open>
  C's signed division and remainder truncate towards zero (\<open>sdiv\<close> and \<open>smod\<close> of the
  library) and trap on a zero divisor. A conversion to \<open>int\<close> keeps the low 32 bits in
  two's complement.
\<close>

definition c_div :: "int \<Rightarrow> int \<Rightarrow> int res" where
  "c_div a b = (if b = 0 then Inl Div_by_zero else Inr (a sdiv b))"

definition c_rem :: "int \<Rightarrow> int \<Rightarrow> int res" where
  "c_rem a b = (if b = 0 then Inl Div_by_zero else Inr (a smod b))"

definition to_int32 :: "int \<Rightarrow> int" where
  "to_int32 x = signed_take_bit 31 x"

lemma c_div_pos: "0 \<le> a \<Longrightarrow> 0 < b \<Longrightarrow> c_div a b = Inr (a div b)"
  by (cases "a = 0") (simp_all add: c_div_def signed_divide_int_def)

lemma c_rem_pos: "0 \<le> a \<Longrightarrow> 0 < b \<Longrightarrow> c_rem a b = Inr (a mod b)"
  by (cases "a = 0") (simp_all add: c_rem_def signed_modulo_int_def signed_divide_int_def minus_div_mult_eq_mod)

lemma to_int32_id: "- (2 ^ 31) \<le> x \<Longrightarrow> x < 2 ^ 31 \<Longrightarrow> to_int32 x = x"
  by (simp add: to_int32_def signed_take_bit_int_eq_self)


lemma int_div_less:
  fixes x :: int
  assumes "0 < c" and "x < c * k"
  shows "x div c < k"
proof (rule ccontr)
  assume "\<not> x div c < k"
  then have "c * k \<le> c * (x div c)" using assms(1) by simp
  also have "\<dots> \<le> x"
    using mult_div_mod_eq [of c x] pos_mod_sign [OF assms(1), of x] by linarith
  finally show False using assms(2) by simp
qed

lemma mod_index: "0 < n \<Longrightarrow> nat (r mod int n) < n \<and> int (nat (r mod int n)) = r mod int n"
  by (simp add: nat_less_iff)

lemma ex_offset:
  fixes n :: nat
  assumes "j < n"
  shows "\<exists>d < n. (h + d) mod n = j"
proof -
  have less: "h mod n < n" using assms by simp
  have "(h + (n - h mod n + j) mod n) mod n = (h mod n + (n - h mod n + j)) mod n" by (simp add: mod_simps)
  also have "h mod n + (n - h mod n + j) = n + j" using less by simp
  finally have "(h + (n - h mod n + j) mod n) mod n = j" using assms by simp
  then show ?thesis using assms by (intro exI [of _ "(n - h mod n + j) mod n"]) simp
qed

section \<open>Lists\<close>

lemma sorted_wrt_concat_upt:
  assumes "\<And>r. r < n \<Longrightarrow> sorted_wrt R (f r)"
    and "\<And>r q x y. r < q \<Longrightarrow> q < n \<Longrightarrow> x \<in> set (f r) \<Longrightarrow> y \<in> set (f q) \<Longrightarrow> R x y"
  shows "sorted_wrt R (concat (map f [0..<n]))"
  using assms by (induction n) (auto simp: sorted_wrt_append)

lemma nth_list_update_if:
  "i < length xs \<Longrightarrow> xs[i := x] ! j = (if i = j then x else xs ! j)"
  by simp

lemma mset_take_Cons_drop: "mset (take i xs @ x # drop i xs) = add_mset x (mset xs)"
proof -
  have "mset (take i xs) + mset (drop i xs) = mset xs"
    by (simp only: append_take_drop_id flip: mset_append)
  then show ?thesis by simp
qed

lemma concat_concat_map: "concat (concat (map f xs)) = concat (map (\<lambda>x. concat (f x)) xs)"
  by (induction xs) simp_all

lemma concat_update_mset:
  "i < length xss \<Longrightarrow> mset (concat (xss[i := ys])) + mset (xss ! i) = mset (concat xss) + mset ys"
proof (induction xss arbitrary: i)
  case (Cons zs xss)
  then show ?case
    by (cases i) (auto simp: ac_simps)
qed simp

text \<open>A C array read: the index is an \<open>int\<close>, and outside the array there is nothing to read.\<close>

definition arr_get :: "'a list \<Rightarrow> int \<Rightarrow> 'a res" where
  "arr_get xs i = (if 0 \<le> i \<and> i < int (length xs) then Inr (xs ! nat i) else Inl Out_of_bounds)"

definition arr_set :: "'a list \<Rightarrow> int \<Rightarrow> 'a \<Rightarrow> 'a list res" where
  "arr_set xs i x = (if 0 \<le> i \<and> i < int (length xs) then Inr (xs[nat i := x]) else Inl Out_of_bounds)"

lemma arr_get_nth [simp]: "i < length xs \<Longrightarrow> arr_get xs (int i) = Inr (xs ! i)"
  by (simp add: arr_get_def)

lemma arr_get_int: "0 \<le> i \<Longrightarrow> i < int (length xs) \<Longrightarrow> arr_get xs i = Inr (xs ! nat i)"
  by (simp add: arr_get_def)

lemma arr_set_nth [simp]: "i < length xs \<Longrightarrow> arr_set xs (int i) x = Inr (xs[i := x])"
  by (simp add: arr_set_def)

lemma sdiv2_between:
  fixes a b :: int
  assumes "a + 1 < b"
  shows "a < (b + a) sdiv 2" "(b + a) sdiv 2 < b"
  using assms by (cases "0 \<le> b + a"; simp add: signed_divide_int_def sgn_if; linarith)+

lemma sorted_wrt_take_Cons_drop:
  assumes "sorted_wrt R xs" and "i \<le> length xs"
    and "\<And>j. j < i \<Longrightarrow> R (xs ! j) x" and "\<And>j. i \<le> j \<Longrightarrow> j < length xs \<Longrightarrow> R x (xs ! j)"
  shows "sorted_wrt R (take i xs @ x # drop i xs)"
proof -
  have "sorted_wrt R (take i xs @ drop i xs)" using assms(1) by simp
  then have "sorted_wrt R (take i xs)" "sorted_wrt R (drop i xs)"
    "\<forall>y \<in> set (take i xs). \<forall>z \<in> set (drop i xs). R y z"
    unfolding sorted_wrt_append by blast+
  moreover have "\<forall>y \<in> set (take i xs). R y x"
    using assms(2,3) by (auto simp: in_set_conv_nth)
  moreover have "\<forall>y \<in> set (drop i xs). R x y"
    using assms(2,4) by (auto simp: in_set_conv_nth)
  ultimately show ?thesis by (simp add: sorted_wrt_append)
qed

end
