(* ===== verification/DList.thy ===== *)
theory DList
  imports Prelude
begin

text \<open>
  \<open>src/memory.c\<close> and \<open>src/list.h\<close>: the allocator wrappers and the circular doubly linked
  list with a dummy node, over an explicit heap. An address is a natural number, 0 is NULL.
  The heap knows the live objects (base and size), the live cells, and the two link fields of
  the \<open>list_ent\<close> at each address. Every access checks that its cell is live, so following a
  null or a dangling link is a fault of the model and not an arbitrary value.
  The last sections give the abstraction: \<open>dll h l xs\<close> says that the list at \<open>l\<close> holds
  exactly the elements \<open>xs\<close> in order, and each operation is shown to act on \<open>xs\<close>.
\<close>

type_synonym addr = nat

section \<open>The heap and the allocator\<close>

record heap =
  objs :: "addr \<Rightarrow> nat option"
  live :: "addr \<Rightarrow> bool"
  brk :: addr
  mem_limit :: addr
  li_next :: "addr \<Rightarrow> addr"
  li_prev :: "addr \<Rightarrow> addr"

text \<open>
  The C library's \<open>malloc\<close> hands out fresh memory or NULL when none is left; here it takes the
  next free addresses up to \<open>mem_limit\<close>. \<open>mem_malloc\<close> of \<open>memory.c\<close> asserts the result.
\<close>

definition malloc :: "nat \<Rightarrow> 'a heap_scheme \<Rightarrow> addr \<times> 'a heap_scheme" where
  "malloc n h =
     (if brk h + n \<le> mem_limit h
      then (brk h, h\<lparr>objs := (objs h)(brk h := Some n),
                     live := (\<lambda>p. live h p \<or> brk h \<le> p \<and> p < brk h + n),
                     brk := brk h + n\<rparr>)
      else (0, h))"

definition mem_malloc :: "nat \<Rightarrow> 'a heap_scheme \<Rightarrow> (addr \<times> 'a heap_scheme) res" where
  "mem_malloc n h =
     (let (temp, h') = malloc n h in bindE (assertE (temp \<noteq> 0)) (\<lambda>_. Inr (temp, h')))"

definition mem_free :: "addr \<Rightarrow> 'a heap_scheme \<Rightarrow> 'a heap_scheme res" where
  "mem_free p h =
     (if p = 0 then Inr h
      else case objs h p of
        None \<Rightarrow> Inl Bad_free
      | Some n \<Rightarrow> Inr (h\<lparr>objs := (objs h)(p := None),
                         live := (\<lambda>q. live h q \<and> \<not> (p \<le> q \<and> q < p + n))\<rparr>))"

section \<open>Link fields\<close>

definition rd_next :: "'a heap_scheme \<Rightarrow> addr \<Rightarrow> addr res" where
  "rd_next h p = (if p = 0 then Inl Null_deref else if live h p then Inr (li_next h p) else Inl Bad_access)"

definition rd_prev :: "'a heap_scheme \<Rightarrow> addr \<Rightarrow> addr res" where
  "rd_prev h p = (if p = 0 then Inl Null_deref else if live h p then Inr (li_prev h p) else Inl Bad_access)"

definition wr_next :: "addr \<Rightarrow> addr \<Rightarrow> 'a heap_scheme \<Rightarrow> 'a heap_scheme res" where
  "wr_next p v h =
     (if p = 0 then Inl Null_deref
      else if live h p then Inr (h\<lparr>li_next := (li_next h)(p := v)\<rparr>) else Inl Bad_access)"

definition wr_prev :: "addr \<Rightarrow> addr \<Rightarrow> 'a heap_scheme \<Rightarrow> 'a heap_scheme res" where
  "wr_prev p v h =
     (if p = 0 then Inl Null_deref
      else if live h p then Inr (h\<lparr>li_prev := (li_prev h)(p := v)\<rparr>) else Inl Bad_access)"

section \<open>The operations of \<open>list.h\<close>\<close>

definition list_init :: "addr \<Rightarrow> 'a heap_scheme \<Rightarrow> 'a heap_scheme res" where
  "list_init l h = bindE (wr_next l l h) (\<lambda>h. wr_prev l l h)"

definition list_ent_init :: "addr \<Rightarrow> 'a heap_scheme \<Rightarrow> 'a heap_scheme res" where
  "list_ent_init li h = bindE (wr_next li 0 h) (\<lambda>h. wr_prev li 0 h)"

definition list_peek_head :: "addr \<Rightarrow> 'a heap_scheme \<Rightarrow> addr res" where
  "list_peek_head l h = bindE (rd_next h l) (\<lambda>n. Inr (if l \<noteq> n then n else 0))"

definition list_peek_tail :: "addr \<Rightarrow> 'a heap_scheme \<Rightarrow> addr res" where
  "list_peek_tail l h = bindE (rd_prev h l) (\<lambda>p. Inr (if l \<noteq> p then p else 0))"

definition list_is_empty :: "addr \<Rightarrow> 'a heap_scheme \<Rightarrow> bool res" where
  "list_is_empty l h = bindE (rd_next h l) (\<lambda>n. Inr (l = n))"

definition list_insert_after :: "addr \<Rightarrow> addr \<Rightarrow> 'a heap_scheme \<Rightarrow> 'a heap_scheme res" where
  "list_insert_after chain toadd h =
     bindE (wr_prev toadd chain h) (\<lambda>h.
     bindE (rd_next h chain) (\<lambda>cn.
     bindE (wr_next toadd cn h) (\<lambda>h.
     bindE (rd_next h chain) (\<lambda>cn.
     bindE (wr_prev cn toadd h) (\<lambda>h.
     wr_next chain toadd h)))))"

definition list_insert_before :: "addr \<Rightarrow> addr \<Rightarrow> 'a heap_scheme \<Rightarrow> 'a heap_scheme res" where
  "list_insert_before chain toadd h =
     bindE (wr_next toadd chain h) (\<lambda>h.
     bindE (rd_prev h chain) (\<lambda>cp.
     bindE (wr_prev toadd cp h) (\<lambda>h.
     bindE (rd_prev h chain) (\<lambda>cp.
     bindE (wr_next cp toadd h) (\<lambda>h.
     wr_prev chain toadd h)))))"

definition list_add_head :: "addr \<Rightarrow> addr \<Rightarrow> 'a heap_scheme \<Rightarrow> 'a heap_scheme res" where
  "list_add_head l toadd h =
     (let ltop = l in
     bindE (wr_prev toadd ltop h) (\<lambda>h.
     bindE (rd_next h ltop) (\<lambda>tn.
     bindE (wr_next toadd tn h) (\<lambda>h.
     bindE (rd_next h ltop) (\<lambda>tn.
     bindE (wr_prev tn toadd h) (\<lambda>h.
     wr_next ltop toadd h))))))"

definition list_add_tail :: "addr \<Rightarrow> addr \<Rightarrow> 'a heap_scheme \<Rightarrow> 'a heap_scheme res" where
  "list_add_tail l toadd h =
     (let ltop = l in
     bindE (wr_next toadd ltop h) (\<lambda>h.
     bindE (rd_prev h ltop) (\<lambda>tp.
     bindE (wr_prev toadd tp h) (\<lambda>h.
     bindE (rd_prev h ltop) (\<lambda>tp.
     bindE (wr_next tp toadd h) (\<lambda>h.
     wr_prev ltop toadd h))))))"

definition list_remove :: "addr \<Rightarrow> 'a heap_scheme \<Rightarrow> 'a heap_scheme res" where
  "list_remove elem h =
     bindE (rd_next h elem) (\<lambda>n.
     bindE (rd_prev h elem) (\<lambda>p.
     bindE (wr_prev n p h) (\<lambda>h.
     bindE (rd_prev h elem) (\<lambda>p.
     bindE (rd_next h elem) (\<lambda>n.
     bindE (wr_next p n h) (\<lambda>h.
     bindE (wr_prev elem 0 h) (\<lambda>h.
     wr_next elem 0 h)))))))"

text \<open>\<open>list_remove_head\<close> and \<open>list_remove_tail\<close> return the element, NULL (0) if there is none.\<close>

definition list_remove_head :: "addr \<Rightarrow> 'a heap_scheme \<Rightarrow> (addr \<times> 'a heap_scheme) res" where
  "list_remove_head l h =
     bindE (rd_next h l) (\<lambda>n.
     if n \<noteq> l then
       (let head = n in bindE (list_remove head h) (\<lambda>h. Inr (head, h)))
     else Inr (0, h))"

definition list_remove_tail :: "addr \<Rightarrow> 'a heap_scheme \<Rightarrow> (addr \<times> 'a heap_scheme) res" where
  "list_remove_tail l h =
     bindE (rd_prev h l) (\<lambda>p.
     if p \<noteq> l then
       (let tail = p in
        bindE (rd_prev h l) (\<lambda>p.
        bindE (list_remove p h) (\<lambda>h. Inr (tail, h))))
     else Inr (0, h))"

definition list_clear :: "addr \<Rightarrow> 'a heap_scheme \<Rightarrow> 'a heap_scheme res" where
  "list_clear l h = bindE (wr_next l l h) (\<lambda>h. wr_prev l l h)"


section \<open>Abstraction: the elements of a list\<close>

text \<open>
  \<open>link h p xs q\<close>: following the links from \<open>p\<close> visits \<open>xs\<close> and arrives at \<open>q\<close>, and the
  back links agree. A list is a ring through its dummy node.
\<close>

fun link :: "'a heap_scheme \<Rightarrow> addr \<Rightarrow> addr list \<Rightarrow> addr \<Rightarrow> bool" where
  "link h p [] q = (li_next h p = q \<and> li_prev h q = p)"
| "link h p (x # xs) q = (li_next h p = x \<and> li_prev h x = p \<and> link h x xs q)"

definition dll :: "'a heap_scheme \<Rightarrow> addr \<Rightarrow> addr list \<Rightarrow> bool" where
  "dll h l xs \<longleftrightarrow> link h l xs l \<and> distinct (l # xs) \<and> (\<forall>a \<in> set (l # xs). a \<noteq> 0 \<and> live h a)"

text \<open>Only the links of cells in \<open>A\<close> differ between the two heaps.\<close>

definition links_only :: "addr set \<Rightarrow> 'a heap_scheme \<Rightarrow> 'a heap_scheme \<Rightarrow> bool" where
  "links_only A h h' \<longleftrightarrow>
     (\<exists>n p. h' = h\<lparr>li_next := n, li_prev := p\<rparr> \<and> (\<forall>a. a \<notin> A \<longrightarrow> n a = li_next h a \<and> p a = li_prev h a))"

lemma links_only_refl [simp, intro]: "links_only A h h"
  unfolding links_only_def by (rule exI [of _ "li_next h"], rule exI [of _ "li_prev h"]) simp

lemma links_only_trans [trans]:
  "links_only A h h' \<Longrightarrow> links_only A h' h'' \<Longrightarrow> links_only A h h''"
  unfolding links_only_def by force

lemma links_only_mono: "links_only A h h' \<Longrightarrow> A \<subseteq> B \<Longrightarrow> links_only B h h'"
  unfolding links_only_def by blast

lemma links_only_sel:
  assumes "links_only A h h'"
  shows "objs h' = objs h" "live h' = live h" "brk h' = brk h" "mem_limit h' = mem_limit h"
    "heap.more h' = heap.more h"
    "a \<notin> A \<Longrightarrow> li_next h' a = li_next h a" "a \<notin> A \<Longrightarrow> li_prev h' a = li_prev h a"
  using assms unfolding links_only_def by auto

lemma link_append: "link h p (xs @ y # ys) q \<longleftrightarrow> link h p xs y \<and> link h y ys q"
  by (induction xs arbitrary: p) auto

lemma link_cong:
  assumes "\<And>a. a \<in> insert p (set xs) \<Longrightarrow> li_next h' a = li_next h a"
    and "\<And>a. a \<in> insert q (set xs) \<Longrightarrow> li_prev h' a = li_prev h a"
  shows "link h' p xs q = link h p xs q"
  using assms by (induction xs arbitrary: p) auto

lemma dll_frame:
  assumes "dll h l xs" and "links_only A h h'" and "A \<inter> set (l # xs) = {}"
  shows "dll h' l xs"
proof -
  have "link h' l xs l = link h l xs l"
    using assms(3) by (intro link_cong) (auto intro!: links_only_sel(6,7) [OF assms(2)])
  then show ?thesis
    using assms(1) links_only_sel(2) [OF assms(2)] by (simp add: dll_def)
qed

lemma dll_nilI: "l \<noteq> 0 \<Longrightarrow> live h l \<Longrightarrow> li_next h l = l \<Longrightarrow> li_prev h l = l \<Longrightarrow> dll h l []"
  by (simp add: dll_def)

lemma dll_next_in: "dll h l xs \<Longrightarrow> li_next h l = hd (xs @ [l])"
  by (cases xs) (auto simp: dll_def)

lemma dll_prev_in: "dll h l xs \<Longrightarrow> li_prev h l = last (l # xs)"
  by (cases xs rule: rev_cases) (auto simp: dll_def link_append)

lemma dll_unique:
  assumes "dll h l xs" and "dll h l ys"
  shows "xs = ys"
proof -
  have "link h p xs l \<Longrightarrow> link h p ys l \<Longrightarrow> l \<notin> set xs \<Longrightarrow> l \<notin> set ys \<Longrightarrow> xs = ys" for p
  proof (induction xs arbitrary: p ys)
    case Nil
    then show ?case by (cases ys) auto
  next
    case (Cons x xs)
    then show ?case by (cases ys) auto
  qed
  with assms show ?thesis by (auto simp: dll_def)
qed

section \<open>What each operation does to the elements\<close>

definition insert_between :: "addr \<Rightarrow> addr \<Rightarrow> addr \<Rightarrow> 'a heap_scheme \<Rightarrow> 'a heap_scheme" where
  "insert_between p a q h =
     h\<lparr>li_next := (li_next h)(p := a, a := q), li_prev := (li_prev h)(q := a, a := p)\<rparr>"

lemma links_onlyI:
  "(\<And>c. c \<notin> A \<Longrightarrow> n c = li_next h c) \<Longrightarrow> (\<And>c. c \<notin> A \<Longrightarrow> b c = li_prev h c) \<Longrightarrow>
   links_only A h (h\<lparr>li_next := n, li_prev := b\<rparr>)"
  unfolding links_only_def by blast

lemma links_only_insert_between: "links_only {p, a, q} h (insert_between p a q h)"
  unfolding insert_between_def by (rule links_onlyI) auto

lemma link_insert_off:
  assumes "u \<notin> insert p (set xs)" "a \<notin> insert p (set xs)" "v \<notin> insert q (set xs)" "a \<notin> insert q (set xs)"
  shows "link (insert_between u a v h) p xs q = link h p xs q"
  using assms by (intro link_cong) (auto simp: insert_between_def)

lemma dll_insert_between:
  assumes "dll h l (xs @ ys)" and a: "a \<notin> set (l # xs @ ys)" "a \<noteq> 0" "live h a"
  shows "dll (insert_between (last (l # xs)) a (hd (ys @ [l])) h) l (xs @ a # ys)"
proof -
  let ?h = "insert_between (last (l # xs)) a (hd (ys @ [l])) h"
  have d: "distinct (l # xs @ ys)" and lk: "link h l (xs @ ys) l"
    using assms(1) by (simp_all add: dll_def)
  have new: "li_next ?h (last (l # xs)) = a" "li_prev ?h a = last (l # xs)"
    "li_next ?h a = hd (ys @ [l])" "li_prev ?h (hd (ys @ [l])) = a"
    using a by (cases ys; auto simp: insert_between_def)+
  have pre: "link ?h l xs a"
  proof (cases xs rule: rev_cases)
    case Nil
    then show ?thesis using new by simp
  next
    case (snoc us u)
    have "link h l us u" using lk snoc by (simp add: link_append)
    then have "link ?h l us u"
      using d a snoc by (subst link_insert_off) (cases ys; auto)+
    then show ?thesis using new snoc by (simp add: link_append)
  qed
  moreover have "link ?h a ys l"
  proof (cases ys)
    case Nil
    then show ?thesis using new by simp
  next
    case (Cons v vs)
    have "link h v vs l" using lk Cons by (simp add: link_append)
    then have "link ?h v vs l"
      using d a Cons by (cases xs rule: rev_cases) (auto simp: link_insert_off)
    then show ?thesis using new Cons by simp
  qed
  ultimately have "link ?h l (xs @ a # ys) l"
    by (simp add: link_append)
  then show ?thesis
    using assms by (auto simp: dll_def insert_between_def)
qed


definition remove_between :: "addr \<Rightarrow> addr \<Rightarrow> addr \<Rightarrow> 'a heap_scheme \<Rightarrow> 'a heap_scheme" where
  "remove_between p a q h =
     h\<lparr>li_next := (li_next h)(p := q, a := 0), li_prev := (li_prev h)(q := p, a := 0)\<rparr>"

lemma links_only_remove_between: "links_only {p, a, q} h (remove_between p a q h)"
  unfolding remove_between_def by (rule links_onlyI) auto

lemma link_remove_off:
  assumes "u \<notin> insert p (set xs)" "a \<notin> insert p (set xs)" "v \<notin> insert q (set xs)" "a \<notin> insert q (set xs)"
  shows "link (remove_between u a v h) p xs q = link h p xs q"
  using assms by (intro link_cong) (auto simp: remove_between_def)

lemma dll_remove_between:
  assumes "dll h l (xs @ a # ys)"
  shows "dll (remove_between (last (l # xs)) a (hd (ys @ [l])) h) l (xs @ ys)"
proof -
  let ?h = "remove_between (last (l # xs)) a (hd (ys @ [l])) h"
  have d: "distinct (l # xs @ a # ys)" and lk: "link h l xs a" "link h a ys l"
    using assms by (simp_all add: dll_def link_append)
  have new: "li_next ?h (last (l # xs)) = hd (ys @ [l])" "li_prev ?h (hd (ys @ [l])) = last (l # xs)"
    using d by (cases xs rule: rev_cases; cases ys; auto simp: remove_between_def)+
  have pre: "link ?h l us u" if "xs = us @ [u]" for us u
  proof -
    have "link h l us u" using lk that by (simp add: link_append)
    then show ?thesis using d that by (cases ys) (auto simp: link_remove_off)
  qed
  have post: "link ?h v vs l" if "ys = v # vs" for v vs
  proof -
    have "link h v vs l" using lk that by simp
    then show ?thesis using d that by (cases xs rule: rev_cases) (auto simp: link_remove_off)
  qed
  have "link ?h l (xs @ ys) l"
    using new pre post by (cases xs rule: rev_cases; cases ys) (auto simp: link_append)
  then show ?thesis
    using assms by (auto simp: dll_def remove_between_def)
qed

subsection \<open>The operations as updates between two neighbours\<close>

named_theorems acc_simps \<open>reads and writes of a live cell\<close>

lemma rd_ok [acc_simps]:
  "p \<noteq> 0 \<Longrightarrow> live h p \<Longrightarrow> rd_next h p = Inr (li_next h p)"
  "p \<noteq> 0 \<Longrightarrow> live h p \<Longrightarrow> rd_prev h p = Inr (li_prev h p)"
  by (simp_all add: rd_next_def rd_prev_def)

lemma wr_ok [acc_simps]:
  "p \<noteq> 0 \<Longrightarrow> live h p \<Longrightarrow> wr_next p v h = Inr (h\<lparr>li_next := (li_next h)(p := v)\<rparr>)"
  "p \<noteq> 0 \<Longrightarrow> live h p \<Longrightarrow> wr_prev p v h = Inr (h\<lparr>li_prev := (li_prev h)(p := v)\<rparr>)"
  by (simp_all add: wr_next_def wr_prev_def)

lemma acc_null [acc_simps]:
  "rd_next h 0 = Inl Null_deref" "rd_prev h 0 = Inl Null_deref"
  "wr_next 0 v h = Inl Null_deref" "wr_prev 0 v h = Inl Null_deref"
  by (simp_all add: rd_next_def rd_prev_def wr_next_def wr_prev_def)

lemma list_add_head_insert_after: "list_add_head l a h = list_insert_after l a h"
  by (simp add: list_add_head_def list_insert_after_def)

lemma list_add_tail_insert_before: "list_add_tail l a h = list_insert_before l a h"
  by (simp add: list_add_tail_def list_insert_before_def)

lemma list_insert_after_eq:
  assumes "a \<noteq> 0" "live h a" "c \<noteq> 0" "live h c" "li_next h c \<noteq> 0" "live h (li_next h c)"
    and "a \<noteq> c" "a \<noteq> li_next h c"
  shows "list_insert_after c a h = Inr (insert_between c a (li_next h c) h)"
  using assms
  by (auto simp: list_insert_after_def insert_between_def acc_simps fun_eq_iff intro!: heap.equality)

lemma list_insert_before_eq:
  assumes "a \<noteq> 0" "live h a" "c \<noteq> 0" "live h c" "li_prev h c \<noteq> 0" "live h (li_prev h c)"
    and "a \<noteq> c" "a \<noteq> li_prev h c"
  shows "list_insert_before c a h = Inr (insert_between (li_prev h c) a c h)"
  using assms
  by (auto simp: list_insert_before_def insert_between_def acc_simps fun_eq_iff intro!: heap.equality)

lemma list_remove_eq:
  assumes "a \<noteq> 0" "live h a" "li_prev h a \<noteq> 0" "live h (li_prev h a)"
    and "li_next h a \<noteq> 0" "live h (li_next h a)" "li_next h a \<noteq> a" "li_prev h a \<noteq> a"
  shows "list_remove a h = Inr (remove_between (li_prev h a) a (li_next h a) h)"
  using assms
  by (auto simp: list_remove_def remove_between_def acc_simps fun_eq_iff intro!: heap.equality)


subsection \<open>The operations on the element list\<close>

lemma dll_ring:
  assumes "dll h l xs"
  shows "l \<noteq> 0" "live h l" "a \<in> set xs \<Longrightarrow> a \<noteq> 0" "a \<in> set xs \<Longrightarrow> live h a"
    "a \<in> set xs \<Longrightarrow> a \<noteq> l"
  using assms by (auto simp: dll_def)

lemma dll_neighbours:
  assumes "dll h l (xs @ a # ys)"
  shows "li_prev h a = last (l # xs)" "li_next h a = hd (ys @ [l])"
  using assms
  by (cases xs rule: rev_cases; cases ys; auto simp: dll_def link_append)+

lemma hd_in_ring: "hd (ys @ [l]) \<in> set (l # ys)"
  by (cases ys) auto

lemma last_in_ring: "last (l # xs) \<in> set (l # xs)"
  by (rule last_in_set) simp

lemma dll_insert_after:
  assumes "dll h l (xs @ ys)" and "c = last (l # xs)" and a: "a \<notin> set (l # xs @ ys)" "a \<noteq> 0" "live h a"
  shows "\<exists>h'. list_insert_after c a h = Inr h' \<and> dll h' l (xs @ a # ys) \<and>
    links_only (set (l # a # xs @ ys)) h h'"
proof -
  have n: "li_next h c = hd (ys @ [l])"
    using assms(1,2) dll_next_in [of h l ys] dll_neighbours(2) [of h l _ _ ys]
    by (cases xs rule: rev_cases) auto
  have c: "c \<in> set (l # xs)" unfolding assms(2) by (rule last_in_ring)
  have q: "hd (ys @ [l]) \<in> set (l # ys)" by (rule hd_in_ring)
  have "list_insert_after c a h = Inr (insert_between c a (hd (ys @ [l])) h)"
    using assms c q n dll_ring [OF assms(1)]
    by (subst list_insert_after_eq) (auto simp: n)
  moreover have "links_only (set (l # a # xs @ ys)) h (insert_between c a (hd (ys @ [l])) h)"
    using c q by (intro links_only_mono [OF links_only_insert_between]) auto
  ultimately show ?thesis
    using dll_insert_between [OF assms(1) a] assms(2) by auto
qed

lemma dll_insert_before:
  assumes "dll h l (xs @ ys)" and "c = hd (ys @ [l])" and a: "a \<notin> set (l # xs @ ys)" "a \<noteq> 0" "live h a"
  shows "\<exists>h'. list_insert_before c a h = Inr h' \<and> dll h' l (xs @ a # ys) \<and>
    links_only (set (l # a # xs @ ys)) h h'"
proof -
  have n: "li_prev h c = last (l # xs)"
    using assms(1,2) dll_prev_in [of h l xs] dll_neighbours(1) [of h l xs]
    by (cases ys) auto
  have q: "c \<in> set (l # ys)" unfolding assms(2) by (rule hd_in_ring)
  have c: "last (l # xs) \<in> set (l # xs)" by (rule last_in_ring)
  have "list_insert_before c a h = Inr (insert_between (last (l # xs)) a c h)"
    using assms c q n dll_ring [OF assms(1)]
    by (subst list_insert_before_eq) (auto simp: n)
  moreover have "links_only (set (l # a # xs @ ys)) h (insert_between (last (l # xs)) a c h)"
    using c q by (intro links_only_mono [OF links_only_insert_between]) auto
  ultimately show ?thesis
    using dll_insert_between [OF assms(1) a] assms(2) by auto
qed

lemma dll_add_head:
  assumes "dll h l xs" and "a \<notin> set (l # xs)" "a \<noteq> 0" "live h a"
  shows "\<exists>h'. list_add_head l a h = Inr h' \<and> dll h' l (a # xs) \<and> links_only (set (l # a # xs)) h h'"
  using dll_insert_after [of h l "[]" xs l a] assms by (simp add: list_add_head_insert_after)

lemma dll_add_tail:
  assumes "dll h l xs" and "a \<notin> set (l # xs)" "a \<noteq> 0" "live h a"
  shows "\<exists>h'. list_add_tail l a h = Inr h' \<and> dll h' l (xs @ [a]) \<and> links_only (set (l # a # xs)) h h'"
  using dll_insert_before [of h l xs "[]" l a] assms by (simp add: list_add_tail_insert_before)

lemma dll_remove:
  assumes "dll h l (xs @ a # ys)"
  shows "\<exists>h'. list_remove a h = Inr h' \<and> dll h' l (xs @ ys) \<and> li_next h' a = 0 \<and> li_prev h' a = 0 \<and>
    links_only (set (l # xs @ a # ys)) h h'"
proof -
  let ?p = "last (l # xs)" and ?q = "hd (ys @ [l])"
  have pq: "?p \<in> set (l # xs)" "?q \<in> set (l # ys)" by (rule last_in_ring, rule hd_in_ring)
  have ap: "a \<noteq> ?p" "a \<noteq> ?q" using assms pq by (auto simp: dll_def)
  have "list_remove a h = Inr (remove_between ?p a ?q h)"
    using dll_neighbours [OF assms] dll_ring [OF assms] pq ap
    by (subst list_remove_eq) auto
  moreover have "links_only (set (l # xs @ a # ys)) h (remove_between ?p a ?q h)"
    using pq by (intro links_only_mono [OF links_only_remove_between]) auto
  ultimately show ?thesis
    using dll_remove_between [OF assms] ap by (simp add: remove_between_def)
qed


lemma dll_remove_head_Nil:
  assumes "dll h l []"
  shows "list_remove_head l h = Inr (0, h)"
  using assms dll_next_in [OF assms] by (simp add: list_remove_head_def acc_simps dll_def)

lemma dll_remove_head_Cons:
  assumes "dll h l (x # xs)"
  shows "\<exists>h'. list_remove_head l h = Inr (x, h') \<and> dll h' l xs \<and> li_next h' x = 0 \<and>
    li_prev h' x = 0 \<and> links_only (set (l # x # xs)) h h'"
proof -
  from dll_remove [of h l "[]" x xs] assms obtain h'
    where h': "list_remove x h = Inr h'" "dll h' l xs" "li_next h' x = 0" "li_prev h' x = 0"
      "links_only (set (l # x # xs)) h h'" by auto
  have "li_next h l = x" "l \<noteq> x" using assms by (auto simp: dll_def)
  with h' assms show ?thesis by (simp add: list_remove_head_def acc_simps dll_def)
qed

lemma dll_remove_tail_Nil:
  assumes "dll h l []"
  shows "list_remove_tail l h = Inr (0, h)"
  using assms dll_prev_in [OF assms] by (simp add: list_remove_tail_def acc_simps dll_def)

lemma dll_remove_tail_snoc:
  assumes "dll h l (xs @ [x])"
  shows "\<exists>h'. list_remove_tail l h = Inr (x, h') \<and> dll h' l xs \<and> li_next h' x = 0 \<and>
    li_prev h' x = 0 \<and> links_only (set (l # x # xs)) h h'"
proof -
  from dll_remove [of h l xs x "[]"] assms obtain h'
    where h': "list_remove x h = Inr h'" "dll h' l xs" "li_next h' x = 0" "li_prev h' x = 0"
      "links_only (set (l # x # xs)) h h'" by (auto simp: insert_commute)
  have "li_prev h l = x" "l \<noteq> x" using dll_prev_in [OF assms] assms by (auto simp: dll_def)
  with h' assms show ?thesis by (simp add: list_remove_tail_def acc_simps dll_def)
qed

lemma dll_init:
  assumes "l \<noteq> 0" "live h l"
  shows "\<exists>h'. list_init l h = Inr h' \<and> dll h' l [] \<and> links_only {l} h h'"
  using assms by (auto simp: list_init_def acc_simps dll_def intro!: links_onlyI split: if_splits)

lemma dll_clear:
  assumes "dll h l xs"
  shows "\<exists>h'. list_clear l h = Inr h' \<and> dll h' l [] \<and> links_only {l} h h'"
  using assms by (auto simp: list_clear_def acc_simps dll_def intro!: links_onlyI split: if_splits)

lemma dll_is_empty:
  assumes "dll h l xs"
  shows "list_is_empty l h = Inr (xs = [])"
  using assms by (cases xs) (auto simp: list_is_empty_def acc_simps dll_def)

lemma dll_peek_head:
  assumes "dll h l xs"
  shows "list_peek_head l h = Inr (case xs of [] \<Rightarrow> 0 | x # _ \<Rightarrow> x)"
  using assms by (cases xs) (auto simp: list_peek_head_def acc_simps dll_def)

lemma dll_peek_tail:
  assumes "dll h l xs"
  shows "list_peek_tail l h = Inr (if xs = [] then 0 else last xs)"
  using assms dll_prev_in [OF assms]
  by (cases xs rule: rev_cases) (auto simp: list_peek_tail_def acc_simps dll_def)

text \<open>An element that was removed has null links, so removing it again is a null dereference.\<close>

lemma list_remove_twice:
  assumes "a \<noteq> 0" "live h a" "li_next h a = 0"
  shows "list_remove a h = Inl Null_deref"
  using assms by (cases "li_prev h a = 0 \<or> live h (li_prev h a)") (auto simp: list_remove_def acc_simps rd_prev_def)

section \<open>The allocator's invariant\<close>

text \<open>
  Live objects lie below \<open>brk\<close>, are pairwise disjoint and their cells are live. A new object
  is disjoint from every old one, and freeing an object kills no other object's cells.
\<close>

definition cells :: "addr \<Rightarrow> nat \<Rightarrow> addr set" where
  "cells b n = {b ..< b + n}"

definition heap_ok :: "'a heap_scheme \<Rightarrow> bool" where
  "heap_ok h \<longleftrightarrow> 0 < brk h \<and>
     (\<forall>b n. objs h b = Some n \<longrightarrow> 0 < n \<and> 0 < b \<and> b + n \<le> brk h \<and> (\<forall>a \<in> cells b n. live h a)) \<and>
     (\<forall>b n c m. objs h b = Some n \<longrightarrow> objs h c = Some m \<longrightarrow> b \<noteq> c \<longrightarrow> cells b n \<inter> cells c m = {})"

lemma heap_okD:
  assumes "heap_ok h"
  shows "0 < brk h" "objs h b = Some n \<Longrightarrow> 0 < n \<and> 0 < b" "objs h b = Some n \<Longrightarrow> b + n \<le> brk h"
    "objs h b = Some n \<Longrightarrow> a \<in> cells b n \<Longrightarrow> live h a"
    "objs h b = Some n \<Longrightarrow> objs h c = Some m \<Longrightarrow> b \<noteq> c \<Longrightarrow> cells b n \<inter> cells c m = {}"
  using assms unfolding heap_ok_def by blast+

lemma mem_malloc_ok:
  assumes "brk h + n \<le> mem_limit h" and "heap_ok h"
  shows "mem_malloc n h =
    Inr (brk h, h\<lparr>objs := (objs h)(brk h := Some n),
                  live := (\<lambda>p. live h p \<or> brk h \<le> p \<and> p < brk h + n), brk := brk h + n\<rparr>)"
  using assms by (simp add: mem_malloc_def malloc_def heap_ok_def)

lemma mem_malloc_exhausted: "mem_limit h < brk h + n \<Longrightarrow> mem_malloc n h = Inl Assert_failed"
  by (simp add: mem_malloc_def malloc_def)

lemma heap_ok_fresh:
  assumes "heap_ok h" and "brk h \<le> b"
  shows "objs h b = None"
  using assms heap_okD(2,3) [OF assms(1), of b] by (cases "objs h b") force+

lemma heap_ok_malloc:
  assumes "heap_ok h" and "mem_malloc n h = Inr (a, h')" and "0 < n"
  shows "heap_ok h'" "a = brk h" "objs h a = None" "objs h' = (objs h)(a := Some n)"
    "brk h' = brk h + n" "mem_limit h' = mem_limit h" "live h' p \<longleftrightarrow> live h p \<or> p \<in> cells a n"
    "li_next h' = li_next h" "li_prev h' = li_prev h" "heap.more h' = heap.more h" "a \<noteq> 0"
proof -
  have room: "brk h + n \<le> mem_limit h"
    using assms(2) mem_malloc_exhausted [of h n] by (cases "brk h + n \<le> mem_limit h") auto
  note eq = mem_malloc_ok [OF room assms(1)] assms(2)
  show a: "a = brk h" and objs': "objs h' = (objs h)(a := Some n)"
    and "brk h' = brk h + n" "mem_limit h' = mem_limit h" "live h' p \<longleftrightarrow> live h p \<or> p \<in> cells a n"
    "li_next h' = li_next h" "li_prev h' = li_prev h" "heap.more h' = heap.more h"
    using eq by (auto simp: cells_def)
  show "objs h a = None" using heap_ok_fresh [OF assms(1)] a by simp
  show "a \<noteq> 0" using a heap_okD(1) [OF assms(1)] by simp
  have dis: "cells b m \<inter> cells (brk h) n = {}" if "objs h b = Some m" for b m
    using heap_okD(3) [OF assms(1) that] by (auto simp: cells_def)
  have lv: "live h' c \<longleftrightarrow> live h c \<or> c \<in> cells (brk h) n" for c
    using eq by (auto simp: cells_def)
  show "heap_ok h'"
    unfolding heap_ok_def
  proof (intro conjI allI impI ballI)
    show "0 < brk h'" using eq heap_okD(1) [OF assms(1)] by auto
  next
    fix b m assume b: "objs h' b = Some m"
    then have b': "b = brk h \<and> m = n \<or> objs h b = Some m" using objs' a by (auto split: if_splits)
    then show "0 < m" "0 < b" "b + m \<le> brk h'"
      using assms(3) heap_okD(1-3) [OF assms(1)] eq by force+
    show "live h' c" if "c \<in> cells b m" for c
      using that b' heap_okD(4) [OF assms(1)] lv by auto
  next
    fix b m c k assume "objs h' b = Some m" "objs h' c = Some k" "b \<noteq> c"
    then show "cells b m \<inter> cells c k = {}"
      using dis heap_okD(5) [OF assms(1)] objs' a by (auto split: if_splits)
  qed
qed

lemma heap_ok_free:
  assumes "heap_ok h" and "objs h a = Some n"
  shows "\<exists>h'. mem_free a h = Inr h' \<and> heap_ok h' \<and> objs h' = (objs h)(a := None) \<and>
    brk h' = brk h \<and> mem_limit h' = mem_limit h \<and> (\<forall>p. live h' p \<longleftrightarrow> live h p \<and> p \<notin> cells a n) \<and>
    li_next h' = li_next h \<and> li_prev h' = li_prev h \<and> heap.more h' = heap.more h"
proof -
  let ?h = "h\<lparr>objs := (objs h)(a := None), live := (\<lambda>q. live h q \<and> \<not> (a \<le> q \<and> q < a + n))\<rparr>"
  have "a \<noteq> 0" using heap_okD(2) [OF assms] by simp
  then have eq: "mem_free a h = Inr ?h" using assms(2) by (simp add: mem_free_def)
  have "heap_ok ?h"
    unfolding heap_ok_def
  proof (intro conjI allI impI ballI)
    show "0 < brk ?h" using heap_okD(1) [OF assms(1)] by simp
  next
    fix b m assume "objs ?h b = Some m"
    then have b: "b \<noteq> a" "objs h b = Some m" by (auto split: if_splits)
    show "0 < m" "0 < b" "b + m \<le> brk ?h" using heap_okD(2,3) [OF assms(1) b(2)] by simp_all
    fix c assume "c \<in> cells b m"
    then show "live ?h c"
      using heap_okD(4) [OF assms(1) b(2)] heap_okD(5) [OF assms(1) b(2) assms(2) b(1)]
      by (auto simp: cells_def)
  next
    fix b m c k assume "objs ?h b = Some m" "objs ?h c = Some k" "b \<noteq> c"
    then show "cells b m \<inter> cells c k = {}"
      using heap_okD(5) [OF assms(1)] by (auto split: if_splits)
  qed
  with eq show ?thesis by (auto simp: cells_def)
qed

lemma mem_free_twice:
  assumes "heap_ok h" and "mem_free a h = Inr h'" and "a \<noteq> 0"
  shows "mem_free a h' = Inl Bad_free"
  using assms by (auto simp: mem_free_def split: option.splits)

lemma heap_ok_links:
  assumes "links_only A h h'"
  shows "heap_ok h' = heap_ok h"
  using links_only_sel [OF assms] by (simp add: heap_ok_def)

end
