(* ===== verification/Queue.thy ===== *)
theory Queue
  imports DList
begin

text \<open>
  \<open>src/queue.h\<close>: the queue of \<open>list_ent\<close> cells that the task queue and the task generator use,
  a thin layer over \<open>list.h\<close> with assertions and an out parameter. The contract of the queue is
  the locale \<open>fifo\<close>; its client lemmas (moving an element from one queue to another, draining)
  are proved there and interpreted on the operations below.
\<close>

section \<open>Operations\<close>

text \<open>\<open>list_entry\<close>/\<open>queue_entry\<close>: from the address of the embedded link cell to its structure.\<close>

definition list_entry :: "addr \<Rightarrow> nat \<Rightarrow> addr" where
  "list_entry elem off = elem - off"

definition queue_init :: "addr \<Rightarrow> 'a heap_scheme \<Rightarrow> 'a heap_scheme res" where
  "queue_init q h = bindE (assertE (q \<noteq> 0)) (\<lambda>_. list_init q h)"

definition queue_push_back :: "addr \<Rightarrow> addr \<Rightarrow> 'a heap_scheme \<Rightarrow> 'a heap_scheme res" where
  "queue_push_back q qe h =
     bindE (assertE (q \<noteq> 0)) (\<lambda>_.
     bindE (assertE (qe \<noteq> 0)) (\<lambda>_.
     list_add_tail q qe h))"

definition queue_push_front :: "addr \<Rightarrow> addr \<Rightarrow> 'a heap_scheme \<Rightarrow> 'a heap_scheme res" where
  "queue_push_front q qe h =
     bindE (assertE (q \<noteq> 0)) (\<lambda>_.
     bindE (assertE (qe \<noteq> 0)) (\<lambda>_.
     list_add_head q qe h))"

text \<open>
  The pop operations return 1 and set the out parameter, or return 0 and leave it. The model
  takes the out parameter's old value and returns its new one. The assertion that the out
  parameter's address is not null holds at every call (it is the address of a local variable).
\<close>

definition queue_pop_back :: "addr \<Rightarrow> addr \<Rightarrow> 'a heap_scheme \<Rightarrow> (int \<times> addr \<times> 'a heap_scheme) res" where
  "queue_pop_back q qe h =
     bindE (assertE (q \<noteq> 0)) (\<lambda>_.
     bindE (list_remove_tail q h) (\<lambda>(tail, h).
     if tail = 0 then Inr (0, qe, h) else Inr (1, tail, h)))"

definition queue_pop_front :: "addr \<Rightarrow> addr \<Rightarrow> 'a heap_scheme \<Rightarrow> (int \<times> addr \<times> 'a heap_scheme) res" where
  "queue_pop_front q qe h =
     bindE (assertE (q \<noteq> 0)) (\<lambda>_.
     bindE (list_remove_head q h) (\<lambda>(head, h).
     if head = 0 then Inr (0, qe, h) else Inr (1, head, h)))"

section \<open>The contract\<close>

text \<open>
  \<open>rep h q xs\<close> says that queue \<open>q\<close> holds \<open>xs\<close> in heap \<open>h\<close>, \<open>cell h a\<close> that \<open>a\<close> may be queued,
  and \<open>only A h h'\<close> that an operation touched nothing outside \<open>A\<close>.
\<close>

locale fifo =
  fixes push :: "addr \<Rightarrow> addr \<Rightarrow> 'h \<Rightarrow> 'h res"
    and pop :: "addr \<Rightarrow> addr \<Rightarrow> 'h \<Rightarrow> (int \<times> addr \<times> 'h) res"
    and rep :: "'h \<Rightarrow> addr \<Rightarrow> addr list \<Rightarrow> bool"
    and cell :: "'h \<Rightarrow> addr \<Rightarrow> bool"
    and only :: "addr set \<Rightarrow> 'h \<Rightarrow> 'h \<Rightarrow> bool"
  assumes push: "rep h q xs \<Longrightarrow> cell h a \<Longrightarrow> a \<notin> set (q # xs) \<Longrightarrow>
      \<exists>h'. push q a h = Inr h' \<and> rep h' q (xs @ [a]) \<and> only (set (q # a # xs)) h h'"
    and pop_Nil: "rep h q [] \<Longrightarrow> pop q e h = Inr (0, e, h)"
    and pop_Cons: "rep h q (x # xs) \<Longrightarrow>
      \<exists>h'. pop q e h = Inr (1, x, h') \<and> rep h' q xs \<and> only (set (q # x # xs)) h h'"
    and frame: "rep h q xs \<Longrightarrow> only A h h' \<Longrightarrow> A \<inter> set (q # xs) = {} \<Longrightarrow> rep h' q xs"
    and cell_only: "cell h a \<Longrightarrow> only A h h' \<Longrightarrow> cell h' a"
    and rep_cell: "rep h q xs \<Longrightarrow> a \<in> set xs \<Longrightarrow> cell h a"
    and rep_distinct: "rep h q xs \<Longrightarrow> distinct (q # xs)"
    and only_refl: "only A h h"
    and only_trans: "only A h h' \<Longrightarrow> only A h' h'' \<Longrightarrow> only A h h''"
    and only_mono: "only A h h' \<Longrightarrow> A \<subseteq> B \<Longrightarrow> only B h h'"
begin

text \<open>Popping the front of one queue and pushing it on the back of a disjoint one.\<close>

lemma transfer:
  assumes q: "rep h q (x # xs)" and f: "rep h f ys" and dis: "set (q # x # xs) \<inter> set (f # ys) = {}"
  shows "\<exists>h1 h2. pop q e h = Inr (1, x, h1) \<and> push f x h1 = Inr h2 \<and> rep h2 q xs \<and> rep h2 f (ys @ [x]) \<and>
    only (set (q # x # xs) \<union> set (f # ys)) h h2"
proof -
  obtain h1 where h1: "pop q e h = Inr (1, x, h1)" "rep h1 q xs" "only (set (q # x # xs)) h h1"
    using pop_Cons [OF q] by blast
  have "rep h1 f ys" by (rule frame [OF f h1(3) dis])
  moreover have "cell h1 x" by (rule cell_only [OF rep_cell [OF q] h1(3)]) simp
  moreover have "x \<notin> set (f # ys)" using dis by auto
  ultimately obtain h2 where h2: "push f x h1 = Inr h2" "rep h2 f (ys @ [x])"
      "only (set (f # x # ys)) h1 h2"
    using push by blast
  have "set (f # x # ys) \<inter> set (q # xs) = {}" using dis rep_distinct [OF q] by auto
  then have "rep h2 q xs" by (rule frame [OF h1(2) h2(3)])
  moreover have "only (set (q # x # xs) \<union> set (f # ys)) h h2"
    by (rule only_trans [OF only_mono [OF h1(3)] only_mono [OF h2(3)]]) auto
  ultimately show ?thesis using h1(1) h2 by blast
qed

lemma pop_front_of:
  assumes "rep h q xs"
  shows "\<exists>h'. pop q e h = Inr (if xs = [] then 0 else 1, if xs = [] then e else hd xs, h') \<and>
    rep h' q (tl xs) \<and> only (set (q # xs)) h h' \<and> (xs = [] \<longrightarrow> h' = h)"
proof (cases xs)
  case Nil
  then show ?thesis using pop_Nil [of h q e] assms only_refl by simp
next
  case (Cons x ys)
  then show ?thesis using pop_Cons [of h q x ys e] assms by auto
qed

end

section \<open>The operations satisfy the contract\<close>

definition usable :: "'a heap_scheme \<Rightarrow> addr \<Rightarrow> bool" where
  "usable h a \<longleftrightarrow> a \<noteq> 0 \<and> live h a"

lemma queue_push_back_dll:
  assumes "dll h q xs" and "usable h a" and "a \<notin> set (q # xs)"
  shows "\<exists>h'. queue_push_back q a h = Inr h' \<and> dll h' q (xs @ [a]) \<and> links_only (set (q # a # xs)) h h'"
  using dll_add_tail [OF assms(1,3)] assms dll_ring(1) [OF assms(1)]
  by (simp add: queue_push_back_def usable_def)

lemma queue_push_front_dll:
  assumes "dll h q xs" and "usable h a" and "a \<notin> set (q # xs)"
  shows "\<exists>h'. queue_push_front q a h = Inr h' \<and> dll h' q (a # xs) \<and> links_only (set (q # a # xs)) h h'"
  using dll_add_head [OF assms(1,3)] assms dll_ring(1) [OF assms(1)]
  by (simp add: queue_push_front_def usable_def)

lemma queue_pop_front_Nil:
  assumes "dll h q []"
  shows "queue_pop_front q e h = Inr (0, e, h)"
  using dll_remove_head_Nil [OF assms] dll_ring(1) [OF assms] by (simp add: queue_pop_front_def)

lemma queue_pop_front_Cons:
  assumes "dll h q (x # xs)"
  shows "\<exists>h'. queue_pop_front q e h = Inr (1, x, h') \<and> dll h' q xs \<and> links_only (set (q # x # xs)) h h'"
  using dll_remove_head_Cons [OF assms] dll_ring(1,3) [OF assms] by (auto simp: queue_pop_front_def)

lemma queue_pop_back_Nil:
  assumes "dll h q []"
  shows "queue_pop_back q e h = Inr (0, e, h)"
  using dll_remove_tail_Nil [OF assms] dll_ring(1) [OF assms] by (simp add: queue_pop_back_def)

lemma queue_pop_back_snoc:
  assumes "dll h q (xs @ [x])"
  shows "\<exists>h'. queue_pop_back q e h = Inr (1, x, h') \<and> dll h' q xs \<and> links_only (set (q # x # xs)) h h'"
  using dll_remove_tail_snoc [OF assms] dll_ring(1,3) [OF assms] by (auto simp: queue_pop_back_def)

lemma queue_init_dll:
  assumes "usable h q"
  shows "\<exists>h'. queue_init q h = Inr h' \<and> dll h' q [] \<and> links_only {q} h h'"
  using dll_init [of q h] assms by (simp add: queue_init_def usable_def)

lemma usable_links: "links_only A h h' \<Longrightarrow> usable h' a = usable h a"
  by (simp add: usable_def links_only_sel(2))

interpretation qf: fifo queue_push_back queue_pop_front dll usable links_only
proof unfold_locales
  show "usable h a" if "dll h q xs" "a \<in> set xs" for h :: "'a heap_scheme" and q xs a
    using dll_ring(3,4) [OF that] by (simp add: usable_def)
  show "distinct (q # xs)" if "dll h q xs" for h :: "'a heap_scheme" and q xs
    using that by (simp add: dll_def)
qed (erule (2) queue_push_back_dll dll_frame | erule queue_pop_front_Nil queue_pop_front_Cons
     | auto intro: links_only_mono links_only_trans simp: usable_links)+

text \<open>The other end of the queue satisfies the same contract over the reversed element list.\<close>

lemma dll_rev_pop: "queue_pop_back q e h = Inr (1, x, h') \<Longrightarrow> dll h q xs \<Longrightarrow> xs \<noteq> [] \<and> x = last xs"
  using queue_pop_back_Nil [of h q e] queue_pop_back_snoc [of h q "butlast xs" "last xs" e]
  by (cases "xs = []") auto

end
