(* ===== verification/Locks.thy ===== *)
theory Locks
  imports DList
begin

text \<open>
  \<open>src/synch.h\<close>, \<open>src/synch.c\<close> and \<open>src/pt_mutex.c\<close>: the vector of lock operations, the checked
  wrappers, and the implementation over POSIX mutexes that the build selects. The contract of
  the vector is the locale \<open>lock_contract\<close>; the lemma about critical sections is proved in it.
  (The other implementation, \<open>mcs.c\<close>, is in theory \<open>Mcs\<close>.)
\<close>

section \<open>Mutexes on the heap\<close>

datatype mtx_state = Mtx_garbage | Mtx_unlocked | Mtx_locked

record lock_heap = heap +
  mtx :: "addr \<Rightarrow> mtx_state"

definition MUTEX_SIZE :: nat where "MUTEX_SIZE = 5"

text \<open>
  The calls of the thread library: initialising an allocated mutex succeeds; locking a held one
  waits; using one that was never initialised or was destroyed is a fault.
\<close>

definition pthread_mutex_init :: "addr \<Rightarrow> 'a lock_heap_scheme \<Rightarrow> (int \<times> 'a lock_heap_scheme) res" where
  "pthread_mutex_init m h =
     (if m = 0 then Inl Null_deref else if live h m then Inr (0, h\<lparr>mtx := (mtx h)(m := Mtx_unlocked)\<rparr>)
      else Inl Bad_access)"

definition pthread_mutex_lock :: "addr \<Rightarrow> 'a lock_heap_scheme \<Rightarrow> (int \<times> 'a lock_heap_scheme) res" where
  "pthread_mutex_lock m h =
     (if m = 0 then Inl Null_deref else if \<not> live h m then Inl Bad_access
      else case mtx h m of
        Mtx_unlocked \<Rightarrow> Inr (0, h\<lparr>mtx := (mtx h)(m := Mtx_locked)\<rparr>)
      | Mtx_locked \<Rightarrow> Inl Would_block
      | Mtx_garbage \<Rightarrow> Inl Bad_access)"

definition pthread_mutex_unlock :: "addr \<Rightarrow> 'a lock_heap_scheme \<Rightarrow> (int \<times> 'a lock_heap_scheme) res" where
  "pthread_mutex_unlock m h =
     (if m = 0 then Inl Null_deref else if \<not> live h m then Inl Bad_access
      else case mtx h m of
        Mtx_locked \<Rightarrow> Inr (0, h\<lparr>mtx := (mtx h)(m := Mtx_unlocked)\<rparr>)
      | _ \<Rightarrow> Inl Bad_access)"

definition pthread_mutex_destroy :: "addr \<Rightarrow> 'a lock_heap_scheme \<Rightarrow> 'a lock_heap_scheme res" where
  "pthread_mutex_destroy m h =
     (if m = 0 then Inl Null_deref else if live h m then Inr (h\<lparr>mtx := (mtx h)(m := Mtx_garbage)\<rparr>)
      else Inl Bad_access)"

section \<open>\<open>pt_mutex.c\<close>\<close>

definition ptmutex_alloc :: "'a lock_heap_scheme \<Rightarrow> (addr \<times> 'a lock_heap_scheme) res" where
  "ptmutex_alloc h =
     (let (m, h) = malloc MUTEX_SIZE h in
      bindE (assertE (m \<noteq> 0)) (\<lambda>_.
      bindE (pthread_mutex_init m h) (\<lambda>(err, h).
      bindE (assertE (err = 0)) (\<lambda>_.
      Inr (m, h)))))"

definition ptmutex_acquire :: "addr \<Rightarrow> 'a lock_heap_scheme \<Rightarrow> 'a lock_heap_scheme res" where
  "ptmutex_acquire l h =
     bindE (pthread_mutex_lock l h) (\<lambda>(err, h). bindE (assertE (err = 0)) (\<lambda>_. Inr h))"

definition ptmutex_release :: "addr \<Rightarrow> 'a lock_heap_scheme \<Rightarrow> 'a lock_heap_scheme res" where
  "ptmutex_release l h =
     bindE (pthread_mutex_unlock l h) (\<lambda>(err, h). bindE (assertE (err = 0)) (\<lambda>_. Inr h))"

definition ptmutex_free :: "addr \<Rightarrow> 'a lock_heap_scheme \<Rightarrow> 'a lock_heap_scheme res" where
  "ptmutex_free l h = bindE (pthread_mutex_destroy l h) (mem_free l)"

definition ptmutex_alloc_per_thread :: "addr \<Rightarrow> 'a lock_heap_scheme \<Rightarrow> (addr \<times> 'a lock_heap_scheme) res" where
  "ptmutex_alloc_per_thread l h = Inr (l, h)"

definition ptmutex_free_per_thread :: "addr \<Rightarrow> 'a lock_heap_scheme \<Rightarrow> 'a lock_heap_scheme res" where
  "ptmutex_free_per_thread l h = Inr h"

section \<open>\<open>synch.c\<close>\<close>

record 'h mr_lock_ops =
  op_alloc :: "'h \<Rightarrow> (addr \<times> 'h) res"
  op_acquire :: "addr \<Rightarrow> 'h \<Rightarrow> 'h res"
  op_release :: "addr \<Rightarrow> 'h \<Rightarrow> 'h res"
  op_alloc_per_thread :: "addr \<Rightarrow> 'h \<Rightarrow> (addr \<times> 'h) res"
  op_free :: "addr \<Rightarrow> 'h \<Rightarrow> 'h res"
  op_free_per_thread :: "addr \<Rightarrow> 'h \<Rightarrow> 'h res"

definition mr_ptmutex_ops :: "'a lock_heap_scheme mr_lock_ops" where
  "mr_ptmutex_ops =
     \<lparr>op_alloc = ptmutex_alloc, op_acquire = ptmutex_acquire, op_release = ptmutex_release,
      op_alloc_per_thread = ptmutex_alloc_per_thread, op_free = ptmutex_free,
      op_free_per_thread = ptmutex_free_per_thread\<rparr>"

definition lock_alloc :: "'h mr_lock_ops \<Rightarrow> 'h \<Rightarrow> (addr \<times> 'h) res" where
  "lock_alloc OPS h = bindE (op_alloc OPS h) (\<lambda>(mr, h). bindE (assertE (mr \<noteq> 0)) (\<lambda>_. Inr (mr, h)))"

definition lock_alloc_per_thread :: "'h mr_lock_ops \<Rightarrow> addr \<Rightarrow> 'h \<Rightarrow> (addr \<times> 'h) res" where
  "lock_alloc_per_thread OPS parent h =
     bindE (assertE (parent \<noteq> 0)) (\<lambda>_.
     bindE (op_alloc_per_thread OPS parent h) (\<lambda>(mr, h). bindE (assertE (mr \<noteq> 0)) (\<lambda>_. Inr (mr, h))))"

definition lock_acquire :: "'h mr_lock_ops \<Rightarrow> addr \<Rightarrow> 'h \<Rightarrow> 'h res" where
  "lock_acquire OPS lock h = bindE (assertE (lock \<noteq> 0)) (\<lambda>_. op_acquire OPS lock h)"

definition lock_release :: "'h mr_lock_ops \<Rightarrow> addr \<Rightarrow> 'h \<Rightarrow> 'h res" where
  "lock_release OPS lock h = bindE (assertE (lock \<noteq> 0)) (\<lambda>_. op_release OPS lock h)"

definition lock_free :: "'h mr_lock_ops \<Rightarrow> addr \<Rightarrow> 'h \<Rightarrow> 'h res" where
  "lock_free OPS lock h = bindE (assertE (lock \<noteq> 0)) (\<lambda>_. op_free OPS lock h)"

definition lock_free_per_thread :: "'h mr_lock_ops \<Rightarrow> addr \<Rightarrow> 'h \<Rightarrow> 'h res" where
  "lock_free_per_thread OPS lock h = bindE (assertE (lock \<noteq> 0)) (\<lambda>_. op_free_per_thread OPS lock h)"

section \<open>The contract\<close>

text \<open>
  \<open>state h l\<close> is Some False for a lock that is free, Some True for one that is held, and None for
  an address that is no lock. \<open>upd h l b\<close> is the heap in which only the state of \<open>l\<close> is set.
\<close>

locale lock_contract =
  fixes OPS :: "'h mr_lock_ops"
    and state :: "'h \<Rightarrow> addr \<Rightarrow> bool option"
    and upd :: "'h \<Rightarrow> addr \<Rightarrow> bool \<Rightarrow> 'h"
  assumes acquire_free: "state h l = Some False \<Longrightarrow> op_acquire OPS l h = Inr (upd h l True)"
    and acquire_held: "state h l = Some True \<Longrightarrow> op_acquire OPS l h = Inl Would_block"
    and release_held: "state h l = Some True \<Longrightarrow> op_release OPS l h = Inr (upd h l False)"
    and state_upd: "state h l \<noteq> None \<Longrightarrow> state (upd h l b) l = Some b"
    and state_null: "state h 0 = None"
begin

text \<open>
  A critical section: acquire, run \<open>f\<close>, release. When \<open>f\<close> leaves the lock held, the section is
  \<open>f\<close> between the two updates; a second acquisition inside it blocks.
\<close>

lemma critical_section:
  assumes "state h l = Some False" and "f (upd h l True) = Inr (r, h')" and "state h' l = Some True"
  shows "bindE (lock_acquire OPS l h) (\<lambda>h. bindE (f h) (\<lambda>(r, h). bindE (lock_release OPS l h) (\<lambda>h. Inr (r, h)))) =
    Inr (r, upd h' l False)" "state (upd h' l False) l = Some False"
proof -
  have "l \<noteq> 0" using assms(1) state_null [of h] by (cases "l = 0") auto
  then show "bindE (lock_acquire OPS l h) (\<lambda>h. bindE (f h) (\<lambda>(r, h). bindE (lock_release OPS l h) (\<lambda>h. Inr (r, h)))) =
    Inr (r, upd h' l False)"
    using assms by (simp add: lock_acquire_def lock_release_def acquire_free release_held)
  show "state (upd h' l False) l = Some False" using state_upd [of h' l False] assms(3) by simp
qed

lemma no_second_acquire:
  assumes "lock_acquire OPS l h = Inr h1" and "state h l = Some False"
  shows "lock_acquire OPS l h1 = Inl Would_block"
proof -
  have "l \<noteq> 0" using assms(2) state_null [of h] by (cases "l = 0") auto
  then show ?thesis
    using assms state_upd [of h l True] by (auto simp: lock_acquire_def acquire_free acquire_held)
qed

end

section \<open>POSIX mutexes satisfy it\<close>

definition mtx_held :: "'a lock_heap_scheme \<Rightarrow> addr \<Rightarrow> bool option" where
  "mtx_held h l =
     (if l = 0 \<or> \<not> live h l then None
      else case mtx h l of Mtx_garbage \<Rightarrow> None | Mtx_unlocked \<Rightarrow> Some False | Mtx_locked \<Rightarrow> Some True)"

definition set_mtx :: "'a lock_heap_scheme \<Rightarrow> addr \<Rightarrow> bool \<Rightarrow> 'a lock_heap_scheme" where
  "set_mtx h l b = h\<lparr>mtx := (mtx h)(l := (if b then Mtx_locked else Mtx_unlocked))\<rparr>"

interpretation ptm: lock_contract mr_ptmutex_ops mtx_held set_mtx
  by unfold_locales
    (auto simp: mr_ptmutex_ops_def mtx_held_def set_mtx_def ptmutex_acquire_def ptmutex_release_def
       pthread_mutex_lock_def pthread_mutex_unlock_def split: mtx_state.splits if_splits)

lemma lock_alloc_ptmutex:
  assumes "heap_ok h" and "brk h + MUTEX_SIZE \<le> mem_limit h"
  shows "\<exists>m h'. lock_alloc mr_ptmutex_ops h = Inr (m, h') \<and> m = brk h \<and> mtx_held h' m = Some False \<and>
    (\<exists>h1. mem_malloc MUTEX_SIZE h = Inr (m, h1) \<and> h' = set_mtx h1 m False)"
  using assms mem_malloc_ok [OF assms(2,1)] heap_okD(1) [OF assms(1)]
  by (simp add: lock_alloc_def mr_ptmutex_ops_def ptmutex_alloc_def malloc_def pthread_mutex_init_def
      mtx_held_def set_mtx_def MUTEX_SIZE_def)

lemma lock_free_ptmutex:
  assumes "mtx_held h l \<noteq> None"
  shows "lock_free mr_ptmutex_ops l h = mem_free l (h\<lparr>mtx := (mtx h)(l := Mtx_garbage)\<rparr>)"
  using assms by (auto simp: lock_free_def mr_ptmutex_ops_def ptmutex_free_def pthread_mutex_destroy_def mtx_held_def)

end
