(* ===== verification/EntryQueues.thy ===== *)
theory EntryQueues
  imports Queue Locks
begin

text \<open>
  Families of queues whose elements are heap objects: the shape of the task queue of \<open>taskQ.c\<close>
  and of the temporary queue in \<open>gen_map_tasks\<close>. An entry is an object holding a task and, after
  it, the link cell. Sizes and offsets are in machine words.
\<close>

definition QUEUE_SIZE :: nat where "QUEUE_SIZE = 2"
definition ENTRY_SIZE :: nat where "ENTRY_SIZE = 6"
definition ENTRY_OFF :: nat where "ENTRY_OFF = 4"

definition elem_of :: "addr \<Rightarrow> addr" where
  "elem_of e = e + ENTRY_OFF"

lemma list_entry_elem [simp]: "list_entry (elem_of e) ENTRY_OFF = e"
  by (simp add: list_entry_def elem_of_def)

lemma inj_elem_of [simp]: "elem_of a = elem_of b \<longleftrightarrow> a = b"
  by (simp add: elem_of_def)

definition rings :: "'a heap_scheme \<Rightarrow> addr list \<Rightarrow> addr list list \<Rightarrow> bool" where
  "rings h hds ess \<longleftrightarrow>
     length ess = length hds \<and> distinct hds \<and> distinct (concat ess) \<and>
     (\<forall>q \<in> set hds. objs h q = Some QUEUE_SIZE) \<and> (\<forall>e \<in> set (concat ess). objs h e = Some ENTRY_SIZE) \<and>
     (\<forall>i < length hds. dll h (hds ! i) (map elem_of (ess ! i)))"

section \<open>Disjointness\<close>

lemma objs_apart:
  assumes "heap_ok h" and "objs h a = Some n" and "objs h b = Some m" and "a \<noteq> b" and "i < n" "j < m"
  shows "a + i \<noteq> b + j"
proof
  assume "a + i = b + j"
  then have "a + i \<in> cells a n \<inter> cells b m" using assms(5,6) by (auto simp: cells_def)
  then show False using heap_okD(5) [OF assms(1-4)] by simp
qed

lemma entry_head_apart:
  assumes "heap_ok h" and "objs h q = Some QUEUE_SIZE" and "objs h e = Some ENTRY_SIZE"
  shows "q \<noteq> elem_of e" "q \<noteq> e"
proof -
  show ne: "q \<noteq> e" using assms by (auto simp: QUEUE_SIZE_def ENTRY_SIZE_def)
  then show "q \<noteq> elem_of e"
    using objs_apart [OF assms ne, of 0 ENTRY_OFF] by (simp add: elem_of_def QUEUE_SIZE_def ENTRY_SIZE_def ENTRY_OFF_def)
qed

lemma elem_of_usable: "heap_ok h \<Longrightarrow> objs h e = Some ENTRY_SIZE \<Longrightarrow> usable h (elem_of e)"
  using heap_okD(4) [of h e ENTRY_SIZE "elem_of e"]
  by (simp add: usable_def cells_def elem_of_def ENTRY_SIZE_def ENTRY_OFF_def)

lemma nth_concat_in: "i < length xss \<Longrightarrow> x \<in> set (xss ! i) \<Longrightarrow> x \<in> set (concat xss)"
  by (auto intro: nth_mem)

lemma nth_subset_concat: "i < length xss \<Longrightarrow> set (xss ! i) \<subseteq> set (concat xss)"
  using nth_concat_in by (rule subsetI)

lemma in_concat_nth: "x \<in> set (concat xss) \<longleftrightarrow> (\<exists>j < length xss. x \<in> set (xss ! j))"
proof
  assume "x \<in> set (concat xss)"
  then obtain ys where "ys \<in> set xss" "x \<in> set ys" by auto
  then show "\<exists>j < length xss. x \<in> set (xss ! j)" by (metis in_set_conv_nth)
next
  assume "\<exists>j < length xss. x \<in> set (xss ! j)"
  then obtain j where "j < length xss" "x \<in> set (xss ! j)" by blast
  then show "x \<in> set (concat xss)" by (rule nth_concat_in)
qed

lemma set_concat_update: "set (concat (xss[i := ys])) \<subseteq> set ys \<union> set (concat xss)"
proof
  fix y assume "y \<in> set (concat (xss[i := ys]))"
  then obtain j where j: "j < length xss" "y \<in> set (xss[i := ys] ! j)" unfolding in_concat_nth by auto
  then have "y \<in> set ys \<or> y \<in> set (xss ! j)" by (cases "i = j") auto
  then show "y \<in> set ys \<union> set (concat xss)" using nth_concat_in [OF j(1)] by blast
qed

lemma distinct_concat_disjoint:
  "distinct (concat xss) \<Longrightarrow> i < length xss \<Longrightarrow> j < length xss \<Longrightarrow> i \<noteq> j \<Longrightarrow> set (xss ! i) \<inter> set (xss ! j) = {}"
proof (induction xss arbitrary: i j)
  case (Cons ys xss)
  have "set ys \<inter> set (xss ! k) = {}" if "k < length xss" for k
    using Cons.prems(1) nth_concat_in [OF that] by auto
  then show ?case using Cons by (cases i; cases j) auto
qed simp

lemma ring_disjoint:
  assumes "heap_ok h" and "rings h hds ess" and "i < length hds" "j < length hds" "i \<noteq> j"
  shows "set (hds ! i # map elem_of (ess ! i)) \<inter> set (hds ! j # map elem_of (ess ! j)) = {}"
proof -
  have len: "length ess = length hds" and d: "distinct hds" "distinct (concat ess)"
    and q: "\<And>k. k < length hds \<Longrightarrow> objs h (hds ! k) = Some QUEUE_SIZE"
    and e: "\<And>k x. k < length hds \<Longrightarrow> x \<in> set (ess ! k) \<Longrightarrow> objs h x = Some ENTRY_SIZE"
    using assms(2) nth_concat_in by (auto simp: rings_def)
  have "hds ! k \<noteq> elem_of x" if "k < length hds" "l < length hds" "x \<in> set (ess ! l)" for k l x
    using entry_head_apart(1) [OF assms(1) q e] that by blast
  moreover have "hds ! i \<noteq> hds ! j" using d(1) assms(3-5) by (simp add: nth_eq_iff_index_eq)
  moreover have "set (ess ! i) \<inter> set (ess ! j) = {}"
    using distinct_concat_disjoint [OF d(2)] assms(3-5) len by simp
  ultimately show ?thesis using assms(3,4) by auto
qed

section \<open>Pushing and popping one of the queues\<close>

lemma rings_replace:
  assumes "heap_ok h" and "rings h hds ess" and "i < length hds"
    and "links_only A h h'" and "A \<subseteq> set (hds ! i # map elem_of (ess ! i)) \<union> elem_of ` B"
    and "dll h' (hds ! i) (map elem_of ys)"
    and "distinct (concat (ess[i := ys]))" and "set ys \<subseteq> set (ess ! i) \<union> B"
    and "\<forall>e \<in> B. objs h e = Some ENTRY_SIZE \<and> (\<forall>j < length hds. j \<noteq> i \<longrightarrow> e \<notin> set (ess ! j))"
  shows "rings h' hds (ess[i := ys])" "heap_ok h'"
proof -
  have len: "length ess = length hds" using assms(2) by (simp add: rings_def)
  show "heap_ok h'" using heap_ok_links [OF assms(4)] assms(1) by simp
  have obj: "objs h' = objs h" by (rule links_only_sel(1) [OF assms(4)])
  have "dll h' (hds ! j) (map elem_of (ess ! j))" if j: "j < length hds" "j \<noteq> i" for j
  proof (rule dll_frame [OF _ assms(4)])
    show "dll h (hds ! j) (map elem_of (ess ! j))" using assms(2) j by (simp add: rings_def)
    have q: "objs h (hds ! j) = Some QUEUE_SIZE" using assms(2) j by (simp add: rings_def)
    have B: "elem_of e \<noteq> hds ! j \<and> e \<notin> set (ess ! j)" if "e \<in> B" for e
      using assms(9) that j entry_head_apart(1) [OF assms(1) q, of e] by auto
    have "c \<notin> set (hds ! j # map elem_of (ess ! j))" if "c \<in> A" for c
    proof (cases "c \<in> set (hds ! i # map elem_of (ess ! i))")
      case True
      then show ?thesis using ring_disjoint [OF assms(1,2) j(1) assms(3) j(2)] by blast
    next
      case False
      then obtain e where "e \<in> B" "c = elem_of e" using \<open>c \<in> A\<close> assms(5) by blast
      then show ?thesis using B by auto
    qed
    then show "A \<inter> set (hds ! j # map elem_of (ess ! j)) = {}" by blast
  qed
  moreover have "objs h e = Some ENTRY_SIZE" if e: "e \<in> set (concat (ess[i := ys]))" for e
  proof -
    obtain j where j: "j < length ess" "e \<in> set (ess[i := ys] ! j)"
      using e unfolding in_concat_nth by auto
    then have "e \<in> B \<or> e \<in> set (ess ! j)" using assms(3,8) len by (cases "j = i") auto
    then show ?thesis
    proof
      assume "e \<in> set (ess ! j)"
      then have "e \<in> set (concat ess)" by (rule nth_concat_in [OF j(1)])
      then show ?thesis using assms(2) unfolding rings_def by blast
    qed (use assms(9) in blast)
  qed
  ultimately show "rings h' hds (ess[i := ys])"
    using assms(2,3,6,7) len by (simp add: rings_def obj nth_list_update)
qed

lemma rings_push:
  assumes "heap_ok h" and "rings h hds ess" and "i < length hds"
    and "objs h e = Some ENTRY_SIZE" and "e \<notin> set (concat ess)"
  shows "\<exists>h'. queue_push_back (hds ! i) (elem_of e) h = Inr h' \<and> rings h' hds (ess[i := ess ! i @ [e]]) \<and>
    heap_ok h' \<and> links_only UNIV h h'"
proof -
  have d: "dll h (hds ! i) (map elem_of (ess ! i))" and i: "i < length ess"
    using assms(2,3) by (simp_all add: rings_def)
  have new: "\<forall>j < length hds. e \<notin> set (ess ! j)"
    using assms(2,5) nth_concat_in by (fastforce simp: rings_def)
  have "elem_of e \<notin> set (hds ! i # map elem_of (ess ! i))"
    using entry_head_apart(1) [OF assms(1) _ assms(4), of "hds ! i"] assms(2,3) new by (auto simp: rings_def)
  then obtain h' where h': "queue_push_back (hds ! i) (elem_of e) h = Inr h'"
    "dll h' (hds ! i) (map elem_of (ess ! i) @ [elem_of e])"
    "links_only (set (hds ! i # elem_of e # map elem_of (ess ! i))) h h'"
    using queue_push_back_dll [OF d elem_of_usable [OF assms(1,4)]] by blast
  have "mset (concat (ess[i := ess ! i @ [e]])) = add_mset e (mset (concat ess))"
    using concat_update_mset [OF i, of "ess ! i @ [e]"] by simp
  then have "mset (concat (ess[i := ess ! i @ [e]])) = mset (e # concat ess)" by simp
  from mset_eq_imp_distinct_iff [OF this] have "distinct (concat (ess[i := ess ! i @ [e]]))"
    using assms(2,5) unfolding rings_def by (metis distinct.simps(2))
  note r = rings_replace [OF assms(1-3) h'(3), of "{e}" "ess ! i @ [e]"]
  have "rings h' hds (ess[i := ess ! i @ [e]])" "heap_ok h'"
    by (rule r(1), use \<open>distinct (concat _)\<close> h' new assms(4) in auto)
      (rule r(2), use \<open>distinct (concat _)\<close> h' new assms(4) in auto)
  then show ?thesis using h'(1,3) links_only_mono [OF h'(3)] by blast
qed

lemma rings_pop:
  assumes "heap_ok h" and "rings h hds ess" and "i < length hds" and "ess ! i = x # xs"
  shows "\<exists>h'. queue_pop_front (hds ! i) q h = Inr (1, elem_of x, h') \<and> rings h' hds (ess[i := xs]) \<and>
    heap_ok h' \<and> links_only UNIV h h' \<and> x \<notin> set (concat (ess[i := xs])) \<and> objs h x = Some ENTRY_SIZE"
proof -
  have d: "dll h (hds ! i) (elem_of x # map elem_of xs)" and i: "i < length ess"
    using assms(2-4) by (auto simp: rings_def)
  obtain h' where h': "queue_pop_front (hds ! i) q h = Inr (1, elem_of x, h')"
    "dll h' (hds ! i) (map elem_of xs)" "links_only (set (hds ! i # elem_of x # map elem_of xs)) h h'"
    using queue_pop_front_Cons [OF d] by blast
  have "add_mset x (mset (concat (ess[i := xs]))) = mset (concat ess)"
    using concat_update_mset [OF i, of xs] assms(4) by simp
  then have "mset (x # concat (ess[i := xs])) = mset (concat ess)" by simp
  from mset_eq_imp_distinct_iff [OF this] have dis: "distinct (x # concat (ess[i := xs]))"
    using assms(2) unfolding rings_def by blast
  note r = rings_replace [OF assms(1-3) h'(3), of "{}" xs]
  have "rings h' hds (ess[i := xs])" "heap_ok h'"
    by (rule r(1), use dis h' assms(4) in auto) (rule r(2), use dis h' assms(4) in auto)
  moreover have "objs h x = Some ENTRY_SIZE"
    using assms(2,4) nth_concat_in [OF i, of x] by (auto simp: rings_def)
  ultimately show ?thesis using h'(1) links_only_mono [OF h'(3)] dis by auto
qed

lemma rings_pop_empty:
  "rings h hds ess \<Longrightarrow> i < length hds \<Longrightarrow> ess ! i = [] \<Longrightarrow> queue_pop_front (hds ! i) q h = Inr (0, q, h)"
  by (rule queue_pop_front_Nil) (metis list.map(1) rings_def)

text \<open>From one queue to the back of another one.\<close>

lemma rings_transfer:
  assumes "heap_ok h" and "rings h hds ess" and "i < length hds" "j < length hds" "i \<noteq> j" and "ess ! i = x # xs"
  shows "\<exists>h1 h2. queue_pop_front (hds ! i) q h = Inr (1, elem_of x, h1) \<and>
    queue_push_back (hds ! j) (elem_of x) h1 = Inr h2 \<and> rings h2 hds (ess[i := xs, j := ess ! j @ [x]]) \<and>
    heap_ok h2 \<and> links_only UNIV h h2"
proof -
  obtain h1 where h1: "queue_pop_front (hds ! i) q h = Inr (1, elem_of x, h1)" "rings h1 hds (ess[i := xs])"
    "heap_ok h1" "links_only UNIV h h1" "x \<notin> set (concat (ess[i := xs]))" "objs h x = Some ENTRY_SIZE"
    using rings_pop [OF assms(1-3,6)] by blast
  have "objs h1 x = Some ENTRY_SIZE" using h1(4,6) links_only_sel(1) by fastforce
  from rings_push [OF h1(3,2) assms(4) this h1(5)] obtain h2 where
    "queue_push_back (hds ! j) (elem_of x) h1 = Inr h2" "rings h2 hds (ess[i := xs, j := ess[i := xs] ! j @ [x]])"
    "heap_ok h2" "links_only UNIV h1 h2" by blast
  moreover have "ess[i := xs] ! j = ess ! j" using assms(5) by simp
  ultimately show ?thesis using h1(1,4) links_only_trans by metis
qed

section \<open>Allocating and freeing beside the queues\<close>

lemma dll_mem:
  assumes "dll h l xs" and "li_next h' = li_next h" "li_prev h' = li_prev h"
    and "\<And>a. a \<in> set (l # xs) \<Longrightarrow> live h' a"
  shows "dll h' l xs"
proof -
  have "link h' l xs l = link h l xs l" by (rule link_cong) (simp_all add: assms(2,3))
  then show ?thesis using assms(1,4) by (auto simp: dll_def)
qed

lemma rings_malloc:
  assumes "heap_ok h" and "rings h hds ess" and "mem_malloc n h = Inr (a, h')" and "0 < n"
  shows "rings h' hds ess" "a \<notin> set (concat ess)" "a \<notin> set hds"
proof -
  note m = heap_ok_malloc [OF assms(1,3,4)]
  show new: "a \<notin> set (concat ess)" "a \<notin> set hds" using assms(2) m(3) by (auto simp: rings_def)
  have "dll h' q xs" if "dll h q xs" for q xs
    using that by (rule dll_mem) (use that m in \<open>auto simp: dll_def\<close>)
  then show "rings h' hds ess"
    using assms(2) new m(4) unfolding rings_def by (auto simp: fun_upd_def)
qed

lemma rings_free:
  assumes "heap_ok h" and "rings h hds ess" and "objs h a = Some n" and "a \<notin> set (concat ess)" "a \<notin> set hds"
  shows "\<exists>h'. mem_free a h = Inr h' \<and> heap_ok h' \<and> rings h' hds ess \<and> objs h' = (objs h)(a := None) \<and>
    brk h' = brk h \<and> mem_limit h' = mem_limit h \<and> heap.more h' = heap.more h"
proof -
  obtain h' where h': "mem_free a h = Inr h'" "heap_ok h'" "objs h' = (objs h)(a := None)" "brk h' = brk h"
    "mem_limit h' = mem_limit h" "\<And>p. live h' p \<longleftrightarrow> live h p \<and> p \<notin> cells a n"
    "li_next h' = li_next h" "li_prev h' = li_prev h" "heap.more h' = heap.more h"
    using heap_ok_free [OF assms(1,3)] by blast
  have off: "c + k \<notin> cells a n" if "objs h c = Some m" "k < m" "c \<noteq> a" for c k m
  proof -
    have "c + k \<in> cells c m" using that(2) by (simp add: cells_def)
    then show ?thesis using heap_okD(5) [OF assms(1) that(1) assms(3) that(3)] by auto
  qed
  have "dll h' (hds ! i) (map elem_of (ess ! i))" if i: "i < length hds" for i
  proof (rule dll_mem)
    show d: "dll h (hds ! i) (map elem_of (ess ! i))" using assms(2) i by (simp add: rings_def)
    fix c assume c: "c \<in> set (hds ! i # map elem_of (ess ! i))"
    then have "live h c" using dll_ring(2,4) [OF d] by auto
    moreover have "c \<notin> cells a n"
    proof (cases "c = hds ! i")
      case True
      then have "objs h c = Some QUEUE_SIZE" "c \<noteq> a" using assms(2,5) i by (auto simp: rings_def)
      then show ?thesis using off [of c QUEUE_SIZE 0] by (simp add: QUEUE_SIZE_def)
    next
      case False
      then obtain e where e: "e \<in> set (ess ! i)" "c = elem_of e" using c by auto
      then have "e \<in> set (concat ess)" using assms(2) i by (intro nth_concat_in) (auto simp: rings_def)
      then have "objs h e = Some ENTRY_SIZE" "e \<noteq> a" using assms(2,4) by (auto simp: rings_def)
      then show ?thesis using off [of e ENTRY_SIZE ENTRY_OFF] e(2) by (simp add: elem_of_def ENTRY_SIZE_def ENTRY_OFF_def)
    qed
    ultimately show "live h' c" using h'(6) by simp
  qed (simp_all add: h')
  then have "rings h' hds ess" using assms(2,4,5) h'(3) by (auto simp: rings_def)
  then show ?thesis using h' by blast
qed

end
