(* ===== verification/Processor.thy ===== *)
theory Processor
  imports Prelude
begin

text \<open>
  \<open>src/processor.c\<close> and \<open>src/locality.c\<close>. The operating system is a record of what its calls
  answer: the number of CPUs online, the environment variable, and the results of setting and
  getting the affinity of the calling thread. Code compiled for Linux and for Solaris is given
  side by side; the rest of the development uses the Linux variant.
\<close>

section \<open>The operating system\<close>

record os_t =
  nprocessors_onln :: int
  mapred_nprocessors :: "int option"
  setaffinity :: "nat set \<Rightarrow> int"
  getaffinity :: "nat set option"
  processor_bind :: "int option \<Rightarrow> int"
  nlgrps :: int
  lgrp_home :: int
  lgrp_ncpus :: int

text \<open>
  \<open>mapred_nprocessors\<close> is \<open>atoi\<close> of the variable \<open>MAPRED_NPROCESSORS\<close> when it is set.
  \<open>getaffinity = None\<close> is a failing call.
\<close>

section \<open>\<open>processor.c\<close>\<close>

definition proc_get_num_cpus :: "os_t \<Rightarrow> int" where
  "proc_get_num_cpus os =
     (let num_cpus = nprocessors_onln os in
      case mapred_nprocessors os of
        None \<Rightarrow> num_cpus
      | Some temp \<Rightarrow> if temp < 1 \<or> temp > num_cpus then 0 else temp)"

definition CPU_SETSIZE :: nat where "CPU_SETSIZE = 1024"

text \<open>\<open>CPU_SET\<close> ignores a CPU number outside the set's range.\<close>

definition CPU_SET :: "int \<Rightarrow> nat set \<Rightarrow> nat set" where
  "CPU_SET cpu cs = (if 0 \<le> cpu \<and> cpu < int CPU_SETSIZE then insert (nat cpu) cs else cs)"

text \<open>The set of all CPUs, computed at the first call and kept in a static variable.\<close>

definition proc_get_full_set :: "os_t \<Rightarrow> nat set option \<Rightarrow> nat set \<times> nat set option" where
  "proc_get_full_set os full_cs =
     (case full_cs of
        Some cs \<Rightarrow> (cs, full_cs)
      | None \<Rightarrow> (let cs = foldl (\<lambda>cs i. CPU_SET (int i) cs) {} [0..<nat (nprocessors_onln os)] in (cs, Some cs)))"

definition proc_bind_thread :: "os_t \<Rightarrow> int \<Rightarrow> int" where
  "proc_bind_thread os cpu_id = setaffinity os (CPU_SET cpu_id {})"

definition proc_unbind_thread :: "os_t \<Rightarrow> nat set option \<Rightarrow> int \<times> nat set option" where
  "proc_unbind_thread os full_cs =
     (case proc_get_full_set os full_cs of (cs, full_cs) \<Rightarrow> (setaffinity os cs, full_cs))"

definition proc_is_available :: "os_t \<Rightarrow> int \<Rightarrow> bool" where
  "proc_is_available os cpu_id =
     (case getaffinity os of None \<Rightarrow> False | Some cs \<Rightarrow> 0 \<le> cpu_id \<and> cpu_id < int CPU_SETSIZE \<and> nat cpu_id \<in> cs)"

text \<open>The scan for the first CPU of the set, from \<open>i\<close> on; \<open>n\<close> CPU numbers are left.\<close>

fun first_cpu :: "nat set \<Rightarrow> nat \<Rightarrow> nat \<Rightarrow> nat" where
  "first_cpu cs i 0 = i"
| "first_cpu cs i (Suc n) = (if i \<in> cs then i else first_cpu cs (Suc i) n)"

definition proc_get_cpuid :: "os_t \<Rightarrow> int" where
  "proc_get_cpuid os =
     (case getaffinity os of None \<Rightarrow> -1 | Some cs \<Rightarrow> int (first_cpu cs 0 CPU_SETSIZE))"

definition proc_bind_thread_solaris :: "os_t \<Rightarrow> int \<Rightarrow> int" where
  "proc_bind_thread_solaris os cpu_id = processor_bind os (Some cpu_id)"

definition proc_unbind_thread_solaris :: "os_t \<Rightarrow> int" where
  "proc_unbind_thread_solaris os = processor_bind os None"

section \<open>\<open>locality.c\<close>\<close>

definition loc_get_lgrp_size :: "os_t \<Rightarrow> int" where
  "loc_get_lgrp_size os = proc_get_num_cpus os"

definition loc_get_num_lgrps :: "os_t \<Rightarrow> int" where
  "loc_get_num_lgrps os = 1"

definition loc_get_lgrp :: "os_t \<Rightarrow> int" where
  "loc_get_lgrp os = 0"

definition loc_mem_to_lgrp :: "os_t \<Rightarrow> 64 word \<Rightarrow> int" where
  "loc_mem_to_lgrp os addr = 0"

definition loc_get_lgrp_size_solaris :: "os_t \<Rightarrow> int res" where
  "loc_get_lgrp_size_solaris os = bindE (assertE (lgrp_ncpus os > 0)) (\<lambda>_. Inr (lgrp_ncpus os))"

definition loc_get_num_lgrps_solaris :: "os_t \<Rightarrow> int" where
  "loc_get_num_lgrps_solaris os = (if nlgrps os > 1 then nlgrps os - 1 else nlgrps os)"

text \<open>A group number is shifted down by the group that holds all others.\<close>

definition collapse_lgrp :: "int \<Rightarrow> int" where
  "collapse_lgrp lgrp = (if lgrp > 0 then lgrp - 1 else lgrp)"

definition loc_get_lgrp_solaris :: "os_t \<Rightarrow> int" where
  "loc_get_lgrp_solaris os = collapse_lgrp (lgrp_home os)"

text \<open>\<open>meminfo\<close> is the result of the call: return value, group and validity.\<close>

definition loc_mem_to_lgrp_solaris :: "(64 word \<Rightarrow> int \<times> int \<times> int) \<Rightarrow> 64 word \<Rightarrow> int res" where
  "loc_mem_to_lgrp_solaris meminfo addr =
     (case meminfo addr of (ret, lgrp, validity) \<Rightarrow>
        bindE (CHECK_ERROR (ret \<noteq> 0)) (\<lambda>_. Inr (collapse_lgrp (if validity \<noteq> 3 then 1 else lgrp))))"

section \<open>Properties\<close>

text \<open>
  What the development relies on of the system: binding succeeds when the set names a CPU that
  is online, and the online CPUs fit in a set.
\<close>

definition os_ok :: "os_t \<Rightarrow> bool" where
  "os_ok os \<longleftrightarrow> 0 < nprocessors_onln os \<and> nprocessors_onln os \<le> int CPU_SETSIZE \<and>
     (\<forall>cs. (\<exists>c \<in> cs. int c < nprocessors_onln os) \<longrightarrow> setaffinity os cs = 0)"

lemma proc_get_num_cpus_bounds:
  "0 \<le> nprocessors_onln os \<Longrightarrow> 0 \<le> proc_get_num_cpus os \<and> proc_get_num_cpus os \<le> nprocessors_onln os"
  by (simp add: proc_get_num_cpus_def Let_def split: option.split)

lemma proc_get_num_cpus_zero:
  "mapred_nprocessors os = Some t \<Longrightarrow> t < 1 \<or> t > nprocessors_onln os \<Longrightarrow> proc_get_num_cpus os = 0"
  by (auto simp: proc_get_num_cpus_def)

lemma proc_get_full_set_spec:
  assumes "nprocessors_onln os \<le> int CPU_SETSIZE"
  shows "proc_get_full_set os None = ({i. int i < nprocessors_onln os}, Some {i. int i < nprocessors_onln os})"
proof -
  have "foldl (\<lambda>cs i. CPU_SET (int i) cs) {} [0..<n] = {i. i < n}" if "n \<le> CPU_SETSIZE" for n
    using that
  proof (induction n)
    case (Suc n)
    then have "foldl (\<lambda>cs i. CPU_SET (int i) cs) {} [0..<n] = {i. i < n}" "n < CPU_SETSIZE" by simp_all
    then show ?case by (simp add: CPU_SET_def) (auto simp: less_Suc_eq)
  qed simp
  moreover have "nat (nprocessors_onln os) \<le> CPU_SETSIZE" using assms by simp
  moreover have "{i. i < nat (nprocessors_onln os)} = {i. int i < nprocessors_onln os}" by auto
  ultimately show ?thesis by (simp add: proc_get_full_set_def Let_def)
qed

lemma first_cpu_spec:
  "\<exists>j \<in> cs. i \<le> j \<and> j < i + n \<Longrightarrow>
   first_cpu cs i n \<in> cs \<and> i \<le> first_cpu cs i n \<and> (\<forall>j \<in> cs. i \<le> j \<longrightarrow> first_cpu cs i n \<le> j)"
proof (induction n arbitrary: i)
  case (Suc n)
  show ?case
  proof (cases "i \<in> cs")
    case False
    then have "\<exists>j \<in> cs. Suc i \<le> j \<and> j < Suc i + n"
      using Suc.prems by (metis Suc_leI add_Suc_shift le_neq_implies_less)
    from Suc.IH [OF this] False show ?thesis
      by (simp add: Suc_le_eq) (metis le_neq_implies_less less_imp_le)
  qed auto
qed auto

text \<open>After binding to one CPU, the thread's first allowed CPU is that one.\<close>

lemma proc_get_cpuid_bound:
  assumes "0 \<le> cpu" and "cpu < int CPU_SETSIZE" and "getaffinity os = Some (CPU_SET cpu {})"
  shows "proc_get_cpuid os = cpu" "proc_is_available os cpu"
proof -
  have c: "CPU_SET cpu {} = {nat cpu}" using assms by (simp add: CPU_SET_def)
  then have "first_cpu {nat cpu} 0 CPU_SETSIZE = nat cpu"
    using first_cpu_spec [of "{nat cpu}" 0 CPU_SETSIZE] assms by auto
  then show "proc_get_cpuid os = cpu" "proc_is_available os cpu"
    using assms c by (simp_all add: proc_get_cpuid_def proc_is_available_def)
qed


lemma proc_bind_online: "os_ok os \<Longrightarrow> 0 \<le> cpu \<Longrightarrow> cpu < nprocessors_onln os \<Longrightarrow> proc_bind_thread os cpu = 0"
  by (simp add: os_ok_def proc_bind_thread_def CPU_SET_def)

lemma proc_unbind_ok:
  assumes "os_ok os"
  shows "fst (proc_unbind_thread os None) = 0"
proof -
  have "\<exists>c \<in> {i. int i < nprocessors_onln os}. int c < nprocessors_onln os"
    using assms by (intro bexI [of _ 0]) (simp_all add: os_ok_def)
  then show ?thesis
    using assms proc_get_full_set_spec [of os] by (simp add: os_ok_def proc_unbind_thread_def)
qed

end
