(* ===== verification/TaskQ.thy ===== *)
theory TaskQ
  imports EntryQueues Processor
begin

text \<open>
  \<open>src/taskQ.c\<close>: the task queue. Per locality group it has a queue of waiting tasks and a queue
  of finished entries, guarded by one lock; threads that find their own queue empty steal from
  the others. All its objects live on the heap of \<open>DList\<close>, the mutexes and the tasks beside it.
  The struct \<open>taskQ_t\<close> is a record that carries the addresses of its arrays.
  The C library's random numbers are arguments: \<open>rnd\<close> is what \<open>rand()\<close> returned, and \<open>rand_r\<close>
  maps a seed to a number and the new seed.
\<close>

section \<open>Data\<close>

record task_t =
  task_id :: "64 word"
  task_len :: "64 word"
  task_data :: "64 word"
  task_pad :: "64 word"

definition task_0 :: task_t where
  "task_0 = \<lparr>task_id = 0, task_len = 0, task_data = 0, task_pad = 0\<rparr>"

record tq_heap = lock_heap +
  tq_task :: "addr \<Rightarrow> task_t"

record tq_lock_t =
  lk_parent :: addr
  lk_chksum :: "64 word"
  lk_per_thread :: "addr list"
  lk_per_thread_arr :: addr

record taskQ_t =
  tq_self :: addr
  num_queues :: nat
  num_threads :: nat
  queues :: "addr list"
  queues_arr :: addr
  free_queues :: "addr list"
  free_queues_arr :: addr
  locks :: "tq_lock_t list"
  locks_arr :: addr
  seeds :: "32 word list"
  seeds_arr :: addr

type_synonym rand_r_t = "32 word \<Rightarrow> int \<times> 32 word"

abbreviation OPS :: "'a tq_heap_scheme mr_lock_ops" where
  "OPS \<equiv> mr_ptmutex_ops"

definition TQ_SIZE :: nat where "TQ_SIZE = 5"
definition LOCK_SIZE :: nat where "LOCK_SIZE = 3"

definition tq_lock_0 :: tq_lock_t where
  "tq_lock_0 = \<lparr>lk_parent = 0, lk_chksum = 0, lk_per_thread = [], lk_per_thread_arr = 0\<rparr>"

text \<open>\<open>mem_calloc\<close>: the zeros are written by the callers' records; sizes are in words.\<close>

definition mem_calloc :: "nat \<Rightarrow> nat \<Rightarrow> 'a heap_scheme \<Rightarrow> (addr \<times> 'a heap_scheme) res" where
  "mem_calloc num sz h = mem_malloc (num * sz) h"

section \<open>One queue\<close>

definition tq_alloc_queue :: "'a tq_heap_scheme \<Rightarrow> (addr \<times> 'a tq_heap_scheme) res" where
  "tq_alloc_queue h =
     bindE (mem_malloc QUEUE_SIZE h) (\<lambda>(q, h).
     if q = 0 then Inr (0, h)
     else bindE (queue_init q h) (\<lambda>h. Inr (q, h)))"

definition tq_free_queue :: "addr \<Rightarrow> 'a tq_heap_scheme \<Rightarrow> 'a tq_heap_scheme res" where
  "tq_free_queue q h = mem_free q h"

text \<open>The loop that pops and frees every entry, with a bound on its rounds.\<close>

fun tq_empty_loop :: "nat \<Rightarrow> addr \<Rightarrow> 'a tq_heap_scheme \<Rightarrow> 'a tq_heap_scheme res" where
  "tq_empty_loop 0 q h = Inl No_fuel"
| "tq_empty_loop (Suc fuel) q h =
     bindE (queue_pop_front q 0 h) (\<lambda>(ret, queue_elem, h).
     if ret = 0 then Inr h
     else (let entry = list_entry queue_elem ENTRY_OFF in
           bindE (assertE (entry \<noteq> 0)) (\<lambda>_.
           bindE (mem_free entry h) (\<lambda>h.
           tq_empty_loop fuel q h))))"

definition tq_empty_queue :: "addr \<Rightarrow> 'a tq_heap_scheme \<Rightarrow> 'a tq_heap_scheme res" where
  "tq_empty_queue q h = tq_empty_loop (Suc (brk h)) q h"

section \<open>Set up and tear down\<close>

fun alloc_per_threads :: "nat \<Rightarrow> addr \<Rightarrow> 'a tq_heap_scheme \<Rightarrow> (addr list \<times> 'a tq_heap_scheme) res" where
  "alloc_per_threads 0 parent h = Inr ([], h)"
| "alloc_per_threads (Suc n) parent h =
     bindE (lock_alloc_per_thread OPS parent h) (\<lambda>(per_thread, h).
     bindE (alloc_per_threads n parent h) (\<lambda>(ps, h). Inr (per_thread # ps, h)))"

text \<open>
  \<open>tq_queue_init\<close> with its failure labels. They are never reached, because \<open>mem_malloc\<close> asserts
  its result; \<open>fail_priv_alloc\<close> would free the address of the field \<open>parent\<close>, which is inside the
  array of locks.
\<close>

definition tq_queue_init :: "taskQ_t \<Rightarrow> nat \<Rightarrow> 'a tq_heap_scheme \<Rightarrow> (int \<times> taskQ_t \<times> 'a tq_heap_scheme) res" where
  "tq_queue_init tq idx h =
     bindE (assertE (idx < num_queues tq)) (\<lambda>_.
     bindE (tq_alloc_queue h) (\<lambda>(q, h).
     let tq = tq\<lparr>queues := (queues tq)[idx := q]\<rparr> in
     if q = 0 then Inr (0, tq, h)
     else
     bindE (tq_alloc_queue h) (\<lambda>(f, h).
     let tq = tq\<lparr>free_queues := (free_queues tq)[idx := f]\<rparr> in
     if f = 0 then
       bindE (tq_free_queue q h) (\<lambda>h. Inr (0, tq\<lparr>queues := (queues tq)[idx := 0]\<rparr>, h))
     else
     bindE (lock_alloc OPS h) (\<lambda>(parent, h).
     bindE (mem_calloc (num_threads tq) 1 h) (\<lambda>(arr, h).
     if arr = 0 then
       bindE (lock_free OPS (locks_arr tq + LOCK_SIZE * idx) h) (\<lambda>h.
       bindE (tq_free_queue f h) (\<lambda>h.
       bindE (tq_free_queue q h) (\<lambda>h.
       Inr (0, tq\<lparr>queues := (queues tq)[idx := 0], free_queues := (free_queues tq)[idx := 0]\<rparr>, h))))
     else
     bindE (alloc_per_threads (num_threads tq) parent h) (\<lambda>(ps, h).
     Inr (1, tq\<lparr>locks := (locks tq)[idx := \<lparr>lk_parent = parent, lk_chksum = sum_list (map word_of_nat ps),
            lk_per_thread = ps, lk_per_thread_arr = arr\<rparr>]\<rparr>, h)))))))"

definition tq_queue_destroy :: "taskQ_t \<Rightarrow> nat \<Rightarrow> 'a tq_heap_scheme \<Rightarrow> (taskQ_t \<times> 'a tq_heap_scheme) res" where
  "tq_queue_destroy tq idx h =
     bindE (assertE (idx < num_queues tq)) (\<lambda>_.
     bindE (arr_get (queues tq) (int idx)) (\<lambda>q.
     bindE (arr_get (free_queues tq) (int idx)) (\<lambda>f.
     bindE (arr_get (locks tq) (int idx)) (\<lambda>lk.
     bindE (tq_empty_queue q h) (\<lambda>h.
     bindE (tq_free_queue q h) (\<lambda>h.
     bindE (tq_empty_queue f h) (\<lambda>h.
     bindE (tq_free_queue f h) (\<lambda>h.
     bindE (foldE (\<lambda>h j. bindE (arr_get (lk_per_thread lk) (int j)) (\<lambda>p. lock_free_per_thread OPS p h))
              h [0..<num_threads tq]) (\<lambda>h.
     bindE (lock_free OPS (lk_parent lk) h) (\<lambda>h.
     bindE (mem_free (lk_per_thread_arr lk) h) (\<lambda>h.
     Inr (tq\<lparr>locks := (locks tq)[idx := lk\<lparr>lk_per_thread := [], lk_per_thread_arr := 0\<rparr>]\<rparr>, h))))))))))))"

fun tq_init_queues :: "nat list \<Rightarrow> taskQ_t \<Rightarrow> 'a tq_heap_scheme \<Rightarrow> (nat option \<times> taskQ_t \<times> 'a tq_heap_scheme) res" where
  "tq_init_queues [] tq h = Inr (None, tq, h)"
| "tq_init_queues (i # is) tq h =
     bindE (tq_queue_init tq i h) (\<lambda>(ret, tq, h).
     if ret = 0 then Inr (Some i, tq, h) else tq_init_queues is tq h)"

text \<open>
  \<open>tq_init_normal\<close>: NULL (None) after a failure, when everything allocated so far was freed.
\<close>

definition tq_init_normal :: "os_t \<Rightarrow> nat \<Rightarrow> 'a tq_heap_scheme \<Rightarrow> (taskQ_t option \<times> 'a tq_heap_scheme) res" where
  "tq_init_normal os numThreads h =
     bindE (mem_calloc 1 TQ_SIZE h) (\<lambda>(tq_addr, h).
     if tq_addr = 0 then Inr (None, h)
     else
     bindE (c_div (int numThreads) (loc_get_lgrp_size os)) (\<lambda>nq.
     let nq = nat (if nq = 0 then 1 else nq) in
     bindE (mem_calloc nq 1 h) (\<lambda>(qa, h).
     if qa = 0 then bindE (mem_free tq_addr h) (\<lambda>h. Inr (None, h))
     else
     bindE (mem_calloc nq 1 h) (\<lambda>(fa, h).
     if fa = 0 then bindE (foldE (\<lambda>h p. mem_free p h) h [qa, tq_addr]) (\<lambda>h. Inr (None, h))
     else
     bindE (mem_calloc nq LOCK_SIZE h) (\<lambda>(la, h).
     if la = 0 then bindE (foldE (\<lambda>h p. mem_free p h) h [fa, qa, tq_addr]) (\<lambda>h. Inr (None, h))
     else
     bindE (mem_calloc numThreads 1 h) (\<lambda>(sa, h).
     if sa = 0 then bindE (foldE (\<lambda>h p. mem_free p h) h [la, fa, qa, tq_addr]) (\<lambda>h. Inr (None, h))
     else
     (let tq = \<lparr>tq_self = tq_addr, num_queues = nq, num_threads = numThreads,
                queues = replicate nq 0, queues_arr = qa, free_queues = replicate nq 0, free_queues_arr = fa,
                locks = replicate nq tq_lock_0, locks_arr = la, seeds = replicate numThreads 0, seeds_arr = sa\<rparr>
      in bindE (tq_init_queues [0..<nq] tq h) (\<lambda>(failed, tq, h).
         case failed of
           None \<Rightarrow> Inr (Some tq, h)
         | Some i \<Rightarrow>
             bindE (foldE (\<lambda>(tq, h) i. tq_queue_destroy tq i h) (tq, h) (rev [0..<i])) (\<lambda>(tq, h).
             bindE (foldE (\<lambda>h p. mem_free p h) h [sa, la, fa, qa, tq_addr]) (\<lambda>h.
             Inr (None, h)))))))))))"

definition tq_init :: "os_t \<Rightarrow> nat \<Rightarrow> 'a tq_heap_scheme \<Rightarrow> (taskQ_t option \<times> 'a tq_heap_scheme) res" where
  "tq_init os n h = tq_init_normal os n h"

definition tq_reset :: "taskQ_t \<Rightarrow> nat \<Rightarrow> taskQ_t" where
  "tq_reset tq n = tq"

definition tq_finalize_normal :: "taskQ_t \<Rightarrow> 'a tq_heap_scheme \<Rightarrow> 'a tq_heap_scheme res" where
  "tq_finalize_normal tq h =
     bindE (assertE (queues_arr tq \<noteq> 0)) (\<lambda>_.
     bindE (assertE (free_queues_arr tq \<noteq> 0)) (\<lambda>_.
     bindE (assertE (locks_arr tq \<noteq> 0)) (\<lambda>_.
     bindE (foldE (\<lambda>(tq, h) i. tq_queue_destroy tq i h) (tq, h) [0..<num_queues tq]) (\<lambda>(tq, h).
     foldE (\<lambda>h p. mem_free p h) h
       [queues_arr tq, free_queues_arr tq, locks_arr tq, seeds_arr tq, tq_self tq]))))"

definition tq_finalize :: "taskQ_t \<Rightarrow> 'a tq_heap_scheme \<Rightarrow> 'a tq_heap_scheme res" where
  "tq_finalize tq h = tq_finalize_normal tq h"

section \<open>Enqueueing\<close>

definition tq_enqueue ::
  "rand_r_t \<Rightarrow> taskQ_t \<Rightarrow> task_t \<Rightarrow> int \<Rightarrow> nat \<Rightarrow> 'a tq_heap_scheme \<Rightarrow> (int \<times> taskQ_t \<times> 'a tq_heap_scheme) res" where
  "tq_enqueue rand_r tq task lgrp tid h =
     bindE (mem_malloc ENTRY_SIZE h) (\<lambda>(entry, h).
     if entry = 0 then Inr (-1, tq, h)
     else
     let h = h\<lparr>tq_task := (tq_task h)(entry := task)\<rparr> in
     bindE (if lgrp < 0 then
              bindE (arr_get (seeds tq) (int tid)) (\<lambda>s.
              let (r, s') = rand_r s in Inr (r, tq\<lparr>seeds := (seeds tq)[tid := s']\<rparr>))
            else Inr (lgrp, tq)) (\<lambda>(index, tq).
     bindE (c_rem index (int (num_queues tq))) (\<lambda>index.
     bindE (arr_get (queues tq) index) (\<lambda>q.
     bindE (arr_get (locks tq) index) (\<lambda>lk.
     bindE (arr_get (lk_per_thread lk) (int tid)) (\<lambda>l.
     bindE (lock_acquire OPS l h) (\<lambda>h.
     bindE (queue_push_back q (elem_of entry) h) (\<lambda>h.
     bindE (lock_release OPS l h) (\<lambda>h.
     Inr (0, tq, h))))))))))"

definition tq_enqueue_seq ::
  "int \<Rightarrow> taskQ_t \<Rightarrow> task_t \<Rightarrow> int \<Rightarrow> 'a tq_heap_scheme \<Rightarrow> (int \<times> 'a tq_heap_scheme) res" where
  "tq_enqueue_seq rnd tq task lgrp h =
     bindE (mem_malloc ENTRY_SIZE h) (\<lambda>(entry, h).
     if entry = 0 then Inr (-1, h)
     else
     let h = h\<lparr>tq_task := (tq_task h)(entry := task)\<rparr> in
     bindE (c_rem (if lgrp < 0 then rnd else lgrp) (int (num_queues tq))) (\<lambda>index.
     bindE (arr_get (queues tq) index) (\<lambda>q.
     bindE (queue_push_back q (elem_of entry) h) (\<lambda>h.
     Inr (0, h)))))"

section \<open>Dequeueing\<close>

type_synonym 'h dequeue_fn = "taskQ_t \<Rightarrow> nat \<Rightarrow> nat \<Rightarrow> 'h \<Rightarrow> (int \<times> addr \<times> 'h) res"

definition tq_elem_into_free_seq :: "'a tq_heap_scheme dequeue_fn" where
  "tq_elem_into_free_seq tq idx tid h =
     bindE (arr_get (queues tq) (int idx)) (\<lambda>q.
     bindE (queue_pop_front q 0 h) (\<lambda>(ret, queue_elem, h).
     bindE (if ret \<noteq> 0 then
              bindE (arr_get (free_queues tq) (int idx)) (\<lambda>f. queue_push_back f queue_elem h)
            else Inr h) (\<lambda>h.
     Inr (ret, queue_elem, h))))"

definition tq_elem_into_free :: "'a tq_heap_scheme dequeue_fn" where
  "tq_elem_into_free tq idx tid h =
     bindE (arr_get (locks tq) (int idx)) (\<lambda>lk.
     bindE (arr_get (lk_per_thread lk) (int tid)) (\<lambda>l.
     bindE (lock_acquire OPS l h) (\<lambda>h.
     bindE (tq_elem_into_free_seq tq idx tid h) (\<lambda>(ret, qe, h).
     bindE (lock_release OPS l h) (\<lambda>h.
     Inr (ret, qe, h))))))"

text \<open>The stealing loop; its \<open>num_queues\<close> rounds are enough (\<open>steal_spec\<close> below).\<close>

fun steal ::
  "nat \<Rightarrow> 'h dequeue_fn \<Rightarrow> taskQ_t \<Rightarrow> nat \<Rightarrow> nat \<Rightarrow> nat \<Rightarrow> int \<Rightarrow> addr \<Rightarrow> 'h \<Rightarrow> (int \<times> addr \<times> 'h) res" where
  "steal 0 dequeue_fn tq index i tid ret qe h = Inl No_fuel"
| "steal (Suc fuel) dequeue_fn tq index i tid ret qe h =
     (if ret = 0 \<and> i \<noteq> index then
        bindE (dequeue_fn tq i tid h) (\<lambda>(ret, qe, h).
        steal fuel dequeue_fn tq index ((i + 1) mod num_queues tq) tid ret qe h)
      else Inr (ret, qe, h))"

definition tq_dequeue_normal_internal ::
  "rand_r_t \<Rightarrow> taskQ_t \<Rightarrow> int \<Rightarrow> nat \<Rightarrow> 'a tq_heap_scheme dequeue_fn \<Rightarrow> 'a tq_heap_scheme \<Rightarrow>
   (int \<times> task_t \<times> taskQ_t \<times> 'a tq_heap_scheme) res" where
  "tq_dequeue_normal_internal rand_r tq lgrp tid dequeue_fn h =
     bindE (if lgrp < 0 then
              bindE (arr_get (seeds tq) (int tid)) (\<lambda>s.
              let (r, s') = rand_r s in Inr (r, tq\<lparr>seeds := (seeds tq)[tid := s']\<rparr>))
            else Inr (lgrp, tq)) (\<lambda>(index, tq).
     bindE (c_rem index (int (num_queues tq))) (\<lambda>index.
     bindE (if index < 0 then Inl Out_of_bounds else Inr (nat index)) (\<lambda>index.
     bindE (dequeue_fn tq index tid h) (\<lambda>(ret, queue_elem, h).
     bindE (steal (num_queues tq) dequeue_fn tq index ((index + 1) mod num_queues tq) tid ret queue_elem h)
       (\<lambda>(ret, queue_elem, h).
     if ret = 0 then Inr (0, task_0, tq, h)
     else
       (let entry = list_entry queue_elem ENTRY_OFF in
        bindE (assertE (entry \<noteq> 0)) (\<lambda>_.
        if live h entry then Inr (1, tq_task h entry, tq, h) else Inl Bad_access)))))))"

definition tq_dequeue_normal_seq ::
  "rand_r_t \<Rightarrow> taskQ_t \<Rightarrow> int \<Rightarrow> nat \<Rightarrow> 'a tq_heap_scheme \<Rightarrow> (int \<times> task_t \<times> taskQ_t \<times> 'a tq_heap_scheme) res" where
  "tq_dequeue_normal_seq rand_r tq lgrp tid h =
     tq_dequeue_normal_internal rand_r tq lgrp tid tq_elem_into_free_seq h"

definition tq_dequeue_normal ::
  "rand_r_t \<Rightarrow> taskQ_t \<Rightarrow> int \<Rightarrow> nat \<Rightarrow> 'a tq_heap_scheme \<Rightarrow> (int \<times> task_t \<times> taskQ_t \<times> 'a tq_heap_scheme) res" where
  "tq_dequeue_normal rand_r tq lgrp tid h =
     tq_dequeue_normal_internal rand_r tq lgrp tid tq_elem_into_free h"

definition tq_dequeue ::
  "rand_r_t \<Rightarrow> taskQ_t \<Rightarrow> int \<Rightarrow> nat \<Rightarrow> 'a tq_heap_scheme \<Rightarrow> (int \<times> task_t \<times> taskQ_t \<times> 'a tq_heap_scheme) res" where
  "tq_dequeue rand_r tq lgrp tid h = tq_dequeue_normal rand_r tq lgrp tid h"

end
