(* ===== verification/TaskQ_Correct.thy ===== *)
theory TaskQ_Correct
  imports TaskQ
begin

text \<open>
  What the task queue promises. \<open>tq_ok h tq qs fs\<close>: the structure is well formed in heap \<open>h\<close>, its
  queues hold the entries \<open>qs\<close> and its free queues the entries \<open>fs\<close>. Enqueueing appends to one
  queue; dequeueing takes the front of the first queue that is not empty, searching round from
  the given one; finalizing frees exactly the objects of the task queue.
\<close>

section \<open>Well-formed task queues\<close>

definition tq_blocks :: "taskQ_t \<Rightarrow> addr list" where
  "tq_blocks tq = [queues_arr tq, free_queues_arr tq, locks_arr tq, seeds_arr tq, tq_self tq] @
     map lk_per_thread_arr (locks tq) @ map lk_parent (locks tq)"

definition tq_heads :: "taskQ_t \<Rightarrow> addr list" where
  "tq_heads tq = queues tq @ free_queues tq"

definition tq_shape :: "taskQ_t \<Rightarrow> addr list list \<Rightarrow> addr list list \<Rightarrow> bool" where
  "tq_shape tq qs fs \<longleftrightarrow>
     0 < num_queues tq \<and> length (queues tq) = num_queues tq \<and> length (free_queues tq) = num_queues tq \<and>
     length (locks tq) = num_queues tq \<and> length qs = num_queues tq \<and> length fs = num_queues tq \<and>
     length (seeds tq) = num_threads tq \<and>
     (\<forall>lk \<in> set (locks tq). lk_per_thread lk = replicate (num_threads tq) (lk_parent lk))"

definition tq_ok :: "'a tq_heap_scheme \<Rightarrow> taskQ_t \<Rightarrow> addr list list \<Rightarrow> addr list list \<Rightarrow> bool" where
  "tq_ok h tq qs fs \<longleftrightarrow>
     tq_shape tq qs fs \<and> heap_ok h \<and> rings h (tq_heads tq) (qs @ fs) \<and>
     (\<forall>lk \<in> set (locks tq). mtx_held h (lk_parent lk) = Some False) \<and>
     distinct (tq_blocks tq) \<and> (\<forall>b \<in> set (tq_blocks tq). objs h b \<noteq> None) \<and>
     set (tq_blocks tq) \<inter> (set (tq_heads tq) \<union> set (concat (qs @ fs))) = {}"

text \<open>What an operation on the queues leaves alone.\<close>

definition same_but_links :: "'a tq_heap_scheme \<Rightarrow> 'a tq_heap_scheme \<Rightarrow> bool" where
  "same_but_links h h' \<longleftrightarrow> (\<exists>n p. h' = h\<lparr>li_next := n, li_prev := p\<rparr>)"

lemma same_but_links_refl [simp]: "same_but_links h h"
  unfolding same_but_links_def by (rule exI [of _ "li_next h"], rule exI [of _ "li_prev h"]) simp

lemma same_but_links_trans: "same_but_links h h' \<Longrightarrow> same_but_links h' h'' \<Longrightarrow> same_but_links h h''"
  unfolding same_but_links_def by force

lemma links_only_same: "links_only A h h' \<Longrightarrow> same_but_links h h'"
  unfolding links_only_def same_but_links_def by blast

lemma same_but_links_sel:
  assumes "same_but_links h h'"
  shows "objs h' = objs h" "live h' = live h" "brk h' = brk h" "mem_limit h' = mem_limit h"
    "mtx h' = mtx h" "tq_task h' = tq_task h" "mtx_held h' = mtx_held h"
  using assms unfolding same_but_links_def by (auto simp: mtx_held_def fun_eq_iff)

text \<open>The queues do not depend on the mutexes and the tasks.\<close>

lemma rings_cong:
  assumes "objs h' = objs h" "live h' = live h" "li_next h' = li_next h" "li_prev h' = li_prev h"
  shows "rings h' hds ess = rings h hds ess"
proof -
  have "link h' p xs q = link h p xs q" for p xs q by (rule link_cong) (simp_all add: assms)
  then show ?thesis by (simp add: rings_def dll_def assms)
qed

lemma heap_ok_cong:
  assumes "objs h' = objs h" "live h' = live h" "brk h' = brk h"
  shows "heap_ok h' = heap_ok h"
  by (simp add: heap_ok_def assms)

lemma tq_ok_rings:
  assumes "tq_ok h tq qs fs" and "same_but_links h h'" and "rings h' (tq_heads tq) (qs' @ fs')"
    and "length qs' = length qs" "length fs' = length fs"
    and "set (concat (qs' @ fs')) \<subseteq> set (concat (qs @ fs))"
  shows "tq_ok h' tq qs' fs'"
proof -
  have "heap_ok h'" using assms(1,2) by (subst heap_ok_cong) (auto simp: same_but_links_sel tq_ok_def)
  moreover have "tq_shape tq qs' fs'" using assms(1,4,5) by (simp add: tq_ok_def tq_shape_def)
  moreover have "set (tq_blocks tq) \<inter> (set (tq_heads tq) \<union> set (concat (qs' @ fs'))) = {}"
    using assms(1,6) unfolding tq_ok_def by blast
  ultimately show ?thesis using assms(1,3) same_but_links_sel [OF assms(2)] by (simp add: tq_ok_def)
qed

section \<open>Moving an entry to the free queue\<close>

lemma tq_elem_into_free_seq_empty:
  assumes "tq_ok h tq qs fs" and "idx < num_queues tq" and "qs ! idx = []"
  shows "tq_elem_into_free_seq tq idx tid h = Inr (0, 0, h)"
proof -
  have i: "idx < length (tq_heads tq)" "tq_heads tq ! idx = queues tq ! idx" "(qs @ fs) ! idx = []"
    "idx < length (queues tq)"
    using assms by (simp_all add: tq_ok_def tq_shape_def tq_heads_def nth_append)
  have "queue_pop_front (queues tq ! idx) 0 h = Inr (0, 0, h)"
    using rings_pop_empty [of h "tq_heads tq" "qs @ fs" idx 0] assms(1) i by (simp add: tq_ok_def)
  then show ?thesis using i(4) by (simp add: tq_elem_into_free_seq_def)
qed

lemma tq_elem_into_free_seq_some:
  assumes "tq_ok h tq qs fs" and "idx < num_queues tq" and "qs ! idx = x # xs"
  shows "\<exists>h'. tq_elem_into_free_seq tq idx tid h = Inr (1, elem_of x, h') \<and>
    tq_ok h' tq (qs[idx := xs]) (fs[idx := fs ! idx @ [x]]) \<and> same_but_links h h'"
proof -
  let ?j = "num_queues tq + idx"
  have sh: "length (queues tq) = num_queues tq" "length (free_queues tq) = num_queues tq"
    "length qs = num_queues tq" "length fs = num_queues tq"
    using assms(1) by (simp_all add: tq_ok_def tq_shape_def)
  have i: "idx < length (tq_heads tq)" "?j < length (tq_heads tq)" "idx \<noteq> ?j" "(qs @ fs) ! idx = x # xs"
    "tq_heads tq ! idx = queues tq ! idx" "tq_heads tq ! ?j = free_queues tq ! idx" "(qs @ fs) ! ?j = fs ! idx"
    using assms sh by (simp_all add: tq_heads_def nth_append)
  obtain h1 h2 where h: "queue_pop_front (queues tq ! idx) 0 h = Inr (1, elem_of x, h1)"
    "queue_push_back (free_queues tq ! idx) (elem_of x) h1 = Inr h2"
    "rings h2 (tq_heads tq) ((qs @ fs)[idx := xs, ?j := fs ! idx @ [x]])" "links_only UNIV h h2"
    using rings_transfer [OF _ _ i(1-4), of h 0] assms(1) i by (auto simp: tq_ok_def)
  have e: "(qs @ fs)[idx := xs, ?j := fs ! idx @ [x]] = qs[idx := xs] @ fs[idx := fs ! idx @ [x]]"
    using assms(2) sh by (simp add: list_update_append)
  have s: "same_but_links h h2" using h(4) by (rule links_only_same)
  have "tq_ok h2 tq (qs[idx := xs]) (fs[idx := fs ! idx @ [x]])"
  proof (rule tq_ok_rings [OF assms(1) s])
    show "rings h2 (tq_heads tq) (qs[idx := xs] @ fs[idx := fs ! idx @ [x]])" using h(3) e by simp
    have "set (x # xs) \<subseteq> set (concat qs)" using nth_subset_concat [of idx qs] assms(2,3) sh by simp
    show "set (concat (qs[idx := xs] @ fs[idx := fs ! idx @ [x]])) \<subseteq> set (concat (qs @ fs))"
    proof -
      have "set (concat (qs[idx := xs])) \<subseteq> set (concat qs)"
        using set_concat_update [of qs idx xs] \<open>set (x # xs) \<subseteq> _\<close> by auto
      moreover have "set (fs ! idx) \<subseteq> set (concat fs)" using nth_subset_concat [of idx fs] assms(2) sh by simp
      then have "set (concat (fs[idx := fs ! idx @ [x]])) \<subseteq> insert x (set (concat fs))"
        using set_concat_update [of fs idx "fs ! idx @ [x]"] by auto
      ultimately show ?thesis using \<open>set (x # xs) \<subseteq> _\<close> by auto
    qed
  qed simp_all
  moreover have "tq_elem_into_free_seq tq idx tid h = Inr (1, elem_of x, h2)"
    using h(1,2) assms(2) sh by (simp add: tq_elem_into_free_seq_def)
  ultimately show ?thesis using s by blast
qed


section \<open>The contract of a dequeue function\<close>

text \<open>
  What \<open>tq_dequeue_normal_internal\<close> relies on of its argument \<open>dequeue_fn\<close>; both functions that are
  passed to it satisfy the contract.
\<close>

locale dequeuer =
  fixes dq :: "'a tq_heap_scheme dequeue_fn"
  assumes dq_empty: "tq_ok h tq qs fs \<Longrightarrow> idx < num_queues tq \<Longrightarrow> tid < num_threads tq \<Longrightarrow> qs ! idx = [] \<Longrightarrow>
      dq tq idx tid h = Inr (0, 0, h)"
    and dq_some: "tq_ok h tq qs fs \<Longrightarrow> idx < num_queues tq \<Longrightarrow> tid < num_threads tq \<Longrightarrow> qs ! idx = x # xs \<Longrightarrow>
      \<exists>h'. dq tq idx tid h = Inr (1, elem_of x, h') \<and>
        tq_ok h' tq (qs[idx := xs]) (fs[idx := fs ! idx @ [x]]) \<and> same_but_links h h'"

interpretation dq_seq: dequeuer tq_elem_into_free_seq
  by unfold_locales (auto dest: tq_elem_into_free_seq_empty tq_elem_into_free_seq_some)

text \<open>Holding the lock changes neither the queues nor what an operation does to them.\<close>

lemma with_lock:
  fixes h h' :: "'a tq_heap_scheme"
  assumes "mtx_held h l = Some False" and "f h = Inr (r, h')" and "\<And>m. f (h\<lparr>mtx := m\<rparr>) = Inr (r, h'\<lparr>mtx := m\<rparr>)"
    and "mtx h' = mtx h" and "live h' l"
  shows "bindE (lock_acquire OPS l h) (\<lambda>h. bindE (f h) (\<lambda>(r, h). bindE (lock_release OPS l h) (\<lambda>h. Inr (r, h)))) =
    Inr (r, h')"
proof -
  have f: "f (set_mtx h l True) = Inr (r, set_mtx h' l True)"
    using assms(3) [of "(mtx h)(l := Mtx_locked)"] assms(4) by (simp add: set_mtx_def)
  have h': "mtx_held h' l = Some False" using assms(1,4,5) by (auto simp: mtx_held_def split: if_splits)
  then have held: "mtx_held (set_mtx h' l True) l = Some True" using ptm.state_upd by blast
  have "set_mtx (set_mtx h' l True) l False = h'"
    using h' by (auto simp: set_mtx_def mtx_held_def fun_upd_idem_iff split: if_splits mtx_state.splits)
  with ptm.critical_section(1) [where f = f and l = l and h = h, OF assms(1) f held] show ?thesis by simp
qed

lemma acc_mtx:
  "rd_next (h\<lparr>mtx := m\<rparr>) p = rd_next h p" "rd_prev (h\<lparr>mtx := m\<rparr>) p = rd_prev h p"
  "wr_next p v (h\<lparr>mtx := m\<rparr>) = bindE (wr_next p v h) (\<lambda>h. Inr (h\<lparr>mtx := m\<rparr>))"
  "wr_prev p v (h\<lparr>mtx := m\<rparr>) = bindE (wr_prev p v h) (\<lambda>h. Inr (h\<lparr>mtx := m\<rparr>))"
  by (simp_all add: rd_next_def rd_prev_def wr_next_def wr_prev_def)

lemma queue_mtx:
  "queue_pop_front q e (h\<lparr>mtx := m\<rparr>) = bindE (queue_pop_front q e h) (\<lambda>(r, x, h). Inr (r, x, h\<lparr>mtx := m\<rparr>))"
  "queue_push_back q a (h\<lparr>mtx := m\<rparr>) = bindE (queue_push_back q a h) (\<lambda>h. Inr (h\<lparr>mtx := m\<rparr>))"
  by (simp_all add: queue_pop_front_def queue_push_back_def list_remove_head_def list_remove_def list_add_tail_def
      acc_mtx bindE_assoc Let_def if_distrib [of "\<lambda>x. bindE x _"] cong: if_cong)

lemma tq_elem_into_free_seq_mtx:
  "tq_elem_into_free_seq tq idx tid h = Inr (r, e, h') \<Longrightarrow>
   tq_elem_into_free_seq tq idx tid (h\<lparr>mtx := m\<rparr>) = Inr (r, e, h'\<lparr>mtx := m\<rparr>)"
  by (auto simp: tq_elem_into_free_seq_def queue_mtx bindE_assoc bindE_Inr_conv case_prod_beta split: if_splits)

lemma tq_elem_into_free_eq:
  assumes "tq_ok h tq qs fs" and "idx < num_queues tq" "tid < num_threads tq"
    and "tq_elem_into_free_seq tq idx tid h = Inr (r, e, h')" and "same_but_links h h'"
  shows "tq_elem_into_free tq idx tid h = Inr (r, e, h')"
proof -
  let ?lk = "locks tq ! idx" and ?l = "lk_parent (locks tq ! idx)"
  have lk: "idx < length (locks tq)" "?lk \<in> set (locks tq)" using assms(1,2) by (simp_all add: tq_ok_def tq_shape_def)
  then have pt: "tid < length (lk_per_thread ?lk)" "lk_per_thread ?lk ! tid = ?l"
    using assms(1,3) by (simp_all add: tq_ok_def tq_shape_def)
  have held: "mtx_held h ?l = Some False" using assms(1) lk(2) by (simp add: tq_ok_def)
  then have live: "live h' ?l"
    using same_but_links_sel(2) [OF assms(5)] by (auto simp: mtx_held_def split: if_splits)
  let ?f = "\<lambda>h. bindE (tq_elem_into_free_seq tq idx tid h) (\<lambda>(r, e, h). Inr ((r, e), h))"
  have "bindE (lock_acquire OPS ?l h) (\<lambda>h. bindE (?f h) (\<lambda>(r, h). bindE (lock_release OPS ?l h) (\<lambda>h. Inr (r, h)))) =
    Inr ((r, e), h')"
    using assms(4) tq_elem_into_free_seq_mtx [OF assms(4)] same_but_links_sel(5) [OF assms(5)] live held
    by (intro with_lock) simp_all
  then show ?thesis
    using lk pt by (fastforce simp: tq_elem_into_free_def bindE_Inr_conv)
qed

interpretation dq_lock: dequeuer tq_elem_into_free
proof unfold_locales
  fix h :: "'a tq_heap_scheme" and tq qs fs idx tid
  assume a: "tq_ok h tq qs fs" "idx < num_queues tq" "tid < num_threads tq"
  show "tq_elem_into_free tq idx tid h = Inr (0, 0, h)" if "qs ! idx = []"
    using tq_elem_into_free_eq [OF a tq_elem_into_free_seq_empty [OF a(1,2) that]] by simp
  show "\<exists>h'. tq_elem_into_free tq idx tid h = Inr (1, elem_of x, h') \<and>
      tq_ok h' tq (qs[idx := xs]) (fs[idx := fs ! idx @ [x]]) \<and> same_but_links h h'" if "qs ! idx = x # xs" for x xs
    using tq_elem_into_free_seq_some [OF a(1,2) that] tq_elem_into_free_eq [OF a] by blast
qed


section \<open>Enqueueing\<close>

definition same_objs_and_tasks :: "'a tq_heap_scheme \<Rightarrow> 'a tq_heap_scheme \<Rightarrow> addr \<Rightarrow> task_t \<Rightarrow> bool" where
  "same_objs_and_tasks h h' e t \<longleftrightarrow>
     objs h' = (objs h)(e := Some ENTRY_SIZE) \<and> objs h e = None \<and>
     tq_task h' = (tq_task h)(e := t) \<and> mtx h' = mtx h \<and> brk h' = brk h + ENTRY_SIZE \<and> mem_limit h' = mem_limit h"

lemma mem_malloc_more:
  assumes "mem_malloc n h = Inr (a, h')"
  shows "mtx h' = mtx h" "tq_task h' = tq_task h" "live h p \<Longrightarrow> live h' p"
  using assms by (auto simp: mem_malloc_def malloc_def bindE_Inr_conv split: if_splits)

lemma mtx_held_mono:
  "mtx_held h l = Some b \<Longrightarrow> mtx h' = mtx h \<Longrightarrow> (live h l \<Longrightarrow> live h' l) \<Longrightarrow> mtx_held h' l = Some b"
  by (auto simp: mtx_held_def split: if_splits)

lemma tq_push_new:
  assumes "tq_ok h tq qs fs" and "idx < num_queues tq" and "mem_malloc ENTRY_SIZE h = Inr (e, h1)"
    and "h2 = h1\<lparr>tq_task := (tq_task h1)(e := t)\<rparr>"
  shows "\<exists>h'. queue_push_back (queues tq ! idx) (elem_of e) h2 = Inr h' \<and>
    tq_ok h' tq (qs[idx := qs ! idx @ [e]]) fs \<and> same_objs_and_tasks h h' e t"
proof -
  have ok: "heap_ok h" "rings h (tq_heads tq) (qs @ fs)" and sh: "tq_shape tq qs fs"
    and lkok: "\<forall>lk \<in> set (locks tq). mtx_held h (lk_parent lk) = Some False"
    and bl: "distinct (tq_blocks tq)" "\<forall>b \<in> set (tq_blocks tq). objs h b \<noteq> None"
      "set (tq_blocks tq) \<inter> (set (tq_heads tq) \<union> set (concat (qs @ fs))) = {}"
    using assms(1) by (simp_all add: tq_ok_def)
  note m = heap_ok_malloc [OF ok(1) assms(3)] and r = rings_malloc [OF ok assms(3)]
  have pos: "0 < ENTRY_SIZE" by (simp add: ENTRY_SIZE_def)
  have h2: "heap_ok h2" "rings h2 (tq_heads tq) (qs @ fs)"
    using m(1) [OF pos] r(1) [OF pos] heap_ok_cong [of h2 h1] rings_cong [of h2 h1] assms(4) by simp_all
  have i: "idx < length (tq_heads tq)" "tq_heads tq ! idx = queues tq ! idx" "(qs @ fs) ! idx = qs ! idx"
    using sh assms(2) by (simp_all add: tq_shape_def tq_heads_def nth_append)
  have "objs h2 e = Some ENTRY_SIZE" using m(4) pos assms(4) by simp
  from rings_push [OF h2 i(1) this r(2) [OF pos]] obtain h' where h':
    "queue_push_back (queues tq ! idx) (elem_of e) h2 = Inr h'"
    "rings h' (tq_heads tq) ((qs @ fs)[idx := (qs @ fs) ! idx @ [e]])" "heap_ok h'" "links_only UNIV h2 h'"
    unfolding i(2) by blast
  have same: "same_but_links h2 h'" by (rule links_only_same [OF h'(4)])
  note sel = same_but_links_sel [OF same]
  have objs': "objs h' = (objs h)(e := Some ENTRY_SIZE)" "objs h e = None" using sel(1) m(3,4) pos assms(4) by simp_all
  have fr: "same_objs_and_tasks h h' e t"
    using sel objs' m(5,6) pos assms(4) mem_malloc_more(1,2) [OF assms(3)] by (simp add: same_objs_and_tasks_def)
  have len: "idx < length qs" "idx < length (queues tq)" using sh assms(2) by (simp_all add: tq_shape_def)
  have upd: "(qs @ fs)[idx := (qs @ fs) ! idx @ [e]] = qs[idx := qs ! idx @ [e]] @ fs"
    using len i(3) by (simp add: list_update_append1)
  have "mtx_held h' (lk_parent lk) = Some False" if "lk \<in> set (locks tq)" for lk
  proof (rule mtx_held_mono)
    show "mtx_held h (lk_parent lk) = Some False" using lkok that by blast
    show "mtx h' = mtx h" using sel(5) assms(4) mem_malloc_more(1) [OF assms(3)] by simp
    show "live h (lk_parent lk) \<Longrightarrow> live h' (lk_parent lk)"
      using sel(2) assms(4) mem_malloc_more(3) [OF assms(3)] by simp
  qed
  moreover have "tq_shape tq (qs[idx := qs ! idx @ [e]]) fs" using sh by (simp add: tq_shape_def)
  moreover have "\<forall>b \<in> set (tq_blocks tq). objs h' b \<noteq> None" "e \<notin> set (tq_blocks tq)"
    using bl(2) objs' by auto
  moreover have "set (tq_blocks tq) \<inter> (set (tq_heads tq) \<union> set (concat (qs[idx := qs ! idx @ [e]] @ fs))) = {}"
  proof -
    have "set (concat (qs[idx := qs ! idx @ [e]])) \<subseteq> insert e (set (concat qs))"
      using set_concat_update [of qs idx "qs ! idx @ [e]"] nth_subset_concat [OF len(1)] by auto
    then show ?thesis using bl(3) \<open>e \<notin> set (tq_blocks tq)\<close> by auto
  qed
  ultimately have "tq_ok h' tq (qs[idx := qs ! idx @ [e]]) fs"
    using h'(2,3) bl(1) upd by (simp add: tq_ok_def)
  then show ?thesis using h'(1) fr by blast
qed


lemma tq_enqueue_seq_ok:
  assumes "tq_ok h tq qs fs" and "brk h + ENTRY_SIZE \<le> mem_limit h"
    and "r = (if lgrp < 0 then rnd else lgrp)" and "0 \<le> r" and "idx = nat (r mod int (num_queues tq))"
  shows "\<exists>h' e. tq_enqueue_seq rnd tq t lgrp h = Inr (0, h') \<and> idx < num_queues tq \<and>
    tq_ok h' tq (qs[idx := qs ! idx @ [e]]) fs \<and> same_objs_and_tasks h h' e t"
proof -
  have n: "0 < num_queues tq" "length (queues tq) = num_queues tq" and hok: "heap_ok h"
    using assms(1) by (simp_all add: tq_ok_def tq_shape_def)
  have idx: "idx < num_queues tq" "int idx = r mod int (num_queues tq)" using n assms(5) mod_index [of "num_queues tq" r] by simp_all
  obtain e h1 where m: "mem_malloc ENTRY_SIZE h = Inr (e, h1)" "e \<noteq> 0"
    using mem_malloc_ok [OF assms(2) hok] heap_okD(1) [OF hok] by simp
  obtain h' where h': "queue_push_back (queues tq ! idx) (elem_of e) (h1\<lparr>tq_task := (tq_task h1)(e := t)\<rparr>) = Inr h'"
    "tq_ok h' tq (qs[idx := qs ! idx @ [e]]) fs" "same_objs_and_tasks h h' e t"
    using tq_push_new [OF assms(1) idx(1) m(1) refl] by blast
  have "c_rem r (int (num_queues tq)) = Inr (int idx)"
    using assms(4) n(1) idx(2) by (simp add: c_rem_pos)
  moreover have "arr_get (queues tq) (int idx) = Inr (queues tq ! idx)" using idx(1) n(2) by simp
  ultimately have "tq_enqueue_seq rnd tq t lgrp h = Inr (0, h')"
    using m h'(1) assms(3) by (simp add: tq_enqueue_seq_def Let_def)
  then show ?thesis using h' idx(1) by blast
qed

lemma tq_enqueue_seq_exhausted: "mem_limit h < brk h + ENTRY_SIZE \<Longrightarrow> tq_enqueue_seq rnd tq t lgrp h = Inl Assert_failed"
  by (simp add: tq_enqueue_seq_def mem_malloc_exhausted)

lemma tq_enqueue_ok:
  assumes "tq_ok h tq qs fs" and "brk h + ENTRY_SIZE \<le> mem_limit h" and "tid < num_threads tq"
    and "r = (if lgrp < 0 then fst (rand_r (seeds tq ! tid)) else lgrp)" and "0 \<le> r"
    and "idx = nat (r mod int (num_queues tq))"
  shows "\<exists>tq' h' e. tq_enqueue rand_r tq t lgrp tid h = Inr (0, tq', h') \<and> idx < num_queues tq \<and>
    tq' = (if lgrp < 0 then tq\<lparr>seeds := (seeds tq)[tid := snd (rand_r (seeds tq ! tid))]\<rparr> else tq) \<and>
    tq_ok h' tq (qs[idx := qs ! idx @ [e]]) fs \<and> same_objs_and_tasks h h' e t"
proof -
  have n: "0 < num_queues tq" "length (queues tq) = num_queues tq" "length (seeds tq) = num_threads tq"
    "length (locks tq) = num_queues tq" and hok: "heap_ok h"
    using assms(1) by (simp_all add: tq_ok_def tq_shape_def)
  have idx: "idx < num_queues tq" "int idx = r mod int (num_queues tq)" using n assms(6) mod_index [of "num_queues tq" r] by simp_all
  let ?lk = "locks tq ! idx"
  have lk: "?lk \<in> set (locks tq)" using idx(1) n(4) by simp
  then have pt: "lk_per_thread ?lk = replicate (num_threads tq) (lk_parent ?lk)" "mtx_held h (lk_parent ?lk) = Some False"
    using assms(1) by (simp_all add: tq_ok_def tq_shape_def)
  obtain e h1 where m: "mem_malloc ENTRY_SIZE h = Inr (e, h1)" "e \<noteq> 0"
    using mem_malloc_ok [OF assms(2) hok] heap_okD(1) [OF hok] by simp
  let ?h = "h1\<lparr>tq_task := (tq_task h1)(e := t)\<rparr>"
  obtain h' where h': "queue_push_back (queues tq ! idx) (elem_of e) ?h = Inr h'"
    "tq_ok h' tq (qs[idx := qs ! idx @ [e]]) fs" "same_objs_and_tasks h h' e t"
    using tq_push_new [OF assms(1) idx(1) m(1) refl] by blast
  have held': "mtx_held h' (lk_parent ?lk) = Some False" using h'(2) lk by (simp add: tq_ok_def)
  have held: "mtx_held ?h (lk_parent ?lk) = Some False"
    by (rule mtx_held_mono [OF pt(2)]) (simp_all add: mem_malloc_more [OF m(1)])
  let ?f = "\<lambda>h. bindE (queue_push_back (queues tq ! idx) (elem_of e) h) (\<lambda>h. Inr ((), h))"
  have "mtx h' = mtx ?h" using h'(3) mem_malloc_more(1) [OF m(1)] by (simp add: same_objs_and_tasks_def)
  then have "bindE (lock_acquire OPS (lk_parent ?lk) ?h)
      (\<lambda>h. bindE (?f h) (\<lambda>(r, h). bindE (lock_release OPS (lk_parent ?lk) h) (\<lambda>h. Inr (r, h)))) = Inr ((), h')"
    using held held' h'(1) by (intro with_lock) (auto simp: queue_mtx mtx_held_def split: if_splits)
  then have sec: "bindE (lock_acquire OPS (lk_parent ?lk) ?h) (\<lambda>h. bindE (queue_push_back (queues tq ! idx) (elem_of e) h)
      (\<lambda>h. bindE (lock_release OPS (lk_parent ?lk) h) (\<lambda>h. Inr (0, tq', h)))) = Inr (0 :: int, tq', h')" for tq'
    by (auto simp: bindE_assoc bindE_Inr_conv)
  have "c_rem r (int (num_queues tq)) = Inr (int idx)" using assms(5) n(1) idx(2) by (simp add: c_rem_pos)
  moreover have "arr_get (queues tq) (int idx) = Inr (queues tq ! idx)" "arr_get (locks tq) (int idx) = Inr ?lk"
    "arr_get (lk_per_thread ?lk) (int tid) = Inr (lk_parent ?lk)" "arr_get (seeds tq) (int tid) = Inr (seeds tq ! tid)"
    using idx(1) n pt(1) assms(3) by simp_all
  ultimately have "tq_enqueue rand_r tq t lgrp tid h =
      Inr (0, if lgrp < 0 then tq\<lparr>seeds := (seeds tq)[tid := snd (rand_r (seeds tq ! tid))]\<rparr> else tq, h')"
    using m(1,2) sec assms(4) by (cases "lgrp < 0") (simp_all add: tq_enqueue_def Let_def case_prod_beta)
  then show ?thesis using h'(2,3) idx(1) by blast
qed

section \<open>Dequeueing\<close>

text \<open>
  The queue a dequeue takes from: the first one that is not empty, searching round from \<open>index\<close>.
\<close>

definition victim :: "nat \<Rightarrow> nat \<Rightarrow> 'a list list \<Rightarrow> nat option" where
  "victim n index qs = find (\<lambda>j. qs ! j \<noteq> []) (map (\<lambda>k. (index + k) mod n) [0..<n])"

lemma victim_None: "0 < n \<Longrightarrow> victim n index qs = None \<longleftrightarrow> (\<forall>j < n. qs ! j = [])"
proof -
  assume n: "0 < n"
  have "\<exists>k < n. j = (index + k) mod n" if "j < n" for j
  proof (intro exI conjI)
    let ?k = "(j + (n - index mod n)) mod n"
    show "?k < n" using n by simp
    have "(index + ?k) mod n = (index mod n + (j + (n - index mod n))) mod n" by (simp add: mod_simps)
    also have "index mod n + (j + (n - index mod n)) = j + n" using mod_less_divisor [OF n, of index] by linarith
    finally show "j = (index + ?k) mod n" using that by simp
  qed
  then show ?thesis using n by (fastforce simp: victim_def find_None_iff)
qed

lemma victim_Some: "victim n index qs = Some j \<Longrightarrow> 0 < n \<Longrightarrow> j < n \<and> qs ! j \<noteq> []"
  by (auto simp: victim_def find_Some_iff)

context dequeuer
begin

lemma steal_spec:
  assumes "tq_ok h tq qs fs" and "tid < num_threads tq" and "index < num_queues tq"
    and "0 < k" "k \<le> num_queues tq" and "num_queues tq - k < fuel"
  shows "case find (\<lambda>j. qs ! j \<noteq> []) (map (\<lambda>k. (index + k) mod num_queues tq) [k..<num_queues tq]) of
      None \<Rightarrow> \<exists>e'. steal fuel dq tq index ((index + k) mod num_queues tq) tid 0 e h = Inr (0, e', h)
    | Some j \<Rightarrow> \<exists>h'. steal fuel dq tq index ((index + k) mod num_queues tq) tid 0 e h = Inr (1, elem_of (hd (qs ! j)), h') \<and>
        tq_ok h' tq (qs[j := tl (qs ! j)]) (fs[j := fs ! j @ [hd (qs ! j)]]) \<and> same_but_links h h'"
  using assms(4-)
proof (induction fuel arbitrary: k e)
  case (Suc fuel)
  let ?n = "num_queues tq" and ?i = "(index + k) mod num_queues tq"
  show ?case
  proof (cases "k = ?n")
    case True
    then have "?i = index" using assms(3) by simp
    then show ?thesis using True by simp
  next
    case False
    then have k: "k < ?n" using Suc.prems by simp
    have i: "?i \<noteq> index"
    proof
      assume "?i = index"
      then have "(index + k) mod ?n = index mod ?n" using assms(3) by simp
      then have "?n dvd k" by (metis add_diff_cancel_left' mod_eq_dvd_iff_nat le_add1)
      then show False using k Suc.prems(1) by (auto dest: dvd_imp_le)
    qed
    have range: "[k..<?n] = k # [Suc k..<?n]" using k by (rule upt_conv_Cons)
    have lt: "?i < ?n" using assms(3) by simp
    have nxt: "(?i + 1) mod ?n = (index + Suc k) mod ?n" by (simp add: mod_simps)
    show ?thesis
    proof (cases "qs ! ?i")
      case Nil
      have "dq tq ?i tid h = Inr (0, 0, h)" by (rule dq_empty [OF assms(1) lt assms(2) Nil])
      then have eq: "steal (Suc fuel) dq tq index ?i tid 0 e h = steal fuel dq tq index ((index + Suc k) mod ?n) tid 0 0 h"
        using i nxt by (simp only: steal.simps simp_thms if_True bindE_simps prod.case)
      have "num_queues tq - Suc k < fuel" "Suc k \<le> ?n" using k Suc.prems(3) by linarith+
      then show ?thesis
        using Suc.IH [of "Suc k" 0] Nil unfolding eq range by (simp del: steal.simps add_Suc_right)
    next
      case (Cons x xs)
      obtain h' where h': "dq tq ?i tid h = Inr (1, elem_of x, h')"
        "tq_ok h' tq (qs[?i := xs]) (fs[?i := fs ! ?i @ [x]])" "same_but_links h h'"
        using dq_some [OF assms(1) lt assms(2) Cons] by blast
      obtain f where "fuel = Suc f" using Suc.prems k by (cases fuel) auto
      then show ?thesis using i h' Cons range by simp
    qed
  qed
qed simp

lemma dequeue_spec:
  assumes "tq_ok h tq qs fs" and "tid < num_threads tq"
    and "r = (if lgrp < 0 then fst (rand_r (seeds tq ! tid)) else lgrp)" and "0 \<le> r"
    and "index = nat (r mod int (num_queues tq))"
    and "tq' = (if lgrp < 0 then tq\<lparr>seeds := (seeds tq)[tid := snd (rand_r (seeds tq ! tid))]\<rparr> else tq)"
  shows "case victim (num_queues tq) index qs of
      None \<Rightarrow> tq_dequeue_normal_internal rand_r tq lgrp tid dq h = Inr (0, task_0, tq', h)
    | Some j \<Rightarrow> \<exists>h'. tq_dequeue_normal_internal rand_r tq lgrp tid dq h = Inr (1, tq_task h (hd (qs ! j)), tq', h') \<and>
        tq_ok h' tq' (qs[j := tl (qs ! j)]) (fs[j := fs ! j @ [hd (qs ! j)]]) \<and> same_but_links h h'"
proof -
  let ?n = "num_queues tq"
  have n: "0 < ?n" "length (seeds tq) = num_threads tq" "length qs = ?n" "length fs = ?n"
    using assms(1) by (simp_all add: tq_ok_def tq_shape_def)
  have index: "index < ?n" "int index = r mod int ?n" using assms(5) n(1) mod_index [of ?n r] by simp_all
  have tq': "num_queues tq' = ?n" "num_threads tq' = num_threads tq" using assms(6) by simp_all
  have ok': "tq_ok h tq' xs ys \<longleftrightarrow> tq_ok h tq xs ys" for h :: "'a tq_heap_scheme" and xs ys
    using assms(6) by (auto simp: tq_ok_def tq_shape_def tq_blocks_def tq_heads_def split: if_splits)
  have seed: "arr_get (seeds tq) (int tid) = Inr (seeds tq ! tid)" using assms(2) n(2) by simp
  have cr: "c_rem r (int ?n) = Inr (int index)" using assms(4) n(1) index(2) by (simp add: c_rem_pos)
  have start: "tq_dequeue_normal_internal rand_r tq lgrp tid dq h =
    bindE (dq tq' index tid h) (\<lambda>(ret, queue_elem, h).
    bindE (steal ?n dq tq' index ((index + 1) mod ?n) tid ret queue_elem h) (\<lambda>(ret, queue_elem, h).
    if ret = 0 then Inr (0, task_0, tq', h)
    else (let entry = list_entry queue_elem ENTRY_OFF in
      bindE (assertE (entry \<noteq> 0)) (\<lambda>_. if live h entry then Inr (1, tq_task h entry, tq', h) else Inl Bad_access))))"
  proof (cases "lgrp < 0")
    case True
    then have e: "tq' = tq\<lparr>seeds := (seeds tq)[tid := snd (rand_r (seeds tq ! tid))]\<rparr>" using assms(6) by simp
    show ?thesis
      unfolding e using assms(3) cr seed True by (simp add: tq_dequeue_normal_internal_def case_prod_beta Let_def)
  next
    case False
    then have e: "tq' = tq" using assms(6) by simp
    show ?thesis unfolding e using assms(3) cr False by (simp add: tq_dequeue_normal_internal_def)
  qed
  have fin: "(let entry = list_entry (elem_of x) ENTRY_OFF in
      bindE (assertE (entry \<noteq> 0)) (\<lambda>_. if live h' entry then Inr (1, tq_task h' entry, tq', h') else Inl Bad_access)) =
      Inr (1 :: int, tq_task h x, tq', h')"
    if "x \<in> set (concat qs)" "same_but_links h h'" for x h'
  proof -
    have "objs h x = Some ENTRY_SIZE" using assms(1) that(1) by (auto simp: tq_ok_def rings_def)
    then have "x \<noteq> 0" "live h x"
      using assms(1) heap_okD(2,4) [of h x ENTRY_SIZE] by (auto simp: tq_ok_def cells_def ENTRY_SIZE_def)
    then show ?thesis using same_but_links_sel(2,6) [OF that(2)] by simp
  qed
  have okt: "tq_ok h tq' qs fs" using ok' assms(1) by simp
  have v0: "[0..<?n] = 0 # [1..<?n]" using n(1) by (simp add: upt_conv_Cons)
  show ?thesis
  proof (cases "qs ! index")
    case (Cons x xs)
    have v: "victim ?n index qs = Some index" using Cons index(1) by (simp add: victim_def v0)
    obtain h' where h': "dq tq' index tid h = Inr (1, elem_of x, h')"
      "tq_ok h' tq' (qs[index := xs]) (fs[index := fs ! index @ [x]])" "same_but_links h h'"
      using dq_some [OF okt _ _ Cons, of tid] index(1) assms(2) tq' by auto
    have x: "x \<in> set (concat qs)" using nth_concat_in [of index qs x] Cons index(1) n(3) by simp
    obtain f where f: "?n = Suc f" using n(1) by (cases ?n) auto
    have "steal ?n dq tq' index ((index + 1) mod ?n) tid 1 (elem_of x) h' = Inr (1, elem_of x, h')"
      by (subst (1) f) simp
    then show ?thesis using v start h' fin [OF x h'(3)] Cons by simp
  next
    case Nil
    have d: "dq tq' index tid h = Inr (0, 0, h)" using dq_empty [OF okt _ _ Nil, of tid] index(1) assms(2) tq' by simp
    have v: "victim ?n index qs = find (\<lambda>j. qs ! j \<noteq> []) (map (\<lambda>k. (index + k) mod ?n) [1..<?n])"
      using Nil index(1) by (simp add: victim_def v0)
    have st: "case find (\<lambda>j. qs ! j \<noteq> []) (map (\<lambda>k. (index + k) mod ?n) [1..<?n]) of
      None \<Rightarrow> \<exists>e'. steal ?n dq tq' index ((index + 1) mod ?n) tid 0 0 h = Inr (0, e', h)
    | Some j \<Rightarrow> \<exists>h'. steal ?n dq tq' index ((index + 1) mod ?n) tid 0 0 h = Inr (1, elem_of (hd (qs ! j)), h') \<and>
        tq_ok h' tq' (qs[j := tl (qs ! j)]) (fs[j := fs ! j @ [hd (qs ! j)]]) \<and> same_but_links h h'"
      using steal_spec [OF okt, of tid index 1 ?n 0, unfolded tq'] assms(2) index(1) n(1) by simp
    show ?thesis
    proof (cases "victim ?n index qs")
      case None
      then show ?thesis using st start d v by auto
    next
      case (Some j)
      then have j: "j < ?n" "qs ! j \<noteq> []" using victim_Some n(1) by auto
      have x: "hd (qs ! j) \<in> set (concat qs)" using nth_concat_in [of j qs "hd (qs ! j)"] j n(3) by simp
      obtain h' where h': "steal ?n dq tq' index ((index + 1) mod ?n) tid 0 0 h = Inr (1, elem_of (hd (qs ! j)), h')"
        "tq_ok h' tq' (qs[j := tl (qs ! j)]) (fs[j := fs ! j @ [hd (qs ! j)]])" "same_but_links h h'"
        using st Some v by auto
      then show ?thesis using Some start d fin [OF x h'(3)] by simp
    qed
  qed
qed

end

end
