(* ===== verification/TaskQ_Life.thy ===== *)
theory TaskQ_Life
  imports TaskQ_Correct
begin

text \<open>
  The life of a task queue: \<open>tq_init\<close> builds a well-formed one, and \<open>tq_finalize\<close> frees every
  object that belongs to it and nothing else, whatever was enqueued and dequeued in between.
\<close>

section \<open>Queues as a list of pairs\<close>

definition zrings :: "'a heap_scheme \<Rightarrow> (addr \<times> addr list) list \<Rightarrow> bool" where
  "zrings h z \<longleftrightarrow> distinct (map fst z) \<and> distinct (concat (map snd z)) \<and>
     (\<forall>(q, es) \<in> set z. objs h q = Some QUEUE_SIZE \<and> (\<forall>e \<in> set es. objs h e = Some ENTRY_SIZE) \<and>
        dll h q (map elem_of es))"

lemma zrings_rings: "zrings h z \<longleftrightarrow> rings h (map fst z) (map snd z)"
proof -
  have "(\<forall>(q, es) \<in> set z. dll h q (map elem_of es)) \<longleftrightarrow>
      (\<forall>i < length z. dll h (map fst z ! i) (map elem_of (map snd z ! i)))"
    by (simp add: all_set_conv_all_nth case_prod_beta)
  then show ?thesis by (auto simp: zrings_def rings_def case_prod_beta ball_conj_distrib)
qed

lemma zrings_mset:
  assumes "mset z = mset z'"
  shows "zrings h z = zrings h z'"
proof -
  have "mset (map fst z) = mset (map fst z')" using assms by simp
  then have d1: "distinct (map fst z) = distinct (map fst z')" by (rule mset_eq_imp_distinct_iff)
  have "mset (concat (map snd z)) = (\<Sum>x \<in># mset z. mset (snd x))" for z :: "(addr \<times> addr list) list"
    by (induction z) simp_all
  then have "mset (concat (map snd z)) = mset (concat (map snd z'))" using assms by simp
  then have d2: "distinct (concat (map snd z)) = distinct (concat (map snd z'))" by (rule mset_eq_imp_distinct_iff)
  have "set z = set z'" using assms by (rule mset_eq_setD)
  with d1 d2 show ?thesis by (simp add: zrings_def)
qed

section \<open>Freeing\<close>

definition freed :: "addr set \<Rightarrow> 'a tq_heap_scheme \<Rightarrow> 'a tq_heap_scheme \<Rightarrow> bool" where
  "freed S h h' \<longleftrightarrow>
     heap_ok h' \<and> objs h' = (\<lambda>a. if a \<in> S then None else objs h a) \<and> (\<forall>a. a \<notin> S \<longrightarrow> mtx h' a = mtx h a) \<and>
     brk h' = brk h"

lemma freed_refl: "heap_ok h \<Longrightarrow> freed {} h h"
  by (simp add: freed_def)

lemma freed_trans: "freed S h h1 \<Longrightarrow> freed T h1 h2 \<Longrightarrow> freed (S \<union> T) h h2"
  by (auto simp: freed_def)

lemma freed_D: "freed S h h' \<Longrightarrow> heap_ok h'" "freed S h h' \<Longrightarrow> a \<notin> S \<Longrightarrow> objs h' a = objs h a"
  "freed S h h' \<Longrightarrow> a \<notin> S \<Longrightarrow> mtx h' a = mtx h a" "freed S h h' \<Longrightarrow> a \<in> S \<Longrightarrow> objs h' a = None"
  by (simp_all add: freed_def)

lemma mem_free_mtx: "mem_free a h = Inr h' \<Longrightarrow> mtx h' = mtx h"
  by (auto simp: mem_free_def split: if_splits option.splits)

lemma free_block:
  assumes "heap_ok h" and "objs h a \<noteq> None"
  shows "\<exists>h'. mem_free a h = Inr h' \<and> freed {a} h h'"
proof -
  obtain n where "objs h a = Some n" using assms(2) by blast
  with heap_ok_free [OF assms(1)] mem_free_mtx show ?thesis
    by (fastforce simp: freed_def fun_upd_def)
qed

lemma free_beside:
  assumes "heap_ok h" and "zrings h z" and "objs h a \<noteq> None"
    and "a \<notin> set (map fst z)" "a \<notin> set (concat (map snd z))"
  shows "\<exists>h'. mem_free a h = Inr h' \<and> freed {a} h h' \<and> zrings h' z"
proof -
  obtain n where "objs h a = Some n" using assms(3) by blast
  with rings_free [OF assms(1) assms(2) [unfolded zrings_rings] _ assms(5,4)] mem_free_mtx show ?thesis
    by (fastforce simp: freed_def fun_upd_def zrings_rings)
qed

text \<open>Emptying the first queue of a list and freeing its head.\<close>

lemma tq_empty_loop_spec:
  assumes "heap_ok h" and "zrings h ((q, es) # z)" and "length es < fuel"
  shows "\<exists>h'. tq_empty_loop fuel q h = Inr h' \<and> freed (set es) h h' \<and> zrings h' ((q, []) # z)"
  using assms
proof (induction fuel arbitrary: h es)
  case (Suc fuel)
  let ?hds = "q # map fst z"
  show ?case
  proof (cases es)
    case Nil
    then have "queue_pop_front q 0 h = Inr (0, 0, h)"
      using Suc.prems(2) by (intro queue_pop_front_Nil) (simp add: zrings_def)
    then show ?thesis using Nil Suc.prems by (simp add: freed_refl)
  next
    case (Cons e es')
    have r: "rings h ?hds ((e # es') # map snd z)" using Suc.prems(2) Cons by (simp add: zrings_rings)
    obtain h1 where h1: "queue_pop_front q 0 h = Inr (1, elem_of e, h1)" "rings h1 ?hds (es' # map snd z)"
      "heap_ok h1" "links_only UNIV h h1" "e \<notin> set (concat (es' # map snd z))" "objs h e = Some ENTRY_SIZE"
      using rings_pop [OF Suc.prems(1) r, of 0 e es' 0] by auto
    have same: "same_but_links h h1" by (rule links_only_same [OF h1(4)])
    have e: "objs h1 e = Some ENTRY_SIZE" using h1(6) same_but_links_sel(1) [OF same] by simp
    have "e \<notin> set ?hds" using h1(2) e by (auto simp: rings_def QUEUE_SIZE_def ENTRY_SIZE_def)
    then obtain h2 where h2: "mem_free e h1 = Inr h2" "freed {e} h1 h2" "zrings h2 ((q, es') # z)"
      using free_beside [OF h1(3), of "(q, es') # z" e] h1(2,5) e by (auto simp: zrings_rings)
    have "length es' < fuel" using Suc.prems(3) Cons by simp
    from Suc.IH [OF freed_D(1) [OF h2(2)] h2(3) this] obtain h3 where
      h3: "tq_empty_loop fuel q h2 = Inr h3" "freed (set es') h2 h3" "zrings h3 ((q, []) # z)" by blast
    have "e \<noteq> 0" using heap_okD(2) [OF Suc.prems(1) h1(6)] by simp
    then have "tq_empty_loop (Suc fuel) q h = Inr h3" using h1(1) h2(1) h3(1) by simp
    moreover have "freed {} h h1"
      using h1(3) same_but_links_sel [OF same] by (simp add: freed_def)
    then have "freed (set es) h h3"
      using freed_trans [OF freed_trans [OF _ h2(2)] h3(2)] Cons by fastforce
    ultimately show ?thesis using h3(3) by blast
  qed
qed simp

lemma entries_below_brk:
  assumes "heap_ok h" and "zrings h ((q, es) # z)"
  shows "length es < Suc (brk h)"
proof -
  have "set es \<subseteq> {..<brk h}"
  proof
    fix e assume "e \<in> set es"
    then have "objs h e = Some ENTRY_SIZE" using assms(2) by (simp add: zrings_def)
    then show "e \<in> {..<brk h}" using heap_okD(3) [OF assms(1)] by (fastforce simp: ENTRY_SIZE_def)
  qed
  then have "card (set es) \<le> brk h" using card_mono [of "{..<brk h}"] by fastforce
  moreover have "distinct es" using assms(2) by (simp add: zrings_def)
  ultimately show ?thesis by (simp add: distinct_card)
qed

lemma tq_queue_gone:
  assumes "heap_ok h" and "zrings h ((q, es) # z)"
  shows "\<exists>h1 h2. tq_empty_queue q h = Inr h1 \<and> tq_free_queue q h1 = Inr h2 \<and> freed (insert q (set es)) h h2 \<and> zrings h2 z"
proof -
  obtain h1 where h1: "tq_empty_queue q h = Inr h1" "freed (set es) h h1" "zrings h1 ((q, []) # z)"
    using tq_empty_loop_spec [OF assms entries_below_brk [OF assms]] by (auto simp: tq_empty_queue_def)
  have z: "zrings h1 z" "objs h1 q = Some QUEUE_SIZE" "q \<notin> set (map fst z)"
    using h1(3) by (auto simp: zrings_def)
  have "q \<notin> set (concat (map snd z))"
    using z by (auto simp: zrings_def QUEUE_SIZE_def ENTRY_SIZE_def)
  then obtain h2 where h2: "mem_free q h1 = Inr h2" "freed {q} h1 h2" "zrings h2 z"
    using free_beside [OF freed_D(1) [OF h1(2)] z(1) _ z(3)] z(2) by auto
  have "freed (insert q (set es)) h h2" using freed_trans [OF h1(2) h2(2)] by simp
  then show ?thesis using h1(1) h2 by (auto simp: tq_free_queue_def)
qed


section \<open>Destroying one queue pair\<close>

lemma lock_free_block:
  assumes "heap_ok h" and "zrings h z" and "objs h p \<noteq> None" "mtx h p = Mtx_unlocked"
    and "p \<notin> set (map fst z)" "p \<notin> set (concat (map snd z))"
  shows "\<exists>h'. lock_free OPS p h = Inr h' \<and> freed {p} h h' \<and> zrings h' z"
proof -
  obtain n where n: "objs h p = Some n" using assms(3) by blast
  then have "p \<noteq> 0" "live h p" using assms(1) heap_okD(2,4) [of h p n] by (auto simp: cells_def)
  then have "mtx_held h p \<noteq> None" using assms(4) by (simp add: mtx_held_def)
  note lf = lock_free_ptmutex [OF this]
  let ?h = "h\<lparr>mtx := (mtx h)(p := Mtx_garbage)\<rparr>"
  have "heap_ok ?h" "zrings ?h z"
    using assms(1,2) heap_ok_cong [of ?h h] rings_cong [of ?h h] by (simp_all add: zrings_rings)
  then obtain h' where "mem_free p ?h = Inr h'" "freed {p} ?h h'" "zrings h' z"
    using free_beside [of ?h z p] assms(3,5,6) by auto
  moreover from this have "freed {p} h h'" by (simp add: freed_def cong: if_cong)
  ultimately show ?thesis using lf by auto
qed

lemma free_per_threads:
  assumes "p \<noteq> 0"
  shows "foldE (\<lambda>h j. bindE (arr_get (replicate n p) (int j)) (\<lambda>p. lock_free_per_thread OPS p h)) h [0..<n] = Inr h"
proof -
  have "foldE (\<lambda>h j. bindE (arr_get (replicate n p) (int j)) (\<lambda>p. lock_free_per_thread OPS p h)) h js = Inr h"
    if "\<forall>j \<in> set js. j < n" for js
    using that assms
    by (induction js) (simp_all add: lock_free_per_thread_def mr_ptmutex_ops_def ptmutex_free_per_thread_def)
  then show ?thesis by simp
qed

definition own_at :: "taskQ_t \<Rightarrow> addr list list \<Rightarrow> addr list list \<Rightarrow> nat \<Rightarrow> addr set" where
  "own_at tq qs fs i =
     {queues tq ! i, free_queues tq ! i, lk_parent (locks tq ! i), lk_per_thread_arr (locks tq ! i)} \<union>
     set (qs ! i) \<union> set (fs ! i)"

definition zfrom :: "taskQ_t \<Rightarrow> addr list list \<Rightarrow> addr list list \<Rightarrow> nat \<Rightarrow> (addr \<times> addr list) list" where
  "zfrom tq qs fs k = concat (map (\<lambda>i. [(queues tq ! i, qs ! i), (free_queues tq ! i, fs ! i)]) [k..<num_queues tq])"

lemma zfrom_step: "k < num_queues tq \<Longrightarrow>
  zfrom tq qs fs k = (queues tq ! k, qs ! k) # (free_queues tq ! k, fs ! k) # zfrom tq qs fs (Suc k)"
  by (simp add: zfrom_def upt_conv_Cons)

text \<open>\<open>p\<close> is an object that is none of the queues from the \<open>k\<close>-th on and none of their entries.\<close>

definition beside :: "addr \<Rightarrow> (addr \<times> addr list) list \<Rightarrow> bool" where
  "beside p z \<longleftrightarrow> p \<notin> set (map fst z) \<and> p \<notin> set (concat (map snd z))"

lemma tq_queue_destroy_step:
  assumes "length (queues tq) = num_queues tq \<and> length (free_queues tq) = num_queues tq \<and>
      length (locks tq) = num_queues tq \<and> lk_per_thread lk = replicate (num_threads tq) p"
    and "k < num_queues tq" and "heap_ok h" and "zrings h (zfrom tq qs fs k)"
    and "locks tq ! k = lk" and "p = lk_parent lk" "a = lk_per_thread_arr lk" "p \<noteq> a"
    and "objs h p \<noteq> None" "mtx h p = Mtx_unlocked" "objs h a \<noteq> None"
    and "beside p (zfrom tq qs fs k)" "beside a (zfrom tq qs fs k)"
  shows "\<exists>h'. tq_queue_destroy tq k h =
      Inr (tq\<lparr>locks := (locks tq)[k := lk\<lparr>lk_per_thread := [], lk_per_thread_arr := 0\<rparr>]\<rparr>, h') \<and>
    freed (own_at tq qs fs k) h h' \<and> zrings h' (zfrom tq qs fs (Suc k))"
proof -
  let ?q = "queues tq ! k" and ?f = "free_queues tq ! k" and ?z = "zfrom tq qs fs (Suc k)"
  note z = zfrom_step [OF assms(2), of qs fs]
  have sh: "length (queues tq) = num_queues tq" "length (free_queues tq) = num_queues tq"
    "length (locks tq) = num_queues tq" "lk_per_thread lk = replicate (num_threads tq) p"
    using assms(1) by auto
  have off: "p \<noteq> ?q" "p \<noteq> ?f" "a \<noteq> ?q" "a \<noteq> ?f" "p \<notin> set (qs ! k)" "p \<notin> set (fs ! k)"
    "a \<notin> set (qs ! k)" "a \<notin> set (fs ! k)" "beside p ?z" "beside a ?z"
    using assms(12,13) by (auto simp: z beside_def)
  obtain h1 h2 where h2: "tq_empty_queue ?q h = Inr h1" "tq_free_queue ?q h1 = Inr h2"
    "freed (insert ?q (set (qs ! k))) h h2" "zrings h2 ((?f, fs ! k) # ?z)"
    using tq_queue_gone [OF assms(3) assms(4) [unfolded z]] by blast
  obtain h3 h4 where h4: "tq_empty_queue ?f h2 = Inr h3" "tq_free_queue ?f h3 = Inr h4"
    "freed (insert ?f (set (fs ! k))) h2 h4" "zrings h4 ?z"
    using tq_queue_gone [OF freed_D(1) [OF h2(3)] h2(4)] by blast
  note f4 = freed_trans [OF h2(3) h4(3)]
  have keep: "objs h4 p \<noteq> None" "mtx h4 p = Mtx_unlocked" "objs h4 a \<noteq> None"
    using freed_D(2,3) [OF f4] assms(9-11) off by auto
  obtain h5 where h5: "lock_free OPS p h4 = Inr h5" "freed {p} h4 h5" "zrings h5 ?z"
    using lock_free_block [OF freed_D(1) [OF f4] h4(4) keep(1,2)] off by (auto simp: beside_def)
  have "objs h5 a \<noteq> None" using freed_D(2) [OF h5(2), of a] keep(3) assms(8) by simp
  then obtain h6 where h6: "mem_free a h5 = Inr h6" "freed {a} h5 h6" "zrings h6 ?z"
    using free_beside [OF freed_D(1) [OF h5(2)] h5(3) _ conjunct1 conjunct2] off(10)
    unfolding beside_def by blast
  have "freed (own_at tq qs fs k) h h6"
    using freed_trans [OF freed_trans [OF f4 h5(2)] h6(2)] assms(5-7)
    by (simp add: own_at_def insert_commute Un_commute Un_left_commute)
  moreover have "p \<noteq> 0"
    using assms(9) heap_okD(2) [OF assms(3), of 0] by (cases "p = 0") auto
  ultimately show ?thesis
    using assms(2,5-7) sh h2 h4 h5 h6 by (simp add: tq_queue_destroy_def free_per_threads)
qed


section \<open>Destroying all\<close>

definition tq_own :: "taskQ_t \<Rightarrow> addr list list \<Rightarrow> addr list list \<Rightarrow> addr set" where
  "tq_own tq qs fs = set (tq_blocks tq) \<union> set (tq_heads tq) \<union> set (concat (qs @ fs))"

lemma zfrom_members:
  assumes "tq_shape tq qs fs"
  shows "set (map fst (zfrom tq qs fs k)) \<subseteq> set (tq_heads tq)"
    "set (concat (map snd (zfrom tq qs fs k))) \<subseteq> set (concat (qs @ fs))"
proof -
  have sh: "length (queues tq) = num_queues tq" "length (free_queues tq) = num_queues tq"
    "length qs = num_queues tq" "length fs = num_queues tq"
    using assms by (simp_all add: tq_shape_def)
  show "set (map fst (zfrom tq qs fs k)) \<subseteq> set (tq_heads tq)"
    using sh by (auto simp: zfrom_def tq_heads_def)
  have "x \<in> set (concat qs) \<union> set (concat fs)" if "x \<in> set (qs ! i) \<union> set (fs ! i)" "i < num_queues tq" for x i
    using that nth_concat_in [of i qs x] nth_concat_in [of i fs x] sh by auto
  then show "set (concat (map snd (zfrom tq qs fs k))) \<subseteq> set (concat (qs @ fs))"
    by (fastforce simp: zfrom_def)
qed

lemma mset_zip_interleave:
  assumes "length xs = n" "length ys = n"
  shows "mset (concat (map (\<lambda>i. [xs ! i, ys ! i]) [0..<n])) = mset (xs @ ys)"
proof -
  have "mset (concat (map (\<lambda>i. [xs ! i, ys ! i]) [0..<m])) = mset (take m xs @ take m ys)" if "m \<le> n" for m
    using that assms by (induction m) (simp_all add: take_Suc_conv_app_nth ac_simps)
  from this [of n] show ?thesis using assms by simp
qed

lemma zfrom_0:
  assumes "tq_shape tq qs fs" and "rings h (tq_heads tq) (qs @ fs)"
  shows "zrings h (zfrom tq qs fs 0)"
proof -
  have sh: "length (queues tq) = num_queues tq" "length (free_queues tq) = num_queues tq"
    "length qs = num_queues tq" "length fs = num_queues tq"
    using assms(1) by (simp_all add: tq_shape_def)
  let ?z = "zip (queues tq) qs @ zip (free_queues tq) fs"
  have "zfrom tq qs fs 0 =
      concat (map (\<lambda>i. [zip (queues tq) qs ! i, zip (free_queues tq) fs ! i]) [0..<num_queues tq])"
    unfolding zfrom_def using sh by (intro arg_cong [where f = concat] map_cong) simp_all
  then have "mset (zfrom tq qs fs 0) = mset ?z"
    using mset_zip_interleave [of "zip (queues tq) qs" "num_queues tq" "zip (free_queues tq) fs"] sh by simp
  moreover have "map fst ?z = tq_heads tq" "map snd ?z = qs @ fs" using sh by (simp_all add: tq_heads_def)
  then have "zrings h ?z" using assms(2) by (simp add: zrings_rings)
  ultimately show ?thesis using zrings_mset by blast
qed

lemma blocks_apart:
  assumes "distinct (tq_blocks tq)" and "i < length (locks tq)" "j < length (locks tq)"
  shows "lk_parent (locks tq ! i) \<noteq> lk_per_thread_arr (locks tq ! j)"
    "i \<noteq> j \<Longrightarrow> lk_parent (locks tq ! i) \<noteq> lk_parent (locks tq ! j)"
    "i \<noteq> j \<Longrightarrow> lk_per_thread_arr (locks tq ! i) \<noteq> lk_per_thread_arr (locks tq ! j)"
proof -
  have d: "distinct (map lk_per_thread_arr (locks tq))" "distinct (map lk_parent (locks tq))"
    "set (map lk_per_thread_arr (locks tq)) \<inter> set (map lk_parent (locks tq)) = {}"
    using assms(1) by (auto simp: tq_blocks_def)
  then show "lk_parent (locks tq ! i) \<noteq> lk_per_thread_arr (locks tq ! j)"
    using assms(2,3) nth_mem by fastforce
  show "i \<noteq> j \<Longrightarrow> lk_parent (locks tq ! i) \<noteq> lk_parent (locks tq ! j)"
    using d(2) assms(2,3) by (simp add: distinct_conv_nth)
  show "i \<noteq> j \<Longrightarrow> lk_per_thread_arr (locks tq ! i) \<noteq> lk_per_thread_arr (locks tq ! j)"
    using d(1) assms(2,3) by (simp add: distinct_conv_nth)
qed

lemma block_in: "i < length (locks tq) \<Longrightarrow>
  lk_parent (locks tq ! i) \<in> set (tq_blocks tq) \<and> lk_per_thread_arr (locks tq ! i) \<in> set (tq_blocks tq)"
  by (simp add: tq_blocks_def)

lemma tq_destroy_all:
  assumes "tq_shape tq qs fs" and "distinct (tq_blocks tq)"
    and "set (tq_blocks tq) \<inter> (set (tq_heads tq) \<union> set (concat (qs @ fs))) = {}"
    and "k \<le> num_queues tq" and "heap_ok h" and "zrings h (zfrom tq qs fs k)"
    and "\<forall>i. k \<le> i \<and> i < num_queues tq \<longrightarrow> objs h (lk_parent (locks tq ! i)) \<noteq> None \<and>
      mtx h (lk_parent (locks tq ! i)) = Mtx_unlocked \<and> objs h (lk_per_thread_arr (locks tq ! i)) \<noteq> None"
    and "length ls = num_queues tq" and "\<forall>i. k \<le> i \<and> i < num_queues tq \<longrightarrow> ls ! i = locks tq ! i"
  shows "\<exists>ls' h'. foldE (\<lambda>(tq, h) i. tq_queue_destroy tq i h) (tq\<lparr>locks := ls\<rparr>, h) [k..<num_queues tq] =
      Inr (tq\<lparr>locks := ls'\<rparr>, h') \<and> freed (\<Union>i \<in> {k..<num_queues tq}. own_at tq qs fs i) h h'"
  using assms(4-)
proof (induction "num_queues tq - k" arbitrary: k h ls)
  case 0
  then show ?case by (auto simp: freed_refl)
next
  case (Suc d)
  then have k: "k < num_queues tq" by simp
  let ?tq = "tq\<lparr>locks := ls\<rparr>" and ?lk = "locks tq ! k"
  have lks: "length (locks tq) = num_queues tq" using assms(1) by (simp add: tq_shape_def)
  have pt: "lk_per_thread ?lk = replicate (num_threads tq) (lk_parent ?lk)"
    using assms(1) k lks by (simp add: tq_shape_def)
  have sh: "length (queues tq) = num_queues tq" "length (free_queues tq) = num_queues tq"
    using assms(1) by (simp_all add: tq_shape_def)
  have z: "zfrom ?tq qs fs j = zfrom tq qs fs j" "own_at ?tq qs fs k = own_at tq qs fs k" for j
    using Suc.prems(6) k by (simp_all add: zfrom_def own_at_def)
  have bes: "beside b (zfrom tq qs fs k)" if "b \<in> set (tq_blocks tq)" for b
    using zfrom_members [OF assms(1), of k] assms(3) that unfolding beside_def by blast
  have kl: "k < length (locks tq)" using k lks by simp
  note objs = Suc.prems(4) [rule_format, of k]
  obtain h1 where h1: "tq_queue_destroy ?tq k h =
      Inr (?tq\<lparr>locks := ls[k := ?lk\<lparr>lk_per_thread := [], lk_per_thread_arr := 0\<rparr>]\<rparr>, h1)"
    "freed (own_at tq qs fs k) h h1" "zrings h1 (zfrom tq qs fs (Suc k))"
    using tq_queue_destroy_step [of ?tq ?lk "lk_parent ?lk" k h qs fs "lk_per_thread_arr ?lk"]
      sh lks pt k Suc.prems(2,3,5,6) objs z bes block_in [OF kl] blocks_apart(1) [OF assms(2) kl kl]
    by auto
  have out: "lk_parent (locks tq ! i) \<notin> own_at tq qs fs k \<and> lk_per_thread_arr (locks tq ! i) \<notin> own_at tq qs fs k"
    if "Suc k \<le> i" "i < num_queues tq" for i
  proof -
    have il: "i < length (locks tq)" "i \<noteq> k" using that lks by simp_all
    have "queues tq ! k \<in> set (tq_heads tq)" "free_queues tq ! k \<in> set (tq_heads tq)"
      using sh k by (simp_all add: tq_heads_def)
    moreover have "set (qs ! k) \<union> set (fs ! k) \<subseteq> set (concat (qs @ fs))"
      using nth_subset_concat [of k qs] nth_subset_concat [of k fs] k assms(1) by (auto simp: tq_shape_def)
    ultimately have "b \<notin> {queues tq ! k, free_queues tq ! k} \<union> set (qs ! k) \<union> set (fs ! k)"
      if "b \<in> set (tq_blocks tq)" for b using that assms(3) by blast
    then show ?thesis
      using block_in [OF il(1)] blocks_apart [OF assms(2) il(1) kl] blocks_apart(1) [OF assms(2) kl il(1)] il(2)
      unfolding own_at_def by auto
  qed
  let ?ls = "ls[k := ?lk\<lparr>lk_per_thread := [], lk_per_thread_arr := 0\<rparr>]"
  have "\<forall>i. Suc k \<le> i \<and> i < num_queues tq \<longrightarrow> objs h1 (lk_parent (locks tq ! i)) \<noteq> None \<and>
      mtx h1 (lk_parent (locks tq ! i)) = Mtx_unlocked \<and> objs h1 (lk_per_thread_arr (locks tq ! i)) \<noteq> None"
  proof (intro allI impI)
    fix i assume i: "Suc k \<le> i \<and> i < num_queues tq"
    then have "k \<le> i \<and> i < num_queues tq" by simp
    from Suc.prems(4) [rule_format, OF this] out [of i] i freed_D(2,3) [OF h1(2)]
    show "objs h1 (lk_parent (locks tq ! i)) \<noteq> None \<and>
      mtx h1 (lk_parent (locks tq ! i)) = Mtx_unlocked \<and> objs h1 (lk_per_thread_arr (locks tq ! i)) \<noteq> None" by simp
  qed
  note live = this
  have d: "d = num_queues tq - Suc k" "Suc k \<le> num_queues tq" using Suc.hyps(2) k by simp_all
  have ls: "length ?ls = num_queues tq" "\<forall>i. Suc k \<le> i \<and> i < num_queues tq \<longrightarrow> ?ls ! i = locks tq ! i"
    using Suc.prems(5,6) by simp_all
  from Suc.hyps(1) [OF d freed_D(1) [OF h1(2)] h1(3) live ls]
  obtain ls' h' where h': "foldE (\<lambda>(tq, h) i. tq_queue_destroy tq i h) (tq\<lparr>locks := ?ls\<rparr>, h1) [Suc k..<num_queues tq] =
      Inr (tq\<lparr>locks := ls'\<rparr>, h')" "freed (\<Union>i \<in> {Suc k..<num_queues tq}. own_at tq qs fs i) h1 h'"
    by blast
  have "{k..<num_queues tq} = insert k {Suc k..<num_queues tq}" using k by auto
  then have "freed (\<Union>i \<in> {k..<num_queues tq}. own_at tq qs fs i) h h'"
    using freed_trans [OF h1(2) h'(2)] by simp
  moreover have "[k..<num_queues tq] = k # [Suc k..<num_queues tq]" using k by (rule upt_conv_Cons)
  ultimately show ?case using h1(1) h'(1) by auto
qed


section \<open>Finalizing\<close>

lemma free_blocks:
  assumes "heap_ok h" and "distinct bs" and "\<forall>b \<in> set bs. objs h b \<noteq> None"
  shows "\<exists>h'. foldE (\<lambda>h p. mem_free p h) h bs = Inr h' \<and> freed (set bs) h h'"
  using assms
proof (induction bs arbitrary: h)
  case Nil
  then show ?case by (simp add: freed_refl)
next
  case (Cons b bs)
  obtain h1 where h1: "mem_free b h = Inr h1" "freed {b} h h1" using free_block [of h b] Cons.prems by auto
  have "\<forall>b \<in> set bs. objs h1 b \<noteq> None" using Cons.prems freed_D(2) [OF h1(2)] by force
  from Cons.IH [OF freed_D(1) [OF h1(2)] _ this] Cons.prems obtain h' where
    "foldE (\<lambda>h p. mem_free p h) h1 bs = Inr h'" "freed (set bs) h1 h'" by auto
  then show ?case using h1(1) freed_trans [OF h1(2)] by fastforce
qed

lemma own_at_union:
  assumes "tq_shape tq qs fs"
  shows "(\<Union>i \<in> {0..<num_queues tq}. own_at tq qs fs i) =
    set (map lk_parent (locks tq)) \<union> set (map lk_per_thread_arr (locks tq)) \<union> set (tq_heads tq) \<union> set (concat (qs @ fs))"
proof -
  have sh: "length (queues tq) = num_queues tq" "length (free_queues tq) = num_queues tq"
    "length qs = num_queues tq" "length fs = num_queues tq" "length (locks tq) = num_queues tq"
    using assms by (simp_all add: tq_shape_def)
  have img: "set xs = (\<lambda>i. xs ! i) ` {0..<num_queues tq}" if "length xs = num_queues tq" for xs :: "'b list"
    using that by (auto simp: set_conv_nth)
  show ?thesis
    unfolding own_at_def tq_heads_def set_append set_concat set_map concat_append
      img [OF sh(1)] img [OF sh(2)] img [OF sh(3)] img [OF sh(4)] img [OF sh(5)]
    by auto
qed

lemma tq_finalize_ok:
  assumes "tq_ok h tq qs fs"
  shows "\<exists>h'. tq_finalize tq h = Inr h' \<and> freed (tq_own tq qs fs) h h'"
proof -
  have sh: "tq_shape tq qs fs" and hok: "heap_ok h" and r: "rings h (tq_heads tq) (qs @ fs)"
    and lk: "\<forall>lk \<in> set (locks tq). mtx_held h (lk_parent lk) = Some False"
    and d: "distinct (tq_blocks tq)" and o: "\<forall>b \<in> set (tq_blocks tq). objs h b \<noteq> None"
    and dis: "set (tq_blocks tq) \<inter> (set (tq_heads tq) \<union> set (concat (qs @ fs))) = {}"
    using assms by (simp_all add: tq_ok_def)
  have ll: "length (locks tq) = num_queues tq" using sh by (simp add: tq_shape_def)
  have live: "\<forall>i. 0 \<le> i \<and> i < num_queues tq \<longrightarrow> objs h (lk_parent (locks tq ! i)) \<noteq> None \<and>
      mtx h (lk_parent (locks tq ! i)) = Mtx_unlocked \<and> objs h (lk_per_thread_arr (locks tq ! i)) \<noteq> None"
  proof (intro allI impI)
    fix i assume "0 \<le> i \<and> i < num_queues tq"
    then have i: "i < length (locks tq)" using ll by simp
    then have "mtx_held h (lk_parent (locks tq ! i)) = Some False" using lk by simp
    then have "mtx h (lk_parent (locks tq ! i)) = Mtx_unlocked"
      by (auto simp: mtx_held_def split: if_splits mtx_state.splits)
    then show "objs h (lk_parent (locks tq ! i)) \<noteq> None \<and>
      mtx h (lk_parent (locks tq ! i)) = Mtx_unlocked \<and> objs h (lk_per_thread_arr (locks tq ! i)) \<noteq> None"
      using o block_in [OF i] by blast
  qed
  let ?U = "\<Union>i \<in> {0..<num_queues tq}. own_at tq qs fs i"
  let ?bs = "[queues_arr tq, free_queues_arr tq, locks_arr tq, seeds_arr tq, tq_self tq]"
  obtain ls h1 where h1: "foldE (\<lambda>(tq, h) i. tq_queue_destroy tq i h) (tq, h) [0..<num_queues tq] =
      Inr (tq\<lparr>locks := ls\<rparr>, h1)" "freed ?U h h1"
    using tq_destroy_all [OF sh d dis le0 hok zfrom_0 [OF sh r] live ll] by auto
  have bs: "set ?bs \<subseteq> set (tq_blocks tq)" "distinct ?bs" using d by (auto simp: tq_blocks_def)
  have "b \<notin> ?U" if "b \<in> set ?bs" for b
    using that d dis bs(1) unfolding own_at_union [OF sh] tq_blocks_def by auto
  then have "\<forall>b \<in> set ?bs. objs h1 b \<noteq> None" using freed_D(2) [OF h1(2)] o bs(1) by (metis subsetD)
  from free_blocks [OF freed_D(1) [OF h1(2)] bs(2) this] obtain h' where
    h': "foldE (\<lambda>h p. mem_free p h) h1 ?bs = Inr h'" "freed (set ?bs) h1 h'" by blast
  have nz: "b \<noteq> 0" if "b \<in> set (tq_blocks tq)" for b
    using o that heap_okD(2) [OF hok, of 0] by (cases "b = 0") auto
  have "tq_finalize tq h = Inr h'"
    using h1(1) h'(1) nz bs(1) by (simp add: tq_finalize_def tq_finalize_normal_def)
  moreover have "?U \<union> set ?bs = tq_own tq qs fs"
    unfolding own_at_union [OF sh] tq_own_def tq_blocks_def by auto
  ultimately show ?thesis using freed_trans [OF h1(2) h'(2)] by auto
qed


section \<open>Allocating\<close>

definition alloced :: "addr set \<Rightarrow> nat \<Rightarrow> 'a tq_heap_scheme \<Rightarrow> 'a tq_heap_scheme \<Rightarrow> bool" where
  "alloced S n h h' \<longleftrightarrow>
     heap_ok h' \<and> (\<forall>a \<in> S. objs h a = None \<and> objs h' a \<noteq> None) \<and>
     (\<forall>a. a \<notin> S \<longrightarrow> objs h' a = objs h a \<and> mtx h' a = mtx h a) \<and> brk h' = brk h + n \<and> mem_limit h' = mem_limit h"

lemma alloced_trans:
  assumes "alloced S n h h1" and "alloced T m h1 h2"
  shows "alloced (S \<union> T) (n + m) h h2"
proof -
  have "objs h2 a \<noteq> None" if "a \<in> S" for a
    using assms that by (cases "a \<in> T") (auto simp: alloced_def)
  moreover have "objs h a = None" if "a \<in> T" for a
    using assms that by (cases "a \<in> S") (auto simp: alloced_def)
  ultimately show ?thesis using assms by (auto simp: alloced_def)
qed

lemma alloced_apart: "alloced S n h h1 \<Longrightarrow> alloced T m h1 h2 \<Longrightarrow> S \<inter> T = {}"
  by (auto simp: alloced_def)

lemma malloc_alloced:
  assumes "heap_ok h" and "zrings h z" and "brk h + n \<le> mem_limit h" and "0 < n"
  shows "\<exists>a h'. mem_malloc n h = Inr (a, h') \<and> a \<noteq> 0 \<and> alloced {a} n h h' \<and> zrings h' z \<and> objs h' a = Some n \<and> beside a z"
proof -
  obtain a h' where m: "mem_malloc n h = Inr (a, h')" using mem_malloc_ok [OF assms(3,1)] by simp
  note a = heap_ok_malloc [OF assms(1) m assms(4)] and r = rings_malloc [OF assms(1) assms(2) [unfolded zrings_rings] m assms(4)]
  show ?thesis
    using m a r mem_malloc_more(1) [OF m] by (auto simp: alloced_def zrings_rings beside_def)
qed

lemma tq_alloc_queue_ok:
  assumes "heap_ok h" and "zrings h z" and "brk h + QUEUE_SIZE \<le> mem_limit h"
  shows "\<exists>q h'. tq_alloc_queue h = Inr (q, h') \<and> q \<noteq> 0 \<and> alloced {q} QUEUE_SIZE h h' \<and> zrings h' ((q, []) # z)"
proof -
  have pos: "0 < QUEUE_SIZE" by (simp add: QUEUE_SIZE_def)
  obtain q h1 where q: "mem_malloc QUEUE_SIZE h = Inr (q, h1)" "q \<noteq> 0" "alloced {q} QUEUE_SIZE h h1" "zrings h1 z"
    "objs h1 q = Some QUEUE_SIZE" "beside q z"
    using malloc_alloced [OF assms pos] by blast
  have h1: "heap_ok h1" using q(3) by (simp add: alloced_def)
  have "usable h1 q" using heap_okD(4) [OF h1 q(5), of q] q(2) by (simp add: usable_def cells_def QUEUE_SIZE_def)
  then obtain h2 where h2: "queue_init q h1 = Inr h2" "dll h2 q []" "links_only {q} h1 h2"
    using queue_init_dll by blast
  note same = same_but_links_sel [OF links_only_same [OF h2(3)]]
  have "dll h2 q' (map elem_of es)" if z: "(q', es) \<in> set z" for q' es
  proof (rule dll_frame [OF _ h2(3)])
    show "dll h1 q' (map elem_of es)" using q(4) z by (auto simp: zrings_def)
    have "q \<noteq> q'" using q(6) z by (force simp: beside_def)
    moreover have "q \<noteq> elem_of e" if "e \<in> set es" for e
      using q(4,5) z that entry_head_apart(1) [OF h1 q(5), of e] by (auto simp: zrings_def)
    ultimately show "{q} \<inter> set (q' # map elem_of es) = {}" by auto
  qed
  then have "zrings h2 ((q, []) # z)"
    using q(4-6) h2(2) same(1) by (auto simp: zrings_def beside_def)
  moreover have "alloced {q} QUEUE_SIZE h h2"
    using q(3) same heap_ok_links [OF h2(3)] by (simp add: alloced_def)
  ultimately show ?thesis using q(1,2) h2(1) by (auto simp: tq_alloc_queue_def)
qed

lemma lock_alloc_ok:
  assumes "heap_ok h" and "zrings h z" and "brk h + MUTEX_SIZE \<le> mem_limit h"
  shows "\<exists>p h'. lock_alloc OPS h = Inr (p, h') \<and> p \<noteq> 0 \<and> alloced {p} MUTEX_SIZE h h' \<and> zrings h' z \<and>
    mtx h' p = Mtx_unlocked \<and> beside p z"
proof -
  have pos: "0 < MUTEX_SIZE" by (simp add: MUTEX_SIZE_def)
  obtain p h1 where p: "mem_malloc MUTEX_SIZE h = Inr (p, h1)" "p \<noteq> 0" "alloced {p} MUTEX_SIZE h h1" "zrings h1 z" "beside p z"
    using malloc_alloced [OF assms pos] by blast
  let ?h = "set_mtx h1 p False"
  have "lock_alloc OPS h = Inr (p, ?h)" using lock_alloc_ptmutex [OF assms(1,3)] p(1) by auto
  moreover have "heap_ok ?h" "zrings ?h z"
    using p(3,4) heap_ok_cong [of ?h h1] rings_cong [of ?h h1] by (simp_all add: set_mtx_def zrings_rings alloced_def)
  ultimately show ?thesis using p(2,3,5) by (auto simp: alloced_def set_mtx_def)
qed

lemma alloc_per_threads_eq: "p \<noteq> 0 \<Longrightarrow> alloc_per_threads n p h = Inr (replicate n p, h)"
  by (induction n) (simp_all add: lock_alloc_per_thread_def mr_ptmutex_ops_def ptmutex_alloc_per_thread_def)

lemma tq_queue_init_ok:
  assumes "idx < num_queues tq" and "heap_ok h" and "zrings h z" and "0 < num_threads tq"
    and "brk h + 9 + num_threads tq \<le> mem_limit h"
  shows "\<exists>q f p a h'. tq_queue_init tq idx h =
      Inr (1, tq\<lparr>queues := (queues tq)[idx := q], free_queues := (free_queues tq)[idx := f],
        locks := (locks tq)[idx := \<lparr>lk_parent = p, lk_chksum = sum_list (map word_of_nat (replicate (num_threads tq) p)),
          lk_per_thread = replicate (num_threads tq) p, lk_per_thread_arr = a\<rparr>]\<rparr>, h') \<and>
    distinct [q, f, p, a] \<and> alloced {q, f, p, a} (9 + num_threads tq) h h' \<and> zrings h' ((q, []) # (f, []) # z) \<and>
    mtx h' p = Mtx_unlocked"
proof -
  obtain q h1 where q: "tq_alloc_queue h = Inr (q, h1)" "q \<noteq> 0" "alloced {q} QUEUE_SIZE h h1" "zrings h1 ((q, []) # z)"
    using tq_alloc_queue_ok [OF assms(2,3)] assms(5) by (auto simp: QUEUE_SIZE_def)
  obtain f h2 where f: "tq_alloc_queue h1 = Inr (f, h2)" "f \<noteq> 0" "alloced {f} QUEUE_SIZE h1 h2"
    "zrings h2 ((f, []) # (q, []) # z)"
    using tq_alloc_queue_ok [of h1, OF _ q(4)] q(3) assms(5) by (auto simp: QUEUE_SIZE_def alloced_def)
  obtain p h3 where p: "lock_alloc OPS h2 = Inr (p, h3)" "p \<noteq> 0" "alloced {p} MUTEX_SIZE h2 h3"
    "zrings h3 ((f, []) # (q, []) # z)" "mtx h3 p = Mtx_unlocked" "beside p ((f, []) # (q, []) # z)"
    using lock_alloc_ok [of h2, OF _ f(4)] q(3) f(3) assms(5) by (auto simp: QUEUE_SIZE_def MUTEX_SIZE_def alloced_def)
  obtain a h4 where a: "mem_malloc (num_threads tq) h3 = Inr (a, h4)" "a \<noteq> 0" "alloced {a} (num_threads tq) h3 h4"
    "zrings h4 ((f, []) # (q, []) # z)" "beside a ((f, []) # (q, []) # z)"
    using malloc_alloced [of h3, OF _ p(4) _ assms(4)] q(3) f(3) p(3) assms(5)
    by (auto simp: QUEUE_SIZE_def MUTEX_SIZE_def alloced_def)
  have "alloced {q, f, p, a} (9 + num_threads tq) h h4"
    using alloced_trans [OF alloced_trans [OF alloced_trans [OF q(3) f(3)] p(3)] a(3)]
    by (simp add: QUEUE_SIZE_def MUTEX_SIZE_def insert_commute)
  moreover have "a \<noteq> p" using a(3) p(3) by (auto simp: alloced_def)
  moreover from this have "mtx h4 p = Mtx_unlocked" using a(3) p(5) by (simp add: alloced_def)
  moreover have "distinct [q, f]" "p \<notin> {q, f}" "a \<notin> {q, f}"
    using f(4) p(6) a(5) by (auto simp: zrings_def beside_def)
  moreover have "zrings h4 ((q, []) # (f, []) # z)"
    by (rule iffD2 [OF zrings_mset a(4)]) simp
  ultimately show ?thesis
    using assms(1) q(1,2) f(1,2) p(1,2) a(1,2)
    by (auto simp: tq_queue_init_def mem_calloc_def alloc_per_threads_eq Let_def)
qed


text \<open>The state of \<open>tq_init_normal\<close> when the first \<open>k\<close> queue pairs are built.\<close>

definition built_blocks :: "nat \<Rightarrow> taskQ_t \<Rightarrow> addr list" where
  "built_blocks k tq = [queues_arr tq, free_queues_arr tq, locks_arr tq, seeds_arr tq, tq_self tq] @
     map lk_per_thread_arr (take k (locks tq)) @ map lk_parent (take k (locks tq))"

definition built_heads :: "nat \<Rightarrow> taskQ_t \<Rightarrow> addr list" where
  "built_heads k tq = take k (queues tq) @ take k (free_queues tq)"

definition built :: "nat \<Rightarrow> taskQ_t \<Rightarrow> 'a tq_heap_scheme \<Rightarrow> bool" where
  "built k tq h \<longleftrightarrow>
     length (queues tq) = num_queues tq \<and> length (free_queues tq) = num_queues tq \<and> length (locks tq) = num_queues tq \<and>
     heap_ok h \<and> zrings h (map (\<lambda>q. (q, [])) (built_heads k tq)) \<and>
     distinct (built_blocks k tq) \<and> (\<forall>b \<in> set (built_blocks k tq). objs h b \<noteq> None) \<and>
     set (built_blocks k tq) \<inter> set (built_heads k tq) = {} \<and>
     (\<forall>lk \<in> set (take k (locks tq)). mtx h (lk_parent lk) = Mtx_unlocked \<and>
        lk_per_thread lk = replicate (num_threads tq) (lk_parent lk))"

lemma built_step:
  assumes "built k tq h" and "k < num_queues tq" and "distinct [q, f, p, a]" and "alloced {q, f, p, a} m h h'"
    and "zrings h' ((q, []) # (f, []) # map (\<lambda>q. (q, [])) (built_heads k tq))" and "mtx h' p = Mtx_unlocked"
    and "tq' = tq\<lparr>queues := (queues tq)[k := q], free_queues := (free_queues tq)[k := f], locks := (locks tq)[k := lk]\<rparr>"
    and "lk_parent lk = p" "lk_per_thread_arr lk = a" "lk_per_thread lk = replicate (num_threads tq) p"
  shows "built (Suc k) tq' h'"
proof -
  have len: "k < length (queues tq)" "k < length (free_queues tq)" "k < length (locks tq)"
    using assms(1,2) by (simp_all add: built_def)
  have t: "take (Suc k) (queues tq') = take k (queues tq) @ [q]" "take (Suc k) (free_queues tq') = take k (free_queues tq) @ [f]"
    "take (Suc k) (locks tq') = take k (locks tq) @ [lk]"
    using assms(7) len by (simp_all add: take_Suc_conv_app_nth)
  have bb: "set (built_blocks (Suc k) tq') = insert p (insert a (set (built_blocks k tq)))"
    "mset (built_blocks (Suc k) tq') = mset (p # a # built_blocks k tq)"
    "set (built_heads (Suc k) tq') = insert q (insert f (set (built_heads k tq)))"
    "mset (built_heads (Suc k) tq') = mset (q # f # built_heads k tq)"
    unfolding built_blocks_def built_heads_def t using assms(7-9) by auto
  have old: "b \<notin> {q, f, p, a}" if "objs h b \<noteq> None" for b
    using assms(4) that by (auto simp: alloced_def)
  have z: "zrings h (map (\<lambda>q. (q, [])) (built_heads k tq))" using assms(1) by (simp add: built_def)
  have oh: "objs h b \<noteq> None" if "b \<in> set (built_blocks k tq) \<union> set (built_heads k tq)" for b
    using assms(1) z that by (auto simp: built_def zrings_def)
  have new: "b \<notin> {q, f, p, a}" if "b \<in> set (built_blocks k tq) \<union> set (built_heads k tq)" for b
    using old oh that by blast
  have "zrings h' (map (\<lambda>q. (q, [])) (built_heads (Suc k) tq'))"
    by (rule iffD2 [OF zrings_mset assms(5)]) (use bb(4) in simp)
  moreover have "distinct (built_blocks (Suc k) tq')"
  proof -
    have "distinct (p # a # built_blocks k tq)" using assms(1,3) new by (auto simp: built_def)
    then show ?thesis using mset_eq_imp_distinct_iff [OF bb(2)] by blast
  qed
  moreover have "set (built_blocks (Suc k) tq') \<inter> set (built_heads (Suc k) tq') = {}"
    using assms(1,3) new unfolding bb(1,3) built_def by auto
  moreover have "\<forall>b \<in> set (built_blocks (Suc k) tq'). objs h' b \<noteq> None"
    using assms(4) oh new unfolding bb(1) alloced_def by auto
  moreover have "mtx h' (lk_parent l) = Mtx_unlocked" if "l \<in> set (take k (locks tq))" for l
  proof -
    have "lk_parent l \<in> set (built_blocks k tq)" using that by (simp add: built_blocks_def)
    then show ?thesis using assms(1,4) new that by (auto simp: built_def alloced_def)
  qed
  then have "\<forall>l \<in> set (take (Suc k) (locks tq')). mtx h' (lk_parent l) = Mtx_unlocked \<and>
      lk_per_thread l = replicate (num_threads tq') (lk_parent l)"
    unfolding t using assms(1,6-10) by (auto simp: built_def)
  moreover have "heap_ok h'" using assms(4) by (simp add: alloced_def)
  ultimately show ?thesis
    using assms(1,7) by (simp add: built_def)
qed

lemma tq_init_queues_ok:
  assumes "built k tq h" and "k \<le> num_queues tq" and "0 < num_threads tq"
    and "brk h + (num_queues tq - k) * (9 + num_threads tq) \<le> mem_limit h"
  shows "\<exists>tq' h' S. tq_init_queues [k..<num_queues tq] tq h = Inr (None, tq', h') \<and> built (num_queues tq) tq' h' \<and>
    num_queues tq' = num_queues tq \<and> num_threads tq' = num_threads tq \<and> length (seeds tq') = length (seeds tq) \<and>
    alloced S ((num_queues tq - k) * (9 + num_threads tq)) h h' \<and>
    set (built_blocks (num_queues tq) tq') \<union> set (built_heads (num_queues tq) tq') =
      S \<union> set (built_blocks k tq) \<union> set (built_heads k tq)"
  using assms
proof (induction "num_queues tq - k" arbitrary: k tq h)
  case 0
  then have "k = num_queues tq" "heap_ok h" by (simp_all add: built_def)
  moreover have "alloced {} 0 h h" using \<open>heap_ok h\<close> by (simp add: alloced_def)
  ultimately show ?case using 0 by (intro exI [of _ tq] exI [of _ h] exI [of _ "{}"]) simp
next
  case (Suc d)
  let ?z = "map (\<lambda>q. (q, [])) (built_heads k tq)" and ?c = "9 + num_threads tq"
  have k: "k < num_queues tq" "heap_ok h" "zrings h ?z" using Suc.hyps(2) Suc.prems(1) by (simp_all add: built_def)
  have room: "num_queues tq - k = Suc (num_queues tq - Suc k)" using k(1) by simp
  obtain q f p a h1 where i: "tq_queue_init tq k h =
      Inr (1, tq\<lparr>queues := (queues tq)[k := q], free_queues := (free_queues tq)[k := f],
        locks := (locks tq)[k := \<lparr>lk_parent = p, lk_chksum = sum_list (map word_of_nat (replicate (num_threads tq) p)),
          lk_per_thread = replicate (num_threads tq) p, lk_per_thread_arr = a\<rparr>]\<rparr>, h1)"
    "distinct [q, f, p, a]" "alloced {q, f, p, a} ?c h h1" "zrings h1 ((q, []) # (f, []) # ?z)" "mtx h1 p = Mtx_unlocked"
    using tq_queue_init_ok [OF k Suc.prems(3)] Suc.prems(4) unfolding room by auto
  let ?lk = "\<lparr>lk_parent = p, lk_chksum = sum_list (map word_of_nat (replicate (num_threads tq) p)),
          lk_per_thread = replicate (num_threads tq) p, lk_per_thread_arr = a\<rparr>"
  let ?tq = "tq\<lparr>queues := (queues tq)[k := q], free_queues := (free_queues tq)[k := f], locks := (locks tq)[k := ?lk]\<rparr>"
  have b: "built (Suc k) ?tq h1"
    by (rule built_step [OF Suc.prems(1) k(1) i(2-5) refl]) simp_all
  have len: "k < length (queues tq)" "k < length (free_queues tq)" "k < length (locks tq)"
    using Suc.prems(1) k(1) by (simp_all add: built_def)
  have sets: "set (built_blocks (Suc k) ?tq) \<union> set (built_heads (Suc k) ?tq) =
      {q, f, p, a} \<union> set (built_blocks k tq) \<union> set (built_heads k tq)"
    using len by (auto simp: built_blocks_def built_heads_def take_Suc_conv_app_nth)
  have "d = num_queues ?tq - Suc k" "Suc k \<le> num_queues ?tq" "0 < num_threads ?tq"
    "brk h1 + (num_queues ?tq - Suc k) * (9 + num_threads ?tq) \<le> mem_limit h1"
    using Suc.hyps(2) Suc.prems(3,4) k(1) i(3) unfolding room by (simp_all add: alloced_def)
  from Suc.hyps(1) [OF this(1) b this(2-4)]
  obtain tq' h' S where r: "tq_init_queues [Suc k..<num_queues tq] ?tq h1 = Inr (None, tq', h')"
    "built (num_queues tq) tq' h'" "num_queues tq' = num_queues tq" "num_threads tq' = num_threads tq"
    "length (seeds tq') = length (seeds tq)" "alloced S ((num_queues tq - Suc k) * ?c) h1 h'"
    "set (built_blocks (num_queues tq) tq') \<union> set (built_heads (num_queues tq) tq') =
      S \<union> set (built_blocks (Suc k) ?tq) \<union> set (built_heads (Suc k) ?tq)" by auto
  have "tq_init_queues [k..<num_queues tq] tq h = Inr (None, tq', h')"
    using r(1) i(1) upt_conv_Cons [OF k(1)] by simp
  moreover have "alloced ({q, f, p, a} \<union> S) ((num_queues tq - k) * ?c) h h'"
    using alloced_trans [OF i(3) r(6)] unfolding room by simp
  moreover have "set (built_blocks (num_queues tq) tq') \<union> set (built_heads (num_queues tq) tq') =
      ({q, f, p, a} \<union> S) \<union> set (built_blocks k tq) \<union> set (built_heads k tq)"
    unfolding r(7) using sets by blast
  ultimately show ?case using r(2-5) by (intro exI conjI)
qed

lemma built_ok:
  assumes "built (num_queues tq) tq h" and "0 < num_queues tq" and "length (seeds tq) = num_threads tq"
  shows "tq_ok h tq (replicate (num_queues tq) []) (replicate (num_queues tq) [])"
proof -
  let ?n = "num_queues tq"
  have len: "length (queues tq) = ?n" "length (free_queues tq) = ?n" "length (locks tq) = ?n"
    using assms(1) by (simp_all add: built_def)
  then have e: "built_blocks ?n tq = tq_blocks tq" "built_heads ?n tq = tq_heads tq" "take ?n (locks tq) = locks tq"
    by (simp_all add: built_blocks_def tq_blocks_def built_heads_def tq_heads_def)
  have b: "heap_ok h" "zrings h (map (\<lambda>q. (q, [])) (tq_heads tq))" "distinct (tq_blocks tq)"
    "\<forall>b \<in> set (tq_blocks tq). objs h b \<noteq> None" "set (tq_blocks tq) \<inter> set (tq_heads tq) = {}"
    "\<forall>lk \<in> set (locks tq). mtx h (lk_parent lk) = Mtx_unlocked \<and> lk_per_thread lk = replicate (num_threads tq) (lk_parent lk)"
    using assms(1) by (simp_all add: built_def e)
  have "rings h (tq_heads tq) (replicate ?n [] @ replicate ?n [])"
  proof -
    have "map snd (map (\<lambda>q. (q, [])) (tq_heads tq)) = replicate ?n ([] :: addr list) @ replicate ?n []"
      using len by (simp add: tq_heads_def map_replicate_const o_def)
    then show ?thesis using b(2) by (simp add: zrings_rings o_def)
  qed
  moreover have "mtx_held h (lk_parent lk) = Some False" if lk: "lk \<in> set (locks tq)" for lk
  proof -
    have "lk_parent lk \<in> set (tq_blocks tq)" using lk by (simp add: tq_blocks_def)
    then obtain m where m: "objs h (lk_parent lk) = Some m" using b(4) by blast
    then have "live h (lk_parent lk)" "lk_parent lk \<noteq> 0"
      using heap_okD(2,4) [OF b(1) m] by (auto simp: cells_def)
    then show ?thesis using b(6) lk by (simp add: mtx_held_def)
  qed
  ultimately show ?thesis using b len assms(2,3) by (simp add: tq_ok_def tq_shape_def)
qed

text \<open>The number of queues and the words \<open>tq_init\<close> allocates.\<close>

definition tq_count :: "os_t \<Rightarrow> nat \<Rightarrow> nat" where
  "tq_count os n = nat (max 1 (int n div loc_get_lgrp_size os))"

definition tq_words :: "nat \<Rightarrow> nat \<Rightarrow> nat" where
  "tq_words nq n = TQ_SIZE + nq + nq + nq * LOCK_SIZE + n + nq * (9 + n)"

lemma tq_init_ok:
  assumes "heap_ok h" and "0 < n" and "0 < loc_get_lgrp_size os"
    and "brk h + tq_words (tq_count os n) n \<le> mem_limit h"
  shows "\<exists>tq h'. tq_init os n h = Inr (Some tq, h') \<and> num_queues tq = tq_count os n \<and> num_threads tq = n \<and>
    tq_ok h' tq (replicate (num_queues tq) []) (replicate (num_queues tq) []) \<and>
    alloced (tq_own tq (replicate (num_queues tq) []) (replicate (num_queues tq) [])) (tq_words (num_queues tq) n) h h'"
proof -
  have z: "zrings h' []" for h' :: "'a tq_heap_scheme" by (simp add: zrings_def)
  let ?q = "tq_count os n"
  have q: "0 < ?q" by (simp add: tq_count_def)
  have nq: "nat (if int n div loc_get_lgrp_size os = 0 then 1 else int n div loc_get_lgrp_size os) = ?q"
    using assms(3) pos_imp_zdiv_nonneg_iff [of "loc_get_lgrp_size os" "int n"] by (simp add: tq_count_def max_def)
  have cd: "c_div (int n) (loc_get_lgrp_size os) = Inr (int n div loc_get_lgrp_size os)"
    using assms(3) by (simp add: c_div_pos)
  note room = assms(4) [unfolded tq_words_def TQ_SIZE_def LOCK_SIZE_def]
  obtain a1 h1 where a1: "mem_malloc 5 h = Inr (a1, h1)" "a1 \<noteq> 0" "alloced {a1} 5 h h1"
    using malloc_alloced [OF assms(1) z, of 5] room by auto
  obtain a2 h2 where a2: "mem_malloc ?q h1 = Inr (a2, h2)" "a2 \<noteq> 0" "alloced {a2} ?q h1 h2"
    using malloc_alloced [OF _ z, of h1 ?q] room q a1(3) by (auto simp: alloced_def)
  note t2 = alloced_trans [OF a1(3) a2(3)]
  obtain a3 h3 where a3: "mem_malloc ?q h2 = Inr (a3, h3)" "a3 \<noteq> 0" "alloced {a3} ?q h2 h3"
    using malloc_alloced [OF _ z, of h2 ?q] room q t2 by (auto simp: alloced_def)
  note t3 = alloced_trans [OF t2 a3(3)]
  obtain a4 h4 where a4: "mem_malloc (?q * 3) h3 = Inr (a4, h4)" "a4 \<noteq> 0" "alloced {a4} (?q * 3) h3 h4"
    using malloc_alloced [OF _ z, of h3 "?q * 3"] room q t3 by (auto simp: alloced_def)
  note t4 = alloced_trans [OF t3 a4(3)]
  obtain a5 h5 where a5: "mem_malloc n h4 = Inr (a5, h5)" "a5 \<noteq> 0" "alloced {a5} n h4 h5"
    using malloc_alloced [OF _ z, of h4 n] room assms(2) t4 by (auto simp: alloced_def)
  note t5 = alloced_trans [OF t4 a5(3)]
  have d: "distinct [a2, a3, a4, a5, a1]"
    using alloced_apart [OF a1(3) a2(3)] alloced_apart [OF t2 a3(3)] alloced_apart [OF t3 a4(3)]
      alloced_apart [OF t4 a5(3)] by auto
  let ?tq = "\<lparr>tq_self = a1, num_queues = ?q, num_threads = n, queues = replicate ?q 0, queues_arr = a2,
    free_queues = replicate ?q 0, free_queues_arr = a3, locks = replicate ?q tq_lock_0, locks_arr = a4,
    seeds = replicate n 0, seeds_arr = a5\<rparr>"
  have bb: "built_blocks 0 ?tq = [a2, a3, a4, a5, a1]" "built_heads 0 ?tq = []"
    by (simp_all add: built_blocks_def built_heads_def)
  have b: "built 0 ?tq h5"
    unfolding built_def bb using t5 d z by (simp add: alloced_def)
  have r: "brk h5 + (num_queues ?tq - 0) * (9 + num_threads ?tq) \<le> mem_limit h5"
    using t5 room by (simp add: alloced_def)
  obtain tq h' S where t: "tq_init_queues [0..<num_queues ?tq] ?tq h5 = Inr (None, tq, h')" "built (num_queues ?tq) tq h'"
    "num_queues tq = num_queues ?tq" "num_threads tq = num_threads ?tq" "length (seeds tq) = length (seeds ?tq)"
    "alloced S ((num_queues ?tq - 0) * (9 + num_threads ?tq)) h5 h'"
    "set (built_blocks (num_queues ?tq) tq) \<union> set (built_heads (num_queues ?tq) tq) =
      S \<union> set (built_blocks 0 ?tq) \<union> set (built_heads 0 ?tq)"
    using tq_init_queues_ok [OF b _ _ r] assms(2) by auto
  have ok: "tq_ok h' tq (replicate (num_queues tq) []) (replicate (num_queues tq) [])"
    using built_ok [of tq h'] t(2-5) q by simp
  have len: "length (queues tq) = ?q" "length (free_queues tq) = ?q" "length (locks tq) = ?q"
    using t(2,3) by (simp_all add: built_def)
  have "built_blocks ?q tq = tq_blocks tq" "built_heads ?q tq = tq_heads tq"
    using len by (simp_all add: built_blocks_def tq_blocks_def built_heads_def tq_heads_def)
  moreover have "concat (replicate m [] @ replicate m []) = ([] :: addr list)" for m by simp
  ultimately have own: "tq_own tq (replicate (num_queues tq) []) (replicate (num_queues tq) []) = {a1} \<union> {a2} \<union> {a3} \<union> {a4} \<union> {a5} \<union> S"
    using t(7) unfolding tq_own_def bb by auto
  have "alloced ({a1} \<union> {a2} \<union> {a3} \<union> {a4} \<union> {a5} \<union> S) (tq_words ?q n) h h'"
    using alloced_trans [OF t5 t(6)] by (simp add: tq_words_def TQ_SIZE_def LOCK_SIZE_def)
  moreover have "tq_init os n h = Inr (Some tq, h')"
    using a1(1,2) a2(1,2) a3(1,2) a4(1,2) a5(1,2) t(1)
    by (simp add: tq_init_def tq_init_normal_def mem_calloc_def TQ_SIZE_def LOCK_SIZE_def cd nq)
  ultimately show ?thesis using ok own t(3,4) by auto
qed


section \<open>A whole life\<close>

text \<open>Operations of threads on a live queue, one after the other.\<close>

datatype tq_op = Enqueue task_t int nat | Dequeue int nat

fun op_tid :: "tq_op \<Rightarrow> nat" where
  "op_tid (Enqueue t lgrp tid) = tid"
| "op_tid (Dequeue lgrp tid) = tid"

fun tq_step :: "rand_r_t \<Rightarrow> taskQ_t \<times> 'a tq_heap_scheme \<Rightarrow> tq_op \<Rightarrow> (taskQ_t \<times> 'a tq_heap_scheme) res" where
  "tq_step rand_r (tq, h) (Enqueue t lgrp tid) =
     bindE (tq_enqueue rand_r tq t lgrp tid h) (\<lambda>(ret, tq, h). bindE (assertE (ret = 0)) (\<lambda>_. Inr (tq, h)))"
| "tq_step rand_r (tq, h) (Dequeue lgrp tid) =
     bindE (tq_dequeue rand_r tq lgrp tid h) (\<lambda>(ret, task, tq, h). Inr (tq, h))"

definition tq_session :: "os_t \<Rightarrow> rand_r_t \<Rightarrow> nat \<Rightarrow> tq_op list \<Rightarrow> 'a tq_heap_scheme \<Rightarrow> 'a tq_heap_scheme res" where
  "tq_session os rand_r n ops h =
     bindE (tq_init os n h) (\<lambda>(tq, h).
     case tq of None \<Rightarrow> Inr h
     | Some tq \<Rightarrow> bindE (foldE (tq_step rand_r) (tq, h) ops) (\<lambda>(tq, h). tq_finalize tq h))"

text \<open>\<open>h0\<close> is the heap before \<open>tq_init\<close>: every object of the queue is new, all others are as they were.\<close>

definition tq_alive :: "'a tq_heap_scheme \<Rightarrow> nat \<Rightarrow> nat \<Rightarrow> taskQ_t \<Rightarrow> 'a tq_heap_scheme \<Rightarrow> bool" where
  "tq_alive h0 n room tq h \<longleftrightarrow>
     (\<exists>qs fs. tq_ok h tq qs fs \<and> num_threads tq = n \<and> brk h + room \<le> mem_limit h \<and>
        (\<forall>a. a \<in> tq_own tq qs fs \<longrightarrow> objs h0 a = None) \<and> (\<forall>a. a \<notin> tq_own tq qs fs \<longrightarrow> objs h a = objs h0 a))"

lemma tq_alive_less: "tq_alive h0 n m tq h \<Longrightarrow> m' \<le> m \<Longrightarrow> tq_alive h0 n m' tq h"
  unfolding tq_alive_def by (elim exE) (intro exI conjI; (elim conjE)?; simp)

lemma tq_own_seeds: "tq_own (tq\<lparr>seeds := s\<rparr>) qs fs = tq_own tq qs fs"
  by (simp add: tq_own_def tq_blocks_def tq_heads_def)

lemma tq_ok_seeds: "length s = length (seeds tq) \<Longrightarrow> tq_ok h (tq\<lparr>seeds := s\<rparr>) qs fs = tq_ok h tq qs fs"
  by (simp add: tq_ok_def tq_shape_def tq_blocks_def tq_heads_def)

lemma tq_own_mset:
  assumes "mset (concat qs') + mset (concat fs') = mset (concat qs) + mset (concat fs) + mset es"
  shows "tq_own tq qs' fs' = tq_own tq qs fs \<union> set es"
proof -
  have "set (concat (qs' @ fs')) = set (concat (qs @ fs)) \<union> set es"
    using arg_cong [OF assms, of set_mset] by simp
  then show ?thesis unfolding tq_own_def by blast
qed

lemma concat_update_add:
  assumes "i < length xss"
  shows "mset (concat (xss[i := xss ! i @ ys])) = mset (concat xss) + mset ys"
  using concat_update_mset [OF assms, of "xss ! i @ ys"] by simp

lemma concat_update_tl:
  assumes "i < length xss" and "xss ! i \<noteq> []"
  shows "add_mset (hd (xss ! i)) (mset (concat (xss[i := tl (xss ! i)]))) = mset (concat xss)"
proof -
  have "mset (xss ! i) = add_mset (hd (xss ! i)) (mset (tl (xss ! i)))" using assms(2) by (cases "xss ! i") simp_all
  then show ?thesis using concat_update_mset [OF assms(1), of "tl (xss ! i)"] by simp
qed

lemma tq_enqueue_alive:
  assumes "tq_alive h0 n (ENTRY_SIZE + room) tq h" and "tid < n" and "\<forall>s. 0 \<le> fst (rand_r s)"
  shows "\<exists>tq' h'. tq_enqueue rand_r tq t lgrp tid h = Inr (0, tq', h') \<and> tq_alive h0 n room tq' h'"
proof -
  obtain qs fs where a: "tq_ok h tq qs fs" "num_threads tq = n" "brk h + (ENTRY_SIZE + room) \<le> mem_limit h"
    "\<And>x. x \<in> tq_own tq qs fs \<Longrightarrow> objs h0 x = None" "\<And>x. x \<notin> tq_own tq qs fs \<Longrightarrow> objs h x = objs h0 x"
    using assms(1) unfolding tq_alive_def by blast
  define r where "r = (if lgrp < 0 then fst (rand_r (seeds tq ! tid)) else lgrp)"
  define idx where "idx = nat (r mod int (num_queues tq))"
  have b: "brk h + ENTRY_SIZE \<le> mem_limit h" "tid < num_threads tq" "0 \<le> r"
    using a(2,3) assms(2,3) by (simp_all add: r_def)
  obtain tq' h' e where e: "tq_enqueue rand_r tq t lgrp tid h = Inr (0, tq', h')" "idx < num_queues tq"
    "tq' = (if lgrp < 0 then tq\<lparr>seeds := (seeds tq)[tid := snd (rand_r (seeds tq ! tid))]\<rparr> else tq)"
    "tq_ok h' tq (qs[idx := qs ! idx @ [e]]) fs" "same_objs_and_tasks h h' e t"
    using tq_enqueue_ok [where rand_r = rand_r and lgrp = lgrp, OF a(1) b(1,2) r_def b(3) idx_def] by blast
  have "length qs = num_queues tq" using a(1) by (simp add: tq_ok_def tq_shape_def)
  then have own: "tq_own tq (qs[idx := qs ! idx @ [e]]) fs = tq_own tq qs fs \<union> {e}"
    using tq_own_mset [of "qs[idx := qs ! idx @ [e]]" fs qs fs "[e]"] concat_update_add [of idx qs "[e]"] e(2) by simp
  have "tq_alive h0 n room tq h'"
    unfolding tq_alive_def
  proof (intro exI conjI allI impI)
    show "tq_ok h' tq (qs[idx := qs ! idx @ [e]]) fs" by (rule e(4))
    show "num_threads tq = n" by (rule a(2))
    show "brk h' + room \<le> mem_limit h'" using e(5) a(3) by (simp add: same_objs_and_tasks_def)
    show "objs h0 x = None" if "x \<in> tq_own tq (qs[idx := qs ! idx @ [e]]) fs" for x
      using that a(4) [of x] a(5) [of x] e(5) unfolding own by (cases "x \<in> tq_own tq qs fs") (auto simp: same_objs_and_tasks_def)
    show "objs h' x = objs h0 x" if "x \<notin> tq_own tq (qs[idx := qs ! idx @ [e]]) fs" for x
      using that a(5) [of x] e(5) unfolding own by (simp add: same_objs_and_tasks_def)
  qed
  then have "tq_alive h0 n room tq' h'"
    using e(3) by (simp add: tq_alive_def tq_own_seeds tq_ok_seeds)
  then show ?thesis using e(1) by blast
qed

lemma tq_dequeue_alive:
  assumes "tq_alive h0 n room tq h" and "tid < n" and "\<forall>s. 0 \<le> fst (rand_r s)"
  shows "\<exists>ret task tq' h'. tq_dequeue rand_r tq lgrp tid h = Inr (ret, task, tq', h') \<and> tq_alive h0 n room tq' h'"
proof -
  obtain qs fs where a: "tq_ok h tq qs fs" "num_threads tq = n" "brk h + room \<le> mem_limit h"
    "\<forall>x. x \<in> tq_own tq qs fs \<longrightarrow> objs h0 x = None" "\<forall>x. x \<notin> tq_own tq qs fs \<longrightarrow> objs h x = objs h0 x"
    using assms(1) unfolding tq_alive_def by blast
  define r where "r = (if lgrp < 0 then fst (rand_r (seeds tq ! tid)) else lgrp)"
  define idx where "idx = nat (r mod int (num_queues tq))"
  define tq' where "tq' = (if lgrp < 0 then tq\<lparr>seeds := (seeds tq)[tid := snd (rand_r (seeds tq ! tid))]\<rparr> else tq)"
  have b: "tid < num_threads tq" "0 \<le> r" using a(2) assms(2,3) by (simp_all add: r_def)
  have eq: "num_threads tq' = num_threads tq" "tq_own tq' xs ys = tq_own tq xs ys" "tq_ok k tq' xs ys = tq_ok k tq xs ys"
    for xs ys and k :: "'a tq_heap_scheme"
    by (simp_all add: tq'_def tq_own_seeds tq_ok_seeds)
  note d = dq_lock.dequeue_spec [where rand_r = rand_r and lgrp = lgrp, OF a(1) b(1) r_def b(2) idx_def tq'_def]
  have td: "tq_dequeue rand_r tq lgrp tid h = tq_dequeue_normal_internal rand_r tq lgrp tid tq_elem_into_free h"
    by (simp add: tq_dequeue_def tq_dequeue_normal_def)
  have n: "0 < num_queues tq" "length qs = num_queues tq" "length fs = num_queues tq"
    using a(1) by (simp_all add: tq_ok_def tq_shape_def)
  show ?thesis
  proof (cases "victim (num_queues tq) idx qs")
    case None
    have "tq_alive h0 n room tq' h" using a by (auto simp: tq_alive_def eq)
    then show ?thesis using d None td by auto
  next
    case (Some j)
    note j = victim_Some [OF Some n(1)]
    let ?qs = "qs[j := tl (qs ! j)]" and ?fs = "fs[j := fs ! j @ [hd (qs ! j)]]"
    obtain h' where h': "tq_dequeue rand_r tq lgrp tid h = Inr (1, tq_task h (hd (qs ! j)), tq', h')"
      "tq_ok h' tq' ?qs ?fs" "same_but_links h h'"
      using d Some td by auto
    have own: "tq_own tq ?qs ?fs = tq_own tq qs fs"
      using tq_own_mset [of ?qs ?fs qs fs "[]"] concat_update_tl [of j qs] concat_update_add [of j fs "[hd (qs ! j)]"] j n
      by simp
    have "tq_alive h0 n room tq' h'"
      unfolding tq_alive_def
      by (intro exI [of _ ?qs] exI [of _ ?fs] conjI)
        (use h'(2,3) a same_but_links_sel [OF h'(3)] in \<open>simp_all add: eq own\<close>)
    then show ?thesis using h'(1) by blast
  qed
qed

lemma tq_steps_alive:
  assumes "tq_alive h0 n (ENTRY_SIZE * length ops) tq h" and "\<forall>x \<in> set ops. op_tid x < n" and "\<forall>s. 0 \<le> fst (rand_r s)"
  shows "\<exists>tq' h'. foldE (tq_step rand_r) (tq, h) ops = Inr (tq', h') \<and> tq_alive h0 n 0 tq' h'"
  using assms(1,2)
proof (induction ops arbitrary: tq h)
  case (Cons x ops)
  have more: "tq_alive h0 n (ENTRY_SIZE + ENTRY_SIZE * length ops) tq h" and tid: "op_tid x < n"
    using Cons.prems by simp_all
  obtain tq1 h1 where s: "tq_step rand_r (tq, h) x = Inr (tq1, h1)" "tq_alive h0 n (ENTRY_SIZE * length ops) tq1 h1"
  proof (cases x)
    case (Enqueue t lgrp tid)
    with tq_enqueue_alive [OF more _ assms(3), of tid t lgrp] tid that show ?thesis by auto
  next
    case (Dequeue lgrp tid)
    have "tq_alive h0 n (ENTRY_SIZE * length ops) tq h" using more tq_alive_less [of h0 n _ tq h] by simp
    with tq_dequeue_alive [OF this _ assms(3), of tid lgrp] tid that Dequeue show ?thesis by fastforce
  qed
  from Cons.IH [OF s(2)] Cons.prems(2) s(1) show ?case by simp
qed simp

lemma tq_session_restores:
  assumes "heap_ok h" and "0 < n" and "0 < loc_get_lgrp_size os"
    and "brk h + (tq_words (tq_count os n) n + ENTRY_SIZE * length ops) \<le> mem_limit h"
    and "\<forall>x \<in> set ops. op_tid x < n" and "\<forall>s. 0 \<le> fst (rand_r s)"
  shows "\<exists>h'. tq_session os rand_r n ops h = Inr h' \<and> heap_ok h' \<and> objs h' = objs h"
proof -
  have room: "brk h + tq_words (tq_count os n) n \<le> mem_limit h" using assms(4) by simp
  obtain tq h1 where i: "tq_init os n h = Inr (Some tq, h1)" "num_queues tq = tq_count os n" "num_threads tq = n"
    "tq_ok h1 tq (replicate (num_queues tq) []) (replicate (num_queues tq) [])"
    "alloced (tq_own tq (replicate (num_queues tq) []) (replicate (num_queues tq) [])) (tq_words (num_queues tq) n) h h1"
    using tq_init_ok [OF assms(1-3) room] by blast
  have "tq_alive h n (ENTRY_SIZE * length ops) tq h1"
    using i assms(4) unfolding tq_alive_def alloced_def by force
  from tq_steps_alive [OF this assms(5,6)] obtain tq' h2 qs fs where
    s: "foldE (tq_step rand_r) (tq, h1) ops = Inr (tq', h2)" "tq_ok h2 tq' qs fs"
      "\<forall>a. a \<in> tq_own tq' qs fs \<longrightarrow> objs h a = None" "\<forall>a. a \<notin> tq_own tq' qs fs \<longrightarrow> objs h2 a = objs h a"
    unfolding tq_alive_def by blast
  obtain h' where f: "tq_finalize tq' h2 = Inr h'" "freed (tq_own tq' qs fs) h2 h'"
    using tq_finalize_ok [OF s(2)] by blast
  have "objs h' = objs h" using f(2) s(3,4) by (auto simp: freed_def)
  then show ?thesis using i(1) s(1) f by (auto simp: tq_session_def freed_def)
qed

end
