(* ===== verification/KeyVals.thy ===== *)
theory KeyVals
  imports Prelude
begin

text \<open>
  \<open>src/struct.h\<close> and the key/value arrays of \<open>src/map_reduce.c\<close>: the chunked value lists, the
  sorted array of keys that \<open>emit_intermediate\<close> fills, and the output array that \<open>emit\<close> fills.
  A pointer to a chunk is the list of chunks from it on (each chain has one owner), and an array
  is the list of its elements in use. \<open>pos\<close> and the lengths are \<open>nat\<close>; the binary search keeps
  C's signed indices.
\<close>

section \<open>Data\<close>

text \<open>\<open>val_t\<close>: a chunk of values; the chain through \<open>next_val\<close> is a list of chunks.\<close>

record 'v val_t =
  vsize :: nat
  next_insert_pos :: nat
  varray :: "'v list"

record ('k, 'v) keyvals_t =
  kv_len :: nat
  kv_key :: 'k
  kv_vals :: "'v val_t list"

record ('k, 'v) keyvals_arr_t =
  kvs_len :: nat
  kvs_alloc_len :: nat
  kvs_pos :: nat
  kvs_arr :: "('k, 'v) keyvals_t list"

record ('k, 'v) keyval_t =
  kr_key :: 'k
  kr_val :: 'v

record ('k, 'v) keyval_arr_t =
  kva_len :: nat
  kva_alloc_len :: nat
  kva_pos :: nat
  kva_arr :: "('k, 'v) keyval_t list"

type_synonym 'k key_cmp = "'k \<Rightarrow> 'k \<Rightarrow> int"

definition DEFAULT_KEYVAL_ARR_LEN :: nat where "DEFAULT_KEYVAL_ARR_LEN = 10"
definition DEFAULT_VALS_ARR_LEN :: nat where "DEFAULT_VALS_ARR_LEN = 10"

text \<open>What \<open>mem_calloc\<close> leaves in an array element: everything zero.\<close>

definition keyvals_arr_0 :: "('k, 'v) keyvals_arr_t" where
  "keyvals_arr_0 = \<lparr>kvs_len = 0, kvs_alloc_len = 0, kvs_pos = 0, kvs_arr = []\<rparr>"

definition keyval_arr_0 :: "('k, 'v) keyval_arr_t" where
  "keyval_arr_0 = \<lparr>kva_len = 0, kva_alloc_len = 0, kva_pos = 0, kva_arr = []\<rparr>"

section \<open>Inserting\<close>

text \<open>
  The loop both insertions share: while \<open>high - low > 1\<close>, look at the middle element. It ends
  because the middle lies strictly between the two ends.
\<close>

function bin_search :: "'k key_cmp \<Rightarrow> 'k list \<Rightarrow> 'k \<Rightarrow> int \<Rightarrow> int \<Rightarrow> int res" where
  "bin_search key_cmp ks key low high =
     (if high - low > 1 then
        (let next = (high + low) sdiv 2 in
         bindE (arr_get ks next) (\<lambda>k.
         if key_cmp k key > 0 then bin_search key_cmp ks key low next
         else bin_search key_cmp ks key next high))
      else Inr low)"
  by pat_completeness auto
termination
  by (relation "measure (\<lambda>(c, ks, k, low, high). nat (high - low))")
    (use sdiv2_between in \<open>force+\<close>)

declare bin_search.simps [simp del]

text \<open>
  The position part of \<open>insert_keyval_merged\<close>: the slot and the last comparison's result,
  which is 0 when the key is already there.
\<close>

definition ikm_locate :: "'k key_cmp \<Rightarrow> 'k list \<Rightarrow> 'k \<Rightarrow> (int \<times> int) res" where
  "ikm_locate key_cmp ks key =
     (let n = int (length ks) in
      bindE (if n > 0 then bindE (arr_get ks (n - 1)) (\<lambda>k. Inr (key_cmp k key)) else Inr 1) (\<lambda>cmp.
      if cmp > 0 then
        bindE (bin_search key_cmp ks key (-1) n) (\<lambda>low.
        let low = (if low < 0 then 0 else low) in
        if n > 0 then
          bindE (arr_get ks low) (\<lambda>k.
          let cmp = key_cmp k key in
          if cmp < 0 then Inr (low + 1, cmp) else Inr (low, cmp))
        else Inr (low, cmp))
      else if cmp < 0 then Inr (n, cmp)
      else Inr (n - 1, cmp)))"

text \<open>Doubling of a full array: the new allocated length.\<close>

definition grow :: "nat \<Rightarrow> nat \<Rightarrow> nat" where
  "grow len alloc_len =
     (if len = alloc_len then (if alloc_len = 0 then DEFAULT_KEYVAL_ARR_LEN else alloc_len * 2)
      else alloc_len)"

text \<open>\<open>memmove\<close> of the tail by one slot and a write to the gap, within the allocation.\<close>

definition insert_at :: "nat \<Rightarrow> int \<Rightarrow> 'a \<Rightarrow> 'a list \<Rightarrow> 'a list res" where
  "insert_at alloc_len low x xs =
     (if 0 \<le> low \<and> low \<le> int (length xs) \<and> length xs < alloc_len
      then Inr (take (nat low) xs @ x # drop (nat low) xs) else Inl Out_of_bounds)"

definition new_chunk :: "nat \<Rightarrow> 'v val_t" where
  "new_chunk sz = \<lparr>vsize = sz, next_insert_pos = 0, varray = []\<rparr>"

definition chunk_put :: "'v \<Rightarrow> 'v val_t \<Rightarrow> 'v val_t res" where
  "chunk_put val c =
     (if next_insert_pos c < vsize c
      then Inr (c\<lparr>varray := take (next_insert_pos c) (varray c) @ val # drop (Suc (next_insert_pos c)) (varray c),
                  next_insert_pos := Suc (next_insert_pos c)\<rparr>)
      else Inl Out_of_bounds)"

text \<open>
  The value part of \<open>insert_keyval_merged\<close>: allocate the first chunk, or a chunk of twice the
  size in front when the first one is full, and append to the first chunk.
\<close>

definition push_val :: "('k, 'v) keyvals_t \<Rightarrow> 'v \<Rightarrow> ('k, 'v) keyvals_t res" where
  "push_val insert_pos val =
     (let chain =
        (case kv_vals insert_pos of
           [] \<Rightarrow> [new_chunk DEFAULT_VALS_ARR_LEN]
         | c # cs \<Rightarrow> if next_insert_pos c \<ge> vsize c then new_chunk (vsize c * 2) # c # cs else c # cs)
      in bindE (chunk_put val (hd chain)) (\<lambda>c.
         Inr (insert_pos\<lparr>kv_vals := c # tl chain, kv_len := kv_len insert_pos + 1\<rparr>)))"

definition insert_keyval_merged ::
  "'k key_cmp \<Rightarrow> ('k, 'v) keyvals_arr_t \<Rightarrow> 'k \<Rightarrow> 'v \<Rightarrow> ('k, 'v) keyvals_arr_t res" where
  "insert_keyval_merged key_cmp a key val =
     bindE (assertE (kvs_len a \<le> kvs_alloc_len a)) (\<lambda>_.
     bindE (ikm_locate key_cmp (map kv_key (kvs_arr a)) key) (\<lambda>(low, cmp).
     bindE (if kvs_len a = 0 \<or> cmp \<noteq> 0 then
              (let alloc_len = grow (kvs_len a) (kvs_alloc_len a) in
               bindE (insert_at alloc_len low \<lparr>kv_len = 0, kv_key = key, kv_vals = []\<rparr> (kvs_arr a)) (\<lambda>xs.
               Inr (a\<lparr>kvs_alloc_len := alloc_len, kvs_arr := xs, kvs_len := kvs_len a + 1\<rparr>)))
            else Inr a) (\<lambda>a.
     bindE (arr_get (kvs_arr a) low) (\<lambda>insert_pos.
     bindE (push_val insert_pos val) (\<lambda>insert_pos.
     bindE (arr_set (kvs_arr a) low insert_pos) (\<lambda>xs.
     Inr (a\<lparr>kvs_arr := xs\<rparr>)))))))"

text \<open>The position part of \<open>insert_keyval\<close> (equal keys are kept apart).\<close>

definition ik_locate :: "'k key_cmp \<Rightarrow> 'k list \<Rightarrow> 'k \<Rightarrow> int res" where
  "ik_locate key_cmp ks key =
     (let n = int (length ks) in
      bindE (if n > 0 then bindE (arr_get ks (n - 1)) (\<lambda>k. Inr (key_cmp k key)) else Inr 1) (\<lambda>cmp.
      if cmp > 0 then
        bindE (bin_search key_cmp ks key (-1) n) (\<lambda>low.
        let low = (if low < 0 then 0 else low) in
        if n > 0 then
          bindE (arr_get ks low) (\<lambda>k. Inr (if key_cmp k key < 0 then low + 1 else low))
        else Inr low)
      else Inr n))"

definition insert_keyval ::
  "'k key_cmp \<Rightarrow> bool \<Rightarrow> ('k, 'v) keyval_arr_t \<Rightarrow> 'k \<Rightarrow> 'v \<Rightarrow> ('k, 'v) keyval_arr_t res" where
  "insert_keyval key_cmp oneOutputQueuePerReduceTask a key val =
     bindE (assertE (kva_len a \<le> kva_alloc_len a)) (\<lambda>_.
     let alloc_len = grow (kva_len a) (kva_alloc_len a) in
     bindE (if \<not> oneOutputQueuePerReduceTask
            then ik_locate key_cmp (map kr_key (kva_arr a)) key
            else Inr (int (kva_len a))) (\<lambda>low.
     bindE (insert_at alloc_len low \<lparr>kr_key = key, kr_val = val\<rparr> (kva_arr a)) (\<lambda>xs.
     Inr (a\<lparr>kva_alloc_len := alloc_len, kva_arr := xs, kva_len := kva_len a + 1\<rparr>))))"


section \<open>The order on keys\<close>

text \<open>
  The contract of the user's \<open>key_cmp\<close> as \<open>map_reduce.h\<close> states it: 0 for equal keys, positive
  and negative for greater and smaller ones. Everything below that needs an order is proved in
  this locale; the comparators of the repository's applications are interpretations of it.
\<close>

locale key_order =
  fixes key_cmp :: "'k key_cmp"
  assumes cmp_refl [simp]: "key_cmp a a = 0"
    and cmp_flip: "key_cmp a b < 0 \<longleftrightarrow> key_cmp b a > 0"
    and cmp_trans: "key_cmp a b \<le> 0 \<Longrightarrow> key_cmp b c \<le> 0 \<Longrightarrow> key_cmp a c \<le> 0"
begin

lemma cmp_le_flip: "key_cmp a b \<le> 0 \<longleftrightarrow> key_cmp b a \<ge> 0"
  using cmp_flip [of b a] by linarith

lemma cmp_eq_sym: "key_cmp a b = 0 \<longleftrightarrow> key_cmp b a = 0"
  using cmp_flip [of a b] cmp_flip [of b a] by linarith

lemma cmp_lt_le_trans: "key_cmp a b < 0 \<Longrightarrow> key_cmp b c \<le> 0 \<Longrightarrow> key_cmp a c < 0"
  using cmp_trans [of b c a] cmp_flip [of a b] cmp_flip [of a c] cmp_flip [of b a] cmp_flip [of c a] by linarith

lemma cmp_le_lt_trans: "key_cmp a b \<le> 0 \<Longrightarrow> key_cmp b c < 0 \<Longrightarrow> key_cmp a c < 0"
  using cmp_trans [of c a b] cmp_flip [of b c] cmp_flip [of a c] cmp_flip [of c a] cmp_flip [of c b] by linarith

lemma cmp_lt_trans: "key_cmp a b < 0 \<Longrightarrow> key_cmp b c < 0 \<Longrightarrow> key_cmp a c < 0"
  using cmp_lt_le_trans [of a b c] by simp

lemma cmp_eq_left:
  assumes "key_cmp a b = 0"
  shows "key_cmp a c < 0 \<longleftrightarrow> key_cmp b c < 0" "key_cmp a c = 0 \<longleftrightarrow> key_cmp b c = 0"
proof -
  have ba: "key_cmp b a = 0" using assms cmp_eq_sym by simp
  show lt: "key_cmp a c < 0 \<longleftrightarrow> key_cmp b c < 0"
    using assms ba cmp_le_lt_trans [of a b c] cmp_le_lt_trans [of b a c] by auto
  have "key_cmp a c \<le> 0 \<longleftrightarrow> key_cmp b c \<le> 0"
    using assms ba cmp_trans [of a b c] cmp_trans [of b a c] by auto
  with lt show "key_cmp a c = 0 \<longleftrightarrow> key_cmp b c = 0" by linarith
qed

lemma cmp_eq_right:
  assumes "key_cmp a b = 0"
  shows "key_cmp c a < 0 \<longleftrightarrow> key_cmp c b < 0" "key_cmp c a = 0 \<longleftrightarrow> key_cmp c b = 0"
  using cmp_eq_left [OF assms, of c] cmp_flip [of c a] cmp_flip [of c b] cmp_eq_sym [of a c]
    cmp_eq_sym [of b c] by linarith+

end

section \<open>Well-formed arrays and what they hold\<close>

definition chunk_ok :: "'v val_t \<Rightarrow> bool" where
  "chunk_ok c \<longleftrightarrow> 0 < next_insert_pos c \<and> next_insert_pos c \<le> vsize c \<and> next_insert_pos c \<le> length (varray c)"

definition chunk_vals :: "'v val_t \<Rightarrow> 'v list" where
  "chunk_vals c = take (next_insert_pos c) (varray c)"

text \<open>The values of a key in the order the iterator visits them: newest chunk first.\<close>

definition kv_values :: "('k, 'v) keyvals_t \<Rightarrow> 'v list" where
  "kv_values e = concat (map chunk_vals (kv_vals e))"

definition keyvals_ok :: "('k, 'v) keyvals_t \<Rightarrow> bool" where
  "keyvals_ok e \<longleftrightarrow> kv_vals e \<noteq> [] \<and> (\<forall>c \<in> set (kv_vals e). chunk_ok c) \<and>
     kv_len e = length (kv_values e)"

definition keyvals_arr_ok :: "'k key_cmp \<Rightarrow> ('k, 'v) keyvals_arr_t \<Rightarrow> bool" where
  "keyvals_arr_ok key_cmp a \<longleftrightarrow>
     kvs_len a = length (kvs_arr a) \<and> kvs_len a \<le> kvs_alloc_len a \<and>
     sorted_wrt (\<lambda>x y. key_cmp x y < 0) (map kv_key (kvs_arr a)) \<and>
     (\<forall>e \<in> set (kvs_arr a). keyvals_ok e)"

text \<open>The abstraction of a \<open>keyvals_arr_t\<close>: for every key, the values stored under it.\<close>

fun values_of :: "'k key_cmp \<Rightarrow> ('k, 'v) keyvals_t list \<Rightarrow> 'k \<Rightarrow> 'v multiset" where
  "values_of key_cmp [] k = {#}"
| "values_of key_cmp (e # es) k =
     (if key_cmp (kv_key e) k = 0 then mset (kv_values e) else {#}) + values_of key_cmp es k"

definition keyval_arr_ok :: "('k, 'v) keyval_arr_t \<Rightarrow> bool" where
  "keyval_arr_ok a \<longleftrightarrow> kva_len a = length (kva_arr a) \<and> kva_len a \<le> kva_alloc_len a"

definition keys_sorted :: "'k key_cmp \<Rightarrow> ('k, 'v) keyval_t list \<Rightarrow> bool" where
  "keys_sorted key_cmp xs \<longleftrightarrow> sorted_wrt (\<lambda>x y. key_cmp x y \<le> 0) (map kr_key xs)"

lemma values_of_append [simp]:
  "values_of key_cmp (es @ fs) k = values_of key_cmp es k + values_of key_cmp fs k"
  by (induction es) (simp_all add: ac_simps)

lemma values_of_none: "(\<And>e. e \<in> set es \<Longrightarrow> key_cmp (kv_key e) k \<noteq> 0) \<Longrightarrow> values_of key_cmp es k = {#}"
  by (induction es) simp_all

lemma keyvals_arr_0_ok: "keyvals_arr_ok key_cmp keyvals_arr_0"
  by (simp add: keyvals_arr_ok_def keyvals_arr_0_def)

lemma keyval_arr_0_ok: "keyval_arr_ok keyval_arr_0"
  by (simp add: keyval_arr_ok_def keyval_arr_0_def)

section \<open>The binary search\<close>

lemma bin_search_spec:
  assumes "-1 \<le> low" "low < high" "high \<le> int (length ks)"
    and "low = -1 \<or> key_cmp (ks ! nat low) key \<le> 0"
    and "high = int (length ks) \<or> key_cmp (ks ! nat high) key > 0"
  shows "\<exists>r. bin_search key_cmp ks key low high = Inr r \<and> low \<le> r \<and> r < high \<and>
    (r = -1 \<or> key_cmp (ks ! nat r) key \<le> 0) \<and>
    (r + 1 = int (length ks) \<or> key_cmp (ks ! nat (r + 1)) key > 0)"
  using assms
proof (induction key_cmp ks key low high rule: bin_search.induct)
  case (1 key_cmp ks key low high)
  show ?case
  proof (cases "high - low > 1")
    case False
    with "1.prems" have "high = low + 1" by simp
    with "1.prems" False show ?thesis by (auto simp: bin_search.simps [of key_cmp ks key low])
  next
    case True
    define mid where "mid = (high + low) sdiv 2"
    have b: "low < mid" "mid < high"
      using sdiv2_between [of low high] True by (simp_all add: mid_def)
    have get: "arr_get ks mid = Inr (ks ! nat mid)"
      by (rule arr_get_int) (use "1.prems" b in auto)
    show ?thesis
    proof (cases "key_cmp (ks ! nat mid) key > 0")
      case gt: True
      have "\<exists>r. bin_search key_cmp ks key low mid = Inr r \<and> low \<le> r \<and> r < mid \<and>
        (r = -1 \<or> key_cmp (ks ! nat r) key \<le> 0) \<and>
        (r + 1 = int (length ks) \<or> key_cmp (ks ! nat (r + 1)) key > 0)"
        using "1.prems" b gt by (intro "1.IH"(1) [OF True mid_def get]) auto
      moreover have "bin_search key_cmp ks key low high = bin_search key_cmp ks key low mid"
        by (subst bin_search.simps) (simp add: True get gt flip: mid_def)
      ultimately show ?thesis using b by auto
    next
      case le: False
      have "\<exists>r. bin_search key_cmp ks key mid high = Inr r \<and> mid \<le> r \<and> r < high \<and>
        (r = -1 \<or> key_cmp (ks ! nat r) key \<le> 0) \<and>
        (r + 1 = int (length ks) \<or> key_cmp (ks ! nat (r + 1)) key > 0)"
        using "1.prems" b le by (intro "1.IH"(2) [OF True mid_def get]) auto
      moreover have "bin_search key_cmp ks key low high = bin_search key_cmp ks key mid high"
        using True le by (subst bin_search.simps) (simp add: get flip: mid_def)
      ultimately show ?thesis using b by auto
    qed
  qed
qed


section \<open>Where the key goes\<close>

context key_order
begin

abbreviation lt_key :: "'k \<Rightarrow> 'k \<Rightarrow> bool" where
  "lt_key x y \<equiv> key_cmp x y < 0"

abbreviation le_key :: "'k \<Rightarrow> 'k \<Rightarrow> bool" where
  "le_key x y \<equiv> key_cmp x y \<le> 0"

lemma sorted_lt_le: "sorted_wrt lt_key ks \<Longrightarrow> sorted_wrt le_key ks"
  by (erule sorted_wrt_mono_rel [rotated]) simp

lemma bin_search_sorted:
  assumes "sorted_wrt le_key ks"
  obtains r where "bin_search key_cmp ks key (-1) (int (length ks)) = Inr r"
    "-1 \<le> r" "r < int (length ks)"
    "\<And>j. j < length ks \<Longrightarrow> int j \<le> r \<Longrightarrow> le_key (ks ! j) key"
    "\<And>j. j < length ks \<Longrightarrow> r < int j \<Longrightarrow> lt_key key (ks ! j)"
proof -
  obtain r where r: "bin_search key_cmp ks key (-1) (int (length ks)) = Inr r"
    "-1 \<le> r" "r < int (length ks)" "r = -1 \<or> le_key (ks ! nat r) key"
    "r + 1 = int (length ks) \<or> key_cmp (ks ! nat (r + 1)) key > 0"
    using bin_search_spec [of "-1" "int (length ks)" ks key_cmp key] by auto
  have below: "le_key (ks ! j) key" if "j < length ks" "int j \<le> r" for j
  proof (cases "int j = r")
    case True
    then show ?thesis using r(4) by auto
  next
    case False
    then have "le_key (ks ! j) (ks ! nat r)"
      using that r(2,3) by (intro sorted_wrt_nth_less [OF assms]) auto
    then show ?thesis using r(4) that cmp_trans by auto
  qed
  have above: "lt_key key (ks ! j)" if "j < length ks" "r < int j" for j
  proof -
    have s: "lt_key key (ks ! nat (r + 1))" using r(5) that cmp_flip by auto
    show ?thesis
    proof (cases "int j = r + 1")
      case True
      then have "j = nat (r + 1)" by simp
      with s show ?thesis by simp
    next
      case False
      then have "le_key (ks ! nat (r + 1)) (ks ! j)"
        using that r(2) by (intro sorted_wrt_nth_less [OF assms]) auto
      with s show ?thesis by (rule cmp_lt_le_trans)
    qed
  qed
  show thesis using that r(1-3) below above by blast
qed

text \<open>
  The slot that \<open>insert_keyval_merged\<close> computes: all keys before it are smaller; either the key
  is new and all keys from the slot on are greater, or the slot holds an equal key.
\<close>

lemma ikm_locate_spec:
  assumes "sorted_wrt lt_key ks"
  obtains l c where "ikm_locate key_cmp ks key = Inr (int l, c)" "l \<le> length ks"
    "\<And>j. j < l \<Longrightarrow> lt_key (ks ! j) key"
    "ks \<noteq> [] \<Longrightarrow> c = 0 \<Longrightarrow> l < length ks \<and> key_cmp (ks ! l) key = 0"
    "\<And>j. ks = [] \<or> c \<noteq> 0 \<Longrightarrow> l \<le> j \<Longrightarrow> j < length ks \<Longrightarrow> lt_key key (ks ! j)"
proof (cases "ks = []")
  case True
  have "ikm_locate key_cmp ks key = Inr (int 0, 1)"
    using True by (simp add: ikm_locate_def bin_search.simps)
  with True show thesis by (intro that [of 0 1]) auto
next
  case False
  define n where "n = length ks"
  have n: "0 < n" using False by (simp add: n_def)
  then have "int n - 1 = int (n - 1)" by simp
  then have gl: "arr_get ks (int n - 1) = Inr (ks ! (n - 1))"
    using n by (simp only: arr_get_nth n_def diff_less zero_less_one)
  have before_last: "lt_key (ks ! j) (ks ! (n - 1))" if "j < n - 1" for j
    using that n_def by (intro sorted_wrt_nth_less [OF assms]) auto
  let ?c = "key_cmp (ks ! (n - 1)) key"
  consider (gt) "?c > 0" | (lt) "?c < 0" | (eq) "?c = 0" by linarith
  then show thesis
  proof cases
    case lt
    then have "ikm_locate key_cmp ks key = Inr (int n, ?c)"
      using n gl by (simp add: ikm_locate_def n_def [symmetric])
    moreover have "lt_key (ks ! j) key" if "j < n" for j
      using that lt cmp_lt_trans [OF before_last [of j] lt] by (cases "j = n - 1") auto
    ultimately show thesis using lt by (intro that [of n ?c]) (auto simp: n_def)
  next
    case eq
    then have "ikm_locate key_cmp ks key = Inr (int (n - 1), ?c)"
      using n gl by (simp add: ikm_locate_def n_def [symmetric])
    moreover have "lt_key (ks ! j) key" if "j < n - 1" for j
      using cmp_lt_le_trans [OF before_last [OF that]] eq by simp
    ultimately show thesis using eq n False by (intro that [of "n - 1" ?c]) (auto simp: n_def)
  next
    case gt
    obtain r where r: "bin_search key_cmp ks key (-1) (int n) = Inr r" "-1 \<le> r" "r < int n"
      and below: "\<And>j. j < n \<Longrightarrow> int j \<le> r \<Longrightarrow> le_key (ks ! j) key"
      and above: "\<And>j. j < n \<Longrightarrow> r < int j \<Longrightarrow> lt_key key (ks ! j)"
      using bin_search_sorted [OF sorted_lt_le [OF assms], of key] unfolding n_def by metis
    define m where "m = nat (if r < 0 then 0 else r)"
    have m: "m < n" "(if r < 0 then 0 else r) = int m" using r n by (auto simp: m_def)
    let ?d = "key_cmp (ks ! m) key"
    have eval: "ikm_locate key_cmp ks key = Inr (if ?d < 0 then int (Suc m) else int m, ?d)"
      using n gl gt r(1) m by (simp add: ikm_locate_def n_def [symmetric])
    have smaller: "lt_key (ks ! j) key" if "j < m" for j
    proof -
      have "lt_key (ks ! j) (ks ! m)"
        using that m by (intro sorted_wrt_nth_less [OF assms]) (auto simp: n_def)
      moreover have "int m \<le> r" using that by (auto simp: m_def)
      then have "le_key (ks ! m) key" using m(1) by (intro below)
      ultimately show ?thesis by (rule cmp_lt_le_trans)
    qed
    show thesis
    proof (cases "?d < 0")
      case True
      then have r0: "r = int m" using above [of m] m cmp_flip [of "ks ! m" key] by (cases "r < 0") auto
      show thesis
      proof (rule that [of "Suc m" ?d])
        show "ikm_locate key_cmp ks key = Inr (int (Suc m), ?d)" using eval True by simp
        show "Suc m \<le> length ks" using m n_def by simp
        show "lt_key (ks ! j) key" if "j < Suc m" for j
          using that smaller True by (cases "j = m") auto
        show "lt_key key (ks ! j)" if "Suc m \<le> j" "j < length ks" for j
          using that r0 n_def by (intro above) auto
      qed (use True in simp)
    next
      case False
      have r0: "?d = 0 \<or> r < 0" using below [of m] m False by auto
      show thesis
      proof (rule that [of m ?d])
        show "ikm_locate key_cmp ks key = Inr (int m, ?d)" using eval False by simp
        show "lt_key key (ks ! j)" if "ks = [] \<or> ?d \<noteq> 0" "m \<le> j" "j < length ks" for j
          using that r0 n_def \<open>ks \<noteq> []\<close> by (intro above) auto
      qed (use m n_def smaller in auto)
    qed
  qed
qed

end


section \<open>What the insertions do\<close>

lemma chunk_put_ok:
  assumes "next_insert_pos c < vsize c" and "next_insert_pos c \<le> length (varray c)"
  obtains c' where "chunk_put v c = Inr c'" "chunk_ok c'" "chunk_vals c' = chunk_vals c @ [v]"
    "vsize c' = vsize c"
proof -
  let ?n = "next_insert_pos c"
  let ?c = "c\<lparr>varray := take ?n (varray c) @ v # drop (Suc ?n) (varray c), next_insert_pos := Suc ?n\<rparr>"
  have "chunk_put v c = Inr ?c" using assms by (simp add: chunk_put_def)
  moreover have "chunk_ok ?c" using assms by (simp add: chunk_ok_def)
  moreover have "chunk_vals ?c = chunk_vals c @ [v]"
    using assms by (simp add: chunk_vals_def min_absorb2)
  ultimately show thesis using that by simp
qed

lemma new_chunk_simps [simp]:
  "vsize (new_chunk n) = n" "next_insert_pos (new_chunk n) = 0" "varray (new_chunk n) = []"
  by (simp_all add: new_chunk_def)

lemma push_val_ok:
  assumes "kv_vals e = [] \<and> kv_len e = 0 \<or> keyvals_ok e"
  obtains e' where "push_val e v = Inr e'" "keyvals_ok e'" "kv_key e' = kv_key e"
    "mset (kv_values e') = add_mset v (mset (kv_values e))"
proof (cases "kv_vals e")
  case Nil
  obtain c' where c': "chunk_put v (new_chunk DEFAULT_VALS_ARR_LEN) = Inr c'" "chunk_ok c'"
      "chunk_vals c' = chunk_vals (new_chunk DEFAULT_VALS_ARR_LEN) @ [v]"
    by (rule chunk_put_ok [of "new_chunk DEFAULT_VALS_ARR_LEN" v]) (auto simp: DEFAULT_VALS_ARR_LEN_def)
  then have "chunk_vals c' = [v]" by (simp add: chunk_vals_def)
  with c' Nil assms show thesis
    by (intro that [of "e\<lparr>kv_vals := [c'], kv_len := kv_len e + 1\<rparr>"])
      (auto simp: push_val_def keyvals_ok_def kv_values_def)
next
  case (Cons c cs)
  then have ok: "keyvals_ok e" using assms by auto
  then have c: "chunk_ok c" using Cons by (simp add: keyvals_ok_def)
  show thesis
  proof (cases "next_insert_pos c \<ge> vsize c")
    case True
    obtain c' where c': "chunk_put v (new_chunk (vsize c * 2)) = Inr c'" "chunk_ok c'"
        "chunk_vals c' = chunk_vals (new_chunk (vsize c * 2)) @ [v]"
      by (rule chunk_put_ok [of "new_chunk (vsize c * 2)" v]) (use c in \<open>auto simp: chunk_ok_def\<close>)
    then have "chunk_vals c' = [v]" by (simp add: chunk_vals_def)
    with c' Cons True ok show thesis
      by (intro that [of "e\<lparr>kv_vals := c' # c # cs, kv_len := kv_len e + 1\<rparr>"])
        (auto simp: push_val_def keyvals_ok_def kv_values_def)
  next
    case False
    obtain c' where "chunk_put v c = Inr c'" "chunk_ok c'" "chunk_vals c' = chunk_vals c @ [v]"
      by (rule chunk_put_ok [of c v]) (use c False in \<open>auto simp: chunk_ok_def\<close>)
    with Cons False ok show thesis
      by (intro that [of "e\<lparr>kv_vals := c' # cs, kv_len := kv_len e + 1\<rparr>"])
        (auto simp: push_val_def keyvals_ok_def kv_values_def)
  qed
qed

lemma grow_room: "len \<le> alloc_len \<Longrightarrow> len < grow len alloc_len \<and> alloc_len \<le> grow len alloc_len"
  by (auto simp: grow_def DEFAULT_KEYVAL_ARR_LEN_def)

lemma insert_at_ok:
  "l \<le> length xs \<Longrightarrow> length xs < n \<Longrightarrow> insert_at n (int l) x xs = Inr (take l xs @ x # drop l xs)"
  by (simp add: insert_at_def)

lemma values_of_update:
  assumes "l < length es" and "kv_key e' = kv_key (es ! l)"
    and "mset (kv_values e') = add_mset v (mset (kv_values (es ! l)))"
  shows "values_of key_cmp (es[l := e']) k =
    (if key_cmp (kv_key (es ! l)) k = 0 then add_mset v (values_of key_cmp es k) else values_of key_cmp es k)"
  using assms
proof (induction es arbitrary: l)
  case (Cons a es)
  then show ?case by (cases l) auto
qed simp

context key_order
begin

lemma keyvals_arr_upd:
  assumes l: "l < length es" and e: "keyvals_ok e'" "kv_key e' = kv_key (es ! l)"
    and others: "\<forall>j < length es. j \<noteq> l \<longrightarrow> keyvals_ok (es ! j)"
  shows "map kv_key (es[l := e']) = map kv_key es" "\<forall>x \<in> set (es[l := e']). keyvals_ok x"
proof -
  show "map kv_key (es[l := e']) = map kv_key es"
    using l e(2) by (simp add: map_update list_update_same_conv)
  show "\<forall>x \<in> set (es[l := e']). keyvals_ok x"
    using l e(1) others by (auto simp: in_set_conv_nth nth_list_update)
qed

lemma insert_keyval_merged_correct:
  fixes a :: "('k, 'v) keyvals_arr_t"
  assumes ok: "keyvals_arr_ok key_cmp a"
  obtains a' where "insert_keyval_merged key_cmp a key val = Inr a'" "keyvals_arr_ok key_cmp a'"
    "kvs_pos a' = kvs_pos a"
    "\<And>k. values_of key_cmp (kvs_arr a') k =
       (if key_cmp key k = 0 then add_mset val (values_of key_cmp (kvs_arr a) k)
        else values_of key_cmp (kvs_arr a) k)"
    "set (map kv_key (kvs_arr a')) \<subseteq> insert key (set (map kv_key (kvs_arr a)))"
proof -
  let ?es = "kvs_arr a" and ?ks = "map kv_key (kvs_arr a)"
  have len: "kvs_len a = length ?es" "kvs_len a \<le> kvs_alloc_len a"
    and sorted: "sorted_wrt lt_key ?ks" and each: "\<forall>e \<in> set ?es. keyvals_ok e"
    using ok by (simp_all add: keyvals_arr_ok_def)
  obtain l c where loc: "ikm_locate key_cmp ?ks key = Inr (int l, c)" "l \<le> length ?ks"
      "\<And>j. j < l \<Longrightarrow> lt_key (?ks ! j) key"
      "?ks \<noteq> [] \<Longrightarrow> c = 0 \<Longrightarrow> l < length ?ks \<and> key_cmp (?ks ! l) key = 0"
      "\<And>j. ?ks = [] \<or> c \<noteq> 0 \<Longrightarrow> l \<le> j \<Longrightarrow> j < length ?ks \<Longrightarrow> lt_key key (?ks ! j)"
    by (rule ikm_locate_spec [OF sorted, of key]) blast
  show thesis
  proof (cases "kvs_len a = 0 \<or> c \<noteq> 0")
    case True
    define n where "n = grow (kvs_len a) (kvs_alloc_len a)"
    define fresh where "fresh = \<lparr>kv_len = 0, kv_key = key, kv_vals = ([] :: 'v val_t list)\<rparr>"
    define es1 where "es1 = take l ?es @ fresh # drop l ?es"
    have n: "kvs_len a < n" using grow_room [OF len(2)] by (simp add: n_def)
    have l: "l \<le> length ?es" using loc(2) by simp
    have nth1: "es1 ! l = fresh" and len1: "length es1 = Suc (length ?es)"
      using l by (simp_all add: es1_def nth_append)
    obtain e' where e': "push_val fresh val = Inr e'" "keyvals_ok e'" "kv_key e' = key"
        "mset (kv_values e') = {#val#}"
      by (rule push_val_ok [of fresh val]) (auto simp: fresh_def kv_values_def)
    have new: "?ks = [] \<or> c \<noteq> 0" using True len(1) by auto
    have sorted1: "sorted_wrt lt_key (take l ?ks @ key # drop l ?ks)"
      using loc(2,3) loc(5) [OF new] by (intro sorted_wrt_take_Cons_drop [OF sorted]) auto
    have es2: "es1[l := e'] = take l ?es @ e' # drop l ?es"
      using l by (simp add: es1_def list_update_append)
    have keys: "map kv_key (es1[l := e']) = take l ?ks @ key # drop l ?ks"
      using e'(3) by (simp add: es2 take_map drop_map)
    have ins: "insert_at n (int l) fresh ?es = Inr es1"
      using insert_at_ok [of l ?es n fresh] l n len(1) by (simp add: es1_def)
    have "l < length es1" using len1 l by simp
    then have "insert_keyval_merged key_cmp a key val =
      Inr (a\<lparr>kvs_alloc_len := n, kvs_len := kvs_len a + 1, kvs_arr := es1[l := e']\<rparr>)"
      using True len(2) loc(1) ins e'(1) nth1
      by (simp add: insert_keyval_merged_def flip: n_def fresh_def)
    moreover have "keyvals_arr_ok key_cmp (a\<lparr>kvs_alloc_len := n, kvs_len := kvs_len a + 1, kvs_arr := es1[l := e']\<rparr>)"
      using sorted1 keys n len len1 e'(2) each
      by (auto simp: keyvals_arr_ok_def es2 dest: in_set_takeD in_set_dropD)
    moreover have "values_of key_cmp (es1[l := e']) k =
       (if key_cmp key k = 0 then add_mset val (values_of key_cmp ?es k) else values_of key_cmp ?es k)" for k
    proof -
      have "values_of key_cmp ?es k = values_of key_cmp (take l ?es) k + values_of key_cmp (drop l ?es) k"
        by (simp only: append_take_drop_id flip: values_of_append)
      then show ?thesis using e'(3,4) by (simp add: es2)
    qed
    moreover have "set (map kv_key (es1[l := e'])) \<subseteq> insert key (set ?ks)"
      unfolding keys by (auto dest: in_set_takeD in_set_dropD)
    ultimately show thesis
      by (intro that [of "a\<lparr>kvs_alloc_len := n, kvs_len := kvs_len a + 1, kvs_arr := es1[l := e']\<rparr>"]) auto
  next
    case False
    then have l: "l < length ?es" and eq: "key_cmp (kv_key (?es ! l)) key = 0"
      using loc(4) len(1) by auto
    obtain e' where e': "push_val (?es ! l) val = Inr e'" "keyvals_ok e'" "kv_key e' = kv_key (?es ! l)"
        "mset (kv_values e') = add_mset val (mset (kv_values (?es ! l)))"
      using push_val_ok [of "?es ! l" val] each l by auto
    have upd: "map kv_key (?es[l := e']) = ?ks" "\<forall>x \<in> set (?es[l := e']). keyvals_ok x"
      by (rule keyvals_arr_upd [OF l e'(2,3)]; use each in simp)+
    have "insert_keyval_merged key_cmp a key val = Inr (a\<lparr>kvs_arr := ?es[l := e']\<rparr>)"
      using False len loc(1) l e'(1) by (auto simp: insert_keyval_merged_def)
    moreover have "keyvals_arr_ok key_cmp (a\<lparr>kvs_arr := ?es[l := e']\<rparr>)"
      using ok upd by (simp add: keyvals_arr_ok_def)
    moreover have "values_of key_cmp (?es[l := e']) k =
       (if key_cmp key k = 0 then add_mset val (values_of key_cmp ?es k) else values_of key_cmp ?es k)" for k
      using values_of_update [OF l e'(3,4)] cmp_eq_left(2) [OF eq, of k] by simp
    moreover have "set (map kv_key (?es[l := e'])) \<subseteq> insert key (set ?ks)"
      unfolding upd by auto
    ultimately show thesis
      by (intro that [of "a\<lparr>kvs_arr := ?es[l := e']\<rparr>"]) auto
  qed
qed

lemma ik_locate_spec:
  assumes "sorted_wrt le_key ks"
  obtains l where "ik_locate key_cmp ks key = Inr (int l)" "l \<le> length ks"
    "\<And>j. j < l \<Longrightarrow> le_key (ks ! j) key"
    "\<And>j. l \<le> j \<Longrightarrow> j < length ks \<Longrightarrow> le_key key (ks ! j)"
proof (cases "ks = []")
  case True
  then show thesis by (intro that [of 0]) (auto simp: ik_locate_def bin_search.simps)
next
  case False
  define n where "n = length ks"
  have n: "0 < n" using False by (simp add: n_def)
  then have "int n - 1 = int (n - 1)" by simp
  then have gl: "arr_get ks (int n - 1) = Inr (ks ! (n - 1))"
    using n by (simp only: arr_get_nth n_def diff_less zero_less_one)
  let ?c = "key_cmp (ks ! (n - 1)) key"
  show thesis
  proof (cases "?c > 0")
    case gt: False
    then have "ik_locate key_cmp ks key = Inr (int n)"
      using n gl by (simp add: ik_locate_def n_def [symmetric])
    moreover have "le_key (ks ! j) key" if "j < n" for j
    proof (cases "j = n - 1")
      case True
      with gt show ?thesis by simp
    next
      case False
      then have "le_key (ks ! j) (ks ! (n - 1))"
        using that n_def by (intro sorted_wrt_nth_less [OF assms]) auto
      with gt cmp_trans show ?thesis by (meson not_less)
    qed
    ultimately show thesis by (intro that [of n]) (auto simp: n_def)
  next
    case True
    obtain r where r: "bin_search key_cmp ks key (-1) (int n) = Inr r" "-1 \<le> r" "r < int n"
      and below: "\<And>j. j < n \<Longrightarrow> int j \<le> r \<Longrightarrow> le_key (ks ! j) key"
      and above: "\<And>j. j < n \<Longrightarrow> r < int j \<Longrightarrow> lt_key key (ks ! j)"
      using bin_search_sorted [OF assms, of key] unfolding n_def by metis
    define m where "m = nat (if r < 0 then 0 else r)"
    have m: "m < n" "(if r < 0 then 0 else r) = int m" using r n by (auto simp: m_def)
    let ?d = "key_cmp (ks ! m) key"
    have eval: "ik_locate key_cmp ks key = Inr (if ?d < 0 then int (Suc m) else int m)"
      using n gl True r(1) m by (simp add: ik_locate_def n_def [symmetric])
    have mr: "j < m \<Longrightarrow> int j \<le> r" "r < 0 \<Longrightarrow> m = 0" "r \<le> int m" for j by (auto simp: m_def split: if_splits)
    show thesis
    proof (cases "?d < 0")
      case lt: True
      then have r0: "r = int m" using above [of m] m cmp_flip [of "ks ! m" key] by (cases "r < 0") auto
      show thesis
      proof (rule that [of "Suc m"])
        show "ik_locate key_cmp ks key = Inr (int (Suc m))" using eval lt by simp
        show "Suc m \<le> length ks" using m n_def by simp
        show "le_key (ks ! j) key" if "j < Suc m" for j
          using that r0 m by (intro below) auto
        show "le_key key (ks ! j)" if "Suc m \<le> j" "j < length ks" for j
          using that r0 n_def above [of j] by auto
      qed
    next
      case ge: False
      show thesis
      proof (rule that [of m])
        show "ik_locate key_cmp ks key = Inr (int m)" using eval ge by simp
        show "m \<le> length ks" using m n_def by simp
        show "le_key (ks ! j) key" if "j < m" for j
          using that mr(1) m by (intro below) auto
        show "le_key key (ks ! j)" if "m \<le> j" "j < length ks" for j
        proof (cases "j = m")
          case True
          with ge show ?thesis using cmp_le_flip [of key "ks ! m"] by simp
        next
          case False
          with that have "r < int j" using mr(3) by linarith
          with that n_def above [of j] show ?thesis by auto
        qed
      qed
    qed
  qed
qed

text \<open>
  \<open>insert_keyval\<close> adds exactly one pair. In the mode with one queue per reduce thread the keys
  stay sorted; in the other mode the pair goes to the end.
\<close>

lemma insert_keyval_sorted:
  assumes "keyval_arr_ok a" and "keys_sorted key_cmp (kva_arr a)"
  obtains a' where "insert_keyval key_cmp False a key val = Inr a'" "keyval_arr_ok a'"
    "keys_sorted key_cmp (kva_arr a')" "kva_pos a' = kva_pos a"
    "mset (kva_arr a') = add_mset \<lparr>kr_key = key, kr_val = val\<rparr> (mset (kva_arr a))"
proof -
  let ?xs = "kva_arr a" and ?r = "\<lparr>kr_key = key, kr_val = val\<rparr>"
  have len: "kva_len a = length ?xs" "kva_len a \<le> kva_alloc_len a"
    using assms(1) by (simp_all add: keyval_arr_ok_def)
  obtain l where l: "ik_locate key_cmp (map kr_key ?xs) key = Inr (int l)" "l \<le> length (map kr_key ?xs)"
      "\<And>j. j < l \<Longrightarrow> le_key (map kr_key ?xs ! j) key"
      "\<And>j. l \<le> j \<Longrightarrow> j < length (map kr_key ?xs) \<Longrightarrow> le_key key (map kr_key ?xs ! j)"
    using ik_locate_spec [OF assms(2) [unfolded keys_sorted_def], of key] by metis
  define n where "n = grow (kva_len a) (kva_alloc_len a)"
  have n: "kva_len a < n" using grow_room [OF len(2)] by (simp add: n_def)
  let ?ys = "take l ?xs @ ?r # drop l ?xs"
  have ins: "insert_at n (int l) ?r ?xs = Inr ?ys"
    using insert_at_ok [of l ?xs n ?r] l(2) n len(1) by simp
  have "sorted_wrt le_key (take l (map kr_key ?xs) @ key # drop l (map kr_key ?xs))"
    using l(2-4) by (intro sorted_wrt_take_Cons_drop [OF assms(2) [unfolded keys_sorted_def]]) auto
  then have "keys_sorted key_cmp ?ys" by (simp add: keys_sorted_def take_map drop_map)
  moreover have "insert_keyval key_cmp False a key val =
      Inr (a\<lparr>kva_alloc_len := n, kva_arr := ?ys, kva_len := kva_len a + 1\<rparr>)"
    using len(2) l(1) ins by (simp add: insert_keyval_def Let_def flip: n_def)
  moreover have "mset ?ys = add_mset ?r (mset ?xs)" by (rule mset_take_Cons_drop)
  ultimately show thesis
    using len l(2) n
    by (intro that [of "a\<lparr>kva_alloc_len := n, kva_arr := ?ys, kva_len := kva_len a + 1\<rparr>"])
      (auto simp: keyval_arr_ok_def)
qed

end

lemma insert_keyval_append:
  assumes "keyval_arr_ok a"
  shows "\<exists>n. insert_keyval key_cmp True a key val =
    Inr (a\<lparr>kva_alloc_len := n, kva_arr := kva_arr a @ [\<lparr>kr_key = key, kr_val = val\<rparr>], kva_len := kva_len a + 1\<rparr>)
    \<and> kva_len a < n"
  using assms grow_room [of "kva_len a" "kva_alloc_len a"]
  by (auto simp: insert_keyval_def keyval_arr_ok_def insert_at_def Let_def)

end
