(* ===== verification/Iter.thy ===== *)
theory Iter
  imports KeyVals
begin

text \<open>
  \<open>src/iterator.c\<close>: the iterator a reduce or combiner function reads its values with. It walks
  several \<open>keyvals_t\<close> entries, each a chain of chunks. The field \<open>val\<close> (a chunk pointer) is the
  list of chunks from the current one on, NULL the empty list; \<open>list_array\<close> holds the slots
  written so far.
\<close>

section \<open>Operations\<close>

record ('k, 'v) iterator_t =
  list_array :: "('k, 'v) keyvals_t list"
  max_list :: nat
  it_next_insert_pos :: nat
  current_list :: nat
  current_index :: nat
  it_val :: "'v val_t list"
  it_size :: nat

text \<open>\<open>mem_malloc\<close> asserts, so the NULL check after it never fires and \<open>iter_init\<close> returns 0.\<close>

definition iter_init :: "int \<Rightarrow> (int \<times> ('k, 'v) iterator_t) res" where
  "iter_init num_lists =
     bindE (assertE (num_lists > 0)) (\<lambda>_.
     Inr (0, \<lparr>list_array = [], max_list = nat num_lists, it_next_insert_pos = 0, current_list = 0,
              current_index = 0, it_val = [], it_size = 0\<rparr>))"

definition iter_reset :: "('k, 'v) iterator_t \<Rightarrow> ('k, 'v) iterator_t" where
  "iter_reset itr =
     itr\<lparr>it_next_insert_pos := 0, current_list := 0, current_index := 0, it_val := [], it_size := 0\<rparr>"

definition iter_rewind :: "('k, 'v) iterator_t \<Rightarrow> ('k, 'v) iterator_t res" where
  "iter_rewind itr =
     bindE (arr_get (list_array itr) 0) (\<lambda>l.
     Inr (itr\<lparr>current_list := 0, current_index := 0, it_val := kv_vals l\<rparr>))"

definition put_slot :: "nat \<Rightarrow> 'a \<Rightarrow> 'a list \<Rightarrow> 'a list" where
  "put_slot i x xs = take i xs @ x # drop (Suc i) xs"

definition iter_add :: "('k, 'v) iterator_t \<Rightarrow> ('k, 'v) keyvals_t \<Rightarrow> (int \<times> ('k, 'v) iterator_t) res" where
  "iter_add itr list =
     bindE (assertE (kv_len list \<noteq> 0)) (\<lambda>_.
     if it_next_insert_pos itr \<ge> max_list itr then Inr (-1, itr)
     else
       (let n = it_next_insert_pos itr;
            itr = itr\<lparr>list_array := put_slot n list (list_array itr)\<rparr>;
            itr = (if n = 0 then itr\<lparr>it_val := kv_vals list\<rparr> else itr)
        in Inr (0, itr\<lparr>it_next_insert_pos := n + 1, it_size := it_size itr + kv_len list\<rparr>)))"

text \<open>The read at the end of \<open>iter_next\<close>: \<open>*addr = itr->val->array[itr->current_index++]\<close>.\<close>

definition iter_read :: "('k, 'v) iterator_t \<Rightarrow> (int \<times> 'v option \<times> ('k, 'v) iterator_t) res" where
  "iter_read itr =
     (case it_val itr of
        [] \<Rightarrow> Inl Null_deref
      | c # _ \<Rightarrow>
          bindE (arr_get (varray c) (int (current_index itr))) (\<lambda>x.
          Inr (1, Some x, itr\<lparr>current_index := current_index itr + 1\<rparr>)))"

definition iter_next :: "('k, 'v) iterator_t \<Rightarrow> (int \<times> 'v option \<times> ('k, 'v) iterator_t) res" where
  "iter_next itr =
     (case it_val itr of
        [] \<Rightarrow> Inl Null_deref
      | c # cs \<Rightarrow>
          if current_index itr \<ge> next_insert_pos c then
            if cs \<noteq> [] then iter_read (itr\<lparr>it_val := cs, current_index := 0\<rparr>)
            else if current_list itr + 1 < it_next_insert_pos itr then
              bindE (arr_get (list_array itr) (int (current_list itr + 1))) (\<lambda>l.
              iter_read (itr\<lparr>current_list := current_list itr + 1, it_val := kv_vals l, current_index := 0\<rparr>))
            else Inr (0, None, itr)
          else iter_read itr)"

definition iter_next_list ::
  "('k, 'v) iterator_t \<Rightarrow> (int \<times> ('k, 'v) keyvals_t option \<times> ('k, 'v) iterator_t) res" where
  "iter_next_list itr =
     (if current_list itr \<ge> it_next_insert_pos itr then Inr (0, None, itr)
      else bindE (arr_get (list_array itr) (int (current_list itr))) (\<lambda>l.
           Inr (1, Some l, itr\<lparr>current_list := current_list itr + 1\<rparr>)))"

definition iter_size :: "('k, 'v) iterator_t \<Rightarrow> int" where
  "iter_size itr = int (it_size itr)"

section \<open>The contract: a stream of values\<close>

text \<open>
  The loop every reduce and combiner function of the repository runs:
  \<open>while (iter_next (itr, &val)) state = step (state, val);\<close> with a bound on the rounds.
\<close>

fun while_next :: "('i \<Rightarrow> (int \<times> 'v option \<times> 'i) res) \<Rightarrow> nat \<Rightarrow> ('s \<Rightarrow> 'v \<Rightarrow> 's res) \<Rightarrow> 's \<Rightarrow> 'i \<Rightarrow> ('s \<times> 'i) res" where
  "while_next next 0 step s i = Inl No_fuel"
| "while_next next (Suc fuel) step s i =
     bindE (next i) (\<lambda>(ret, val, i).
     if ret = 0 then Inr (s, i)
     else case val of None \<Rightarrow> Inl Null_deref
          | Some v \<Rightarrow> bindE (step s v) (\<lambda>s. while_next next fuel step s i))"

locale value_stream =
  fixes next_val :: "'i \<Rightarrow> (int \<times> 'v option \<times> 'i) res"
    and rest :: "'i \<Rightarrow> 'v list"
    and ok :: "'i \<Rightarrow> bool"
  assumes next_end: "ok i \<Longrightarrow> rest i = [] \<Longrightarrow> next_val i = Inr (0, None, i)"
    and next_some: "ok i \<Longrightarrow> rest i = x # xs \<Longrightarrow>
      \<exists>i'. next_val i = Inr (1, Some x, i') \<and> ok i' \<and> rest i' = xs"
begin

text \<open>
  With one round more than there are values the loop ends, having folded its body over all of
  them in order, or at the first fault of the body.
\<close>

lemma while_next_folds:
  assumes "ok i" and "length (rest i) < fuel"
  shows "case foldE step s (rest i) of
      Inl e \<Rightarrow> while_next next_val fuel step s i = Inl e
    | Inr s' \<Rightarrow> \<exists>i'. while_next next_val fuel step s i = Inr (s', i') \<and> ok i' \<and> rest i' = []"
  using assms
proof (induction fuel arbitrary: s i)
  case (Suc fuel)
  show ?case
  proof (cases "rest i")
    case Nil
    then show ?thesis using Suc.prems next_end by simp
  next
    case (Cons x xs)
    then obtain i' where i': "next_val i = Inr (1, Some x, i')" "ok i'" "rest i' = xs"
      using next_some Suc.prems(1) by blast
    show ?thesis
    proof (cases "step s x")
      case (Inl e)
      then show ?thesis using Cons i' by simp
    next
      case (Inr s1)
      have "length (rest i') < fuel" using Suc.prems(2) Cons i'(3) by simp
      from Suc.IH [OF i'(2) this, of s1] show ?thesis
        using Cons i' Inr by (simp split: sum.splits)
    qed
  qed
qed simp

end


section \<open>The iterator is such a stream\<close>

definition iter_lists :: "('k, 'v) iterator_t \<Rightarrow> ('k, 'v) keyvals_t list" where
  "iter_lists itr = take (it_next_insert_pos itr) (list_array itr)"

definition iter_rest :: "('k, 'v) iterator_t \<Rightarrow> 'v list" where
  "iter_rest itr =
     (case it_val itr of [] \<Rightarrow> []
      | c # cs \<Rightarrow> drop (current_index itr) (chunk_vals c) @ concat (map chunk_vals cs))
     @ concat (map kv_values (drop (Suc (current_list itr)) (iter_lists itr)))"

text \<open>An iterator with at least one list added, at some position between two values.\<close>

definition iter_ok :: "('k, 'v) iterator_t \<Rightarrow> bool" where
  "iter_ok itr \<longleftrightarrow>
     current_list itr < it_next_insert_pos itr \<and> it_next_insert_pos itr \<le> length (list_array itr) \<and>
     (\<forall>l \<in> set (iter_lists itr). keyvals_ok l) \<and>
     it_val itr \<noteq> [] \<and> (\<forall>c \<in> set (it_val itr). chunk_ok c) \<and>
     current_index itr \<le> next_insert_pos (hd (it_val itr))"

text \<open>An iterator that was just initialised or reset.\<close>

definition iter_fresh :: "('k, 'v) iterator_t \<Rightarrow> bool" where
  "iter_fresh itr \<longleftrightarrow> it_next_insert_pos itr = 0 \<and> current_list itr = 0 \<and> current_index itr = 0 \<and> it_size itr = 0"

lemma length_chunk_vals: "chunk_ok c \<Longrightarrow> length (chunk_vals c) = next_insert_pos c"
  by (simp add: chunk_ok_def chunk_vals_def)

lemma iter_read_ok:
  assumes "iter_ok i" and "it_val i = c # cs" and "current_index i < next_insert_pos c"
  shows "\<exists>x i'. iter_read i = Inr (1, Some x, i') \<and> iter_ok i' \<and> iter_rest i = x # iter_rest i' \<and>
    iter_lists i' = iter_lists i \<and> it_size i' = it_size i"
proof -
  let ?n = "current_index i" and ?i = "i\<lparr>current_index := current_index i + 1\<rparr>"
  have c: "chunk_ok c" using assms(1,2) by (simp add: iter_ok_def)
  then have n: "?n < length (varray c)" using assms(3) by (simp add: chunk_ok_def)
  have "drop ?n (chunk_vals c) = varray c ! ?n # drop (Suc ?n) (chunk_vals c)"
    using n assms(3) length_chunk_vals [OF c]
    by (simp add: chunk_vals_def flip: Cons_nth_drop_Suc)
  then have "iter_rest i = varray c ! ?n # iter_rest ?i"
    using assms(2) by (simp add: iter_rest_def iter_lists_def)
  moreover have "iter_read i = Inr (1, Some (varray c ! ?n), ?i)"
    using assms(2) n by (simp add: iter_read_def)
  moreover have "iter_ok ?i" using assms by (simp add: iter_ok_def iter_lists_def)
  ultimately show ?thesis by (auto simp: iter_lists_def)
qed

lemma iter_next_cases:
  assumes "iter_ok i"
  shows "iter_rest i = [] \<and> iter_next i = Inr (0, None, i) \<or>
    (\<exists>x i'. iter_next i = Inr (1, Some x, i') \<and> iter_ok i' \<and> iter_rest i = x # iter_rest i' \<and>
       iter_lists i' = iter_lists i \<and> it_size i' = it_size i)"
proof -
  obtain c cs where v: "it_val i = c # cs" using assms by (cases "it_val i") (auto simp: iter_ok_def)
  have c: "chunk_ok c" "\<forall>d \<in> set cs. chunk_ok d" using assms v by (auto simp: iter_ok_def)
  show ?thesis
  proof (cases "current_index i \<ge> next_insert_pos c")
    case False
    then have "iter_next i = iter_read i" using v by (simp add: iter_next_def)
    then show ?thesis using iter_read_ok [OF assms v] False by (simp add: not_le)
  next
    case True
    then have done_c: "drop (current_index i) (chunk_vals c) = []"
      using length_chunk_vals [OF c(1)] by simp
    show ?thesis
    proof (cases cs)
      case (Cons d ds)
      let ?i = "i\<lparr>it_val := cs, current_index := 0\<rparr>"
      have ok: "iter_ok ?i" using assms v c Cons by (simp add: iter_ok_def iter_lists_def)
      have "iter_rest i = iter_rest ?i"
        using v done_c Cons by (simp add: iter_rest_def iter_lists_def)
      moreover have "iter_next i = iter_read ?i" using v True Cons by (simp add: iter_next_def)
      moreover have "0 < next_insert_pos d" using c(2) Cons by (simp add: chunk_ok_def)
      ultimately show ?thesis
        using iter_read_ok [OF ok, of d ds] Cons by (simp add: iter_lists_def)
    next
      case Nil
      show ?thesis
      proof (cases "current_list i + 1 < it_next_insert_pos i")
        case more: True
        let ?n = "Suc (current_list i)"
        define l where "l = list_array i ! ?n"
        let ?i = "i\<lparr>current_list := ?n, it_val := kv_vals l, current_index := 0\<rparr>"
        have len: "?n < length (iter_lists i)" "?n < length (list_array i)"
          using more assms by (auto simp: iter_ok_def iter_lists_def)
        have nth: "iter_lists i ! ?n = l" using more len by (simp add: iter_lists_def l_def)
        then have l: "keyvals_ok l" using assms len(1) nth_mem [OF len(1)] by (simp add: iter_ok_def)
        have dr: "drop ?n (iter_lists i) = l # drop (Suc ?n) (iter_lists i)"
          using len(1) nth by (metis Cons_nth_drop_Suc)
        have same: "iter_lists ?i = iter_lists i" by (simp add: iter_lists_def)
        obtain d ds where d: "kv_vals l = d # ds" "chunk_ok d" "\<forall>x \<in> set ds. chunk_ok x"
          using l by (cases "kv_vals l") (auto simp: keyvals_ok_def)
        have "arr_get (list_array i) (int ?n) = Inr l"
          using arr_get_nth [OF len(2)] by (simp add: l_def)
        then have "iter_next i = iter_read ?i"
          using v True Nil more by (simp add: iter_next_def)
        moreover have "iter_ok ?i" using assms more d same by (simp add: iter_ok_def)
        moreover have "iter_rest i = iter_rest ?i"
          using v done_c Nil dr same d(1) by (simp add: iter_rest_def kv_values_def)
        ultimately show ?thesis
          using iter_read_ok [of ?i d ds] d same by (simp add: chunk_ok_def)
      next
        case False
        then have "drop (Suc (current_list i)) (iter_lists i) = []"
          by (simp add: iter_lists_def)
        then show ?thesis using v True Nil False done_c by (simp add: iter_rest_def iter_next_def)
      qed
    qed
  qed
qed

interpretation itr: value_stream iter_next iter_rest iter_ok
proof unfold_locales
  fix i :: "('k, 'v) iterator_t"
  show "iter_next i = Inr (0, None, i)" if "iter_ok i" "iter_rest i = []"
    using iter_next_cases [OF that(1)] that(2) by auto
  show "\<exists>i'. iter_next i = Inr (1, Some x, i') \<and> iter_ok i' \<and> iter_rest i' = xs"
    if "iter_ok i" "iter_rest i = x # xs" for x xs
    using iter_next_cases [OF that(1)] that(2) by auto
qed

section \<open>Loading an iterator\<close>

lemma iter_init_fresh:
  "0 < n \<Longrightarrow> \<exists>i. iter_init n = Inr (0, i) \<and> iter_fresh i \<and> max_list i = nat n"
  by (simp add: iter_init_def iter_fresh_def)

lemma iter_reset_fresh [simp]: "iter_fresh (iter_reset i)" "max_list (iter_reset i) = max_list i"
  by (simp_all add: iter_reset_def iter_fresh_def)

text \<open>\<open>loaded i es\<close>: the lists \<open>es\<close> were added and nothing was read yet.\<close>

definition loaded :: "('k, 'v) iterator_t \<Rightarrow> ('k, 'v) keyvals_t list \<Rightarrow> bool" where
  "loaded i es \<longleftrightarrow>
     iter_lists i = es \<and> it_next_insert_pos i = length es \<and> length es \<le> max_list i \<and> (\<forall>e \<in> set es. keyvals_ok e) \<and>
     current_list i = 0 \<and> current_index i = 0 \<and> it_size i = length (concat (map kv_values es)) \<and>
     (es \<noteq> [] \<longrightarrow> it_val i = kv_vals (hd es))"

lemma loaded_Nil: "iter_fresh i \<Longrightarrow> loaded i []"
  by (simp add: loaded_def iter_fresh_def iter_lists_def)

lemma keyvals_ok_nonempty: "keyvals_ok e \<Longrightarrow> kv_len e \<noteq> 0 \<and> kv_values e \<noteq> []"
  by (cases "kv_vals e") (auto simp: keyvals_ok_def kv_values_def chunk_ok_def chunk_vals_def)

lemma iter_add_loaded:
  assumes "loaded i es" and "keyvals_ok e" and "length es < max_list i"
  shows "\<exists>i'. iter_add i e = Inr (0, i') \<and> loaded i' (es @ [e]) \<and> max_list i' = max_list i"
proof -
  have "length (iter_lists i) = it_next_insert_pos i" using assms(1) by (simp add: loaded_def)
  then have n: "it_next_insert_pos i \<le> length (list_array i)" by (simp add: iter_lists_def)
  have e: "kv_len e = length (kv_values e)" "kv_len e \<noteq> 0"
    using assms(2) keyvals_ok_nonempty [OF assms(2)] by (simp_all add: keyvals_ok_def)
  have hd: "hd (es @ [e]) = (if es = [] then e else hd es)" by (cases es) auto
  show ?thesis
    using assms e n hd by (auto simp: iter_add_def loaded_def iter_lists_def put_slot_def Let_def)
qed

lemma iter_add_full:
  assumes "loaded i es" and "kv_len e \<noteq> 0" and "length es = max_list i"
  shows "iter_add i e = Inr (-1, i)"
  using assms by (simp add: iter_add_def loaded_def)

lemma loaded_ok:
  assumes "loaded i es" and "es \<noteq> []"
  shows "iter_ok i" "iter_rest i = concat (map kv_values es)"
    "iter_size i = int (length (concat (map kv_values es)))"
proof -
  obtain e es' where es: "es = e # es'" using assms(2) by (cases es) auto
  have len: "length (iter_lists i) = it_next_insert_pos i" using assms(1) by (simp add: loaded_def)
  have e: "keyvals_ok e" "it_val i = kv_vals e" using assms(1) es by (auto simp: loaded_def)
  then obtain c cs where c: "kv_vals e = c # cs" "chunk_ok c" "\<forall>d \<in> set cs. chunk_ok d"
    by (cases "kv_vals e") (auto simp: keyvals_ok_def)
  show "iter_ok i"
    using assms(1) es e c len by (auto simp: iter_ok_def loaded_def iter_lists_def)
  show "iter_rest i = concat (map kv_values es)"
    using assms(1) es e c by (simp add: iter_rest_def loaded_def kv_values_def)
  show "iter_size i = int (length (concat (map kv_values es)))"
    using assms(1) by (simp add: iter_size_def loaded_def)
qed

text \<open>After a rewind the iterator hands out its lists again, for the runtime to free them.\<close>

fun drain_lists :: "nat \<Rightarrow> ('k, 'v) iterator_t \<Rightarrow> (('k, 'v) keyvals_t list \<times> ('k, 'v) iterator_t) res" where
  "drain_lists 0 i = Inl No_fuel"
| "drain_lists (Suc fuel) i =
     bindE (iter_next_list i) (\<lambda>(ret, l, i).
     if ret = 0 then Inr ([], i)
     else case l of None \<Rightarrow> Inl Null_deref
          | Some l \<Rightarrow> bindE (drain_lists fuel i) (\<lambda>(ls, i). Inr (l # ls, i)))"

lemma drain_lists_from:
  assumes "length (iter_lists i) = it_next_insert_pos i" and "it_next_insert_pos i - current_list i < fuel"
  shows "\<exists>i'. drain_lists fuel i = Inr (drop (current_list i) (iter_lists i), i') \<and> max_list i' = max_list i"
  using assms
proof (induction fuel arbitrary: i)
  case (Suc fuel)
  show ?case
  proof (cases "current_list i \<ge> it_next_insert_pos i")
    case True
    then show ?thesis using Suc.prems(1) by (simp add: iter_next_list_def)
  next
    case False
    let ?i = "i\<lparr>current_list := current_list i + 1\<rparr>" and ?n = "current_list i"
    have n: "?n < length (iter_lists i)" using False Suc.prems(1) by simp
    then have nth: "?n < length (list_array i)" "list_array i ! ?n = iter_lists i ! ?n"
      by (simp_all add: iter_lists_def)
    have same: "iter_lists ?i = iter_lists i" by (simp add: iter_lists_def)
    have "\<exists>i'. drain_lists fuel ?i = Inr (drop (Suc ?n) (iter_lists i), i') \<and> max_list i' = max_list i"
      using Suc.IH [of ?i] Suc.prems False same by simp
    then show ?thesis
      using False nth n by (auto simp: iter_next_list_def Cons_nth_drop_Suc)
  qed
qed simp

end
