(* ===== verification/ReduceTask.thy ===== *)
theory ReduceTask
  imports Iter
begin

text \<open>
  The body of \<open>reduce_worker_do_next_task\<close> of \<open>src/map_reduce.c\<close>: the merge of the map threads'
  sorted key arrays for one reduce task, with one call of the reduce function per key, and
  \<open>identity_reduce\<close>. The arrays \<open>intermediate_vals[t][task]\<close> for the threads \<open>t\<close> are a list (the
  column of the task); no other worker touches it, since a task is dequeued once. \<open>emit\<close> is a
  parameter that acts on an output state of any type; the memory of the value chunks that the
  code frees after each call is not tracked.
\<close>

section \<open>The loops\<close>

text \<open>Keys left over all threads; advancing one thread leaves one key less.\<close>

definition keys_left :: "('k, 'v) keyvals_arr_t list \<Rightarrow> nat" where
  "keys_left arrs = sum_list (map (\<lambda>a. kvs_len a - kvs_pos a) arrs)"

lemma keys_left_advance:
  assumes "t < length arrs" and "\<not> kvs_len (arrs ! t) \<le> kvs_pos (arrs ! t)"
  shows "keys_left (arrs[t := (arrs ! t)\<lparr>kvs_pos := Suc (kvs_pos (arrs ! t))\<rparr>]) < keys_left arrs"
  using assms
proof (induction arrs arbitrary: t)
  case (Cons a arrs)
  then show ?case by (cases t) (auto simp: keys_left_def)
qed simp

text \<open>
  The \<open>for\<close> over the threads. A thread whose next key equals the current minimum hands its
  entry to the iterator, advances and is looked at again (\<open>--curr_thread\<close>); otherwise its next
  entry is a candidate for the next minimum.
\<close>

function scan_threads ::
  "'k key_cmp \<Rightarrow> nat \<Rightarrow> nat \<Rightarrow> ('k, 'v) keyvals_arr_t list \<Rightarrow> ('k, 'v) iterator_t \<Rightarrow>
   ('k, 'v) keyvals_t option \<Rightarrow> ('k, 'v) keyvals_t option \<Rightarrow>
   (('k, 'v) keyvals_arr_t list \<times> ('k, 'v) iterator_t \<times> ('k, 'v) keyvals_t option) res" where
  "scan_threads key_cmp num_map_threads curr_thread arrs itr min_key_val next_min =
     (if curr_thread < num_map_threads then
        (if curr_thread < length arrs then
          (let thread_array = arrs ! curr_thread in
           if kvs_pos thread_array \<ge> kvs_len thread_array then
             scan_threads key_cmp num_map_threads (Suc curr_thread) arrs itr min_key_val next_min
           else
             (case arr_get (kvs_arr thread_array) (int (kvs_pos thread_array)) of
                Inl e \<Rightarrow> Inl e
              | Inr curr_key_val \<Rightarrow>
                  (if (case min_key_val of None \<Rightarrow> False
                       | Some m \<Rightarrow> key_cmp (kv_key curr_key_val) (kv_key m) = 0) then
                     bindE (iter_add itr curr_key_val) (\<lambda>(r, itr).
                     bindE (CHECK_ERROR (r \<noteq> 0)) (\<lambda>_.
                     scan_threads key_cmp num_map_threads curr_thread
                       (arrs[curr_thread := thread_array\<lparr>kvs_pos := kvs_pos thread_array + 1\<rparr>])
                       itr min_key_val next_min))
                   else if (case next_min of None \<Rightarrow> True
                            | Some x \<Rightarrow> key_cmp (kv_key curr_key_val) (kv_key x) < 0) then
                     scan_threads key_cmp num_map_threads (Suc curr_thread) arrs itr min_key_val (Some curr_key_val)
                   else
                     scan_threads key_cmp num_map_threads (Suc curr_thread) arrs itr min_key_val next_min)))
         else Inl Out_of_bounds)
      else Inr (arrs, itr, next_min))"
  by pat_completeness auto

termination
  by (relation "measures [\<lambda>(c, n, t, arrs, i, m, x). keys_left arrs, \<lambda>(c, n, t, arrs, i, m, x). n - t]")
    (auto simp: keys_left_advance)

declare scan_threads.simps [simp del]

fun emit_all :: "('k \<Rightarrow> 'v \<Rightarrow> 'o \<Rightarrow> 'o res) \<Rightarrow> ('k \<times> 'v) list \<Rightarrow> 'o \<Rightarrow> 'o res" where
  "emit_all emit [] out = Inr out"
| "emit_all emit ((k, v) # kvs) out = bindE (emit k v out) (emit_all emit kvs)"

text \<open>
  A reduce function is given the key and the iterator and says what it emits, in order. The part
  of the loop after the scan: call it for the collected entries, rewind, walk the lists to free
  their chunks, reset.
\<close>

type_synonym ('k, 'v) reduce_t = "'k \<Rightarrow> ('k, 'v) iterator_t \<Rightarrow> ('k \<times> 'v) list res"

definition reduce_min ::
  "('k, 'v) reduce_t \<Rightarrow> ('k \<Rightarrow> 'v \<Rightarrow> 'o \<Rightarrow> 'o res) \<Rightarrow> ('k, 'v) keyvals_t option \<Rightarrow>
   ('k, 'v) iterator_t \<Rightarrow> 'o \<Rightarrow> (('k, 'v) iterator_t \<times> 'o) res" where
  "reduce_min reduce emit min_key_val itr out =
     (case min_key_val of None \<Rightarrow> Inr (itr, out)
      | Some m \<Rightarrow>
          bindE (reduce (kv_key m) itr) (\<lambda>kvs.
          bindE (emit_all emit kvs out) (\<lambda>out.
          bindE (iter_rewind itr) (\<lambda>itr.
          bindE (drain_lists (Suc (it_next_insert_pos itr)) itr) (\<lambda>(_, itr).
          Inr (iter_reset itr, out))))))"

text \<open>The search for a thread with keys left that decides whether the \<open>do\<close> loop goes on.\<close>

definition threads_done :: "nat \<Rightarrow> ('k, 'v) keyvals_arr_t list \<Rightarrow> bool" where
  "threads_done num_map_threads arrs \<longleftrightarrow> list_all (\<lambda>a. kvs_pos a \<ge> kvs_len a) (take num_map_threads arrs)"

text \<open>
  The \<open>do\<close> loop, with a bound on its rounds: every round but the first reduces one key, so one
  round more than there are keys is enough (\<open>reduce_loop_ends\<close> below).
\<close>

fun reduce_loop ::
  "nat \<Rightarrow> 'k key_cmp \<Rightarrow> ('k, 'v) reduce_t \<Rightarrow> ('k \<Rightarrow> 'v \<Rightarrow> 'o \<Rightarrow> 'o res) \<Rightarrow> nat \<Rightarrow>
   ('k, 'v) keyvals_arr_t list \<Rightarrow> ('k, 'v) iterator_t \<Rightarrow> ('k, 'v) keyvals_t option \<Rightarrow> 'o \<Rightarrow>
   (('k, 'v) keyvals_arr_t list \<times> ('k, 'v) iterator_t \<times> 'o) res" where
  "reduce_loop 0 key_cmp reduce emit n arrs itr min_key_val out = Inl No_fuel"
| "reduce_loop (Suc fuel) key_cmp reduce emit n arrs itr min_key_val out =
     bindE (scan_threads key_cmp n 0 arrs itr min_key_val None) (\<lambda>(arrs, itr, next_min).
     bindE (reduce_min reduce emit min_key_val itr out) (\<lambda>(itr, out).
     if threads_done n arrs then Inr (arrs, itr, out)
     else reduce_loop fuel key_cmp reduce emit n arrs itr next_min out))"

definition reduce_task ::
  "'k key_cmp \<Rightarrow> ('k, 'v) reduce_t \<Rightarrow> ('k \<Rightarrow> 'v \<Rightarrow> 'o \<Rightarrow> 'o res) \<Rightarrow> nat \<Rightarrow>
   ('k, 'v) keyvals_arr_t list \<Rightarrow> ('k, 'v) iterator_t \<Rightarrow> 'o \<Rightarrow>
   (('k, 'v) keyvals_arr_t list \<times> ('k, 'v) iterator_t \<times> 'o) res" where
  "reduce_task key_cmp reduce emit n arrs itr out =
     reduce_loop (keys_left arrs + 2) key_cmp reduce emit n arrs itr None out"

text \<open>\<open>identity_reduce\<close>: one pair for every value.\<close>

definition identity_reduce :: "('k, 'v) reduce_t" where
  "identity_reduce key itr =
     bindE (while_next iter_next (Suc (it_size itr)) (\<lambda>kvs v. Inr (kvs @ [(key, v)])) [] itr) (\<lambda>(kvs, _).
     Inr kvs)"

section \<open>The contract of a reduce function\<close>

text \<open>
  A reduce function sees the values of its key only through the iterator: given an iterator
  loaded with some entries, what it emits is a function \<open>red\<close> of the key and of the entries'
  values in iteration order.
\<close>

locale reducer =
  fixes reduce :: "('k, 'v) reduce_t"
    and red :: "'k \<Rightarrow> 'v list \<Rightarrow> ('k \<times> 'v) list"
  assumes reduce_red: "loaded i es \<Longrightarrow> es \<noteq> [] \<Longrightarrow> reduce k i = Inr (red k (concat (map kv_values es)))"

lemma identity_fold: "foldE (\<lambda>kvs v. Inr (kvs @ [(key, v)])) kvs vs = Inr (kvs @ map (Pair key) vs)"
  by (induction vs arbitrary: kvs) auto

interpretation idr: reducer identity_reduce "\<lambda>k vs. map (Pair k) vs"
proof unfold_locales
  fix i :: "('k, 'v) iterator_t" and es and k :: 'k
  assume l: "loaded i es" "es \<noteq> []"
  have "length (iter_rest i) < Suc (it_size i)"
    using loaded_ok [OF l] l(1) by (simp add: loaded_def)
  from itr.while_next_folds [OF loaded_ok(1) [OF l] this, of "\<lambda>kvs v. Inr (kvs @ [(k, v)])" "[]"]
  obtain i' where "while_next iter_next (Suc (it_size i)) (\<lambda>kvs v. Inr (kvs @ [(k, v)])) [] i =
      Inr (map (Pair k) (iter_rest i), i')"
    by (auto simp: identity_fold simp del: while_next.simps)
  then show "identity_reduce k i = Inr (map (Pair k) (concat (map kv_values es)))"
    using loaded_ok(2) [OF l] by (simp add: identity_reduce_def del: while_next.simps)
qed


section \<open>One pass over the threads\<close>

text \<open>The entries a thread's array still holds, and which of them a pass takes.\<close>

definition todo :: "('k, 'v) keyvals_arr_t \<Rightarrow> ('k, 'v) keyvals_t list" where
  "todo a = drop (kvs_pos a) (kvs_arr a)"

definition matches :: "'k key_cmp \<Rightarrow> ('k, 'v) keyvals_t option \<Rightarrow> ('k, 'v) keyvals_t \<Rightarrow> bool" where
  "matches key_cmp mk e \<longleftrightarrow> (case mk of None \<Rightarrow> False | Some m \<Rightarrow> key_cmp (kv_key e) (kv_key m) = 0)"

definition hits :: "'k key_cmp \<Rightarrow> ('k, 'v) keyvals_t option \<Rightarrow> ('k, 'v) keyvals_arr_t \<Rightarrow> ('k, 'v) keyvals_t list" where
  "hits key_cmp mk a = takeWhile (matches key_cmp mk) (todo a)"

definition adv :: "'k key_cmp \<Rightarrow> ('k, 'v) keyvals_t option \<Rightarrow> ('k, 'v) keyvals_arr_t \<Rightarrow> ('k, 'v) keyvals_arr_t" where
  "adv key_cmp mk a = a\<lparr>kvs_pos := kvs_pos a + length (hits key_cmp mk a)\<rparr>"

definition head_min :: "'k key_cmp \<Rightarrow> ('k, 'v) keyvals_t option \<Rightarrow> ('k, 'v) keyvals_t list \<Rightarrow> ('k, 'v) keyvals_t option" where
  "head_min key_cmp nm es =
     (case es of [] \<Rightarrow> nm
      | e # _ \<Rightarrow> if (case nm of None \<Rightarrow> True | Some x \<Rightarrow> key_cmp (kv_key e) (kv_key x) < 0) then Some e else nm)"

definition column_ok :: "'k key_cmp \<Rightarrow> ('k, 'v) keyvals_arr_t \<Rightarrow> bool" where
  "column_ok key_cmp a \<longleftrightarrow> keyvals_arr_ok key_cmp a \<and> kvs_pos a \<le> kvs_len a"

lemma todo_adv: "todo (adv key_cmp mk a) = dropWhile (matches key_cmp mk) (todo a)"
  by (simp add: todo_def adv_def hits_def dropWhile_eq_drop add.commute)

lemma length_todo_adv: "length (todo a) = length (todo (adv key_cmp mk a)) + length (hits key_cmp mk a)"
  unfolding todo_adv hits_def by (metis add.commute length_append takeWhile_dropWhile_id)

lemma length_todo_advs:
  "length (concat (map todo xs)) =
   length (concat (map todo (map (adv key_cmp mk) xs))) + length (concat (map (hits key_cmp mk) xs))"
proof (induction xs)
  case (Cons a xs)
  then show ?case using length_todo_adv [of a key_cmp mk] by simp
qed simp

lemma column_okD:
  assumes "column_ok key_cmp a"
  shows "kvs_len a = length (kvs_arr a)" "kvs_pos a \<le> kvs_len a" "\<forall>e \<in> set (todo a). keyvals_ok e"
    "sorted_wrt (\<lambda>x y. key_cmp x y < 0) (map kv_key (todo a))"
    "length (todo a) = kvs_len a - kvs_pos a"
  using assms in_set_dropD
  by (fastforce simp: column_ok_def keyvals_arr_ok_def todo_def drop_map [symmetric] sorted_wrt_drop)+

lemma column_ok_adv: "column_ok key_cmp a \<Longrightarrow> column_ok key_cmp (adv key_cmp mk a)"
  using length_takeWhile_le [of "matches key_cmp mk" "todo a"] column_okD(5) [of key_cmp a]
  by (auto simp: column_ok_def keyvals_arr_ok_def adv_def hits_def)

lemma adv_cong:
  "todo a = e # es \<Longrightarrow> matches key_cmp mk e \<Longrightarrow>
   adv key_cmp mk (a\<lparr>kvs_pos := Suc (kvs_pos a)\<rparr>) = adv key_cmp mk a \<and>
   hits key_cmp mk a = e # hits key_cmp mk (a\<lparr>kvs_pos := Suc (kvs_pos a)\<rparr>)"
proof -
  assume a: "todo a = e # es" "matches key_cmp mk e"
  then have "todo (a\<lparr>kvs_pos := Suc (kvs_pos a)\<rparr>) = es"
    by (simp add: todo_def) (metis drop_Suc list.sel(3) tl_drop)
  with a show ?thesis by (simp add: hits_def adv_def)
qed

lemma scan_step:
  assumes "kvs_len a = length (kvs_arr a)" and "\<forall>e \<in> set (todo a). keyvals_ok e"
    and "loaded i es" and "length es + length (hits key_cmp mk a) \<le> max_list i"
  shows "\<exists>i'. loaded i' (es @ hits key_cmp mk a) \<and> max_list i' = max_list i \<and>
    scan_threads key_cmp (length pre + Suc m) (length pre) (pre @ a # ys) i mk nm =
    scan_threads key_cmp (length pre + Suc m) (Suc (length pre)) (pre @ adv key_cmp mk a # ys) i' mk
      (head_min key_cmp nm (todo (adv key_cmp mk a)))"
  using assms
proof (induction "todo a" arbitrary: a i es)
  case Nil
  then have "kvs_len a \<le> kvs_pos a" by (simp add: todo_def)
  with Nil show ?case
    by (intro exI [of _ i])
      (subst scan_threads.simps, simp add: hits_def adv_def head_min_def Nil.hyps [symmetric])
next
  case (Cons e rest)
  have pos: "kvs_pos a < length (kvs_arr a)" "kvs_arr a ! kvs_pos a = e"
    using Cons.hyps(2) by (metis drop_all list.distinct(1) not_le todo_def)
      (metis Cons.hyps(2) hd_drop_conv_nth drop_all list.distinct(1) list.sel(1) not_le todo_def)
  let ?a = "a\<lparr>kvs_pos := Suc (kvs_pos a)\<rparr>"
  have rest: "rest = todo ?a"
    using Cons.hyps(2) by (simp add: todo_def) (metis drop_Suc list.sel(3) tl_drop)
  show ?case
  proof (cases "matches key_cmp mk e")
    case True
    have h: "adv key_cmp mk ?a = adv key_cmp mk a" "hits key_cmp mk a = e # hits key_cmp mk ?a"
      using adv_cong [OF Cons.hyps(2) [symmetric] True] by simp_all
    have "keyvals_ok e" using Cons.prems(2) Cons.hyps(2) by (metis list.set_intros(1))
    moreover have "length es < max_list i" using Cons.prems(4) h(2) by simp
    ultimately obtain i1 where i1: "iter_add i e = Inr (0, i1)" "loaded i1 (es @ [e])" "max_list i1 = max_list i"
      using iter_add_loaded [OF Cons.prems(3)] by blast
    have "scan_threads key_cmp (length pre + Suc m) (length pre) (pre @ a # ys) i mk nm =
      scan_threads key_cmp (length pre + Suc m) (length pre) (pre @ ?a # ys) i1 mk nm"
      using True pos Cons.prems(1) i1(1)
      by (subst scan_threads.simps) (simp add: matches_def nth_append split: option.splits)
    moreover have "\<forall>e \<in> set (todo ?a). keyvals_ok e"
      using Cons.prems(2) Cons.hyps(2) rest by (metis list.set_intros(2))
    ultimately show ?thesis
      using Cons.hyps(1) [OF rest, of i1 "es @ [e]"] Cons.prems h i1 by simp
  next
    case False
    then have "hits key_cmp mk a = []" by (simp add: hits_def Cons.hyps(2) [symmetric])
    moreover from this have "adv key_cmp mk a = a" by (simp add: adv_def)
    ultimately show ?thesis
      using False pos Cons.prems
      by (intro exI [of _ i]) (subst scan_threads.simps,
        auto simp: matches_def head_min_def Cons.hyps(2) [symmetric] nth_append split: option.splits)
  qed
qed

text \<open>
  A whole pass: every thread gives up its entries with the minimum's key, in thread order, and
  the next minimum is the least of the keys the threads then show.
\<close>

lemma scan_threads_spec:
  assumes "\<forall>a \<in> set xs. column_ok key_cmp a" and "loaded i es"
    and "length es + length (concat (map (hits key_cmp mk) xs)) \<le> max_list i"
  shows "\<exists>i'. loaded i' (es @ concat (map (hits key_cmp mk) xs)) \<and> max_list i' = max_list i \<and>
    scan_threads key_cmp (length pre + length xs) (length pre) (pre @ xs @ ys) i mk nm =
    Inr (pre @ map (adv key_cmp mk) xs @ ys, i',
         foldl (head_min key_cmp) nm (map (todo \<circ> adv key_cmp mk) xs))"
  using assms
proof (induction xs arbitrary: pre i es nm)
  case Nil
  then show ?case by (intro exI [of _ i]) (subst scan_threads.simps, simp)
next
  case (Cons a xs)
  have a: "kvs_len a = length (kvs_arr a)" "\<forall>e \<in> set (todo a). keyvals_ok e"
    using Cons.prems(1) column_okD(1,3) [of key_cmp a] by simp_all
  obtain i1 where i1: "loaded i1 (es @ hits key_cmp mk a)" "max_list i1 = max_list i"
    "scan_threads key_cmp (length pre + Suc (length xs)) (length pre) (pre @ a # xs @ ys) i mk nm =
     scan_threads key_cmp (length pre + Suc (length xs)) (Suc (length pre)) (pre @ adv key_cmp mk a # xs @ ys) i1 mk
      (head_min key_cmp nm (todo (adv key_cmp mk a)))"
    using scan_step [OF a Cons.prems(2), of key_cmp mk pre "length xs" "xs @ ys" nm] Cons.prems(3) by auto
  show ?case
    using Cons.IH [of i1 "es @ hits key_cmp mk a" "pre @ [adv key_cmp mk a]"] Cons.prems i1 by simp
qed


section \<open>The whole task\<close>

text \<open>
  What the task promises. \<open>distinct_keys\<close>: the keys of the entries, each once (up to
  \<open>key_cmp\<close>), ascending. \<open>values_for\<close>: all values the threads hold for a key, in thread order.
\<close>

definition distinct_keys :: "'k key_cmp \<Rightarrow> ('k, 'v) keyvals_t list \<Rightarrow> 'k list \<Rightarrow> bool" where
  "distinct_keys key_cmp es ks \<longleftrightarrow>
     sorted_wrt (\<lambda>x y. key_cmp x y < 0) ks \<and> set ks \<subseteq> kv_key ` set es \<and>
     (\<forall>e \<in> set es. \<exists>k \<in> set ks. key_cmp (kv_key e) k = 0)"

definition values_for :: "'k key_cmp \<Rightarrow> ('k, 'v) keyvals_t list list \<Rightarrow> 'k \<Rightarrow> 'v list" where
  "values_for key_cmp ess k =
     concat (map (\<lambda>es. concat (map kv_values (filter (\<lambda>e. key_cmp (kv_key e) k = 0) es))) ess)"

lemma emit_all_append:
  "emit_all emit (xs @ ys) out = bindE (emit_all emit xs out) (emit_all emit ys)"
proof (induction xs arbitrary: out)
  case (Cons x xs)
  then show ?case by (cases x) (simp add: bindE_def split: sum.split)
qed simp

lemma keys_left_todo:
  "\<forall>a \<in> set arrs. column_ok key_cmp a \<Longrightarrow> keys_left arrs = length (concat (map todo arrs))"
  by (induction arrs) (auto simp: keys_left_def column_okD(5))

lemma threads_done_todo:
  assumes "\<forall>a \<in> set xs. column_ok key_cmp a"
  shows "threads_done (length xs) (xs @ ys) \<longleftrightarrow> concat (map todo xs) = []"
proof -
  have "todo a = [] \<longleftrightarrow> kvs_len a \<le> kvs_pos a" if "a \<in> set xs" for a
    using assms that column_okD(5) [of key_cmp a] by (metis diff_is_0_eq length_0_conv)
  then show ?thesis by (simp add: threads_done_def list_all_iff)
qed

lemma iter_rewind_drain:
  assumes "loaded i es" and "es \<noteq> []"
  shows "\<exists>i1 i2. iter_rewind i = Inr i1 \<and> drain_lists (Suc (it_next_insert_pos i1)) i1 = Inr (es, i2) \<and>
    max_list i2 = max_list i"
proof -
  have len: "length (iter_lists i) = it_next_insert_pos i" and es: "iter_lists i = es"
    using assms(1) by (simp_all add: loaded_def)
  have "list_array i \<noteq> []" using es assms(2) by (cases "list_array i") (simp_all add: iter_lists_def)
  then have "arr_get (list_array i) 0 = Inr (list_array i ! 0)" by (simp add: arr_get_def)
  then obtain i1 where i1: "iter_rewind i = Inr i1" "iter_lists i1 = es" "current_list i1 = 0"
    "it_next_insert_pos i1 = it_next_insert_pos i" "max_list i1 = max_list i"
    using es by (simp add: iter_rewind_def iter_lists_def)
  with drain_lists_from [of i1 "Suc (it_next_insert_pos i)"] len es show ?thesis
    by (auto simp del: drain_lists.simps)
qed

lemma reduce_min_spec:
  assumes "reducer reduce red" and "loaded i es" and "es \<noteq> []"
  shows "\<exists>i'. loaded i' [] \<and> max_list i' = max_list i \<and>
    reduce_min reduce emit (Some m) i out =
      bindE (emit_all emit (red (kv_key m) (concat (map kv_values es))) out) (\<lambda>out. Inr (i', out))"
proof -
  obtain i1 i2 where "iter_rewind i = Inr i1" "drain_lists (Suc (it_next_insert_pos i1)) i1 = Inr (es, i2)"
    "max_list i2 = max_list i"
    using iter_rewind_drain [OF assms(2,3)] by blast
  then show ?thesis
    using reducer.reduce_red [OF assms] loaded_Nil [OF iter_reset_fresh(1)]
    by (intro exI [of _ "iter_reset i2"])
      (simp add: reduce_min_def loaded_Nil del: drain_lists.simps)
qed


context key_order
begin

lemma sorted_hits:
  assumes "sorted_wrt (\<lambda>x y. key_cmp x y < 0) (map kv_key es)"
    and "\<forall>e \<in> set es. key_cmp (kv_key m) (kv_key e) \<le> 0"
  shows "takeWhile (matches key_cmp (Some m)) es = filter (\<lambda>e. key_cmp (kv_key e) (kv_key m) = 0) es"
    "\<forall>e \<in> set (dropWhile (matches key_cmp (Some m)) es). key_cmp (kv_key m) (kv_key e) < 0"
proof -
  have "takeWhile (matches key_cmp (Some m)) es = filter (\<lambda>e. key_cmp (kv_key e) (kv_key m) = 0) es \<and>
    (\<forall>e \<in> set (dropWhile (matches key_cmp (Some m)) es). key_cmp (kv_key m) (kv_key e) < 0)"
  proof (cases es)
    case (Cons e es')
    have "key_cmp (kv_key m) (kv_key x) < 0" if "x \<in> set es'" for x
      using assms Cons that cmp_le_lt_trans [of "kv_key m" "kv_key e" "kv_key x"] by auto
    then have gt: "key_cmp (kv_key m) (kv_key x) < 0 \<and> key_cmp (kv_key x) (kv_key m) \<noteq> 0" if "x \<in> set es'" for x
      using that cmp_flip [of "kv_key m" "kv_key x"] by force
    then have "takeWhile (matches key_cmp (Some m)) es' = []" "dropWhile (matches key_cmp (Some m)) es' = es'"
      "filter (\<lambda>e. key_cmp (kv_key e) (kv_key m) = 0) es' = []"
      by (cases es'; simp add: matches_def filter_empty_conv)+
    moreover have "key_cmp (kv_key m) (kv_key e) < 0" if "key_cmp (kv_key e) (kv_key m) \<noteq> 0"
      using assms(2) that cmp_eq_sym [of "kv_key e" "kv_key m"] Cons by force
    ultimately show ?thesis using gt Cons by (auto simp: matches_def)
  qed simp
  then show "takeWhile (matches key_cmp (Some m)) es = filter (\<lambda>e. key_cmp (kv_key e) (kv_key m) = 0) es"
    "\<forall>e \<in> set (dropWhile (matches key_cmp (Some m)) es). key_cmp (kv_key m) (kv_key e) < 0"
    by blast+
qed

lemma foldl_head_min:
  "foldl (head_min key_cmp) nm ess = None \<longleftrightarrow> nm = None \<and> concat ess = []"
  "foldl (head_min key_cmp) nm ess = Some m \<Longrightarrow>
     (nm = Some m \<or> m \<in> set (concat ess)) \<and> (\<forall>x. nm = Some x \<longrightarrow> key_cmp (kv_key m) (kv_key x) \<le> 0) \<and>
     (\<forall>es \<in> set ess. es \<noteq> [] \<longrightarrow> key_cmp (kv_key m) (kv_key (hd es)) \<le> 0)"
proof (induction ess arbitrary: nm)
  case (Cons es ess)
  {
    case 1
    show ?case using Cons(1) [of "head_min key_cmp nm es"]
      by (cases es) (auto simp: head_min_def split: option.splits)
  next
    case 2
    have hm: "head_min key_cmp nm es = Some x \<Longrightarrow>
      (nm = Some x \<or> x \<in> set es) \<and> (\<forall>y. nm = Some y \<longrightarrow> key_cmp (kv_key x) (kv_key y) \<le> 0) \<and>
      (es \<noteq> [] \<longrightarrow> key_cmp (kv_key x) (kv_key (hd es)) \<le> 0)" for x
      using cmp_le_flip cmp_flip
      by (cases es) (auto simp: head_min_def not_less split: option.splits if_splits)
    have "head_min key_cmp nm es \<noteq> None" if "nm \<noteq> None \<or> es \<noteq> []"
      using that by (cases es; cases nm) (auto simp: head_min_def)
    note ne = this
    have f: "foldl (head_min key_cmp) (head_min key_cmp nm es) ess = Some m" using 2 by simp
    note IH = Cons(2) [OF f]
    show ?case
    proof (cases "head_min key_cmp nm es")
      case None
      then show ?thesis using IH ne by auto
    next
      case (Some x)
      then have le: "key_cmp (kv_key m) (kv_key x) \<le> 0" and m: "m = x \<or> m \<in> set (concat ess)"
        using IH by auto
      show ?thesis
        using hm [OF Some] le m IH cmp_trans [OF le] by auto
    qed
  }
qed auto

lemma foldl_head_min_least:
  assumes "foldl (head_min key_cmp) None ess = Some m"
    and "\<forall>es \<in> set ess. sorted_wrt (\<lambda>x y. key_cmp x y < 0) (map kv_key es)"
  shows "m \<in> set (concat ess)" "\<forall>e \<in> set (concat ess). key_cmp (kv_key m) (kv_key e) \<le> 0"
proof -
  note f = foldl_head_min(2) [OF assms(1)]
  then show "m \<in> set (concat ess)" by simp
  show "\<forall>e \<in> set (concat ess). key_cmp (kv_key m) (kv_key e) \<le> 0"
  proof
    fix e assume "e \<in> set (concat ess)"
    then obtain es where es: "es \<in> set ess" "e \<in> set es" by auto
    from es(2) obtain x xs where x: "es = x # xs" by (cases es) auto
    have "key_cmp (kv_key m) (kv_key x) \<le> 0" using f es(1) x by fastforce
    moreover have "key_cmp (kv_key x) (kv_key e) \<le> 0"
      using assms(2) es x by force
    ultimately show "key_cmp (kv_key m) (kv_key e) \<le> 0" by (rule cmp_trans)
  qed
qed

text \<open>Taking the least key's entries out splits the task's specification at that key.\<close>

lemma distinct_keys_Cons:
  assumes "\<forall>es \<in> set ess. sorted_wrt (\<lambda>x y. key_cmp x y < 0) (map kv_key es)"
    and "m \<in> set (concat ess)" and "\<forall>e \<in> set (concat ess). key_cmp (kv_key m) (kv_key e) \<le> 0"
    and "distinct_keys key_cmp (concat (map (dropWhile (matches key_cmp (Some m))) ess)) ks"
  shows "distinct_keys key_cmp (concat ess) (kv_key m # ks)"
    "\<forall>k \<in> set ks. values_for key_cmp (map (dropWhile (matches key_cmp (Some m))) ess) k = values_for key_cmp ess k"
proof -
  let ?M = "matches key_cmp (Some m)"
  have gt: "key_cmp (kv_key m) (kv_key e) < 0" if "es \<in> set ess" "e \<in> set (dropWhile ?M es)" for es e
    using sorted_hits(2) [of es m] assms(1,3) that by auto
  have sub: "kv_key m \<in> kv_key ` set (concat ess)" using assms(2) by blast
  have gtk: "key_cmp (kv_key m) k < 0" if "k \<in> set ks" for k
  proof -
    have "k \<in> kv_key ` set (concat (map (dropWhile ?M) ess))"
      using assms(4) that unfolding distinct_keys_def by blast
    then show ?thesis using gt by auto
  qed
  have "set (concat (map (dropWhile ?M) ess)) \<subseteq> set (concat ess)"
    using set_dropWhileD by fastforce
  then have "set ks \<subseteq> kv_key ` set (concat ess)"
    using assms(4) unfolding distinct_keys_def by blast
  moreover have "\<exists>k \<in> set (kv_key m # ks). key_cmp (kv_key e) k = 0" if "es \<in> set ess" "e \<in> set es" for es e
  proof (cases "e \<in> set (dropWhile ?M es)")
    case True
    then show ?thesis using assms(4) that by (auto simp: distinct_keys_def)
  next
    case False
    then have "e \<in> set (takeWhile ?M es)"
      using that by (metis Un_iff set_append takeWhile_dropWhile_id)
    then have "?M e" by (rule set_takeWhileD [THEN conjunct2])
    then show ?thesis by (simp add: matches_def)
  qed
  ultimately show "distinct_keys key_cmp (concat ess) (kv_key m # ks)"
    using assms(4) gtk sub by (auto simp: distinct_keys_def)
  show "\<forall>k \<in> set ks. values_for key_cmp (map (dropWhile ?M) ess) k = values_for key_cmp ess k"
  proof
    fix k assume k: "k \<in> set ks"
    have "filter (\<lambda>e. key_cmp (kv_key e) k = 0) (dropWhile ?M es) = filter (\<lambda>e. key_cmp (kv_key e) k = 0) es" for es
    proof -
      have "filter (\<lambda>e. key_cmp (kv_key e) k = 0) (takeWhile ?M es) = []"
        using gtk [OF k] cmp_eq_left
        by (force simp: filter_empty_conv matches_def dest!: set_takeWhileD)
      then show ?thesis
        by (metis append_Nil filter_append takeWhile_dropWhile_id)
    qed
    then show "values_for key_cmp (map (dropWhile ?M) ess) k = values_for key_cmp ess k"
      by (simp add: values_for_def comp_def)
  qed
qed


lemma map_hits_eq:
  assumes "\<forall>a \<in> set xs. column_ok key_cmp a" and "\<forall>e \<in> set (concat (map todo xs)). key_cmp (kv_key m) (kv_key e) \<le> 0"
  shows "concat (map kv_values (concat (map (hits key_cmp (Some m)) xs))) = values_for key_cmp (map todo xs) (kv_key m)"
    "length (concat (map (hits key_cmp (Some m)) xs)) \<le> length xs"
proof -
  have h: "hits key_cmp (Some m) a = filter (\<lambda>e. key_cmp (kv_key e) (kv_key m) = 0) (todo a) \<and>
    length (hits key_cmp (Some m) a) \<le> 1" if "a \<in> set xs" for a
  proof -
    have a: "sorted_wrt (\<lambda>x y. key_cmp x y < 0) (map kv_key (todo a))"
      "\<forall>e \<in> set (todo a). key_cmp (kv_key m) (kv_key e) \<le> 0"
      using assms that column_okD(4) [of key_cmp a] by auto
    have "length (takeWhile (matches key_cmp (Some m)) (todo a)) \<le> 1"
    proof (cases "todo a")
      case (Cons e es)
      have "\<not> (matches key_cmp (Some m) e \<and> matches key_cmp (Some m) (hd es))" if "es \<noteq> []"
      proof -
        have "key_cmp (kv_key e) (kv_key (hd es)) < 0" using a(1) Cons that by simp
        then have "key_cmp (kv_key e) (kv_key (hd es)) \<noteq> 0" by simp
        then show ?thesis
          using cmp_eq_left [of "kv_key e" "kv_key m" "kv_key (hd es)"] cmp_flip cmp_eq_sym
          by (fastforce simp: matches_def)
      qed
      then show ?thesis using Cons by (cases es) auto
    qed simp
    with sorted_hits(1) [OF a] show ?thesis by (simp add: hits_def)
  qed
  then have "map (\<lambda>a. F (hits key_cmp (Some m) a)) xs =
      map (\<lambda>a. F (filter (\<lambda>e. key_cmp (kv_key e) (kv_key m) = 0) (todo a))) xs" for F
    by simp
  from this [of "\<lambda>es. concat (map kv_values es)"]
  show "concat (map kv_values (concat (map (hits key_cmp (Some m)) xs))) =
      values_for key_cmp (map todo xs) (kv_key m)"
    by (simp add: values_for_def comp_def map_concat concat_concat_map cong: map_cong)
  from h show "length (concat (map (hits key_cmp (Some m)) xs)) \<le> length xs"
    by (induction xs) fastforce+
qed

text \<open>The loop from a round with the least key at hand on.\<close>

lemma reduce_loop_spec:
  assumes "\<forall>a \<in> set xs. column_ok key_cmp a" and "loaded i []" and "length xs \<le> max_list i"
    and "reducer reduce red"
    and "m \<in> set (concat (map todo xs))" and "\<forall>e \<in> set (concat (map todo xs)). key_cmp (kv_key m) (kv_key e) \<le> 0"
    and "length (concat (map todo xs)) < fuel"
  shows "\<exists>ks xs' i'. distinct_keys key_cmp (concat (map todo xs)) ks \<and> concat (map todo xs') = [] \<and>
    loaded i' [] \<and> max_list i' = max_list i \<and>
    reduce_loop fuel key_cmp reduce emit (length xs) (xs @ ys) i (Some m) out =
      bindE (emit_all emit (concat (map (\<lambda>k. red k (values_for key_cmp (map todo xs) k)) ks)) out)
        (\<lambda>out. Inr (xs' @ ys, i', out))"
  using assms
proof (induction fuel arbitrary: xs i m out)
  case (Suc fuel)
  let ?xs = "map (adv key_cmp (Some m)) xs" and ?M = "matches key_cmp (Some m)"
  let ?es = "concat (map (hits key_cmp (Some m)) xs)"
  let ?red = "\<lambda>k. red k (values_for key_cmp (map todo xs) k)"
  have srt: "\<forall>es \<in> set (map todo xs). sorted_wrt (\<lambda>x y. key_cmp x y < 0) (map kv_key es)"
    using Suc.prems(1) column_okD(4) by force
  note hits = map_hits_eq [OF Suc.prems(1,6)]
  have "length [] + length ?es \<le> max_list i" using hits(2) Suc.prems(3) by simp
  then obtain i1 where i1: "loaded i1 ?es" "max_list i1 = max_list i"
    "scan_threads key_cmp (length xs) 0 (xs @ ys) i (Some m) None =
     Inr (?xs @ ys, i1, foldl (head_min key_cmp) None (map (todo \<circ> adv key_cmp (Some m)) xs))"
    using scan_threads_spec [OF Suc.prems(1,2), of "Some m" "[]" ys None] by auto
  have ne: "?es \<noteq> []"
  proof -
    obtain a where a: "a \<in> set xs" "m \<in> set (todo a)" using Suc.prems(5) by auto
    have "hits key_cmp (Some m) a = filter (\<lambda>e. key_cmp (kv_key e) (kv_key m) = 0) (todo a)"
      unfolding hits_def using a(1) srt Suc.prems(6) by (intro sorted_hits(1)) auto
    then have "m \<in> set (hits key_cmp (Some m) a)" using a(2) by simp
    then show ?thesis using a(1) by fastforce
  qed
  obtain i2 where i2: "loaded i2 []" "max_list i2 = max_list i"
    "reduce_min reduce emit (Some m) i1 out =
       bindE (emit_all emit (?red (kv_key m)) out) (\<lambda>out. Inr (i2, out))"
    using reduce_min_spec [OF Suc.prems(4) i1(1) ne] i1(2) unfolding hits(1) by metis
  have ok: "\<forall>a \<in> set ?xs. column_ok key_cmp a" using Suc.prems(1) column_ok_adv by auto
  have todo: "map todo ?xs = map (dropWhile ?M) (map todo xs)" by (simp add: todo_adv)
  have step: "reduce_loop (Suc fuel) key_cmp reduce emit (length xs) (xs @ ys) i (Some m) out =
    bindE (emit_all emit (?red (kv_key m)) out) (\<lambda>out.
      if concat (map todo ?xs) = [] then Inr (?xs @ ys, i2, out)
      else reduce_loop fuel key_cmp reduce emit (length ?xs) (?xs @ ys) i2
        (foldl (head_min key_cmp) None (map todo ?xs)) out)"
    using threads_done_todo [OF ok, of ys] i1(3) i2(3)
    by (simp add: bindE_assoc comp_def cong: if_cong)
  show ?case
  proof (cases "concat (map todo ?xs) = []")
    case True
    then have "distinct_keys key_cmp (concat (map (dropWhile ?M) (map todo xs))) []"
      unfolding True [unfolded todo] by (simp add: distinct_keys_def)
    from distinct_keys_Cons(1) [OF srt Suc.prems(5,6) this] show ?thesis
      using True step i2 by (intro exI [of _ "[kv_key m]"] exI [of _ ?xs] exI [of _ i2]) simp
  next
    case False
    then obtain m' where m': "foldl (head_min key_cmp) None (map todo ?xs) = Some m'"
      using foldl_head_min(1) [of None "map todo ?xs"] by auto
    have srt': "\<forall>es \<in> set (map todo ?xs). sorted_wrt (\<lambda>x y. key_cmp x y < 0) (map kv_key es)"
      using ok column_okD(4) by force
    have less: "length (concat (map todo ?xs)) < fuel"
    proof -
      have "length (concat (map todo xs)) = length (concat (map todo ?xs)) + length ?es"
        by (rule length_todo_advs)
      moreover have "0 < length ?es" using ne by blast
      ultimately show ?thesis using Suc.prems(7) by linarith
    qed
    define out1 where "out1 = (case emit_all emit (?red (kv_key m)) out of Inl e \<Rightarrow> out | Inr o1 \<Rightarrow> o1)"
    have cap: "length ?xs \<le> max_list i2" using Suc.prems(3) i2(2) by simp
    from Suc.IH [OF ok i2(1) cap Suc.prems(4) foldl_head_min_least [OF m' srt'] less, of out1]
    obtain ks xs' i' where ks: "distinct_keys key_cmp (concat (map todo ?xs)) ks" "concat (map todo xs') = []"
      "loaded i' []" "max_list i' = max_list i2"
      "reduce_loop fuel key_cmp reduce emit (length ?xs) (?xs @ ys) i2 (Some m') out1 =
       bindE (emit_all emit (concat (map (\<lambda>k. red k (values_for key_cmp (map todo ?xs) k)) ks)) out1)
        (\<lambda>out. Inr (xs' @ ys, i', out))"
      by (elim exE conjE) (rule that)
    note spec = distinct_keys_Cons [OF srt Suc.prems(5,6) ks(1) [unfolded todo]]
    have "map (\<lambda>k. red k (values_for key_cmp (map todo ?xs) k)) ks = map ?red ks"
      unfolding todo using spec(2) by simp
    note loop = ks(5) [unfolded this]
    have "reduce_loop (Suc fuel) key_cmp reduce emit (length xs) (xs @ ys) i (Some m) out =
      bindE (emit_all emit (concat (map ?red (kv_key m # ks))) out) (\<lambda>out. Inr (xs' @ ys, i', out))"
      unfolding step m' if_not_P [OF False] using loop
      by (cases "emit_all emit (?red (kv_key m)) out")
        (simp_all add: out1_def emit_all_append del: reduce_loop.simps)
    then show ?thesis using spec(1) ks(2-4) i2(2) by (intro exI conjI) (assumption | simp)+
  qed
qed simp


lemma reduce_task_spec:
  assumes "\<forall>a \<in> set xs. column_ok key_cmp a" and "loaded i []" and "length xs \<le> max_list i"
    and "reducer reduce red" and "keys_left ys = 0"
  shows "\<exists>ks xs' i'. distinct_keys key_cmp (concat (map todo xs)) ks \<and> concat (map todo xs') = [] \<and>
    loaded i' [] \<and> max_list i' = max_list i \<and>
    reduce_task key_cmp reduce emit (length xs) (xs @ ys) i out =
      bindE (emit_all emit (concat (map (\<lambda>k. red k (values_for key_cmp (map todo xs) k)) ks)) out)
        (\<lambda>out. Inr (xs' @ ys, i', out))"
proof -
  let ?n = "length (concat (map todo xs))"
  have hits0: "hits key_cmp None a = []" "adv key_cmp None a = a" for a :: "('k, 'v) keyvals_arr_t"
    by (simp_all add: hits_def adv_def matches_def takeWhile_eq_Nil_iff)
  have hits1: "concat (map (hits key_cmp None) xs) = []" "map (adv key_cmp None) xs = xs"
    by (simp_all add: hits0 map_idI)
  have n: "keys_left (xs @ ys) + 2 = Suc (Suc ?n)"
    using keys_left_todo [OF assms(1)] assms(5) by (simp add: keys_left_def)
  obtain i1 where i1: "loaded i1 []" "max_list i1 = max_list i"
    "scan_threads key_cmp (length xs) 0 (xs @ ys) i None None =
     Inr (xs @ ys, i1, foldl (head_min key_cmp) None (map todo xs))"
    using scan_threads_spec [OF assms(1,2), of None "[]" ys None]
    by (auto simp: hits1 hits0 comp_def)
  have step: "reduce_task key_cmp reduce emit (length xs) (xs @ ys) i out =
    (if concat (map todo xs) = [] then Inr (xs @ ys, i1, out)
     else reduce_loop (Suc ?n) key_cmp reduce emit (length xs) (xs @ ys) i1
       (foldl (head_min key_cmp) None (map todo xs)) out)"
    unfolding reduce_task_def n using threads_done_todo [OF assms(1), of ys] i1(3)
    by (subst reduce_loop.simps) (simp add: reduce_min_def)
  show ?thesis
  proof (cases "concat (map todo xs) = []")
    case True
    then show ?thesis using step i1
      by (intro exI [of _ "[]"] exI [of _ xs] exI [of _ i1]) (simp add: distinct_keys_def)
  next
    case False
    then obtain m where m: "foldl (head_min key_cmp) None (map todo xs) = Some m"
      using foldl_head_min(1) [of None "map todo xs"] by auto
    have srt: "\<forall>es \<in> set (map todo xs). sorted_wrt (\<lambda>x y. key_cmp x y < 0) (map kv_key es)"
      using assms(1) column_okD(4) by force
    have "length xs \<le> max_list i1" using assms(3) i1(2) by simp
    from reduce_loop_spec [OF assms(1) i1(1) this assms(4) foldl_head_min_least [OF m srt] lessI, of emit ys out]
    show ?thesis unfolding step if_not_P [OF False] m i1(2) .
  qed
qed

end

end
