(* ===== verification/Scheduler.thy ===== *)
theory Scheduler
  imports Processor
begin

text \<open>
  \<open>src/scheduler.c\<close>: the policies that say which CPU a thread runs on. With the chip geometry of
  the Solaris build (8 cores of 8 strands) and without it (Linux).
\<close>

section \<open>Policies\<close>

datatype policy_map = Map_fill_strand | Map_fill_core | Map_fill_chip

record sched_policy =
  sp_num_cpus :: int
  sp_num_chips_per_sys :: int
  sp_map :: policy_map

definition SCHED_POLICY_STRAND_FILL :: nat where "SCHED_POLICY_STRAND_FILL = 0"
definition SCHED_POLICY_CORE_FILL :: nat where "SCHED_POLICY_CORE_FILL = 1"
definition SCHED_POLICY_CHIP_FILL :: nat where "SCHED_POLICY_CHIP_FILL = 2"
definition SCHED_POLICY_LAST :: nat where "SCHED_POLICY_LAST = 2"

definition policies :: "sched_policy list" where
  "policies = map (\<lambda>m. \<lparr>sp_num_cpus = 0, sp_num_chips_per_sys = 0, sp_map = m\<rparr>)
     [Map_fill_strand, Map_fill_core, Map_fill_chip]"

definition sched_policy_get :: "os_t \<Rightarrow> nat \<Rightarrow> sched_policy res" where
  "sched_policy_get os policy =
     bindE (assertE (policy \<le> SCHED_POLICY_LAST)) (\<lambda>_.
     bindE (arr_get policies (int policy)) (\<lambda>sp.
     Inr (sp\<lparr>sp_num_cpus := proc_get_num_cpus os, sp_num_chips_per_sys := loc_get_num_lgrps os\<rparr>)))"

section \<open>Thread to CPU\<close>

definition map_fill_strand :: "sched_policy \<Rightarrow> int \<Rightarrow> int res" where
  "map_fill_strand sp thr = c_rem thr (sp_num_cpus sp)"

definition NUM_CORES_PER_CHIP :: int where "NUM_CORES_PER_CHIP = 8"
definition NUM_STRANDS_PER_CORE :: int where "NUM_STRANDS_PER_CORE = 8"

definition map_fill_core_solaris :: "sched_policy \<Rightarrow> int \<Rightarrow> int res" where
  "map_fill_core_solaris sp thr =
     bindE (c_rem thr (sp_num_cpus sp)) (\<lambda>thr.
     bindE (c_rem thr (NUM_CORES_PER_CHIP * sp_num_chips_per_sys sp)) (\<lambda>core.
     bindE (c_div thr (NUM_CORES_PER_CHIP * sp_num_chips_per_sys sp)) (\<lambda>strand.
     bindE (c_rem strand NUM_STRANDS_PER_CORE) (\<lambda>strand.
     Inr (core * NUM_STRANDS_PER_CORE + strand)))))"

definition map_fill_chip_solaris :: "sched_policy \<Rightarrow> int \<Rightarrow> int res" where
  "map_fill_chip_solaris sp thr =
     bindE (c_rem thr (sp_num_cpus sp)) (\<lambda>thr.
     bindE (c_rem thr (sp_num_chips_per_sys sp)) (\<lambda>chip.
     bindE (bindE (c_div thr (sp_num_chips_per_sys sp)) (\<lambda>x. c_rem x NUM_CORES_PER_CHIP)) (\<lambda>core.
     bindE (c_div thr (NUM_CORES_PER_CHIP * NUM_STRANDS_PER_CORE)) (\<lambda>strand.
     bindE (c_rem strand NUM_STRANDS_PER_CORE) (\<lambda>strand.
     Inr (chip * (NUM_CORES_PER_CHIP * NUM_STRANDS_PER_CORE) + core * NUM_STRANDS_PER_CORE + strand))))))"

text \<open>Without the chip geometry all three policies are the same remainder.\<close>

definition sched_thr_to_cpu :: "sched_policy \<Rightarrow> int \<Rightarrow> int res" where
  "sched_thr_to_cpu sp thr =
     (case sp_map sp of
        Map_fill_strand \<Rightarrow> map_fill_strand sp thr
      | Map_fill_core \<Rightarrow> c_rem thr (sp_num_cpus sp)
      | Map_fill_chip \<Rightarrow> c_rem thr (sp_num_cpus sp))"

definition sched_thr_to_cpu_solaris :: "sched_policy \<Rightarrow> int \<Rightarrow> int res" where
  "sched_thr_to_cpu_solaris sp thr =
     (case sp_map sp of
        Map_fill_strand \<Rightarrow> map_fill_strand sp thr
      | Map_fill_core \<Rightarrow> map_fill_core_solaris sp thr
      | Map_fill_chip \<Rightarrow> map_fill_chip_solaris sp thr)"

section \<open>Properties\<close>

lemma sched_thr_to_cpu_mod:
  assumes "0 \<le> thr" and "0 < sp_num_cpus sp"
  shows "sched_thr_to_cpu sp thr = Inr (thr mod sp_num_cpus sp)"
  using assms by (simp add: sched_thr_to_cpu_def map_fill_strand_def c_rem_pos split: policy_map.split)

lemma sched_thr_to_cpu_no_cpus: "sp_num_cpus sp = 0 \<Longrightarrow> sched_thr_to_cpu sp thr = Inl Div_by_zero"
  by (simp add: sched_thr_to_cpu_def map_fill_strand_def c_rem_def split: policy_map.split)

text \<open>
  On a machine of \<open>c\<close> chips with all their strands online, filling by core is a bijection: the
  first threads get one core each, and no two threads share a strand.
\<close>

lemma map_fill_core_solaris_eq:
  assumes "0 < sp_num_chips_per_sys sp"
    and "sp_num_cpus sp = NUM_CORES_PER_CHIP * NUM_STRANDS_PER_CORE * sp_num_chips_per_sys sp"
    and "0 \<le> thr" and "thr < sp_num_cpus sp"
  shows "map_fill_core_solaris sp thr =
    Inr (thr mod (8 * sp_num_chips_per_sys sp) * 8 + thr div (8 * sp_num_chips_per_sys sp))"
proof -
  let ?c = "8 * sp_num_chips_per_sys sp"
  have c: "0 < ?c" using assms(1) by simp
  have "thr < ?c * 8" using assms by (simp add: NUM_CORES_PER_CHIP_def NUM_STRANDS_PER_CORE_def)
  then have "thr div ?c < 8" by (rule int_div_less [OF c])
  moreover have "0 \<le> thr div ?c" using c assms(3) by (simp add: pos_imp_zdiv_nonneg_iff)
  ultimately show ?thesis
    using assms c
    by (simp add: map_fill_core_solaris_def c_rem_pos c_div_pos NUM_CORES_PER_CHIP_def NUM_STRANDS_PER_CORE_def)
qed

lemma map_fill_core_solaris_inj:
  assumes "0 < sp_num_chips_per_sys sp"
    and "sp_num_cpus sp = NUM_CORES_PER_CHIP * NUM_STRANDS_PER_CORE * sp_num_chips_per_sys sp"
    and "0 \<le> t" "t < sp_num_cpus sp" "0 \<le> u" "u < sp_num_cpus sp"
    and "map_fill_core_solaris sp t = map_fill_core_solaris sp u"
  shows "t = u"
proof -
  let ?c = "8 * sp_num_chips_per_sys sp"
  have c: "0 < ?c" using assms(1) by simp
  have lt: "x div ?c < 8 \<and> 0 \<le> x div ?c" if "0 \<le> x" "x < sp_num_cpus sp" for x
    using that assms(2) c int_div_less [OF c, of x 8]
    by (simp add: pos_imp_zdiv_nonneg_iff NUM_CORES_PER_CHIP_def NUM_STRANDS_PER_CORE_def)
  have e: "t mod ?c * 8 + t div ?c = u mod ?c * 8 + u div ?c"
    using assms(7) map_fill_core_solaris_eq [OF assms(1,2,3,4)] map_fill_core_solaris_eq [OF assms(1,2,5,6)] by simp
  have "a = b \<and> x = y" if "x * 8 + a = y * 8 + b" "0 \<le> a" "a < 8" "0 \<le> b" "b < 8" for a b x y :: int
    using that by presburger
  then have "t div ?c = u div ?c" "t mod ?c = u mod ?c"
    using e lt [OF assms(3,4)] lt [OF assms(5,6)] by blast+
  then show ?thesis by (metis div_mult_mod_eq)
qed

text \<open>Filling by chip is not: on one chip threads 0 and 8 share a strand although others are free.\<close>

lemma map_fill_chip_solaris_collides:
  assumes "sp_num_chips_per_sys sp = 1" and "sp_num_cpus sp = 64"
  shows "map_fill_chip_solaris sp 0 = map_fill_chip_solaris sp 8"
  using assms by (simp add: map_fill_chip_solaris_def c_rem_pos c_div_pos NUM_CORES_PER_CHIP_def NUM_STRANDS_PER_CORE_def)

end
