(* ===== verification/Env.thy ===== *)
theory Env
  imports TaskQ_Life ReduceTask Scheduler
begin

text \<open>
  The environment of \<open>src/map_reduce.c\<close>: arguments, \<open>mr_env_t\<close>, \<open>env_init\<close>, and the helpers that all
  phases use: the default splitter and partition, the number of threads of a phase and the index
  of the calling thread. Types: \<open>'u\<close> is the application's memory that its splitter and map function
  work on, \<open>'k\<close> and \<open>'v\<close> are keys and values. The application's functions are parameters, fields
  of the arguments; they may fault.
\<close>

section \<open>Arguments and environment\<close>

datatype TASK_TYPE_T = TASK_TYPE_MAP | TASK_TYPE_REDUCE | TASK_TYPE_MERGE

record map_args_t =
  ma_length :: "64 word"
  ma_data :: "64 word"

type_synonym 'u splitter_t = "'u \<Rightarrow> int \<Rightarrow> (int \<times> map_args_t option \<times> 'u) res"
type_synonym ('u, 'k, 'v) map_t = "'u \<Rightarrow> map_args_t \<Rightarrow> ('u \<times> ('k \<times> 'v \<times> int) list) res"
type_synonym ('k, 'v) combiner_t = "('k, 'v) iterator_t \<Rightarrow> 'v res"
type_synonym 'k partition_t = "int \<Rightarrow> 'k \<Rightarrow> int \<Rightarrow> int res"

text \<open>
  A map function says what it emits: key, value and key size. \<open>key_mem\<close> gives the bytes at a key's
  address, which only the default partition reads.
\<close>

record ('u, 'k, 'v) map_reduce_args_t =
  a_task_data :: "64 word"
  a_data_size :: int
  a_unit_size :: int
  a_map :: "('u, 'k, 'v) map_t"
  a_reduce :: "('k, 'v) reduce_t option"
  a_combiner :: "('k, 'v) combiner_t option"
  a_splitter :: "'u splitter_t option"
  a_locator :: "(map_args_t \<Rightarrow> 64 word) option"
  a_key_cmp :: "'k key_cmp"
  a_partition :: "'k partition_t option"
  a_use_one_queue_per_task :: bool
  a_L1_cache_size :: int
  a_num_map_threads :: int
  a_num_reduce_threads :: int
  a_num_merge_threads :: int
  a_num_procs :: int
  a_proc_offset :: int
  a_key_mem :: "'k \<Rightarrow> 8 word list"

record thread_info_t =
  ti_tid :: nat
  ti_curr_task :: int

text \<open>
  \<open>mr_env_t\<close>. \<open>e_splitter = None\<close> stands for \<open>array_splitter\<close>, whose position is in the environment.
  \<open>key_match_factor\<close> is left out: the number of reduce tasks computed from it is overwritten before
  anything reads it.
\<close>

record ('u, 'k, 'v) mr_env_t =
  e_args :: "('u, 'k, 'v) map_reduce_args_t"
  e_num_map_tasks :: int
  e_num_reduce_tasks :: int
  e_chunk_size :: int
  e_num_procs :: int
  e_num_map_threads :: int
  e_num_reduce_threads :: int
  e_num_merge_threads :: int
  e_oneOutputQueuePerMapTask :: bool
  e_oneOutputQueuePerReduceTask :: bool
  e_intermediate_task_alloc_len :: int
  e_map :: "('u, 'k, 'v) map_t"
  e_reduce :: "('k, 'v) reduce_t"
  e_combiner :: "('k, 'v) combiner_t option"
  e_partition :: "'k partition_t"
  e_splitter :: "'u splitter_t option"
  e_locator :: "(map_args_t \<Rightarrow> 64 word) option"
  e_key_cmp :: "'k key_cmp"
  e_tinfo :: "thread_info_t list"
  e_intermediate_vals :: "('k, 'v) keyvals_arr_t list list"
  e_final_vals :: "('k, 'v) keyval_arr_t list"
  e_splitter_pos :: "64 word"
  e_schedPolicies :: "sched_policy list"

definition DEFAULT_NUM_REDUCE_TASKS :: int where "DEFAULT_NUM_REDUCE_TASKS = 256"
definition EXTENDED_NUM_REDUCE_TASKS :: int where "EXTENDED_NUM_REDUCE_TASKS = DEFAULT_NUM_REDUCE_TASKS * 128"
definition DEFAULT_CACHE_SIZE :: int where "DEFAULT_CACHE_SIZE = 64 * 1024"
definition TASK_TYPE_TOTAL :: nat where "TASK_TYPE_TOTAL = 3"

section \<open>Default partition\<close>

text \<open>The hash is 64 bits wide; \<open>char\<close> is signed, so a byte is sign-extended before it is added.\<close>

definition hash_step :: "64 word \<Rightarrow> 8 word \<Rightarrow> 64 word" where
  "hash_step hash c = (push_bit 5 hash + hash) + scast c"

definition default_partition :: "int \<Rightarrow> 8 word list \<Rightarrow> int \<Rightarrow> int res" where
  "default_partition num_reduce_tasks key key_size =
     bindE (mapE (\<lambda>i. arr_get key (int i)) [0..<nat key_size]) (\<lambda>str.
     let hash = foldl hash_step 5381 str; n = (word_of_int num_reduce_tasks :: 64 word) in
     if n = 0 then Inl Div_by_zero else Inr (to_int32 (uint (hash mod n))))"

lemma default_partition_range:
  assumes "0 < n" "n < 2 ^ 31" and "key_size \<le> int (length key)"
  shows "\<exists>r. default_partition n key key_size = Inr r \<and> 0 \<le> r \<and> r < n"
proof -
  let ?n = "word_of_int n :: 64 word" and ?str = "map (\<lambda>i. key ! i) [0..<nat key_size]"
  have u: "uint ?n = n" using assms(1,2) by (simp add: unsigned_of_int take_bit_int_eq_self)
  have str: "mapE (\<lambda>i. arr_get key (int i)) [0..<nat key_size] = Inr ?str"
    using assms(3) by (intro mapE_Inr) auto
  define x where "x = uint (foldl hash_step 5381 ?str mod ?n)"
  have x: "x = uint (foldl hash_step 5381 ?str) mod n" by (simp add: x_def uint_mod u)
  have r: "0 \<le> x" "x < n" using assms(1) by (simp_all add: x)
  have "to_int32 x = x" using r assms(2) by (intro to_int32_id) auto
  moreover have "?n \<noteq> 0" using u assms(1) by auto
  ultimately show ?thesis using str r by (simp add: default_partition_def Let_def flip: x_def)
qed

section \<open>Setting up\<close>

text \<open>
  \<open>env_init\<close>: what it computes, and the fields it fills with it. A failed \<open>CHECK_ERROR\<close> stops the program. Allocation failures stop it in
  \<open>mem_malloc\<close>, so the arrays are simply there; \<open>mem_calloc\<close> leaves zeros in them.
\<close>

definition env_filled ::
  "('u, 'k, 'v) map_reduce_args_t \<Rightarrow> int \<Rightarrow> int \<Rightarrow> sched_policy list \<Rightarrow> ('u, 'k, 'v) mr_env_t" where
  "env_filled args num_procs chunk_size pols =
     (let oneq = a_use_one_queue_per_task args;
          num_map_threads = (if a_num_map_threads args > 0 then a_num_map_threads args else num_procs);
          num_reduce_threads = (if a_num_reduce_threads args > 0 then a_num_reduce_threads args else num_procs);
          num_merge_threads = (if a_num_merge_threads args > 0 then a_num_merge_threads args else num_reduce_threads);
          num_merge_threads = (if \<not> oneq then num_reduce_threads sdiv 2 else num_merge_threads);
          num_merge_threads = max num_merge_threads 1;
          chunk_size = (if chunk_size \<le> 0 then 1 else chunk_size);
          num_reduce_tasks = (if \<not> oneq then EXTENDED_NUM_REDUCE_TASKS else DEFAULT_NUM_REDUCE_TASKS);
          num_merge_threads = min num_merge_threads (num_reduce_tasks sdiv 2)
      in \<lparr>e_args = args, e_num_map_tasks = 0, e_num_reduce_tasks = num_reduce_tasks, e_chunk_size = chunk_size,
          e_num_procs = num_procs, e_num_map_threads = num_map_threads, e_num_reduce_threads = num_reduce_threads,
          e_num_merge_threads = num_merge_threads, e_oneOutputQueuePerMapTask = False,
          e_oneOutputQueuePerReduceTask = oneq, e_intermediate_task_alloc_len = num_map_threads,
          e_map = a_map args,
          e_reduce = (case a_reduce args of Some r \<Rightarrow> r | None \<Rightarrow> identity_reduce),
          e_combiner = a_combiner args,
          e_partition = (case a_partition args of Some p \<Rightarrow> p
            | None \<Rightarrow> (\<lambda>n key sz. default_partition n (a_key_mem args key) sz)),
          e_splitter = a_splitter args, e_locator = a_locator args, e_key_cmp = a_key_cmp args,
          e_tinfo = [],
          e_intermediate_vals = replicate (nat num_map_threads) (replicate (nat num_reduce_tasks) keyvals_arr_0),
          e_final_vals = replicate (nat (if oneq then num_reduce_tasks else num_reduce_threads)) keyval_arr_0,
          e_splitter_pos = 0, e_schedPolicies = pols\<rparr>)"

definition env_init :: "os_t \<Rightarrow> ('u, 'k, 'v) map_reduce_args_t \<Rightarrow> ('u, 'k, 'v) mr_env_t res" where
  "env_init os args =
     (let num_procs = proc_get_num_cpus os in
      bindE (if a_num_procs args > 0 then
               bindE (CHECK_ERROR (a_num_procs args > num_procs)) (\<lambda>_. Inr (a_num_procs args))
             else Inr num_procs) (\<lambda>num_procs.
      bindE (c_div (if a_L1_cache_size args > 0 then a_L1_cache_size args else DEFAULT_CACHE_SIZE) (a_unit_size args))
        (\<lambda>chunk_size.
      bindE (mapE (\<lambda>_. sched_policy_get os SCHED_POLICY_STRAND_FILL) [0..<TASK_TYPE_TOTAL]) (\<lambda>pols.
      Inr (env_filled args num_procs chunk_size pols)))))"

definition getNumTaskThreads :: "('u, 'k, 'v) mr_env_t \<Rightarrow> TASK_TYPE_T \<Rightarrow> int" where
  "getNumTaskThreads env task_type =
     (case task_type of
        TASK_TYPE_MAP \<Rightarrow> e_num_map_threads env
      | TASK_TYPE_REDUCE \<Rightarrow> e_num_reduce_threads env
      | TASK_TYPE_MERGE \<Rightarrow> e_num_merge_threads env)"

text \<open>The search for the calling thread, from index \<open>i\<close> on.\<close>

fun find_tid :: "nat \<Rightarrow> nat \<Rightarrow> nat \<Rightarrow> thread_info_t list \<Rightarrow> nat res" where
  "find_tid 0 mytid i tinfo = Inr i"
| "find_tid (Suc n) mytid i tinfo =
     bindE (arr_get tinfo (int i)) (\<lambda>t. if ti_tid t \<noteq> mytid then find_tid n mytid (Suc i) tinfo else Inr i)"

definition getCurrThreadIndex :: "('u, 'k, 'v) mr_env_t \<Rightarrow> TASK_TYPE_T \<Rightarrow> nat \<Rightarrow> nat res" where
  "getCurrThreadIndex env task_type mytid =
     (let num_threads = nat (getNumTaskThreads env task_type) in
      bindE (find_tid num_threads mytid 0 (e_tinfo env)) (\<lambda>i.
      bindE (assertE (i \<noteq> num_threads)) (\<lambda>_. Inr i)))"

lemma find_tid_spec:
  assumes "i + n = length tinfo" and "j < n" "ti_tid (tinfo ! (i + j)) = mytid" "\<forall>k < j. ti_tid (tinfo ! (i + k)) \<noteq> mytid"
  shows "find_tid n mytid i tinfo = Inr (i + j)"
  using assms
proof (induction n arbitrary: i j)
  case (Suc n)
  have get: "arr_get tinfo (int i) = Inr (tinfo ! i)" using Suc.prems(1) by simp
  show ?case
  proof (cases j)
    case 0
    then show ?thesis using Suc.prems(3) get by simp
  next
    case (Suc j')
    have "find_tid n mytid (Suc i) tinfo = Inr (Suc i + j')"
      using Suc.prems Suc by (intro Suc.IH) auto
    moreover have "ti_tid (tinfo ! i) \<noteq> mytid" using Suc.prems(4) Suc by (metis add_0_right zero_less_Suc)
    ultimately show ?thesis using get Suc by simp
  qed
qed simp

lemma getCurrThreadIndex_self:
  assumes "nat (getNumTaskThreads env ty) = length (e_tinfo env)" and "t < length (e_tinfo env)"
    and "distinct (map ti_tid (e_tinfo env))"
  shows "getCurrThreadIndex env ty (ti_tid (e_tinfo env ! t)) = Inr t"
proof -
  have "\<forall>k < t. ti_tid (e_tinfo env ! k) \<noteq> ti_tid (e_tinfo env ! t)"
    using assms(2,3) by (auto simp: distinct_conv_nth)
  then have "find_tid (length (e_tinfo env)) (ti_tid (e_tinfo env ! t)) 0 (e_tinfo env) = Inr t"
    using find_tid_spec [of 0 "length (e_tinfo env)" "e_tinfo env" t] assms(2) by simp
  then show ?thesis using assms(1,2) by (simp add: getCurrThreadIndex_def)
qed

section \<open>The array splitter\<close>

text \<open>
  \<open>data_units\<close> is an \<open>int\<close>; the position and the sums with it are 64 bits wide and unsigned.
\<close>

definition array_splitter :: "('u, 'k, 'v) map_reduce_args_t \<Rightarrow> 64 word \<Rightarrow> int \<Rightarrow> (int \<times> map_args_t option \<times> 64 word) res" where
  "array_splitter args splitter_pos req_units =
     bindE (c_div (a_data_size args) (a_unit_size args)) (\<lambda>q.
     let data_units = (word_of_int (to_int32 q) :: 64 word) in
     if splitter_pos \<ge> data_units then Inr (0, None, splitter_pos)
     else
       (let len = (if splitter_pos + word_of_int req_units > data_units
                   then data_units - splitter_pos else word_of_int req_units)
        in Inr (1, Some \<lparr>ma_length = len, ma_data = a_task_data args + splitter_pos * word_of_int (a_unit_size args)\<rparr>,
                splitter_pos + len)))"

text \<open>The splitter of the environment, over its position and the application's memory.\<close>

definition call_splitter ::
  "('u, 'k, 'v) mr_env_t \<Rightarrow> int \<Rightarrow> 64 word \<times> 'u \<Rightarrow> (int \<times> map_args_t option \<times> (64 word \<times> 'u)) res" where
  "call_splitter env req_units s =
     (case e_splitter env of
        None \<Rightarrow> bindE (array_splitter (e_args env) (fst s) req_units) (\<lambda>(ret, out, pos). Inr (ret, out, (pos, snd s)))
      | Some splitter \<Rightarrow> bindE (splitter (snd s) req_units) (\<lambda>(ret, out, u). Inr (ret, out, (fst s, u))))"

text \<open>
  What the array splitter hands out from a position on: pieces of \<open>n\<close> units, the last one shorter.
\<close>

function array_pieces :: "64 word \<Rightarrow> int \<Rightarrow> int \<Rightarrow> int \<Rightarrow> int \<Rightarrow> map_args_t list" where
  "array_pieces base unit n units pos =
     (if pos < units \<and> 0 < n then
        \<lparr>ma_length = word_of_int (min n (units - pos)), ma_data = base + word_of_int (pos * unit)\<rparr> #
        array_pieces base unit n units (pos + min n (units - pos))
      else [])"
  by pat_completeness auto
termination by (relation "measure (\<lambda>(b, u, n, units, pos). nat (units - pos))") auto

declare array_pieces.simps [simp del]

definition array_ok :: "('u, 'k, 'v) map_reduce_args_t \<Rightarrow> int \<Rightarrow> 64 word \<Rightarrow> bool" where
  "array_ok args n pos \<longleftrightarrow>
     0 < a_unit_size args \<and> 0 \<le> a_data_size args \<and> a_data_size args div a_unit_size args < 2 ^ 31 \<and>
     0 < n \<and> n < 2 ^ 31 \<and> uint pos \<le> a_data_size args div a_unit_size args"

lemma array_splitter_step:
  assumes "array_ok args n pos"
  shows "array_splitter args pos n =
    (case array_pieces (a_task_data args) (a_unit_size args) n (a_data_size args div a_unit_size args) (uint pos) of
       [] \<Rightarrow> Inr (0, None, pos)
     | p # ps \<Rightarrow> Inr (1, Some p, pos + ma_length p))"
    and "array_pieces (a_task_data args) (a_unit_size args) n (a_data_size args div a_unit_size args) (uint pos) = p # ps \<Longrightarrow>
      array_ok args n (pos + ma_length p) \<and>
      array_pieces (a_task_data args) (a_unit_size args) n (a_data_size args div a_unit_size args)
        (uint (pos + ma_length p)) = ps"
proof -
  let ?units = "a_data_size args div a_unit_size args" and ?m = "min n (a_data_size args div a_unit_size args - uint pos)"
  have ok: "0 < a_unit_size args" "0 \<le> a_data_size args" "?units < 2 ^ 31" "0 < n" "n < 2 ^ 31" "uint pos \<le> ?units"
    using assms by (simp_all add: array_ok_def)
  have units: "0 \<le> ?units" using ok(1,2) by (simp add: pos_imp_zdiv_nonneg_iff)
  have cd: "c_div (a_data_size args) (a_unit_size args) = Inr ?units" using ok by (simp add: c_div_pos)
  have i32: "to_int32 ?units = ?units" using units ok(3) by (intro to_int32_id) auto
  have w: "uint (word_of_int x :: 64 word) = x" if "0 \<le> x" "x < 2 ^ 32" for x
    using that by (simp add: unsigned_of_int take_bit_int_eq_self)
  have wu: "uint (word_of_int ?units :: 64 word) = ?units" and wn: "uint (word_of_int n :: 64 word) = n"
    using units ok by (simp_all add: w)
  have ge: "pos \<ge> word_of_int ?units \<longleftrightarrow> uint pos \<ge> ?units" by (simp add: word_le_def wu)
  have sum: "uint (pos + word_of_int x) = uint pos + x" if "0 \<le> x" "x \<le> n" for x
  proof -
    have "uint pos + uint (word_of_int x :: 64 word) < 2 ^ 64" using that ok w [of x] by simp
    then have "uint (pos + word_of_int x) = uint pos + uint (word_of_int x :: 64 word)"
      using uint_add_lem [of pos "word_of_int x"] by simp
    then show ?thesis using that ok w [of x] by simp
  qed
  have gt: "pos + word_of_int n > word_of_int ?units \<longleftrightarrow> uint pos + n > ?units"
    using ok sum [of n] by (simp add: word_less_def wu)
  have len: "(if pos + word_of_int n > word_of_int ?units then word_of_int ?units - pos else word_of_int n) =
      (word_of_int ?m :: 64 word)"
    by (simp add: gt min_def)
  have addr: "pos * word_of_int (a_unit_size args) = (word_of_int (uint pos * a_unit_size args) :: 64 word)"
    by simp
  note ap = array_pieces.simps [of "a_task_data args" "a_unit_size args" n ?units "uint pos"]
  have eval: "array_splitter args pos n =
    (if uint pos \<ge> ?units then Inr (0, None, pos)
     else Inr (1, Some \<lparr>ma_length = word_of_int ?m, ma_data = a_task_data args + word_of_int (uint pos * a_unit_size args)\<rparr>,
            pos + word_of_int ?m))"
    by (simp only: array_splitter_def cd bindE_simps i32 Let_def ge len addr)
  show "array_splitter args pos n =
    (case array_pieces (a_task_data args) (a_unit_size args) n ?units (uint pos) of
       [] \<Rightarrow> Inr (0, None, pos)
     | p # ps \<Rightarrow> Inr (1, Some p, pos + ma_length p))"
    unfolding eval by (subst ap) (use ok(4) in simp)
  assume "array_pieces (a_task_data args) (a_unit_size args) n ?units (uint pos) = p # ps"
  then have p: "uint pos < ?units" "ma_length p = word_of_int ?m"
    "ps = array_pieces (a_task_data args) (a_unit_size args) n ?units (uint pos + ?m)"
    unfolding ap by (auto split: if_splits)
  have "uint (pos + ma_length p) = uint pos + ?m" unfolding p(2) by (rule sum) (use p(1) ok(4) in auto)
  then show "array_ok args n (pos + ma_length p) \<and>
      array_pieces (a_task_data args) (a_unit_size args) n ?units (uint (pos + ma_length p)) = ps"
    using p(3) ok by (simp add: array_ok_def)
qed

lemma array_pieces_sum:
  assumes "array_ok args n pos"
  shows "sum_list (map (\<lambda>p. uint (ma_length p))
      (array_pieces (a_task_data args) (a_unit_size args) n (a_data_size args div a_unit_size args) (uint pos))) =
    a_data_size args div a_unit_size args - uint pos"
proof -
  let ?units = "a_data_size args div a_unit_size args"
  have u: "0 \<le> x \<Longrightarrow> x < 2 ^ 32 \<Longrightarrow> uint (word_of_int x :: 64 word) = x" for x
    by (simp add: unsigned_of_int take_bit_int_eq_self)
  have ok: "0 < n" "n < 2 ^ 31" "uint pos \<le> ?units" "0 \<le> uint pos" using assms by (simp_all add: array_ok_def)
  have "sum_list (map (\<lambda>p. uint (ma_length p)) (array_pieces base unit n units i)) = units - i"
    if "0 < n" "n < 2 ^ 31" "i \<le> units" for base unit units i
    using that
  proof (induction base unit n units i rule: array_pieces.induct)
    case (1 base unit n units i)
    show ?case
    proof (cases "i < units")
      case True
      have "uint (word_of_int (min n (units - i)) :: 64 word) = min n (units - i)" using True 1(2,3) by (intro u) auto
      moreover have "sum_list (map (\<lambda>p. uint (ma_length p)) (array_pieces base unit n units (i + min n (units - i)))) =
          units - (i + min n (units - i))" using 1 True by simp
      ultimately show ?thesis using True 1(2) by (subst array_pieces.simps) simp
    next
      case False
      then show ?thesis using 1(4) by (subst array_pieces.simps) simp
    qed
  qed
  then show ?thesis using ok by blast
qed

text \<open>So the array splitter is a stream of its pieces.\<close>

interpretation arr: value_stream
  "\<lambda>(args, n, pos, u). bindE (array_splitter args pos n) (\<lambda>(ret, out, pos). Inr (ret, out, (args, n, pos, u)))"
  "\<lambda>(args, n, pos, u). array_pieces (a_task_data args) (a_unit_size args) n (a_data_size args div a_unit_size args) (uint pos)"
  "\<lambda>(args, n, pos, u). array_ok args n pos"
  by unfold_locales (auto simp: array_splitter_step)

end
