(* ===== verification/TaskBench.thy ===== *)
theory TaskBench
  imports TaskQ_Life
begin

text \<open>
  The task queue at the level of tasks. \<open>tq_has h tq tss\<close>: the queues of \<open>tq\<close> hold the tasks
  \<open>tss\<close>, addresses hidden. \<open>bench_ok\<close> is the same while tasks are being generated, when a further
  queue \<open>q\<close>, not part of the task queue, holds the tasks \<open>ts\<close>. A task is its number, length and
  address; the fourth word is padding.
\<close>

type_synonym task_key = "64 word \<times> 64 word \<times> 64 word"

definition task_key :: "task_t \<Rightarrow> task_key" where
  "task_key t = (task_id t, task_len t, task_data t)"

definition key_at :: "'a tq_heap_scheme \<Rightarrow> addr \<Rightarrow> task_key" where
  "key_at h e = task_key (tq_task h e)"

definition put_task :: "int \<Rightarrow> 't \<Rightarrow> 't list list \<Rightarrow> 't list list" where
  "put_task r t tss = (let i = nat (r mod int (length tss)) in tss[i := tss ! i @ [t]])"

definition tq_has :: "'a tq_heap_scheme \<Rightarrow> taskQ_t \<Rightarrow> task_key list list \<Rightarrow> bool" where
  "tq_has h tq tss \<longleftrightarrow> (\<exists>qs fs. tq_ok h tq qs fs \<and> map (map (key_at h)) qs = tss)"

definition bench_ok :: "'a tq_heap_scheme \<Rightarrow> taskQ_t \<Rightarrow> task_key list list \<Rightarrow> addr \<Rightarrow> task_key list \<Rightarrow> bool" where
  "bench_ok h tq tss q ts \<longleftrightarrow>
     (\<exists>qs fs es. tq_ok h tq qs fs \<and> map (map (key_at h)) qs = tss \<and>
        rings h (q # tq_heads tq) (es # qs @ fs) \<and> q \<notin> set (tq_blocks tq) \<and> set es \<inter> set (tq_blocks tq) = {} \<and>
        map (key_at h) es = ts)"

definition room :: "'a tq_heap_scheme \<Rightarrow> nat \<Rightarrow> bool" where
  "room h n \<longleftrightarrow> brk h + n \<le> mem_limit h"

section \<open>Frame lemmas\<close>

lemma length_put_task [simp]: "length (put_task r t tss) = length tss"
  by (simp add: put_task_def Let_def)

lemma mset_put_task:
  assumes "tss \<noteq> []"
  shows "mset (concat (put_task r t tss)) = add_mset t (mset (concat tss))"
proof -
  have "nat (r mod int (length tss)) < length tss" using assms mod_index [of "length tss" r] by simp
  then show ?thesis using concat_update_add [of _ tss "[t]"] by (simp add: put_task_def Let_def)
qed

lemma tq_has_length: "tq_has h tq tss \<Longrightarrow> length tss = num_queues tq \<and> 0 < num_queues tq"
  by (auto simp: tq_has_def tq_ok_def tq_shape_def)

lemma tq_has_heap: "tq_has h tq tss \<Longrightarrow> heap_ok h"
  by (auto simp: tq_has_def tq_ok_def)

lemma bench_heap: "bench_ok h tq tss q ts \<Longrightarrow> heap_ok h"
  by (auto simp: bench_ok_def tq_ok_def)

lemma bench_length: "bench_ok h tq tss q ts \<Longrightarrow> length tss = num_queues tq \<and> 0 < num_queues tq"
  by (auto simp: bench_ok_def tq_ok_def tq_shape_def)

lemma tq_ok_other:
  assumes "tq_ok h tq qs fs" and "heap_ok h'" and "rings h' (tq_heads tq) (qs' @ fs)" and "length qs' = length qs"
    and "\<forall>b \<in> set (tq_blocks tq). objs h' b \<noteq> None \<and> mtx h' b = mtx h b"
    and "set (tq_blocks tq) \<inter> set (concat qs') = {}"
  shows "tq_ok h' tq qs' fs"
proof -
  have ok: "tq_shape tq qs fs" "\<forall>lk \<in> set (locks tq). mtx_held h (lk_parent lk) = Some False"
    "distinct (tq_blocks tq)" "set (tq_blocks tq) \<inter> (set (tq_heads tq) \<union> set (concat (qs @ fs))) = {}"
    using assms(1) by (simp_all add: tq_ok_def)
  have "mtx_held h' (lk_parent lk) = Some False" if lk: "lk \<in> set (locks tq)" for lk
  proof -
    have b: "lk_parent lk \<in> set (tq_blocks tq)" using lk by (simp add: tq_blocks_def)
    then obtain n where n: "objs h' (lk_parent lk) = Some n" using assms(5) by blast
    then have "live h' (lk_parent lk)" "lk_parent lk \<noteq> 0"
      using heap_okD(2,4) [OF assms(2) n] by (auto simp: cells_def)
    moreover have "mtx_held h (lk_parent lk) = Some False" using ok(2) lk by blast
    then have "mtx h (lk_parent lk) = Mtx_unlocked" by (auto simp: mtx_held_def split: if_splits mtx_state.splits)
    then have "mtx h' (lk_parent lk) = Mtx_unlocked" using assms(5) b by simp
    ultimately show ?thesis by (simp add: mtx_held_def)
  qed
  moreover have "tq_shape tq qs' fs" using ok(1) assms(4) by (simp add: tq_shape_def)
  ultimately show ?thesis using ok(3,4) assms(2,3,5,6) by (auto simp: tq_ok_def)
qed

lemma rings_Cons:
  "rings h (q # hds) (es # ess) \<longleftrightarrow>
     rings h hds ess \<and> q \<notin> set hds \<and> objs h q = Some QUEUE_SIZE \<and> distinct es \<and> set es \<inter> set (concat ess) = {} \<and>
     (\<forall>e \<in> set es. objs h e = Some ENTRY_SIZE) \<and> dll h q (map elem_of es)"
  by (auto simp: rings_def All_less_Suc2 ball_Un)

lemma key_at_upd: "e \<notin> set es \<Longrightarrow> tq_task h' = (tq_task h)(e := t) \<Longrightarrow> map (key_at h') es = map (key_at h) es"
  by (simp add: key_at_def)

lemma key_at_upd_all:
  "e \<notin> set (concat qs) \<Longrightarrow> tq_task h' = (tq_task h)(e := t) \<Longrightarrow> map (map (key_at h')) qs = map (map (key_at h)) qs"
  by (induction qs) (simp_all add: key_at_def)

lemma key_at_same: "tq_task h' = tq_task h \<Longrightarrow> key_at h' = key_at h"
  by (simp add: key_at_def fun_eq_iff)

lemma mem_free_task: "mem_free a h = Inr h' \<Longrightarrow> tq_task h' = tq_task h"
  by (auto simp: mem_free_def split: if_splits option.splits)

text \<open>Allocating an entry, writing its task and pushing it on the \<open>i\<close>-th of some rings.\<close>

lemma rings_new_entry:
  assumes "heap_ok h" and "rings h hds ess" and "i < length hds" and "room h ENTRY_SIZE"
  shows "\<exists>e h1 h2. mem_malloc ENTRY_SIZE h = Inr (e, h1) \<and> e \<noteq> 0 \<and> e = brk h \<and> tq_task h1 = tq_task h \<and>
    queue_push_back (hds ! i) (elem_of e) (h1\<lparr>tq_task := (tq_task h1)(e := t)\<rparr>) = Inr h2 \<and>
    rings h2 hds (ess[i := ess ! i @ [e]]) \<and> heap_ok h2 \<and> objs h e = None \<and> objs h2 = (objs h)(e := Some ENTRY_SIZE) \<and>
    e \<notin> set (concat ess) \<and> tq_task h2 = (tq_task h)(e := t) \<and> mtx h2 = mtx h \<and>
    brk h2 = brk h + ENTRY_SIZE \<and> mem_limit h2 = mem_limit h"
proof -
  obtain e h1 where m: "mem_malloc ENTRY_SIZE h = Inr (e, h1)"
    using mem_malloc_ok [of h ENTRY_SIZE] assms(1,4) by (simp add: room_def)
  have pos: "0 < ENTRY_SIZE" by (simp add: ENTRY_SIZE_def)
  note a = heap_ok_malloc [OF assms(1) m pos] and r = rings_malloc [OF assms(1,2) m pos]
  note more = mem_malloc_more(1,2) [OF m]
  let ?h = "h1\<lparr>tq_task := (tq_task h1)(e := t)\<rparr>"
  have "heap_ok ?h" "rings ?h hds ess" "objs ?h e = Some ENTRY_SIZE"
    using a(1,4) r(1) heap_ok_cong [of ?h h1] rings_cong [of ?h h1] by simp_all
  from rings_push [OF this(1,2) assms(3) this(3) r(2)] obtain h2 where
    h2: "queue_push_back (hds ! i) (elem_of e) ?h = Inr h2" "rings h2 hds (ess[i := ess ! i @ [e]])" "heap_ok h2" "links_only UNIV ?h h2"
    by blast
  note same = same_but_links_sel [OF links_only_same [OF h2(4)]]
  show ?thesis
    using m a r(2) h2 more same by (intro exI [of _ e] exI [of _ h1] exI [of _ h2]) auto
qed

section \<open>Enqueueing without a temporary queue\<close>

lemma tq_has_enqueue:
  assumes "tq_has h tq tss" and "room h ENTRY_SIZE" and "r = (if lgrp < 0 then rnd else lgrp)" and "0 \<le> r"
  shows "\<exists>h'. tq_enqueue_seq rnd tq t lgrp h = Inr (0, h') \<and> tq_has h' tq (put_task r (task_key t) tss) \<and>
    brk h' = brk h + ENTRY_SIZE \<and> mem_limit h' = mem_limit h"
proof -
  obtain qs fs where ok: "tq_ok h tq qs fs" "map (map (key_at h)) qs = tss" using assms(1) by (auto simp: tq_has_def)
  obtain h' e where e: "tq_enqueue_seq rnd tq t lgrp h = Inr (0, h')"
    "nat (r mod int (num_queues tq)) < num_queues tq" "tq_ok h' tq (qs[nat (r mod int (num_queues tq)) := qs ! nat (r mod int (num_queues tq)) @ [e]]) fs"
    "same_objs_and_tasks h h' e t"
    using tq_enqueue_seq_ok [OF ok(1) _ assms(3,4) refl] assms(2) unfolding room_def by metis
  have len: "length qs = num_queues tq" using ok(1) by (simp add: tq_ok_def tq_shape_def)
  have new: "e \<notin> set (concat qs)"
  proof
    assume "e \<in> set (concat qs)"
    then have "objs h e \<noteq> None" using ok(1) by (auto simp: tq_ok_def rings_def)
    then show False using e(4) by (simp add: same_objs_and_tasks_def)
  qed
  have task: "tq_task h' = (tq_task h)(e := t)" using e(4) by (simp add: same_objs_and_tasks_def)
  have "map (map (key_at h')) (qs[i := qs ! i @ [e]]) = tss[i := tss ! i @ [task_key t]]" if i: "i < length qs" for i
  proof -
    have q: "map (map (key_at h')) qs = tss" using key_at_upd_all [OF new task] ok(2) by simp
    have "map (key_at h') (qs ! i) = tss ! i" using i q by (metis nth_map)
    then show ?thesis using q task by (simp add: map_update key_at_def)
  qed
  then have "map (map (key_at h')) (qs[nat (r mod int (num_queues tq)) := qs ! nat (r mod int (num_queues tq)) @ [e]]) =
      put_task r (task_key t) tss"
    using e(2) len arg_cong [OF ok(2), of length] by (simp add: put_task_def Let_def)
  then have "tq_has h' tq (put_task r (task_key t) tss)" using e(3) by (auto simp: tq_has_def)
  then show ?thesis using e(1,4) by (auto simp: same_objs_and_tasks_def)
qed


section \<open>The temporary queue\<close>

lemma bench_okI:
  assumes "tq_ok h tq qs fs" and "heap_ok h'" and "rings h' (q # tq_heads tq) (es' # qs' @ fs)" and "length qs' = length qs"
    and "\<forall>b \<in> set (tq_blocks tq). objs h' b \<noteq> None \<and> mtx h' b = mtx h b"
    and "set (tq_blocks tq) \<inter> (insert q (set es' \<union> set (concat qs'))) = {}"
    and "map (map (key_at h')) qs' = tss" and "map (key_at h') es' = ts"
  shows "bench_ok h' tq tss q ts"
proof -
  have "rings h' (tq_heads tq) (qs' @ fs)" using assms(3) by (simp add: rings_Cons)
  then have "tq_ok h' tq qs' fs" using tq_ok_other [OF assms(1,2) _ assms(4,5)] assms(6) by blast
  then show ?thesis using assms(3,6-8) unfolding bench_ok_def by blast
qed

lemma bench_okE:
  assumes "bench_ok h tq tss q ts"
  obtains qs fs es where "tq_ok h tq qs fs" "heap_ok h" "rings h (q # tq_heads tq) (es # qs @ fs)"
    "\<forall>b \<in> set (tq_blocks tq). objs h b \<noteq> None"
    "set (tq_blocks tq) \<inter> (insert q (set es \<union> set (concat qs))) = {}"
    "map (map (key_at h)) qs = tss" "map (key_at h) es = ts"
proof -
  obtain qs fs es where b: "tq_ok h tq qs fs" "map (map (key_at h)) qs = tss" "rings h (q # tq_heads tq) (es # qs @ fs)"
    "q \<notin> set (tq_blocks tq)" "set es \<inter> set (tq_blocks tq) = {}" "map (key_at h) es = ts"
    using assms unfolding bench_ok_def by blast
  have "set (tq_blocks tq) \<inter> set (concat qs) = {}" "heap_ok h" "\<forall>b \<in> set (tq_blocks tq). objs h b \<noteq> None"
    using b(1) by (auto simp: tq_ok_def)
  then show thesis using b by (intro that [of qs fs es]) auto
qed

lemma tq_alloc_queue_task: "tq_alloc_queue h = Inr (q, h') \<Longrightarrow> tq_task h' = tq_task h"
  by (auto simp: tq_alloc_queue_def queue_init_def list_init_def wr_next_def wr_prev_def bindE_Inr_conv
      split: if_splits dest!: mem_malloc_more(2))

lemma bench_start:
  assumes "tq_has h tq tss" and "room h QUEUE_SIZE"
  shows "\<exists>q h'. tq_alloc_queue h = Inr (q, h') \<and> bench_ok h' tq tss q [] \<and>
    brk h' = brk h + QUEUE_SIZE \<and> mem_limit h' = mem_limit h"
proof -
  obtain qs fs where ok: "tq_ok h tq qs fs" "map (map (key_at h)) qs = tss" using assms(1) by (auto simp: tq_has_def)
  let ?z = "zip (tq_heads tq) (qs @ fs)"
  have hok: "heap_ok h" "rings h (tq_heads tq) (qs @ fs)" "length (tq_heads tq) = length (qs @ fs)"
    using ok(1) by (auto simp: tq_ok_def rings_def)
  have "zrings h ?z" using hok(2,3) by (simp add: zrings_rings)
  from tq_alloc_queue_ok [OF hok(1) this] obtain q h' where
    q: "tq_alloc_queue h = Inr (q, h')" "alloced {q} QUEUE_SIZE h h'" "zrings h' ((q, []) # ?z)"
    using assms(2) by (auto simp: room_def)
  have task: "key_at h' = key_at h" by (rule key_at_same [OF tq_alloc_queue_task [OF q(1)]])
  have b: "\<forall>b \<in> set (tq_blocks tq). objs h b \<noteq> None" "set (tq_blocks tq) \<inter> set (concat qs) = {}"
    using ok(1) by (auto simp: tq_ok_def)
  have "bench_ok h' tq tss q []"
  proof (rule bench_okI [OF ok(1)])
    show "rings h' (q # tq_heads tq) ([] # qs @ fs)" using q(3) hok(3) by (simp add: zrings_rings)
    show "heap_ok h'" using q(2) by (simp add: alloced_def)
    have "q \<notin> set (tq_blocks tq)" using q(2) b(1) by (auto simp: alloced_def)
    then show "set (tq_blocks tq) \<inter> insert q (set [] \<union> set (concat qs)) = {}"
      "\<forall>b \<in> set (tq_blocks tq). objs h' b \<noteq> None \<and> mtx h' b = mtx h b"
      using b q(2) unfolding alloced_def by auto
  qed (simp_all add: task ok(2))
  then show ?thesis using q(1,2) by (auto simp: alloced_def)
qed

lemma bench_end:
  assumes "bench_ok h tq tss q []"
  shows "\<exists>h'. mem_free q h = Inr h' \<and> tq_has h' tq tss \<and> brk h' = brk h \<and> mem_limit h' = mem_limit h"
proof -
  obtain qs fs where b: "tq_ok h tq qs fs" "heap_ok h" "rings h (q # tq_heads tq) ([] # qs @ fs)"
    "\<forall>b \<in> set (tq_blocks tq). objs h b \<noteq> None"
    "set (tq_blocks tq) \<inter> (insert q (set [] \<union> set (concat qs))) = {}" "map (map (key_at h)) qs = tss"
    using assms by (elim bench_okE) auto
  have r: "rings h (tq_heads tq) (qs @ fs)" "q \<notin> set (tq_heads tq)" "objs h q = Some QUEUE_SIZE"
    using b(3) by (simp_all add: rings_Cons)
  have "\<forall>e \<in> set (concat (qs @ fs)). objs h e = Some ENTRY_SIZE" using r(1) unfolding rings_def by blast
  then have "q \<notin> set (concat (qs @ fs))" using r(3) unfolding QUEUE_SIZE_def ENTRY_SIZE_def by force
  from rings_free [OF b(2) r(1,3) this r(2)] obtain h' where
    h': "mem_free q h = Inr h'" "heap_ok h'" "rings h' (tq_heads tq) (qs @ fs)" "objs h' = (objs h)(q := None)"
      "brk h' = brk h" "mem_limit h' = mem_limit h" "heap.more h' = heap.more h" by blast
  have more: "mtx h' = mtx h" "tq_task h' = tq_task h" using mem_free_mtx [OF h'(1)] mem_free_task [OF h'(1)] by simp_all
  have "tq_ok h' tq qs fs"
    using b(4,5) h'(4) more(1) by (intro tq_ok_other [OF b(1) h'(2,3) refl]) auto
  then show ?thesis using h' key_at_same [OF more(2)] b(6) by (auto simp: tq_has_def)
qed


lemma bench_push:
  assumes "bench_ok h tq tss q ts" and "room h ENTRY_SIZE"
  shows "\<exists>h1 h2. mem_malloc ENTRY_SIZE h = Inr (brk h, h1) \<and> brk h \<noteq> 0 \<and> tq_task h1 = tq_task h \<and>
    queue_push_back q (elem_of (brk h)) (h1\<lparr>tq_task := (tq_task h1)(brk h := t)\<rparr>) = Inr h2 \<and>
    bench_ok h2 tq tss q (ts @ [task_key t]) \<and> brk h2 = brk h + ENTRY_SIZE \<and> mem_limit h2 = mem_limit h"
proof -
  obtain qs fs es where b: "tq_ok h tq qs fs" "heap_ok h" "rings h (q # tq_heads tq) (es # qs @ fs)"
    "\<forall>b \<in> set (tq_blocks tq). objs h b \<noteq> None"
    "set (tq_blocks tq) \<inter> (insert q (set es \<union> set (concat qs))) = {}"
    "map (map (key_at h)) qs = tss" "map (key_at h) es = ts" using assms(1) by (rule bench_okE)
  obtain e h1 h2 where e: "mem_malloc ENTRY_SIZE h = Inr (e, h1)" "e \<noteq> 0" "e = brk h" "tq_task h1 = tq_task h"
    "queue_push_back q (elem_of e) (h1\<lparr>tq_task := (tq_task h1)(e := t)\<rparr>) = Inr h2"
    "rings h2 (q # tq_heads tq) ((es @ [e]) # qs @ fs)" "heap_ok h2" "objs h e = None" "objs h2 = (objs h)(e := Some ENTRY_SIZE)"
    "e \<notin> set (concat (es # qs @ fs))" "tq_task h2 = (tq_task h)(e := t)" "mtx h2 = mtx h"
    "brk h2 = brk h + ENTRY_SIZE" "mem_limit h2 = mem_limit h"
    using rings_new_entry [OF b(2,3) _ assms(2), of 0 t] by auto
  have new: "e \<notin> set es" "e \<notin> set (concat qs)" "e \<notin> set (tq_blocks tq)" using e(8,10) b(4) by auto
  have "bench_ok h2 tq tss q (ts @ [task_key t])"
  proof (rule bench_okI [OF b(1) e(7,6) refl])
    show "\<forall>b \<in> set (tq_blocks tq). objs h2 b \<noteq> None \<and> mtx h2 b = mtx h b" using b(4) e(9,12) by simp
    show "set (tq_blocks tq) \<inter> insert q (set (es @ [e]) \<union> set (concat qs)) = {}" using b(5) new(3) by auto
    show "map (map (key_at h2)) qs = tss" using key_at_upd_all [OF new(2) e(11)] b(6) by simp
    show "map (key_at h2) (es @ [e]) = ts @ [task_key t]"
      using key_at_upd [OF new(1) e(11)] b(7) e(11) by (simp add: key_at_def)
  qed
  then show ?thesis using e(1-5,13,14) by auto
qed

lemma bench_pop_empty: "bench_ok h tq tss q [] \<Longrightarrow> queue_pop_front q 0 h = Inr (0, 0, h)"
  using rings_pop_empty [of h "q # _" "[] # _" 0 0] by (elim bench_okE) auto

text \<open>Moving the first task of the temporary queue into the task queue: pop, copy, free.\<close>

lemma bench_move:
  assumes "bench_ok h tq tss q (k # ts)" and "room h ENTRY_SIZE" and "0 \<le> lgrp"
  shows "\<exists>x h1. queue_pop_front q 0 h = Inr (1, elem_of x, h1) \<and> x \<noteq> 0 \<and> live h1 x \<and> task_key (tq_task h1 x) = k \<and>
    (\<forall>t. task_key t = k \<longrightarrow>
      (\<exists>h2 h3. tq_enqueue_seq rnd tq t lgrp (h1\<lparr>tq_task := (tq_task h1)(x := t)\<rparr>) = Inr (0, h2) \<and> mem_free x h2 = Inr h3 \<and>
        bench_ok h3 tq (put_task lgrp k tss) q ts \<and> brk h3 = brk h + ENTRY_SIZE \<and> mem_limit h3 = mem_limit h))"
proof -
  obtain qs fs es0 where b: "tq_ok h tq qs fs" "heap_ok h" "rings h (q # tq_heads tq) (es0 # qs @ fs)"
    "\<forall>b \<in> set (tq_blocks tq). objs h b \<noteq> None"
    "set (tq_blocks tq) \<inter> (insert q (set es0 \<union> set (concat qs))) = {}"
    "map (map (key_at h)) qs = tss" "map (key_at h) es0 = k # ts" using assms(1) by (rule bench_okE)
  obtain x es where x: "es0 = x # es" "key_at h x = k" "map (key_at h) es = ts" using b(7) by (cases es0) auto
  obtain h1 where h1: "queue_pop_front q 0 h = Inr (1, elem_of x, h1)" "rings h1 (q # tq_heads tq) (es # qs @ fs)"
    "heap_ok h1" "links_only UNIV h h1" "x \<notin> set (concat (es # qs @ fs))" "objs h x = Some ENTRY_SIZE"
    using rings_pop [OF b(2,3), of 0 x es 0] x(1) by auto
  note s1 = same_but_links_sel [OF links_only_same [OF h1(4)]]
  have ox: "objs h1 x = Some ENTRY_SIZE" using s1(1) h1(6) by simp
  have lx: "live h1 x" "x \<noteq> 0" using heap_okD(2,4) [OF h1(3) ox] by (auto simp: cells_def ENTRY_SIZE_def)
  have sh: "length (queues tq) = num_queues tq" "length qs = num_queues tq" "0 < num_queues tq"
    using b(1) by (simp_all add: tq_ok_def tq_shape_def)
  define i where "i = nat (lgrp mod int (num_queues tq))"
  have i: "i < num_queues tq" "int i = lgrp mod int (num_queues tq)" using mod_index [OF sh(3)] by (simp_all add: i_def)
  have "\<exists>h2 h3. tq_enqueue_seq rnd tq t lgrp (h1\<lparr>tq_task := (tq_task h1)(x := t)\<rparr>) = Inr (0, h2) \<and> mem_free x h2 = Inr h3 \<and>
        bench_ok h3 tq (put_task lgrp k tss) q ts \<and> brk h3 = brk h + ENTRY_SIZE \<and> mem_limit h3 = mem_limit h"
    if t: "task_key t = k" for t
  proof -
    let ?h = "h1\<lparr>tq_task := (tq_task h1)(x := t)\<rparr>"
    have h: "heap_ok ?h" "rings ?h (q # tq_heads tq) (es # qs @ fs)" "room ?h ENTRY_SIZE"
      using h1(2,3) heap_ok_cong [of ?h h1] rings_cong [of ?h h1] assms(2) s1 by (simp_all add: room_def)
    have hd: "(q # tq_heads tq) ! Suc i = queues tq ! i" "Suc i < length (q # tq_heads tq)" "(es # qs @ fs) ! Suc i = qs ! i"
      using i(1) sh by (simp_all add: tq_heads_def nth_append)
    have up: "(es # qs @ fs)[Suc i := qs ! i @ [e]] = es # qs[i := qs ! i @ [e]] @ fs" for e
      using i(1) sh by (simp add: list_update_append1)
    obtain e g h2 where e: "mem_malloc ENTRY_SIZE ?h = Inr (e, g)" "e \<noteq> 0"
      "queue_push_back (queues tq ! i) (elem_of e) (g\<lparr>tq_task := (tq_task g)(e := t)\<rparr>) = Inr h2"
      "rings h2 (q # tq_heads tq) (es # qs[i := qs ! i @ [e]] @ fs)" "heap_ok h2" "objs ?h e = None"
      "objs h2 = (objs ?h)(e := Some ENTRY_SIZE)" "e \<notin> set (concat (es # qs @ fs))" "tq_task h2 = (tq_task ?h)(e := t)"
      "mtx h2 = mtx ?h" "brk h2 = brk ?h + ENTRY_SIZE" "mem_limit h2 = mem_limit ?h"
      using rings_new_entry [OF h(1,2) hd(2) h(3), of t] unfolding hd(1,3) up by blast
    have "c_rem lgrp (int (num_queues tq)) = Inr (int i)" using assms(3) sh(3) i(2) by (simp add: c_rem_pos)
    then have enq: "tq_enqueue_seq rnd tq t lgrp ?h = Inr (0, h2)"
      using e(1-3) i(1) sh(1) assms(3) by (simp add: tq_enqueue_seq_def Let_def)
    have ex: "e \<noteq> x" using e(6) ox by auto
    have x2: "objs h2 x = Some ENTRY_SIZE" using e(7) ex ox by simp
    have xq: "x \<notin> set (concat (es # qs[i := qs ! i @ [e]] @ fs))"
      using h1(5) set_concat_update [of qs i "qs ! i @ [e]"] nth_subset_concat [of i qs] i(1) sh(2) ex by auto
    have "x \<notin> set (q # tq_heads tq)"
      using e(4) x2 by (auto simp: rings_def QUEUE_SIZE_def ENTRY_SIZE_def)
    from rings_free [OF e(5,4) x2 xq this] obtain h3 where
      h3: "mem_free x h2 = Inr h3" "heap_ok h3" "rings h3 (q # tq_heads tq) (es # qs[i := qs ! i @ [e]] @ fs)"
        "objs h3 = (objs h2)(x := None)" "brk h3 = brk h2" "mem_limit h3 = mem_limit h2" by blast
    have more: "mtx h3 = mtx h" "tq_task h3 = ((tq_task h)(x := t))(e := t)"
      using mem_free_mtx [OF h3(1)] mem_free_task [OF h3(1)] e(9,10) s1 by simp_all
    have ks: "key_at h3 y = key_at h y" if "y \<noteq> e" for y
      using more(2) that x(2) t by (simp add: key_at_def)
    have ne: "e \<notin> set es" "e \<notin> set (concat qs)" using e(8) by auto
    have eb: "e \<notin> set (tq_blocks tq)" "x \<notin> set (tq_blocks tq)" using e(6) b(4,5) s1(1) x(1) by auto
    have "bench_ok h3 tq (put_task lgrp k tss) q ts"
    proof (rule bench_okI [OF b(1) h3(2,3)])
      show "\<forall>b \<in> set (tq_blocks tq). objs h3 b \<noteq> None \<and> mtx h3 b = mtx h b" using b(4) h3(4) e(7) s1(1) more(1) eb by auto
      show "set (tq_blocks tq) \<inter> insert q (set es \<union> set (concat (qs[i := qs ! i @ [e]]))) = {}"
        using b(5) x(1) eb(1) set_concat_update [of qs i "qs ! i @ [e]"] nth_subset_concat [of i qs] i(1) sh(2) by auto
      show "map (key_at h3) es = ts" using x(3) ks ne(1) by (metis map_cong)
      have q: "map (map (key_at h3)) qs = tss"
        using b(6) ks ne(2) by (metis (no_types, lifting) UN_I map_cong set_concat)
      have "map (key_at h3) (qs ! i) = tss ! i" using q i(1) sh(2) by (metis nth_map)
      moreover have "key_at h3 e = k" using more(2) t by (simp add: key_at_def)
      moreover have "length tss = num_queues tq" using arg_cong [OF q, of length] sh(2) by simp
      ultimately show "map (map (key_at h3)) (qs[i := qs ! i @ [e]]) = put_task lgrp k tss"
        using q by (simp add: map_update put_task_def Let_def flip: i_def)
    qed simp
    then show ?thesis using enq h3(1,5,6) e(11,12) s1(3,4) by auto
  qed
  moreover have "task_key (tq_task h1 x) = k" using x(2) s1 by (simp add: key_at_def)
  ultimately show ?thesis using h1(1) lx by blast
qed

section \<open>Dequeueing\<close>

text \<open>A dequeue hands out the first task of some queue, or says that all queues are empty.\<close>

lemma tq_has_dequeue:
  assumes "tq_has h tq tss" and "tid < num_threads tq" and "\<forall>s. 0 \<le> fst (rand_r s)"
  shows "(concat tss = [] \<and> (\<exists>tq'. tq_dequeue rand_r tq lgrp tid h = Inr (0, task_0, tq', h) \<and> tq_has h tq' tss \<and>
      num_threads tq' = num_threads tq \<and> num_queues tq' = num_queues tq)) \<or>
    (\<exists>j task tq' h'. j < length tss \<and> tss ! j \<noteq> [] \<and> task_key task = hd (tss ! j) \<and>
      tq_dequeue rand_r tq lgrp tid h = Inr (1, task, tq', h') \<and> tq_has h' tq' (tss[j := tl (tss ! j)]) \<and>
      num_threads tq' = num_threads tq \<and> num_queues tq' = num_queues tq \<and> brk h' = brk h \<and> mem_limit h' = mem_limit h)"
proof -
  obtain qs fs where ok: "tq_ok h tq qs fs" and tss: "map (map (key_at h)) qs = tss" using assms(1) by (auto simp: tq_has_def)
  define r where "r = (if lgrp < 0 then fst (rand_r (seeds tq ! tid)) else lgrp)"
  define idx where "idx = nat (r mod int (num_queues tq))"
  define tq' where "tq' = (if lgrp < 0 then tq\<lparr>seeds := (seeds tq)[tid := snd (rand_r (seeds tq ! tid))]\<rparr> else tq)"
  have r: "0 \<le> r" using assms(3) by (simp add: r_def)
  have eq: "num_threads tq' = num_threads tq" "num_queues tq' = num_queues tq" "tq_ok k tq' xs ys = tq_ok k tq xs ys"
    for xs ys and k :: "'a tq_heap_scheme"
    by (simp_all add: tq'_def tq_ok_seeds)
  have n: "0 < num_queues tq" "length qs = num_queues tq" using ok by (simp_all add: tq_ok_def tq_shape_def)
  note d = dq_lock.dequeue_spec [where rand_r = rand_r and lgrp = lgrp, OF ok assms(2) r_def r idx_def tq'_def]
  have td: "tq_dequeue rand_r tq lgrp tid h = tq_dequeue_normal_internal rand_r tq lgrp tid tq_elem_into_free h"
    by (simp add: tq_dequeue_def tq_dequeue_normal_def)
  show ?thesis
  proof (cases "victim (num_queues tq) idx qs")
    case None
    then have "\<forall>q \<in> set qs. q = []" using victim_None [OF n(1)] n(2) by (metis in_set_conv_nth)
    then have "concat tss = []" using tss by auto
    moreover have "tq_has h tq' tss" using ok tss eq(3) unfolding tq_has_def by blast
    ultimately show ?thesis using None d td eq(1,2) by simp
  next
    case (Some j)
    have j: "j < num_queues tq" "qs ! j \<noteq> []" using victim_Some [OF Some n(1)] by simp_all
    let ?qs = "qs[j := tl (qs ! j)]" and ?fs = "fs[j := fs ! j @ [hd (qs ! j)]]"
    obtain h' where h': "tq_dequeue rand_r tq lgrp tid h = Inr (1, tq_task h (hd (qs ! j)), tq', h')"
      "tq_ok h' tq' ?qs ?fs" "same_but_links h h'" using d Some td by auto
    note same = same_but_links_sel [OF h'(3)]
    have k: "key_at h' = key_at h" by (rule key_at_same [OF same(6)])
    have tj: "tss ! j = map (key_at h) (qs ! j)" "length tss = length qs" using j n(2) tss by auto
    have "tq_has h' tq' (tss[j := tl (tss ! j)])"
      unfolding tq_has_def
    proof (intro exI conjI)
      show "tq_ok h' tq' ?qs ?fs" by (rule h'(2))
      show "map (map (key_at h')) ?qs = tss[j := tl (tss ! j)]"
        unfolding k map_update tss tj(1) by (simp add: map_tl)
    qed
    moreover have "task_key (tq_task h (hd (qs ! j))) = hd (tss ! j)" using j(2) tj(1) by (simp add: hd_map key_at_def)
    moreover have "tss ! j \<noteq> []" "j < length tss" using j tj n(2) by simp_all
    ultimately show ?thesis using h'(1) eq same by blast
  qed
qed

end
