(* ===== verification/MapTasks.thy ===== *)
theory MapTasks
  imports Env TaskBench
begin

text \<open>
  Generation of tasks in \<open>src/map_reduce.c\<close>: the splitter's pieces are collected in a temporary queue
  and spread over the queues of the task queue, and the reduce tasks are numbered. The automatic
  variable \<open>temp_queue\<close> is an object that lives as long as the call.
\<close>

section \<open>Splitting\<close>

text \<open>
  One round of the loop: \<open>pad\<close> keeps what was in the memory. A \<open>task_queued\<close> has the layout of a
  queue entry.
\<close>

definition split_step ::
  "addr \<Rightarrow> int \<times> addr \<times> 'a tq_heap_scheme \<Rightarrow> map_args_t \<Rightarrow> (int \<times> addr \<times> 'a tq_heap_scheme) res" where
  "split_step q st args =
     (let (cur_task_id, _, h) = st in
      bindE (mem_malloc ENTRY_SIZE h) (\<lambda>(task, h).
      let h = h\<lparr>tq_task := (tq_task h)(task := (tq_task h task)
                 \<lparr>task_id := word_of_int cur_task_id, task_len := ma_length args, task_data := ma_data args\<rparr>)\<rparr> in
      bindE (queue_push_back q (elem_of task) h) (\<lambda>h.
      Inr (cur_task_id + 1, task, h))))"

definition gen_map_tasks_split ::
  "nat \<Rightarrow> ('u, 'k, 'v) mr_env_t \<Rightarrow> addr \<Rightarrow> 64 word \<times> 'u \<Rightarrow> 'a tq_heap_scheme \<Rightarrow>
   (int \<times> (64 word \<times> 'u) \<times> 'a tq_heap_scheme) res" where
  "gen_map_tasks_split fuel env q s h =
     bindE (while_next (call_splitter env (e_chunk_size env)) fuel (split_step q) (0, 0, h) s) (\<lambda>((cur_task_id, task, h), s).
     if task = 0 then bindE (tq_empty_loop (Suc (brk h)) q h) (\<lambda>h. Inr (0, s, h))
     else Inr (cur_task_id, s, h))"

section \<open>Distributing\<close>

text \<open>The \<open>do\<close> loop for one group: what it returns, tasks that remain and the heap.\<close>

fun distribute_group :: "nat \<Rightarrow> taskQ_t \<Rightarrow> addr \<Rightarrow> int \<Rightarrow> int \<Rightarrow> 'a tq_heap_scheme \<Rightarrow> (int \<times> int \<times> 'a tq_heap_scheme) res" where
  "distribute_group 0 tq q lgrp remaining h = Inl No_fuel"
| "distribute_group (Suc fuel) tq q lgrp remaining h =
     bindE (queue_pop_front q 0 h) (\<lambda>(ret, queue_elem, h).
     if ret = 0 then Inr (0, remaining, h)
     else (let task = list_entry queue_elem ENTRY_OFF in
           bindE (assertE (task \<noteq> 0)) (\<lambda>_.
           bindE (if live h task then Inr (tq_task h task) else Inl Bad_access) (\<lambda>t.
           bindE (tq_enqueue_seq 0 tq t lgrp h) (\<lambda>(ret, h).
           bindE (mem_free task h) (\<lambda>h.
           if ret < 0 then Inr (-1, remaining, h)
           else if remaining - 1 \<noteq> 0 then distribute_group fuel tq q lgrp (remaining - 1) h
           else Inr (0, 0, h)))))))"

text \<open>The loop over the groups from \<open>lgrp\<close> on, \<open>n\<close> of them left.\<close>

fun distribute_groups :: "nat \<Rightarrow> int \<Rightarrow> int \<Rightarrow> int \<Rightarrow> taskQ_t \<Rightarrow> addr \<Rightarrow> 'a tq_heap_scheme \<Rightarrow> (int \<times> 'a tq_heap_scheme) res" where
  "distribute_groups 0 lgrp tasks_per_lgrp tasks_leftover tq q h = Inr (0, h)"
| "distribute_groups (Suc n) lgrp tasks_per_lgrp tasks_leftover tq q h =
     bindE (distribute_group (Suc (brk h)) tq q lgrp (tasks_per_lgrp + (if tasks_leftover > 0 then 1 else 0)) h)
       (\<lambda>(ret, remaining, h).
     if ret < 0 then Inr (-1, h)
     else if remaining \<noteq> 0 then Inr (0, h)
     else distribute_groups n (lgrp + 1) tasks_per_lgrp (if tasks_leftover > 0 then tasks_leftover - 1 else tasks_leftover) tq q h)"

definition gen_map_tasks_distribute_lgrp ::
  "os_t \<Rightarrow> ('u, 'k, 'v) mr_env_t \<Rightarrow> taskQ_t \<Rightarrow> int \<Rightarrow> addr \<Rightarrow> 'a tq_heap_scheme \<Rightarrow> (int \<times> 'a tq_heap_scheme) res" where
  "gen_map_tasks_distribute_lgrp os env tq num_map_tasks q h =
     bindE (c_div (e_num_map_threads env) (loc_get_lgrp_size os)) (\<lambda>n.
     let num_lgrps = (if n = 0 then 1 else n) in
     bindE (c_div num_map_tasks num_lgrps) (\<lambda>tasks_per_lgrp.
     distribute_groups (nat num_lgrps) 0 tasks_per_lgrp (num_map_tasks - tasks_per_lgrp * num_lgrps) tq q h))"

fun locator_loop :: "nat \<Rightarrow> os_t \<Rightarrow> (map_args_t \<Rightarrow> 64 word) option \<Rightarrow> taskQ_t \<Rightarrow> addr \<Rightarrow> 'a tq_heap_scheme \<Rightarrow>
    (int \<times> 'a tq_heap_scheme) res" where
  "locator_loop 0 os locator tq q h = Inl No_fuel"
| "locator_loop (Suc fuel) os locator tq q h =
     bindE (queue_pop_front q 0 h) (\<lambda>(ret, queue_elem, h).
     if ret = 0 then Inr (0, h)
     else (let task = list_entry queue_elem ENTRY_OFF in
           bindE (assertE (task \<noteq> 0)) (\<lambda>_.
           bindE (if live h task then Inr (tq_task h task) else Inl Bad_access) (\<lambda>t.
           let args = \<lparr>ma_length = task_len t, ma_data = task_data t\<rparr>;
               lgrp = (case locator of Some l \<Rightarrow> loc_mem_to_lgrp os (l args) | None \<Rightarrow> loc_mem_to_lgrp os (ma_data args));
               t = t\<lparr>task_pad := word_of_int lgrp\<rparr>;
               h = h\<lparr>tq_task := (tq_task h)(task := t)\<rparr> in
           bindE (tq_enqueue_seq 0 tq t lgrp h) (\<lambda>(ret, h).
           bindE (mem_free task h) (\<lambda>h.
           if ret \<noteq> 0 then Inr (-1, h) else locator_loop fuel os locator tq q h))))))"

definition gen_map_tasks_distribute_locator ::
  "os_t \<Rightarrow> ('u, 'k, 'v) mr_env_t \<Rightarrow> taskQ_t \<Rightarrow> int \<Rightarrow> addr \<Rightarrow> 'a tq_heap_scheme \<Rightarrow> (int \<times> 'a tq_heap_scheme) res" where
  "gen_map_tasks_distribute_locator os env tq num_map_tasks q h = locator_loop (Suc (brk h)) os (e_locator env) tq q h"

definition gen_map_tasks_distribute ::
  "os_t \<Rightarrow> ('u, 'k, 'v) mr_env_t \<Rightarrow> taskQ_t \<Rightarrow> int \<Rightarrow> addr \<Rightarrow> 'a tq_heap_scheme \<Rightarrow> (int \<times> 'a tq_heap_scheme) res" where
  "gen_map_tasks_distribute os env tq num_map_tasks q h =
     (if e_splitter env \<noteq> None \<and> e_locator env = None
      then gen_map_tasks_distribute_lgrp os env tq num_map_tasks q h
      else gen_map_tasks_distribute_locator os env tq num_map_tasks q h)"

text \<open>The result of the distribution is computed but not returned.\<close>

definition gen_map_tasks ::
  "nat \<Rightarrow> os_t \<Rightarrow> ('u, 'k, 'v) mr_env_t \<Rightarrow> taskQ_t \<Rightarrow> 'u \<Rightarrow> 'a tq_heap_scheme \<Rightarrow>
   (int \<times> ('u, 'k, 'v) mr_env_t \<times> taskQ_t \<times> 'u \<times> 'a tq_heap_scheme) res" where
  "gen_map_tasks fuel os env tq u h =
     bindE (tq_alloc_queue h) (\<lambda>(q, h).
     bindE (gen_map_tasks_split fuel env q (e_splitter_pos env, u) h) (\<lambda>(num_map_tasks, (pos, u), h).
     let env = env\<lparr>e_splitter_pos := pos\<rparr> in
     if num_map_tasks \<le> 0 then bindE (mem_free q h) (\<lambda>h. Inr (-1, env, tq, u, h))
     else
       (let num_map_threads = min num_map_tasks (e_num_map_threads env);
            tq = tq_reset tq (nat num_map_threads) in
        bindE (gen_map_tasks_distribute os env tq num_map_tasks q h) (\<lambda>(ret, h).
        let ret = (if ret = 0 then num_map_tasks else ret) in
        bindE (mem_free q h) (\<lambda>h.
        Inr (num_map_tasks, env, tq, u, h))))))"

section \<open>Reduce tasks\<close>

text \<open>
  \<open>rnds i\<close> is what \<open>rand()\<close> returns when task \<open>i\<close> is enqueued; \<open>t0\<close> is the uninitialised task. The
  loop's result is the value it makes the function return, if any.
\<close>

fun reduce_tasks_loop ::
  "nat \<Rightarrow> (nat \<Rightarrow> int) \<Rightarrow> task_t \<Rightarrow> taskQ_t \<Rightarrow> int \<Rightarrow> nat \<Rightarrow> int \<Rightarrow> 'a tq_heap_scheme \<Rightarrow>
   (int option \<times> nat \<times> 'a tq_heap_scheme) res" where
  "reduce_tasks_loop 0 rnds t0 tq num_reduce_tasks no remaining h = Inl No_fuel"
| "reduce_tasks_loop (Suc fuel) rnds t0 tq num_reduce_tasks no remaining h =
     (if int no = num_reduce_tasks then Inr (Some 0, no, h)
      else bindE (tq_enqueue_seq (rnds no) tq (t0\<lparr>task_id := word_of_nat no\<rparr>) (-1) h) (\<lambda>(ret, h).
           if ret < 0 then Inr (Some (-1), no, h)
           else if remaining - 1 \<noteq> 0 then reduce_tasks_loop fuel rnds t0 tq num_reduce_tasks (Suc no) (remaining - 1) h
           else Inr (None, Suc no, h)))"

fun reduce_tasks_threads ::
  "nat \<Rightarrow> (nat \<Rightarrow> int) \<Rightarrow> task_t \<Rightarrow> taskQ_t \<Rightarrow> int \<Rightarrow> int \<Rightarrow> int \<Rightarrow> nat \<Rightarrow> 'a tq_heap_scheme \<Rightarrow>
   (int \<times> nat \<times> 'a tq_heap_scheme) res" where
  "reduce_tasks_threads 0 rnds t0 tq num_reduce_tasks tasks_per_thread tasks_leftover no h = Inr (0, no, h)"
| "reduce_tasks_threads (Suc n) rnds t0 tq num_reduce_tasks tasks_per_thread tasks_leftover no h =
     bindE (reduce_tasks_loop (Suc (nat num_reduce_tasks - no)) rnds t0 tq num_reduce_tasks no
              (tasks_per_thread + (if tasks_leftover > 0 then 1 else 0)) h) (\<lambda>(ret, no, h).
     case ret of
       Some r \<Rightarrow> Inr (r, no, h)
     | None \<Rightarrow> reduce_tasks_threads n rnds t0 tq num_reduce_tasks tasks_per_thread
                 (if tasks_leftover > 0 then tasks_leftover - 1 else tasks_leftover) no h)"

definition gen_reduce_tasks ::
  "(nat \<Rightarrow> int) \<Rightarrow> task_t \<Rightarrow> ('u, 'k, 'v) mr_env_t \<Rightarrow> taskQ_t \<Rightarrow> 'a tq_heap_scheme \<Rightarrow> (int \<times> nat \<times> 'a tq_heap_scheme) res" where
  "gen_reduce_tasks rnds t0 env tq h =
     (let tq = tq_reset tq (nat (e_num_reduce_threads env)) in
      bindE (c_div (e_num_reduce_tasks env) (e_num_reduce_threads env)) (\<lambda>tasks_per_thread.
      let tasks_leftover = e_num_reduce_tasks env - tasks_per_thread * e_num_map_threads env in
      reduce_tasks_threads (nat (e_num_reduce_threads env)) rnds t0 tq (e_num_reduce_tasks env)
        tasks_per_thread tasks_leftover 0 h))"


section \<open>Splitting is correct\<close>

text \<open>The tasks made of the pieces, numbered from \<open>n\<close>.\<close>

fun piece_keys :: "int \<Rightarrow> map_args_t list \<Rightarrow> task_key list" where
  "piece_keys n [] = []"
| "piece_keys n (p # ps) = (word_of_int n, ma_length p, ma_data p) # piece_keys (n + 1) ps"

lemma length_piece_keys [simp]: "length (piece_keys n ps) = length ps"
  by (induction ps arbitrary: n) simp_all

lemma split_step_ok:
  assumes "bench_ok h tq tss q ts" and "room h ENTRY_SIZE"
  shows "\<exists>task h'. split_step q (cur, t0, h) p = Inr (cur + 1, task, h') \<and> task \<noteq> 0 \<and>
    bench_ok h' tq tss q (ts @ [(word_of_int cur, ma_length p, ma_data p)]) \<and>
    brk h' = brk h + ENTRY_SIZE \<and> mem_limit h' = mem_limit h"
proof -
  let ?t = "(tq_task h (brk h))\<lparr>task_id := word_of_int cur, task_len := ma_length p, task_data := ma_data p\<rparr>"
  obtain h1 h2 where m: "mem_malloc ENTRY_SIZE h = Inr (brk h, h1)" "brk h \<noteq> 0" "tq_task h1 = tq_task h"
    "queue_push_back q (elem_of (brk h)) (h1\<lparr>tq_task := (tq_task h1)(brk h := ?t)\<rparr>) = Inr h2"
    "bench_ok h2 tq tss q (ts @ [task_key ?t])" "brk h2 = brk h + ENTRY_SIZE" "mem_limit h2 = mem_limit h"
    using bench_push [OF assms, of ?t] by blast
  then show ?thesis by (simp add: split_step_def task_key_def)
qed

lemma split_steps_ok:
  assumes "bench_ok h tq tss q ts" and "room h (ENTRY_SIZE * length ps)"
  shows "\<exists>task h'. foldE (split_step q) (cur, t0, h) ps = Inr (cur + int (length ps), task, h') \<and>
    (if ps = [] then task = t0 else task \<noteq> 0) \<and>
    bench_ok h' tq tss q (ts @ piece_keys cur ps) \<and>
    brk h' = brk h + ENTRY_SIZE * length ps \<and> mem_limit h' = mem_limit h"
  using assms
proof (induction ps arbitrary: cur t0 h ts)
  case (Cons p ps)
  have r: "room h ENTRY_SIZE" using Cons.prems(2) by (simp add: room_def)
  obtain task h1 where s: "split_step q (cur, t0, h) p = Inr (cur + 1, task, h1)" "task \<noteq> 0"
    "bench_ok h1 tq tss q (ts @ [(word_of_int cur, ma_length p, ma_data p)])"
    "brk h1 = brk h + ENTRY_SIZE" "mem_limit h1 = mem_limit h"
    using split_step_ok [OF Cons.prems(1) r] by blast
  have "room h1 (ENTRY_SIZE * length ps)" using Cons.prems(2) s(4,5) by (simp add: room_def)
  from Cons.IH [OF s(3) this, of "cur + 1" task] s show ?case
    by (auto simp: algebra_simps split: if_splits)
qed simp

lemma gen_map_tasks_split_ok:
  assumes "value_stream (call_splitter env (e_chunk_size env)) pieces ok" and "ok s" and "pieces s = ps"
    and "length ps < fuel" and "bench_ok h tq tss q []" and "room h (ENTRY_SIZE * length ps)"
  shows "\<exists>s' h'. gen_map_tasks_split fuel env q s h = Inr (int (length ps), s', h') \<and> ok s' \<and>
    bench_ok h' tq tss q (piece_keys 0 ps) \<and> brk h' = brk h + ENTRY_SIZE * length ps \<and> mem_limit h' = mem_limit h"
proof -
  obtain task h1 where f: "foldE (split_step q) (0, 0, h) ps = Inr (int (length ps), task, h1)"
    "if ps = [] then task = 0 else task \<noteq> 0" "bench_ok h1 tq tss q (piece_keys 0 ps)"
    "brk h1 = brk h + ENTRY_SIZE * length ps" "mem_limit h1 = mem_limit h"
    using split_steps_ok [OF assms(5,6), of 0 0] by auto
  have "length (pieces s) < fuel" using assms(3,4) by simp
  from value_stream.while_next_folds [OF assms(1,2) this, of "split_step q" "(0, 0, h)"] assms(3) f(1)
  obtain s' where w: "while_next (call_splitter env (e_chunk_size env)) fuel (split_step q) (0, 0, h) s =
      Inr ((int (length ps), task, h1), s')" "ok s'" by auto
  show ?thesis
  proof (cases "ps = []")
    case True
    then have "tq_empty_loop (Suc (brk h1)) q h1 = Inr h1"
      using bench_pop_empty [of h1 tq tss q] f(3) by simp
    then show ?thesis using True w f
      by (intro exI [of _ s'] exI [of _ h1]) (simp add: gen_map_tasks_split_def del: tq_empty_loop.simps)
  next
    case False
    then show ?thesis using w f by (intro exI [of _ s'] exI [of _ h1]) (simp add: gen_map_tasks_split_def)
  qed
qed

section \<open>Distributing is correct\<close>

definition put_tasks :: "int \<Rightarrow> 't list \<Rightarrow> 't list list \<Rightarrow> 't list list" where
  "put_tasks r ts tss = foldl (\<lambda>tss t. put_task r t tss) tss ts"

lemma put_tasks_simps [simp]:
  "put_tasks r [] tss = tss" "put_tasks r (t # ts) tss = put_tasks r ts (put_task r t tss)"
  by (simp_all add: put_tasks_def)

lemma length_put_tasks [simp]: "length (put_tasks r ts tss) = length tss"
  by (induction ts arbitrary: tss) simp_all

lemma put_task_not_Nil: "tss \<noteq> [] \<Longrightarrow> put_task r t tss \<noteq> []"
  using length_put_task [of r t tss] by (metis length_0_conv)

lemma mset_put_tasks: "tss \<noteq> [] \<Longrightarrow> mset (concat (put_tasks r ts tss)) = mset ts + mset (concat tss)"
proof (induction ts arbitrary: tss)
  case (Cons t ts)
  from Cons.IH [OF put_task_not_Nil [OF Cons.prems]] show ?case
    by (simp only: put_tasks_simps mset_put_task [OF Cons.prems]) simp
qed simp

lemma distribute_group_ok:
  assumes "bench_ok h tq tss q ts" and "room h (ENTRY_SIZE * length ts)" and "0 \<le> lgrp"
    and "0 < remaining \<or> ts = []" and "length ts < fuel" and "m = min (nat remaining) (length ts)"
  shows "\<exists>h'. distribute_group fuel tq q lgrp remaining h = Inr (0, remaining - int m, h') \<and>
    bench_ok h' tq (put_tasks lgrp (take m ts) tss) q (drop m ts) \<and>
    brk h' = brk h + ENTRY_SIZE * m \<and> mem_limit h' = mem_limit h"
  using assms
proof (induction fuel arbitrary: h tss ts remaining m)
  case (Suc fuel)
  show ?case
  proof (cases ts)
    case Nil
    then show ?thesis using bench_pop_empty [of h tq tss q] Suc.prems by simp
  next
    case (Cons k ts')
    then have r: "room h ENTRY_SIZE" "0 < remaining" using Suc.prems(2,4) by (simp_all add: room_def)
    obtain x h1 where x: "queue_pop_front q 0 h = Inr (1, elem_of x, h1)" "x \<noteq> 0" "live h1 x" "task_key (tq_task h1 x) = k"
      "\<forall>t. task_key t = k \<longrightarrow>
        (\<exists>h2 h3. tq_enqueue_seq 0 tq t lgrp (h1\<lparr>tq_task := (tq_task h1)(x := t)\<rparr>) = Inr (0, h2) \<and> mem_free x h2 = Inr h3 \<and>
        bench_ok h3 tq (put_task lgrp k tss) q ts' \<and> brk h3 = brk h + ENTRY_SIZE \<and> mem_limit h3 = mem_limit h)"
      using bench_move [OF Suc.prems(1) [unfolded Cons] r(1) Suc.prems(3), of 0] by blast
    have "h1\<lparr>tq_task := (tq_task h1)(x := tq_task h1 x)\<rparr> = h1" by simp
    then obtain h2 h3 where h3: "tq_enqueue_seq 0 tq (tq_task h1 x) lgrp h1 = Inr (0, h2)" "mem_free x h2 = Inr h3"
      "bench_ok h3 tq (put_task lgrp k tss) q ts'" "brk h3 = brk h + ENTRY_SIZE" "mem_limit h3 = mem_limit h"
      using x(4,5) by metis
    have step: "distribute_group (Suc fuel) tq q lgrp remaining h =
        (if remaining - 1 \<noteq> 0 then distribute_group fuel tq q lgrp (remaining - 1) h3 else Inr (0, 0, h3))"
      using x(1-3) h3(1,2) by (simp add: Let_def)
    show ?thesis
    proof (cases "remaining = 1")
      case True
      then show ?thesis using step h3(3-5) Suc.prems(6) Cons by simp
    next
      case False
      have room: "room h3 (ENTRY_SIZE * length ts')" using Suc.prems(2) h3(4,5) Cons by (simp add: room_def)
      have m: "m = Suc (min (nat (remaining - 1)) (length ts'))"
        using Suc.prems(6) Cons r(2) by (cases "nat remaining") (auto simp: nat_diff_distrib)
      have "0 < remaining - 1 \<or> ts' = []" "length ts' < fuel" using False r(2) Suc.prems(5) Cons by auto
      from Suc.IH [OF h3(3) room Suc.prems(3) this refl] obtain h' where
        h': "distribute_group fuel tq q lgrp (remaining - 1) h3 =
            Inr (0, remaining - 1 - int (min (nat (remaining - 1)) (length ts')), h')"
          "bench_ok h' tq (put_tasks lgrp (take (min (nat (remaining - 1)) (length ts')) ts') (put_task lgrp k tss)) q
            (drop (min (nat (remaining - 1)) (length ts')) ts')"
          "brk h' = brk h3 + ENTRY_SIZE * min (nat (remaining - 1)) (length ts')" "mem_limit h' = mem_limit h3" by blast
      have "distribute_group (Suc fuel) tq q lgrp remaining h = Inr (0, remaining - int m, h')"
        using step False h'(1) by (simp add: m)
      moreover have "bench_ok h' tq (put_tasks lgrp (take m ts) tss) q (drop m ts)" using h'(2) by (simp add: m Cons)
      moreover have "brk h' = brk h + ENTRY_SIZE * m" using h'(3) h3(4) by (simp add: m)
      ultimately show ?thesis using h'(4) h3(5) by auto
    qed
  qed
qed simp


text \<open>What the groups get: each its share of the tasks, in order.\<close>

fun spread :: "nat \<Rightarrow> int \<Rightarrow> nat \<Rightarrow> nat \<Rightarrow> 't list \<Rightarrow> 't list list \<Rightarrow> 't list list" where
  "spread 0 lgrp per over ts tss = tss"
| "spread (Suc n) lgrp per over ts tss =
     (let m = per + (if over > 0 then 1 else 0) in
      spread n (lgrp + 1) per (over - 1) (drop m ts) (put_tasks lgrp (take m ts) tss))"

lemma length_spread [simp]: "length (spread n lgrp per over ts tss) = length tss"
  by (induction n lgrp per over ts tss rule: spread.induct) (simp_all add: Let_def)

lemma mset_spread:
  assumes "length ts = n * per + over" and "over \<le> n" and "tss \<noteq> []"
  shows "mset (concat (spread n lgrp per over ts tss)) = mset ts + mset (concat tss)"
  using assms
proof (induction n lgrp per over ts tss rule: spread.induct)
  case (2 n lgrp per over ts tss)
  define m where "m = per + (if over > 0 then 1 else 0)"
  have len: "length (drop m ts) = n * per + (over - 1)" "over - 1 \<le> n" using 2(2,3) by (auto simp: m_def)
  have ne: "put_tasks lgrp (take m ts) tss \<noteq> []" using length_put_tasks [of lgrp "take m ts" tss] 2(4) by (metis length_0_conv)
  have IH: "mset (concat (spread n (lgrp + 1) per (over - 1) (drop m ts) (put_tasks lgrp (take m ts) tss))) =
      mset (drop m ts) + mset (concat (put_tasks lgrp (take m ts) tss))"
    by (rule 2(1) [OF m_def len ne])
  have "mset (take m ts) + mset (drop m ts) = mset ts"
    by (simp only: append_take_drop_id flip: mset_append)
  then show ?case unfolding spread.simps m_def [symmetric] Let_def IH mset_put_tasks [OF 2(4)] by (simp add: ac_simps)
qed simp

lemma distribute_groups_ok:
  assumes "bench_ok h tq tss q ts" and "room h (ENTRY_SIZE * length ts)" and "0 \<le> lgrp"
    and "length ts = n * per + over" and "over \<le> n" and "length ts \<le> brk h"
  shows "\<exists>h'. distribute_groups n lgrp (int per) (int over) tq q h = Inr (0, h') \<and>
    bench_ok h' tq (spread n lgrp per over ts tss) q [] \<and> brk h' = brk h + ENTRY_SIZE * length ts \<and> mem_limit h' = mem_limit h"
  using assms
proof (induction n arbitrary: h tss ts lgrp over)
  case 0
  then show ?case by simp
next
  case (Suc n)
  define m where "m = per + (if over > 0 then 1 else 0)"
  have m: "m \<le> length ts" "int per + (if 0 < int over then 1 else 0) = int m" "m = min (nat (int m)) (length ts)"
    using Suc.prems(4,5) by (auto simp: m_def)
  have "0 < int m \<or> ts = []" using Suc.prems(4) by (cases per) (auto simp: m_def)
  from distribute_group_ok [OF Suc.prems(1-3) this _ m(3), of "Suc (brk h)"] Suc.prems(6) obtain h1 where
    h1: "distribute_group (Suc (brk h)) tq q lgrp (int m) h = Inr (0, 0, h1)"
      "bench_ok h1 tq (put_tasks lgrp (take m ts) tss) q (drop m ts)" "brk h1 = brk h + ENTRY_SIZE * m" "mem_limit h1 = mem_limit h"
    by auto
  have sum: "ENTRY_SIZE * m + ENTRY_SIZE * length (drop m ts) = ENTRY_SIZE * length ts"
    using m(1) by (metis distrib_left length_drop le_add_diff_inverse)
  then have r: "room h1 (ENTRY_SIZE * length (drop m ts))"
    using Suc.prems(2) h1(3,4) by (simp add: room_def del: length_drop)
  have len: "length (drop m ts) = n * per + (over - 1)" "over - 1 \<le> n" "length (drop m ts) \<le> brk h1" "0 \<le> lgrp + 1"
    using Suc.prems(3-6) h1(3) by (auto simp: m_def)
  from Suc.IH [OF h1(2) r len(4) len(1-3)] obtain h' where
    h': "distribute_groups n (lgrp + 1) (int per) (int (over - 1)) tq q h1 = Inr (0, h')"
      "bench_ok h' tq (spread n (lgrp + 1) per (over - 1) (drop m ts) (put_tasks lgrp (take m ts) tss)) q []"
      "brk h' = brk h1 + ENTRY_SIZE * length (drop m ts)" "mem_limit h' = mem_limit h1" by blast
  have "(if 0 < int over then int over - 1 else int over) = int (over - 1)" by auto
  then have "distribute_groups (Suc n) lgrp (int per) (int over) tq q h = Inr (0, h')"
    unfolding distribute_groups.simps m(2) h1(1) using h'(1) by simp
  moreover have "brk h' = brk h + ENTRY_SIZE * length ts" using h'(3) h1(3) sum by (simp del: length_drop)
  moreover have "bench_ok h' tq (spread (Suc n) lgrp per over ts tss) q []"
    using h'(2) unfolding spread.simps Let_def m_def [symmetric] .
  ultimately show ?case using h'(4) h1(4) by auto
qed

lemma locator_loop_ok:
  assumes "bench_ok h tq tss q ts" and "room h (ENTRY_SIZE * length ts)" and "length ts < fuel"
  shows "\<exists>h'. locator_loop fuel os loc tq q h = Inr (0, h') \<and>
    bench_ok h' tq (put_tasks 0 ts tss) q [] \<and> brk h' = brk h + ENTRY_SIZE * length ts \<and> mem_limit h' = mem_limit h"
  using assms
proof (induction fuel arbitrary: h tss ts)
  case (Suc fuel)
  show ?case
  proof (cases ts)
    case Nil
    then show ?thesis using bench_pop_empty [of h tq tss q] Suc.prems by simp
  next
    case (Cons k ts')
    then have r: "room h ENTRY_SIZE" using Suc.prems(2) by (simp add: room_def)
    obtain x h1 where x: "queue_pop_front q 0 h = Inr (1, elem_of x, h1)" "x \<noteq> 0" "live h1 x" "task_key (tq_task h1 x) = k"
      "\<forall>t. task_key t = k \<longrightarrow>
        (\<exists>h2 h3. tq_enqueue_seq 0 tq t 0 (h1\<lparr>tq_task := (tq_task h1)(x := t)\<rparr>) = Inr (0, h2) \<and> mem_free x h2 = Inr h3 \<and>
        bench_ok h3 tq (put_task 0 k tss) q ts' \<and> brk h3 = brk h + ENTRY_SIZE \<and> mem_limit h3 = mem_limit h)"
      using bench_move [OF Suc.prems(1) [unfolded Cons] r, of 0 0] by auto
    let ?t = "(tq_task h1 x)\<lparr>task_pad := word_of_int 0\<rparr>"
    have "task_key ?t = k" using x(4) by (simp add: task_key_def)
    then obtain h2 h3 where h3: "tq_enqueue_seq 0 tq ?t 0 (h1\<lparr>tq_task := (tq_task h1)(x := ?t)\<rparr>) = Inr (0, h2)"
      "mem_free x h2 = Inr h3"
      "bench_ok h3 tq (put_task 0 k tss) q ts'" "brk h3 = brk h + ENTRY_SIZE" "mem_limit h3 = mem_limit h"
      using x(5) by blast
    have lgrp: "(case loc of None \<Rightarrow> loc_mem_to_lgrp os a | Some l \<Rightarrow> loc_mem_to_lgrp os (l b)) = 0" for a b
      by (simp add: loc_mem_to_lgrp_def split: option.split)
    have step: "locator_loop (Suc fuel) os loc tq q h = locator_loop fuel os loc tq q h3"
      using x(1-3) h3(1,2) by (simp add: Let_def lgrp)
    have "room h3 (ENTRY_SIZE * length ts')" "length ts' < fuel" using Suc.prems(2,3) h3(4,5) Cons by (simp_all add: room_def)
    from Suc.IH [OF h3(3) this] obtain h' where
      "locator_loop fuel os loc tq q h3 = Inr (0, h')" "bench_ok h' tq (put_tasks 0 ts' (put_task 0 k tss)) q []"
      "brk h' = brk h3 + ENTRY_SIZE * length ts'" "mem_limit h' = mem_limit h3" by blast
    then show ?thesis unfolding step using Cons h3(4,5) by simp
  qed
qed simp

section \<open>Generating map tasks\<close>

text \<open>Where the tasks go: shares in order, or all to group 0 (the only one there is on Linux).\<close>

definition map_tasks_spread :: "bool \<Rightarrow> nat \<Rightarrow> 't list \<Rightarrow> 't list list \<Rightarrow> 't list list" where
  "map_tasks_spread by_lgrp n ts tss =
     (if by_lgrp then spread n 0 (length ts div n) (length ts mod n) ts tss else put_tasks 0 ts tss)"

lemma mset_map_tasks_spread:
  assumes "0 < n" and "tss \<noteq> []"
  shows "mset (concat (map_tasks_spread b n ts tss)) = mset ts + mset (concat tss)"
proof -
  have "length ts = n * (length ts div n) + length ts mod n" "length ts mod n \<le> n" using assms(1) by simp_all
  from mset_spread [OF this assms(2)] mset_put_tasks [OF assms(2)] show ?thesis by (simp add: map_tasks_spread_def)
qed

lemma gen_map_tasks_distribute_ok:
  assumes "bench_ok h tq tss q ts" and "room h (ENTRY_SIZE * length ts)" and "length ts \<le> brk h"
    and "0 < loc_get_lgrp_size os" and "0 \<le> e_num_map_threads env"
    and "n = tq_count os (nat (e_num_map_threads env))"
  shows "\<exists>h'. gen_map_tasks_distribute os env tq (int (length ts)) q h = Inr (0, h') \<and>
    bench_ok h' tq (map_tasks_spread (e_splitter env \<noteq> None \<and> e_locator env = None) n ts tss) q [] \<and>
    brk h' = brk h + ENTRY_SIZE * length ts \<and> mem_limit h' = mem_limit h"
proof (cases "e_splitter env \<noteq> None \<and> e_locator env = None")
  case True
  let ?d = "e_num_map_threads env div loc_get_lgrp_size os"
  have d: "c_div (e_num_map_threads env) (loc_get_lgrp_size os) = Inr ?d" "0 \<le> ?d"
    using assms(4,5) by (simp_all add: c_div_pos pos_imp_zdiv_nonneg_iff)
  have n: "(if ?d = 0 then 1 else ?d) = int n" "0 < n"
    using d(2) assms(5,6) by (auto simp: tq_count_def)
  have c: "c_div (int (length ts)) (int n) = Inr (int (length ts div n))" using n(2) by (simp add: c_div_pos zdiv_int)
  have over: "int (length ts) - int (length ts div n) * int n = int (length ts mod n)"
    by (simp add: minus_div_mult_eq_mod zdiv_int zmod_int)
  have "length ts = n * (length ts div n) + length ts mod n" "length ts mod n \<le> n" using n(2) by simp_all
  from distribute_groups_ok [OF assms(1,2) _ this assms(3), of 0] obtain h' where
    "distribute_groups n 0 (int (length ts div n)) (int (length ts mod n)) tq q h = Inr (0, h')"
    "bench_ok h' tq (spread n 0 (length ts div n) (length ts mod n) ts tss) q []"
    "brk h' = brk h + ENTRY_SIZE * length ts" "mem_limit h' = mem_limit h" by auto
  then show ?thesis
    unfolding gen_map_tasks_distribute_def gen_map_tasks_distribute_lgrp_def d(1) bindE_simps Let_def n(1) c over
    using True by (simp add: map_tasks_spread_def)
next
  case False
  have "length ts < Suc (brk h)" using assms(3) by simp
  from locator_loop_ok [OF assms(1,2) this] False show ?thesis
    unfolding gen_map_tasks_distribute_def gen_map_tasks_distribute_locator_def map_tasks_spread_def by auto
qed

lemma gen_map_tasks_ok:
  assumes "value_stream (call_splitter env (e_chunk_size env)) pieces ok"
    and "ok (e_splitter_pos env, u)" and "pieces (e_splitter_pos env, u) = ps" and "length ps < fuel" and "ps \<noteq> []"
    and "tq_has h tq tss" and "room h (QUEUE_SIZE + 2 * ENTRY_SIZE * length ps)"
    and "0 < loc_get_lgrp_size os" and "0 \<le> e_num_map_threads env"
  shows "\<exists>pos u' h'. gen_map_tasks fuel os env tq u h =
      Inr (int (length ps), env\<lparr>e_splitter_pos := pos\<rparr>, tq, u', h') \<and>
    tq_has h' tq (map_tasks_spread (e_splitter env \<noteq> None \<and> e_locator env = None)
      (tq_count os (nat (e_num_map_threads env))) (piece_keys 0 ps) tss) \<and>
    ok (pos, u') \<and>
    brk h' = brk h + QUEUE_SIZE + 2 * ENTRY_SIZE * length ps \<and> mem_limit h' = mem_limit h"
proof -
  have "room h QUEUE_SIZE" using assms(7) by (simp add: room_def)
  then obtain q h1 where q: "tq_alloc_queue h = Inr (q, h1)" "bench_ok h1 tq tss q []" "brk h1 = brk h + QUEUE_SIZE"
    "mem_limit h1 = mem_limit h" using bench_start [OF assms(6)] by blast
  have "room h1 (ENTRY_SIZE * length ps)" using assms(7) q(3,4) by (simp add: room_def)
  from gen_map_tasks_split_ok [OF assms(1-4) q(2) this] obtain pos u' h2 where
    s: "gen_map_tasks_split fuel env q (e_splitter_pos env, u) h1 = Inr (int (length ps), (pos, u'), h2)" "ok (pos, u')"
      "bench_ok h2 tq tss q (piece_keys 0 ps)" "brk h2 = brk h1 + ENTRY_SIZE * length ps" "mem_limit h2 = mem_limit h1" by auto
  have r: "room h2 (ENTRY_SIZE * length (piece_keys 0 ps))" "length (piece_keys 0 ps) \<le> brk h2"
    using assms(7) q(3,4) s(4,5) by (simp_all add: room_def ENTRY_SIZE_def)
  let ?env = "env\<lparr>e_splitter_pos := pos\<rparr>"
  have e: "0 \<le> e_num_map_threads ?env" using assms(9) by simp
  obtain h3 where d: "gen_map_tasks_distribute os ?env tq (int (length ps)) q h2 = Inr (0, h3)"
    "bench_ok h3 tq (map_tasks_spread (e_splitter env \<noteq> None \<and> e_locator env = None)
      (tq_count os (nat (e_num_map_threads env))) (piece_keys 0 ps) tss) q []"
    "brk h3 = brk h2 + ENTRY_SIZE * length ps" "mem_limit h3 = mem_limit h2"
    using gen_map_tasks_distribute_ok [OF s(3) r assms(8) e refl] by auto
  obtain h' where h': "mem_free q h3 = Inr h'" "tq_has h' tq (map_tasks_spread (e_splitter env \<noteq> None \<and> e_locator env = None)
      (tq_count os (nat (e_num_map_threads env))) (piece_keys 0 ps) tss)" "brk h' = brk h3" "mem_limit h' = mem_limit h3"
    using bench_end [OF d(2)] by blast
  have "gen_map_tasks fuel os env tq u h = Inr (int (length ps), ?env, tq, u', h')"
    using q(1) s(1) d(1) h'(1) assms(5) by (simp add: gen_map_tasks_def tq_reset_def Let_def)
  then show ?thesis using s(2) h' q(3,4) s(4,5) d(3,4) by auto
qed

text \<open>An input without a piece is an error, whatever the reason.\<close>

lemma gen_map_tasks_no_piece:
  assumes "value_stream (call_splitter env (e_chunk_size env)) pieces ok"
    and "ok (e_splitter_pos env, u)" and "pieces (e_splitter_pos env, u) = []" and "0 < fuel"
    and "tq_has h tq tss" and "room h QUEUE_SIZE"
  shows "\<exists>pos u' h'. gen_map_tasks fuel os env tq u h = Inr (-1, env\<lparr>e_splitter_pos := pos\<rparr>, tq, u', h') \<and> tq_has h' tq tss"
proof -
  obtain q h1 where q: "tq_alloc_queue h = Inr (q, h1)" "bench_ok h1 tq tss q []" "mem_limit h1 = mem_limit h" "brk h1 = brk h + QUEUE_SIZE"
    using bench_start [OF assms(5,6)] by blast
  have r: "room h1 (ENTRY_SIZE * length [])" using assms(6) q(3,4) by (simp add: room_def)
  have f: "length [] < fuel" using assms(4) by simp
  obtain pos u' h2 where
    s: "gen_map_tasks_split fuel env q (e_splitter_pos env, u) h1 = Inr (0, (pos, u'), h2)" "bench_ok h2 tq tss q []"
    using gen_map_tasks_split_ok [OF assms(1-3) f q(2) r] by auto
  obtain h' where h': "mem_free q h2 = Inr h'" "tq_has h' tq tss" using bench_end [OF s(2)] by blast
  then show ?thesis using q(1) s(1) by (auto simp: gen_map_tasks_def Let_def)
qed


section \<open>Generating reduce tasks\<close>

definition reduce_key :: "task_t \<Rightarrow> nat \<Rightarrow> task_key" where
  "reduce_key t0 i = (word_of_nat i, task_len t0, task_data t0)"

lemma reduce_key_inj:
  assumes "i < 2 ^ 64" and "j < 2 ^ 64"
  shows "reduce_key t0 i = reduce_key t0 j \<longleftrightarrow> i = j"
proof
  assume "reduce_key t0 i = reduce_key t0 j"
  then have "unat (word_of_nat i :: 64 word) = unat (word_of_nat j :: 64 word)" by (simp add: reduce_key_def)
  then show "i = j" using assms by (simp add: unat_of_nat)
qed simp

fun put_ids :: "(nat \<Rightarrow> int) \<Rightarrow> (nat \<Rightarrow> 't) \<Rightarrow> nat list \<Rightarrow> 't list list \<Rightarrow> 't list list" where
  "put_ids rnds key [] tss = tss"
| "put_ids rnds key (i # is) tss = put_ids rnds key is (put_task (rnds i) (key i) tss)"

lemma put_ids_append: "put_ids rnds key (is @ js) tss = put_ids rnds key js (put_ids rnds key is tss)"
  by (induction "is" arbitrary: tss) simp_all

lemma mset_put_ids: "tss \<noteq> [] \<Longrightarrow> mset (concat (put_ids rnds key is tss)) = image_mset key (mset is) + mset (concat tss)"
proof (induction "is" arbitrary: tss)
  case (Cons i is')
  from Cons.IH [OF put_task_not_Nil [OF Cons.prems]] show ?case
    by (simp only: put_ids.simps mset_put_task [OF Cons.prems]) simp
qed simp

text \<open>
  How many reduce tasks are enqueued. The number of threads the remainder is computed with is the
  number of map threads.
\<close>

definition reduce_count :: "nat \<Rightarrow> nat \<Rightarrow> int \<Rightarrow> nat" where
  "reduce_count tasks R M =
     min tasks (R * (tasks div R) + min R (nat (int tasks - int (tasks div R) * M)))"

lemma reduce_tasks_loop_ok:
  assumes "tq_has h tq tss" and "room h (ENTRY_SIZE * (N - no))" and "no \<le> N" and "0 < remaining \<or> no = N"
    and "N - no < fuel" and "m = min (nat remaining) (N - no)" and "\<forall>i. 0 \<le> rnds i"
  shows "\<exists>ret h'. reduce_tasks_loop fuel rnds t0 tq (int N) no remaining h = Inr (ret, no + m, h') \<and>
    (ret = None \<or> ret = Some 0 \<and> no + m = N) \<and>
    tq_has h' tq (put_ids rnds (reduce_key t0) [no..<no + m] tss) \<and>
    brk h' = brk h + ENTRY_SIZE * m \<and> mem_limit h' = mem_limit h"
  using assms(1-6)
proof (induction fuel arbitrary: h tss no remaining m)
  case (Suc fuel)
  show ?case
  proof (cases "no = N")
    case True
    then show ?thesis using Suc.prems by simp
  next
    case False
    then have no: "no < N" "0 < remaining" using Suc.prems(3,4) by auto
    have r: "room h ENTRY_SIZE" using Suc.prems(2) no(1) by (simp add: room_def) (metis Suc_diff_Suc add_leD1 mult_Suc_right add.assoc)
    let ?t = "t0\<lparr>task_id := word_of_nat no\<rparr>"
    obtain h1 where h1: "tq_enqueue_seq (rnds no) tq ?t (-1) h = Inr (0, h1)"
      "tq_has h1 tq (put_task (rnds no) (task_key ?t) tss)" "brk h1 = brk h + ENTRY_SIZE" "mem_limit h1 = mem_limit h"
      using tq_has_enqueue [OF Suc.prems(1) r, of "rnds no" "-1" "rnds no" ?t] assms(7) by auto
    have key: "task_key ?t = reduce_key t0 no" by (simp add: task_key_def reduce_key_def)
    have step: "reduce_tasks_loop (Suc fuel) rnds t0 tq (int N) no remaining h =
        (if remaining - 1 \<noteq> 0 then reduce_tasks_loop fuel rnds t0 tq (int N) (Suc no) (remaining - 1) h1
         else Inr (None, Suc no, h1))"
      using h1(1) no(1) by simp
    have m: "m = Suc (min (nat (remaining - 1)) (N - Suc no))"
      using Suc.prems(6) no by (cases "nat remaining") (auto simp: nat_diff_distrib)
    show ?thesis
    proof (cases "remaining = 1")
      case True
      then have "m = 1" using m by simp
      then show ?thesis using step True h1(2-4) key by simp
    next
      case False
      let ?m = "min (nat (remaining - 1)) (N - Suc no)"
      have room: "room h1 (ENTRY_SIZE * (N - Suc no))"
        using Suc.prems(2) h1(3,4) no(1) by (simp add: room_def) (metis Suc_diff_Suc add.assoc mult_Suc_right)
      have "Suc no \<le> N" "0 < remaining - 1 \<or> Suc no = N" "N - Suc no < fuel" using no False Suc.prems(5) by auto
      from Suc.IH [OF h1(2) room this refl] obtain ret h' where
        h': "reduce_tasks_loop fuel rnds t0 tq (int N) (Suc no) (remaining - 1) h1 = Inr (ret, Suc no + ?m, h')"
          "ret = None \<or> ret = Some 0 \<and> Suc no + ?m = N"
          "tq_has h' tq (put_ids rnds (reduce_key t0) [Suc no..<Suc no + ?m] (put_task (rnds no) (task_key ?t) tss))"
          "brk h' = brk h1 + ENTRY_SIZE * ?m" "mem_limit h' = mem_limit h1" by blast
      have up: "[no..<no + m] = no # [Suc no..<Suc no + ?m]" unfolding m by (subst upt_conv_Cons) simp_all
      have "reduce_tasks_loop (Suc fuel) rnds t0 tq (int N) no remaining h = Inr (ret, no + m, h')"
        using step False h'(1) by (simp add: m)
      moreover have "tq_has h' tq (put_ids rnds (reduce_key t0) [no..<no + m] tss)" using h'(3) unfolding up key by simp
      ultimately show ?thesis using h'(2,4,5) h1(3,4) m by auto
    qed
  qed
qed simp

lemma reduce_tasks_threads_ok:
  assumes "tq_has h tq tss" and "room h (ENTRY_SIZE * (N - no))" and "no \<le> N"
    and "0 < per \<or> over = int N - int no" and "\<forall>i. 0 \<le> rnds i"
    and "cnt = min N (no + k * per + min k (nat over))"
  shows "\<exists>h'. reduce_tasks_threads k rnds t0 tq (int N) (int per) over no h = Inr (0, cnt, h') \<and>
    tq_has h' tq (put_ids rnds (reduce_key t0) [no..<cnt] tss) \<and>
    brk h' = brk h + ENTRY_SIZE * (cnt - no) \<and> mem_limit h' = mem_limit h"
  using assms(1-4,6)
proof (induction k arbitrary: h tss no over cnt)
  case 0
  then show ?case by simp
next
  case (Suc k)
  define rem where "rem = int per + (if 0 < over then 1 else 0)"
  define m where "m = min (nat rem) (N - no)"
  have "0 < rem \<or> no = N" using Suc.prems(3,4) by (auto simp: rem_def)
  from reduce_tasks_loop_ok [OF Suc.prems(1-3) this _ m_def assms(5), of "Suc (N - no)" t0] obtain ret h1 where
    h1: "reduce_tasks_loop (Suc (N - no)) rnds t0 tq (int N) no rem h = Inr (ret, no + m, h1)"
      "ret = None \<or> ret = Some 0 \<and> no + m = N" "tq_has h1 tq (put_ids rnds (reduce_key t0) [no..<no + m] tss)"
      "brk h1 = brk h + ENTRY_SIZE * m" "mem_limit h1 = mem_limit h" by auto
  have mle: "no + m \<le> N" using Suc.prems(3) by (simp add: m_def)
  define over' where "over' = (if 0 < over then over - 1 else over)"
  define c where "c = min N (no + m + k * per + min k (nat over'))"
  have c: "c = cnt"
  proof (cases "nat rem \<le> N - no")
    case True
    then have "m = nat rem" by (simp add: m_def)
    moreover have "nat over = Suc (nat (over - 1))" if "0 < over" using that by simp
    ultimately show ?thesis using Suc.prems(5) by (auto simp: c_def over'_def rem_def nat_add_distrib ac_simps)
  next
    case False
    then have "no + m = N" using Suc.prems(3) by (simp add: m_def)
    moreover have "nat rem = per + (if 0 < over then 1 else 0)" by (simp add: rem_def nat_add_distrib)
    moreover have "(if 0 < over then 1 else 0) \<le> min (Suc k) (nat over)" by auto
    ultimately have "N \<le> no + Suc k * per + min (Suc k) (nat over)"
      using False Suc.prems(3) by (simp only: mult_Suc)
    moreover note \<open>no + m = N\<close>
    ultimately show ?thesis using Suc.prems(5) by (simp add: c_def)
  qed
  show ?case
  proof (cases ret)
    case (Some r)
    then have "r = 0" "no + m = N" using h1(2) by auto
    moreover from this have "cnt = N" using c c_def by simp
    ultimately show ?thesis using h1 Some by (auto simp flip: rem_def)
  next
    case None
    have room: "room h1 (ENTRY_SIZE * (N - (no + m)))"
    proof -
      have "N - no = m + (N - (no + m))" using mle by simp
      then have "ENTRY_SIZE * (N - no) = ENTRY_SIZE * m + ENTRY_SIZE * (N - (no + m))" by (metis distrib_left)
      then show ?thesis using Suc.prems(2) h1(4,5) by (simp add: room_def)
    qed
    have per: "0 < per \<or> over' = int N - int (no + m)"
      using Suc.prems(3,4) by (auto simp: over'_def m_def rem_def)
    from Suc.IH [OF h1(3) room mle per c_def] obtain h' where
      h': "reduce_tasks_threads k rnds t0 tq (int N) (int per) over' (no + m) h1 = Inr (0, c, h')"
        "tq_has h' tq (put_ids rnds (reduce_key t0) [no + m..<c] (put_ids rnds (reduce_key t0) [no..<no + m] tss))"
        "brk h' = brk h1 + ENTRY_SIZE * (c - (no + m))" "mem_limit h' = mem_limit h1" by blast
    have le: "no + m \<le> c" using mle by (simp add: c_def)
    have "[no..<c] = [no..<no + m] @ [no + m..<c]" using le upt_add_eq_append [of no "no + m" "c - (no + m)"] by simp
    then have "tq_has h' tq (put_ids rnds (reduce_key t0) [no..<c] tss)" using h'(2) by (simp only: put_ids_append)
    moreover have "c - no = m + (c - (no + m))" using le by simp
    then have "brk h' = brk h + ENTRY_SIZE * (c - no)" using h'(3) h1(4) by (metis add.assoc distrib_left)
    moreover have "reduce_tasks_threads (Suc k) rnds t0 tq (int N) (int per) over no h = Inr (0, c, h')"
      using h1(1) h'(1) None by (simp flip: rem_def over'_def)
    ultimately show ?thesis using h'(4) h1(5) c by auto
  qed
qed

lemma gen_reduce_tasks_ok:
  assumes "tq_has h tq tss" and "e_num_reduce_tasks env = int N" and "e_num_reduce_threads env = int R" and "0 < R"
    and "room h (ENTRY_SIZE * N)" and "\<forall>i. 0 \<le> rnds i"
    and "cnt = reduce_count N R (e_num_map_threads env)"
  shows "\<exists>h'. gen_reduce_tasks rnds t0 env tq h = Inr (0, cnt, h') \<and>
    tq_has h' tq (put_ids rnds (reduce_key t0) [0..<cnt] tss) \<and>
    brk h' = brk h + ENTRY_SIZE * cnt \<and> mem_limit h' = mem_limit h"
proof -
  let ?per = "N div R" and ?over = "int N - int (N div R) * e_num_map_threads env"
  have d: "c_div (int N) (int R) = Inr (int ?per)" using assms(4) by (simp add: c_div_pos zdiv_int)
  have "0 < ?per \<or> ?over = int N - int 0" by auto
  moreover have "cnt = min N (0 + R * ?per + min R (nat ?over))" using assms(7) by (simp add: reduce_count_def)
  moreover have "room h (ENTRY_SIZE * (N - 0))" using assms(5) by simp
  ultimately obtain h' where "reduce_tasks_threads R rnds t0 tq (int N) (int ?per) ?over 0 h = Inr (0, cnt, h')"
    "tq_has h' tq (put_ids rnds (reduce_key t0) [0..<cnt] tss)" "brk h' = brk h + ENTRY_SIZE * (cnt - 0)"
    "mem_limit h' = mem_limit h"
    using reduce_tasks_threads_ok [OF assms(1) _ _ _ assms(6), of N 0 ?per ?over cnt R t0] by blast
  then show ?thesis using d assms(2,3) by (simp add: gen_reduce_tasks_def tq_reset_def)
qed

text \<open>With no more map threads than reduce threads every task is enqueued.\<close>

lemma reduce_count_all:
  assumes "0 < R" and "M \<le> int R"
  shows "reduce_count N R M = N"
proof -
  have "int (N div R) * M \<le> int (N div R) * int R" using assms(2) by (intro mult_left_mono) auto
  moreover have "int N - int (N div R) * int R = int (N mod R)"
    by (simp add: minus_div_mult_eq_mod zdiv_int zmod_int)
  ultimately have "N mod R \<le> nat (int N - int (N div R) * M)" by linarith
  moreover have "N mod R \<le> R" using assms(1) by (simp add: less_imp_le)
  ultimately have "N mod R \<le> min R (nat (int N - int (N div R) * M))" by simp
  moreover have "R * (N div R) + N mod R = N" by simp
  ultimately have "N \<le> R * (N div R) + min R (nat (int N - int (N div R) * M))" by linarith
  then show ?thesis by (simp add: reduce_count_def)
qed

end
