(* ===== verification/MergeTask.thy ===== *)
theory MergeTask
  imports KeyVals
begin

text \<open>
  The merge phase of \<open>src/map_reduce.c\<close>: \<open>merge_results\<close> (a k-way merge of sorted arrays),
  \<open>merge_worker\<close> (which slice of the input a thread merges) and the rounds of \<open>merge\<close>. The arrays
  \<open>vals[i].arr\<close> that \<open>merge_results\<close> frees at its end are not tracked.
\<close>

section \<open>\<open>merge_results\<close>\<close>

text \<open>The search for the first array with something left: its index, or the number of arrays.\<close>

fun first_left :: "('k, 'v) keyval_arr_t list \<Rightarrow> nat" where
  "first_left [] = 0"
| "first_left (v # vs) = (if kva_pos v \<ge> kva_len v then Suc (first_left vs) else 0)"

text \<open>The loop that looks for a smaller head in the arrays from index \<open>i\<close> on.\<close>

fun min_scan ::
  "'k key_cmp \<Rightarrow> nat \<Rightarrow> ('k, 'v) keyval_arr_t list \<Rightarrow> nat \<Rightarrow> ('k, 'v) keyval_t \<Rightarrow> (nat \<times> ('k, 'v) keyval_t) res" where
  "min_scan key_cmp i [] min_idx min_keyval = Inr (min_idx, min_keyval)"
| "min_scan key_cmp i (v # vs) min_idx min_keyval =
     (if kva_pos v < kva_len v then
        bindE (arr_get (kva_arr v) (int (kva_pos v))) (\<lambda>e.
        if key_cmp (kr_key min_keyval) (kr_key e) > 0 then min_scan key_cmp (Suc i) vs i e
        else min_scan key_cmp (Suc i) vs min_idx min_keyval)
      else min_scan key_cmp (Suc i) vs min_idx min_keyval)"

text \<open>The main loop; \<open>n\<close> iterations are left, and \<open>out\<close> is what was copied so far.\<close>

fun merge_loop ::
  "'k key_cmp \<Rightarrow> nat \<Rightarrow> ('k, 'v) keyval_arr_t list \<Rightarrow> ('k, 'v) keyval_t list \<Rightarrow>
   (('k, 'v) keyval_arr_t list \<times> ('k, 'v) keyval_t list) res" where
  "merge_loop key_cmp 0 vals out = Inr (vals, out)"
| "merge_loop key_cmp (Suc n) vals out =
     (let i = first_left vals in
      if i = length vals then Inr (vals, out)
      else bindE (arr_get (kva_arr (vals ! i)) (int (kva_pos (vals ! i)))) (\<lambda>e.
           bindE (min_scan key_cmp (Suc i) (drop (Suc i) vals) i e) (\<lambda>(min_idx, min_keyval).
           merge_loop key_cmp n
             (vals[min_idx := (vals ! min_idx)\<lparr>kva_pos := kva_pos (vals ! min_idx) + 1\<rparr>])
             (out @ [min_keyval]))))"

definition merge_results ::
  "'k key_cmp \<Rightarrow> ('k, 'v) keyval_arr_t list \<Rightarrow> (('k, 'v) keyval_arr_t list \<times> ('k, 'v) keyval_arr_t) res" where
  "merge_results key_cmp vals =
     (let total_num_keys = sum_list (map kva_len vals) in
      bindE (merge_loop key_cmp total_num_keys vals []) (\<lambda>(vals, out).
      Inr (vals, \<lparr>kva_len = total_num_keys, kva_alloc_len = total_num_keys, kva_pos = 0, kva_arr = out\<rparr>)))"

section \<open>What it computes\<close>

definition left :: "('k, 'v) keyval_arr_t \<Rightarrow> ('k, 'v) keyval_t list" where
  "left v = drop (kva_pos v) (kva_arr v)"

definition arr_ok :: "'k key_cmp \<Rightarrow> ('k, 'v) keyval_arr_t \<Rightarrow> bool" where
  "arr_ok key_cmp v \<longleftrightarrow> kva_len v = length (kva_arr v) \<and> kva_pos v \<le> kva_len v \<and> keys_sorted key_cmp (kva_arr v)"

lemma left_Cons:
  assumes "kva_len v = length (kva_arr v)" and "kva_pos v < kva_len v"
  shows "left v = (kva_arr v ! kva_pos v) # left (v\<lparr>kva_pos := Suc (kva_pos v)\<rparr>)"
  using assms by (simp add: left_def Cons_nth_drop_Suc)

lemma arr_ok_left: "arr_ok key_cmp v \<Longrightarrow> keys_sorted key_cmp (left v)"
  by (simp add: arr_ok_def left_def keys_sorted_def sorted_wrt_drop flip: drop_map)

lemma first_left_spec:
  "first_left vs \<le> length vs"
  "j < first_left vs \<Longrightarrow> kva_len (vs ! j) \<le> kva_pos (vs ! j)"
  "first_left vs < length vs \<Longrightarrow> kva_pos (vs ! first_left vs) < kva_len (vs ! first_left vs)"
proof (induction vs arbitrary: j)
  case (Cons v vs)
  {
    case 1 show ?case using Cons(1) by simp
  next
    case 2 then show ?case using Cons(2) by (cases j) (auto split: if_splits)
  next
    case 3 then show ?case using Cons(3) by (auto split: if_splits)
  }
qed simp_all

lemma before_first_left:
  assumes "\<forall>v \<in> set vs. kva_len v = length (kva_arr v)" and "u \<in> set (take (first_left vs) vs)"
  shows "left u = []"
proof -
  obtain j where j: "j < first_left vs" "j < length vs" "u = vs ! j"
    using assms(2) by (auto simp: in_set_conv_nth)
  then show ?thesis using first_left_spec(2) [OF j(1)] assms(1) by (simp add: left_def)
qed

definition heads_ge :: "'k key_cmp \<Rightarrow> ('k, 'v) keyval_t \<Rightarrow> ('k, 'v) keyval_arr_t list \<Rightarrow> bool" where
  "heads_ge key_cmp e vs \<longleftrightarrow> (\<forall>v \<in> set vs. left v \<noteq> [] \<longrightarrow> key_cmp (kr_key e) (kr_key (hd (left v))) \<le> 0)"

definition heads_gt :: "'k key_cmp \<Rightarrow> ('k, 'v) keyval_t \<Rightarrow> ('k, 'v) keyval_arr_t list \<Rightarrow> bool" where
  "heads_gt key_cmp e vs \<longleftrightarrow> (\<forall>v \<in> set vs. left v \<noteq> [] \<longrightarrow> key_cmp (kr_key e) (kr_key (hd (left v))) < 0)"

text \<open>\<open>e\<close> is the head of the array at index \<open>r\<close>, and every head in front of it is greater.\<close>

definition picks :: "'k key_cmp \<Rightarrow> ('k, 'v) keyval_arr_t list \<Rightarrow> nat \<Rightarrow> ('k, 'v) keyval_t \<Rightarrow> bool" where
  "picks key_cmp vs r e \<longleftrightarrow>
     (\<exists>pre u post. vs = pre @ u # post \<and> r = length pre \<and> kva_pos u < kva_len u \<and> e = hd (left u) \<and>
        heads_gt key_cmp e pre)"

lemma heads_simps [simp]:
  "heads_ge key_cmp e []" "heads_gt key_cmp e []"
  "heads_ge key_cmp e (v # vs) \<longleftrightarrow>
     (left v \<noteq> [] \<longrightarrow> key_cmp (kr_key e) (kr_key (hd (left v))) \<le> 0) \<and> heads_ge key_cmp e vs"
  "heads_gt key_cmp e (v # vs) \<longleftrightarrow>
     (left v \<noteq> [] \<longrightarrow> key_cmp (kr_key e) (kr_key (hd (left v))) < 0) \<and> heads_gt key_cmp e vs"
  "heads_ge key_cmp e (vs @ ws) \<longleftrightarrow> heads_ge key_cmp e vs \<and> heads_ge key_cmp e ws"
  "heads_gt key_cmp e (vs @ ws) \<longleftrightarrow> heads_gt key_cmp e vs \<and> heads_gt key_cmp e ws"
  by (auto simp: heads_ge_def heads_gt_def)

lemma heads_none: "(\<And>v. v \<in> set vs \<Longrightarrow> left v = []) \<Longrightarrow> heads_ge key_cmp e vs \<and> heads_gt key_cmp e vs"
  by (simp add: heads_ge_def heads_gt_def)

lemma picks_head: "left v \<noteq> [] \<Longrightarrow> kva_pos v < kva_len v \<Longrightarrow> picks key_cmp (v # vs) 0 (hd (left v))"
  unfolding picks_def by (intro exI [of _ "[]"] exI [of _ v] exI [of _ vs]) simp

lemma picks_after:
  "picks key_cmp vs r e \<Longrightarrow> heads_gt key_cmp e ws \<Longrightarrow> picks key_cmp (ws @ vs) (length ws + r) e"
  unfolding picks_def
  by (elim exE conjE, rename_tac pre u post)
    (rule_tac x = "ws @ pre" in exI, rule_tac x = u in exI, rule_tac x = post in exI, simp)

lemma heads_ge_trans:
  assumes "key_order key_cmp" and "key_cmp (kr_key e') (kr_key e) \<le> 0" and "heads_ge key_cmp e vs"
  shows "heads_ge key_cmp e' vs"
  using assms(2,3) key_order.cmp_trans [OF assms(1)] unfolding heads_ge_def by blast

text \<open>
  \<open>stable_sort_of key_cmp xs ys\<close>: \<open>ys\<close> is \<open>xs\<close> in ascending key order, pairs with equal keys in
  their order in \<open>xs\<close>.
\<close>

definition stable_perm :: "'k key_cmp \<Rightarrow> ('k, 'v) keyval_t list \<Rightarrow> ('k, 'v) keyval_t list \<Rightarrow> bool" where
  "stable_perm key_cmp xs ys \<longleftrightarrow>
     mset ys = mset xs \<and>
     (\<forall>k. filter (\<lambda>e. key_cmp (kr_key e) k = 0) ys = filter (\<lambda>e. key_cmp (kr_key e) k = 0) xs)"

definition stable_sort_of :: "'k key_cmp \<Rightarrow> ('k, 'v) keyval_t list \<Rightarrow> ('k, 'v) keyval_t list \<Rightarrow> bool" where
  "stable_sort_of key_cmp xs ys \<longleftrightarrow> keys_sorted key_cmp ys \<and> stable_perm key_cmp xs ys"

lemma stable_perm_refl [simp]: "stable_perm key_cmp xs xs"
  by (simp add: stable_perm_def)

lemma stable_perm_trans: "stable_perm key_cmp xs ys \<Longrightarrow> stable_perm key_cmp ys zs \<Longrightarrow> stable_perm key_cmp xs zs"
  by (simp add: stable_perm_def)

lemma stable_perm_append:
  "stable_perm key_cmp xs ys \<Longrightarrow> stable_perm key_cmp xs' ys' \<Longrightarrow> stable_perm key_cmp (xs @ xs') (ys @ ys')"
  by (simp add: stable_perm_def)

context key_order
begin

text \<open>
  The head that \<open>min_scan\<close> selects: not greater than any head, and smaller than every head in
  front of it, so that of equal keys the earliest array's comes first.
\<close>

lemma min_scan_spec:
  assumes "\<forall>v \<in> set vs. kva_len v = length (kva_arr v)"
  shows "\<exists>r e'. min_scan key_cmp i vs m e = Inr (r, e') \<and> key_cmp (kr_key e') (kr_key e) \<le> 0 \<and>
    heads_ge key_cmp e' vs \<and>
    (r = m \<and> e' = e \<or> i \<le> r \<and> picks key_cmp vs (r - i) e' \<and> key_cmp (kr_key e') (kr_key e) < 0)"
  using assms
proof (induction vs arbitrary: i m e)
  case (Cons v vs)
  show ?case
  proof (cases "kva_pos v < kva_len v \<and> key_cmp (kr_key e) (kr_key (hd (left v))) > 0")
    case True
    let ?x = "hd (left v)"
    have l: "left v \<noteq> []" "arr_get (kva_arr v) (int (kva_pos v)) = Inr ?x"
      using left_Cons [of v] True Cons.prems by simp_all
    have lt: "key_cmp (kr_key ?x) (kr_key e) < 0" using True cmp_flip by simp
    obtain r e' where r: "min_scan key_cmp (Suc i) vs i ?x = Inr (r, e')" "key_cmp (kr_key e') (kr_key ?x) \<le> 0"
      "heads_ge key_cmp e' vs" "r = i \<and> e' = ?x \<or>
       Suc i \<le> r \<and> picks key_cmp vs (r - Suc i) e' \<and> key_cmp (kr_key e') (kr_key ?x) < 0"
      using Cons.IH [of "Suc i" i ?x] Cons.prems by auto
    have e': "key_cmp (kr_key e') (kr_key e) < 0" using cmp_le_lt_trans [OF r(2) lt] .
    have "i \<le> r \<and> picks key_cmp (v # vs) (r - i) e'"
    proof (cases "r = i \<and> e' = ?x")
      case True
      then show ?thesis using picks_head [OF l(1), of key_cmp vs] \<open>kva_pos v < kva_len v \<and> _\<close> by simp
    next
      case False
      then have a: "Suc i \<le> r" "picks key_cmp vs (r - Suc i) e'" "key_cmp (kr_key e') (kr_key ?x) < 0"
        using r(4) by auto
      then have "picks key_cmp ([v] @ vs) (length [v] + (r - Suc i)) e'"
        by (intro picks_after) simp_all
      with a(1) show ?thesis by (simp add: Suc_diff_le [symmetric] Suc_diff_Suc)
    qed
    moreover have "min_scan key_cmp i (v # vs) m e = Inr (r, e')" using True l(2) r(1) by simp
    ultimately show ?thesis using r(2,3) e' by auto
  next
    case False
    have skip: "min_scan key_cmp i (v # vs) m e = min_scan key_cmp (Suc i) vs m e"
      using False left_Cons [of v] Cons.prems by auto
    have v: "left v \<noteq> [] \<Longrightarrow> key_cmp (kr_key e) (kr_key (hd (left v))) \<le> 0"
      using False Cons.prems by (fastforce simp: left_def)
    obtain r e' where r: "min_scan key_cmp (Suc i) vs m e = Inr (r, e')" "key_cmp (kr_key e') (kr_key e) \<le> 0"
      "heads_ge key_cmp e' vs" "r = m \<and> e' = e \<or>
       Suc i \<le> r \<and> picks key_cmp vs (r - Suc i) e' \<and> key_cmp (kr_key e') (kr_key e) < 0"
      using Cons.IH [of "Suc i" m e] Cons.prems by auto
    have ge: "heads_ge key_cmp e' (v # vs)" using r(2,3) v cmp_trans by auto
    have "i \<le> r \<and> picks key_cmp (v # vs) (r - i) e'" if "Suc i \<le> r" "picks key_cmp vs (r - Suc i) e'"
      "key_cmp (kr_key e') (kr_key e) < 0"
    proof -
      have "picks key_cmp ([v] @ vs) (length [v] + (r - Suc i)) e'"
        using that v cmp_lt_le_trans by (intro picks_after) auto
      then show ?thesis using that(1) by (simp add: Suc_diff_le [symmetric] Suc_diff_Suc)
    qed
    with r(4) show ?thesis using skip r(1,2) ge by auto
  qed
qed simp

text \<open>One iteration of the main loop: it takes the least head of the earliest array that has it.\<close>

lemma merge_step:
  assumes "\<forall>v \<in> set vals. kva_len v = length (kva_arr v)" and "concat (map left vals) \<noteq> []"
  shows "\<exists>pre v post e. vals = pre @ v # post \<and> left v = e # left (v\<lparr>kva_pos := Suc (kva_pos v)\<rparr>) \<and>
    kva_pos v < kva_len v \<and> heads_gt key_cmp e pre \<and> heads_ge key_cmp e vals \<and>
    merge_loop key_cmp (Suc n) vals out =
    merge_loop key_cmp n (pre @ v\<lparr>kva_pos := Suc (kva_pos v)\<rparr> # post) (out @ [e])"
proof -
  let ?i = "first_left vals"
  have i: "?i < length vals"
  proof (rule ccontr)
    assume "\<not> ?i < length vals"
    then have "?i = length vals" using first_left_spec(1) [of vals] by simp
    then have "left v = []" if "v \<in> set vals" for v
      using before_first_left [OF assms(1)] that by simp
    with assms(2) show False by auto
  qed
  let ?v = "vals ! ?i" and ?rest = "drop (Suc ?i) vals"
  have v: "kva_pos ?v < kva_len ?v" "kva_len ?v = length (kva_arr ?v)"
    using first_left_spec(3) [OF i] assms(1) i by simp_all
  define e where "e = hd (left ?v)"
  have e: "arr_get (kva_arr ?v) (int (kva_pos ?v)) = Inr e" "left ?v \<noteq> []"
    using left_Cons [of ?v] v by (simp_all add: e_def)
  have split: "take ?i vals @ ?v # ?rest = vals" using i by (rule id_take_nth_drop [symmetric])
  have len: "length (take ?i vals) = ?i" using i by simp
  note none = heads_none [OF before_first_left [OF assms(1)]]
  have "\<forall>v \<in> set ?rest. kva_len v = length (kva_arr v)" using assms(1) in_set_dropD by fast
  from min_scan_spec [OF this, of "Suc ?i" ?i e]
  obtain r e' where r: "min_scan key_cmp (Suc ?i) ?rest ?i e = Inr (r, e')"
    "key_cmp (kr_key e') (kr_key e) \<le> 0" "heads_ge key_cmp e' ?rest"
    "r = ?i \<and> e' = e \<or> Suc ?i \<le> r \<and> picks key_cmp ?rest (r - Suc ?i) e' \<and> key_cmp (kr_key e') (kr_key e) < 0"
    by (elim exE conjE) (rule that)
  have "heads_ge key_cmp e' (take ?i vals @ ?v # ?rest)"
    using r(2,3) none e_def by simp
  then have ge: "heads_ge key_cmp e' vals" unfolding split .
  have loop: "merge_loop key_cmp (Suc n) vals out =
    merge_loop key_cmp n (vals[r := (vals ! r)\<lparr>kva_pos := Suc (kva_pos (vals ! r))\<rparr>]) (out @ [e'])"
    using i e r(1) by (simp add: Let_def)
  have "picks key_cmp (take ?i vals @ ?v # ?rest) r e'"
    using r(4)
  proof
    assume a: "r = ?i \<and> e' = e"
    then show ?thesis
      using picks_after [OF picks_head [OF e(2) v(1), of key_cmp ?rest], of "take ?i vals"] none len
      by (simp add: e_def)
  next
    assume a: "Suc ?i \<le> r \<and> picks key_cmp ?rest (r - Suc ?i) e' \<and> key_cmp (kr_key e') (kr_key e) < 0"
    then have "heads_gt key_cmp e' (take ?i vals @ [?v])" using none by (simp add: e_def)
    from picks_after [OF _ this, of ?rest "r - Suc ?i"] show ?thesis using a len by simp
  qed
  then obtain pre u post where u: "vals = pre @ u # post" "r = length pre" "kva_pos u < kva_len u"
    "e' = hd (left u)" "heads_gt key_cmp e' pre" unfolding split picks_def by blast
  have "left u = e' # left (u\<lparr>kva_pos := Suc (kva_pos u)\<rparr>)"
    using left_Cons [of u] u assms(1) by simp
  then show ?thesis
    using u ge loop by (intro exI [of _ pre] exI [of _ u] exI [of _ post] exI [of _ e']) simp
qed


lemma stable_sort_step:
  assumes "keys_sorted key_cmp es" and "\<forall>u \<in> set (concat ess). key_cmp (kr_key e) (kr_key u) < 0"
    and "\<forall>u \<in> set (es @ concat fss). key_cmp (kr_key e) (kr_key u) \<le> 0"
    and "stable_sort_of key_cmp (concat ess @ es @ concat fss) ms"
  shows "stable_sort_of key_cmp (concat ess @ (e # es) @ concat fss) (e # ms)"
proof -
  have m: "mset ms = mset (concat ess @ es @ concat fss)" "keys_sorted key_cmp ms"
    using assms(4) by (simp_all add: stable_sort_of_def stable_perm_def)
  then have "set ms = set (concat ess @ es @ concat fss)" by (metis mset_eq_setD)
  then have "\<forall>u \<in> set ms. key_cmp (kr_key e) (kr_key u) \<le> 0" using assms(2,3) by fastforce
  then have "keys_sorted key_cmp (e # ms)" using m(2) by (simp add: keys_sorted_def)
  moreover have "filter (\<lambda>u. key_cmp (kr_key u) k = 0) (concat ess) = []" if "key_cmp (kr_key e) k = 0" for k
  proof -
    have "key_cmp (kr_key u) k \<noteq> 0" if "u \<in> set (concat ess)" for u
      using assms(2) that \<open>key_cmp (kr_key e) k = 0\<close>
        cmp_eq_right [of "kr_key e" k "kr_key u"] cmp_eq_sym [of "kr_key u" "kr_key e"] by force
    then show ?thesis by (simp add: filter_empty_conv)
  qed
  then have "filter (\<lambda>u. key_cmp (kr_key u) k = 0) (e # ms) =
      filter (\<lambda>u. key_cmp (kr_key u) k = 0) (concat ess @ (e # es) @ concat fss)" for k
    using assms(4) by (auto simp: stable_sort_of_def stable_perm_def)
  ultimately show ?thesis using m(1) by (simp add: stable_sort_of_def stable_perm_def)
qed

lemma merge_loop_spec:
  assumes "\<forall>v \<in> set vals. arr_ok key_cmp v" and "n = length (concat (map left vals))"
  shows "\<exists>vals' ms. merge_loop key_cmp n vals out = Inr (vals', out @ ms) \<and> length vals' = length vals \<and>
    concat (map left vals') = [] \<and> stable_sort_of key_cmp (concat (map left vals)) ms"
  using assms
proof (induction n arbitrary: vals out)
  case 0
  then show ?case by (auto simp: stable_sort_of_def stable_perm_def keys_sorted_def)
next
  case (Suc n)
  have "\<forall>v \<in> set vals. kva_len v = length (kva_arr v)" "concat (map left vals) \<noteq> []"
    using Suc.prems(1) by (simp add: arr_ok_def) (use Suc.prems(2) in \<open>metis length_0_conv nat.distinct(1)\<close>)
  from merge_step [OF this, of n out] obtain pre v post e where v:
    "vals = pre @ v # post" "left v = e # left (v\<lparr>kva_pos := Suc (kva_pos v)\<rparr>)" "kva_pos v < kva_len v"
    "heads_gt key_cmp e pre" "heads_ge key_cmp e vals"
    "merge_loop key_cmp (Suc n) vals out =
     merge_loop key_cmp n (pre @ v\<lparr>kva_pos := Suc (kva_pos v)\<rparr> # post) (out @ [e])"
    by (elim exE conjE) (rule that)
  let ?v = "v\<lparr>kva_pos := Suc (kva_pos v)\<rparr>" and ?vals = "pre @ v\<lparr>kva_pos := Suc (kva_pos v)\<rparr> # post"
  have "arr_ok key_cmp ?v" using Suc.prems(1) v(1,3) by (simp add: arr_ok_def)
  then have ok: "\<forall>u \<in> set ?vals. arr_ok key_cmp u" using Suc.prems(1) v(1) by simp
  have len: "n = length (concat (map left ?vals))" using Suc.prems(2) v(1,2) by simp
  from Suc.IH [OF ok len, of "out @ [e]"] obtain vals' ms where IH:
    "merge_loop key_cmp n ?vals (out @ [e]) = Inr (vals', (out @ [e]) @ ms)" "length vals' = length ?vals"
    "concat (map left vals') = []" "stable_sort_of key_cmp (concat (map left ?vals)) ms"
    by (elim exE conjE) (rule that)
  have tail: "\<forall>x \<in> set (left u). key_cmp (kr_key (hd (left u))) (kr_key x) \<le> 0" if "u \<in> set vals" for u
    using arr_ok_left [of key_cmp u] Suc.prems(1) that by (cases "left u") (auto simp: keys_sorted_def)
  have gt: "\<forall>x \<in> set (concat (map left pre)). key_cmp (kr_key e) (kr_key x) < 0"
    using v(1,4) tail cmp_lt_le_trans by (fastforce simp: heads_gt_def)
  have ge: "\<forall>x \<in> set (left ?v @ concat (map left post)). key_cmp (kr_key e) (kr_key x) \<le> 0"
  proof -
    have "\<forall>x \<in> set (left u). key_cmp (kr_key e) (kr_key x) \<le> 0" if "u \<in> set vals" for u
      using v(5) tail [OF that] that cmp_trans unfolding heads_ge_def by (metis equals0D set_empty)
    then have "\<forall>x \<in> set (concat (map left vals)). key_cmp (kr_key e) (kr_key x) \<le> 0" by auto
    then show ?thesis using v(1,2) by simp
  qed
  have "keys_sorted key_cmp (left ?v)" using ok arr_ok_left [of key_cmp ?v] by simp
  from stable_sort_step [OF this gt ge] IH(4)
  have "stable_sort_of key_cmp (concat (map left vals)) (e # ms)" using v(1,2) by simp
  then show ?case using v(1,6) IH(1-3) by simp
qed

lemma merge_results_spec:
  assumes "\<forall>v \<in> set vals. arr_ok key_cmp v \<and> kva_pos v = 0"
  shows "\<exists>vals' r. merge_results key_cmp vals = Inr (vals', r) \<and> length vals' = length vals \<and>
    arr_ok key_cmp r \<and> kva_pos r = 0 \<and> stable_sort_of key_cmp (concat (map kva_arr vals)) (kva_arr r)"
proof -
  have l: "map left vals = map kva_arr vals" using assms by (simp add: left_def)
  have "sum_list (map kva_len vals) = length (concat (map left vals))"
    using assms by (auto simp: l length_concat arr_ok_def comp_def intro!: arg_cong [of _ _ sum_list])
  from merge_loop_spec [OF _ this, of "[]"] assms obtain vals' ms where ms:
    "merge_loop key_cmp (sum_list (map kva_len vals)) vals [] = Inr (vals', ms)" "length vals' = length vals"
    "stable_sort_of key_cmp (concat (map left vals)) ms"
    by auto
  have "length ms = sum_list (map kva_len vals)"
    using ms(3) \<open>sum_list _ = _\<close> by (metis size_mset stable_sort_of_def stable_perm_def)
  with ms show ?thesis
    by (simp add: merge_results_def Let_def arr_ok_def l stable_sort_of_def)
qed

end

end
