(* ===== verification/MergePhase.thy ===== *)
theory MergePhase
  imports MergeTask Scheduler
begin

text \<open>
  \<open>merge_worker\<close> and \<open>merge\<close> of \<open>src/map_reduce.c\<close>, and the part of \<open>start_workers\<close> that all three
  phases share. A worker reads and writes only its slice of the input and its own slot of
  \<open>merge_vals\<close>, so the workers of a round are run one after the other, in any order: the order is
  an argument, and the results hold for every permutation of the threads.
\<close>

section \<open>Starting workers\<close>

text \<open>
  The CPU of every thread, and the assertion of \<open>tpool_set\<close>: the pool has a thread for every
  worker but the calling thread. With no thread at all the calling thread would still run
  \<open>th_arg_array[0]\<close>, which is not there.
\<close>

definition start_workers :: "sched_policy \<Rightarrow> int \<Rightarrow> int \<Rightarrow> nat \<Rightarrow> int list res" where
  "start_workers sp proc_offset pool_threads num_threads =
     bindE (mapE (\<lambda>thread_index. sched_thr_to_cpu sp (int thread_index + proc_offset)) [0..<num_threads]) (\<lambda>cpus.
     bindE (if num_threads = 0 then Inl Bad_access else Inr ()) (\<lambda>_.
     bindE (assertE (int num_threads - 1 \<le> pool_threads)) (\<lambda>_.
     Inr cpus)))"

section \<open>\<open>merge_worker\<close>\<close>

type_synonym ('k, 'v) merge_st = "('k, 'v) keyval_arr_t list \<times> ('k, 'v) keyval_arr_t option list"

text \<open>First index and number of arrays of a thread.\<close>

definition merge_slice :: "int \<Rightarrow> int \<Rightarrow> int \<Rightarrow> (int \<times> int) res" where
  "merge_slice num_merge_threads merge_len thread_index =
     bindE (c_div merge_len num_merge_threads) (\<lambda>len.
     bindE (c_rem merge_len num_merge_threads) (\<lambda>modlen.
     let (len, modlen) = (if len \<le> 1 then (2, merge_len smod 2) else (len, modlen)) in
     Inr (thread_index * len + (if thread_index < modlen then thread_index else modlen),
          len + (if thread_index < modlen then 1 else 0))))"

definition merge_cpu :: "bool \<Rightarrow> int \<Rightarrow> nat \<Rightarrow> int" where
  "merge_cpu oneOutputQueuePerReduceTask cpu_id merge_round =
     (if oneOutputQueuePerReduceTask then cpu_id * 2 ^ (merge_round - 1) else cpu_id * 2 ^ merge_round)"

definition merge_worker ::
  "os_t \<Rightarrow> 'k key_cmp \<Rightarrow> bool \<Rightarrow> nat \<Rightarrow> nat \<Rightarrow> nat \<Rightarrow> int list \<Rightarrow> ('k, 'v) merge_st \<Rightarrow> nat \<Rightarrow> ('k, 'v) merge_st res" where
  "merge_worker os key_cmp oneOutputQueuePerReduceTask merge_round num_merge_threads merge_len cpus st thread_index =
     (let cpu = merge_cpu oneOutputQueuePerReduceTask (cpus ! thread_index) merge_round in
      bindE (CHECK_ERROR (proc_bind_thread os cpu \<noteq> 0)) (\<lambda>_.
      bindE (merge_slice (int num_merge_threads) (int merge_len) (int thread_index)) (\<lambda>(pos, len).
      bindE (if pos < int merge_len then
               (let (inp, merge_vals) = st in
                if pos + len \<le> int (length inp) then
                  bindE (merge_results key_cmp (take (nat len) (drop (nat pos) inp))) (\<lambda>(vals, r).
                  bindE (arr_set merge_vals (int thread_index) (Some r)) (\<lambda>merge_vals.
                  Inr (take (nat pos) inp @ vals @ drop (nat (pos + len)) inp, merge_vals)))
                else Inl Out_of_bounds)
             else Inr st) (\<lambda>st.
      bindE (CHECK_ERROR (fst (proc_unbind_thread os None) \<noteq> 0)) (\<lambda>_.
      Inr st)))))"

section \<open>\<open>merge\<close>\<close>

text \<open>
  The rounds. \<open>order r n\<close> is the order in which the \<open>n\<close> workers of round \<open>r\<close> run. A slot of
  \<open>merge_vals\<close> that no worker filled is uninitialised memory (None); the next round reads all.
\<close>

definition merge_round_run ::
  "os_t \<Rightarrow> 'k key_cmp \<Rightarrow> bool \<Rightarrow> sched_policy \<Rightarrow> int \<Rightarrow> int \<Rightarrow> nat list \<Rightarrow> nat \<Rightarrow> nat \<Rightarrow>
   ('k, 'v) keyval_arr_t list \<Rightarrow> ('k, 'v) keyval_arr_t list res" where
  "merge_round_run os key_cmp oneq sp proc_offset pool_threads order merge_round num_merge_threads merge_input =
     bindE (start_workers sp proc_offset pool_threads num_merge_threads) (\<lambda>cpus.
     bindE (foldE (merge_worker os key_cmp oneq merge_round num_merge_threads (length merge_input) cpus)
              (merge_input, replicate num_merge_threads None) order) (\<lambda>(_, merge_vals).
     mapE (\<lambda>x. case x of None \<Rightarrow> Inl Bad_access | Some v \<Rightarrow> Inr v) merge_vals))"

function merge_rounds ::
  "os_t \<Rightarrow> 'k key_cmp \<Rightarrow> bool \<Rightarrow> sched_policy \<Rightarrow> int \<Rightarrow> int \<Rightarrow> (nat \<Rightarrow> nat \<Rightarrow> nat list) \<Rightarrow> nat \<Rightarrow> nat \<Rightarrow>
   ('k, 'v) keyval_arr_t list \<Rightarrow> ('k, 'v) keyval_arr_t list res" where
  "merge_rounds os key_cmp oneq sp proc_offset pool_threads order merge_round num_merge_threads merge_input =
     (if length merge_input > 1 then
        bindE (merge_round_run os key_cmp oneq sp proc_offset pool_threads
                 (order (Suc merge_round) num_merge_threads) (Suc merge_round) num_merge_threads merge_input)
          (\<lambda>merge_vals.
        merge_rounds os key_cmp oneq sp proc_offset pool_threads order (Suc merge_round)
          (if num_merge_threads div 2 = 0 then 1 else num_merge_threads div 2) merge_vals)
      else Inr merge_input)"
  by pat_completeness auto


lemma merge_worker_length:
  assumes "merge_worker os key_cmp oneq mr T M cpus st t = Inr st'"
  shows "length (snd st') = length (snd st)"
  using assms
  by (auto simp: merge_worker_def Let_def bindE_Inr_conv arr_set_def split: if_splits prod.splits)

lemma foldE_invariant:
  assumes "foldE step s xs = Inr s'" and "\<And>s x s'. step s x = Inr s' \<Longrightarrow> P s \<Longrightarrow> P s'" and "P s"
  shows "P s'"
  using assms(1,3)
proof (induction xs arbitrary: s)
  case (Cons x xs)
  then obtain s1 where "step s x = Inr s1" "foldE step s1 xs = Inr s'" by (auto simp: bindE_Inr_conv)
  then show ?case using Cons assms(2) by blast
qed simp

lemma mapE_length: "mapE f xs = Inr ys \<Longrightarrow> length ys = length xs"
  by (induction xs arbitrary: ys) (auto simp: bindE_Inr_conv)

lemma merge_round_run_length:
  assumes "merge_round_run os key_cmp oneq sp off pool order mr T inp = Inr mv"
  shows "length mv = T \<and> 0 < T"
proof -
  obtain cpus st where st: "start_workers sp off pool T = Inr cpus"
    "foldE (merge_worker os key_cmp oneq mr T (length inp) cpus) (inp, replicate T None) order = Inr st"
    "mapE (\<lambda>x. case x of None \<Rightarrow> Inl Bad_access | Some v \<Rightarrow> Inr v) (snd st) = Inr mv"
    using assms by (auto simp: merge_round_run_def bindE_Inr_conv)
  have "length (snd st) = T"
    by (rule foldE_invariant [OF st(2)]) (auto dest: merge_worker_length)
  then show ?thesis
    using st(1,3) by (auto dest: mapE_length simp: start_workers_def bindE_Inr_conv split: if_splits)
qed

termination merge_rounds
  by (relation "measure (\<lambda>(os, c, q, sp, off, pool, ord, mr, T, inp). T + (if length inp > 1 then 1 else 0))")
    (auto dest!: merge_round_run_length)


declare merge_rounds.simps [simp del]

section \<open>The slices tile the input\<close>

definition slice_pos :: "nat \<Rightarrow> nat \<Rightarrow> nat \<Rightarrow> nat" where
  "slice_pos T M t = t * (M div T) + min t (M mod T)"

definition slice_len :: "nat \<Rightarrow> nat \<Rightarrow> nat \<Rightarrow> nat" where
  "slice_len T M t = M div T + (if t < M mod T then 1 else 0)"

definition slice_of :: "nat \<Rightarrow> nat \<Rightarrow> nat \<Rightarrow> 'a list \<Rightarrow> 'a list" where
  "slice_of T M t xs = take (slice_len T M t) (drop (slice_pos T M t) xs)"

lemma slice_pos_Suc: "slice_pos T M (Suc t) = slice_pos T M t + slice_len T M t"
  by (simp add: slice_pos_def slice_len_def)

lemma slice_pos_T: "0 < T \<Longrightarrow> slice_pos T M T = M"
  by (simp add: slice_pos_def min_absorb2 less_imp_le)

lemma slice_pos_mono: "t \<le> u \<Longrightarrow> slice_pos T M t \<le> slice_pos T M u"
  by (simp add: slice_pos_def add_mono min.coboundedI1 min_le_iff_disj)

lemma slice_end: "t < u \<Longrightarrow> slice_pos T M t + slice_len T M t \<le> slice_pos T M u"
  using slice_pos_mono [of "Suc t" u T M] by (simp add: slice_pos_Suc)

lemma slices_concat:
  assumes "0 < T" and "length xs = M"
  shows "concat (map (\<lambda>t. slice_of T M t xs) [0..<T]) = xs"
proof -
  have "concat (map (\<lambda>t. slice_of T M t xs) [0..<n]) = take (slice_pos T M n) xs" for n
  proof (induction n)
    case 0
    then show ?case by (simp add: slice_pos_def)
  next
    case (Suc n)
    then show ?case by (simp add: slice_pos_Suc take_add slice_of_def)
  qed
  from this [of T] show ?thesis using assms by (simp add: slice_pos_T)
qed

text \<open>What \<open>merge_worker\<close> computes when there are at least two arrays per thread.\<close>

lemma merge_slice_eq:
  assumes "0 < T" and "2 * T \<le> M"
  shows "merge_slice (int T) (int M) (int t) = Inr (int (slice_pos T M t), int (slice_len T M t))"
proof -
  have "2 \<le> M div T" using assms by (metis div_le_mono nonzero_mult_div_cancel_right not_gr0)
  then have "\<not> int (M div T) \<le> 1" by linarith
  moreover have "c_div (int M) (int T) = Inr (int (M div T))" "c_rem (int M) (int T) = Inr (int (M mod T))"
    using assms by (simp_all add: c_div_pos c_rem_pos zdiv_int zmod_int)
  ultimately show ?thesis
    by (simp add: merge_slice_def slice_pos_def slice_len_def min_def)
qed

text \<open>Replacing one slice leaves the others as they are.\<close>

definition put_slice :: "nat \<Rightarrow> nat \<Rightarrow> nat \<Rightarrow> 'a list \<Rightarrow> 'a list \<Rightarrow> 'a list" where
  "put_slice T M t ys xs = take (slice_pos T M t) xs @ ys @ drop (slice_pos T M t + slice_len T M t) xs"

lemma slice_of_length:
  assumes "t < T" and "length xs = M"
  shows "length (slice_of T M t xs) = slice_len T M t" "slice_pos T M t + slice_len T M t \<le> M"
  using slice_end [OF assms(1), of T M] slice_pos_T [of T M] assms by (simp_all add: slice_of_def)

lemma slice_of_put_slice:
  assumes "t < T" "u < T" "t \<noteq> u" and "length xs = M" and "length ys = slice_len T M t"
  shows "slice_of T M u (put_slice T M t ys xs) = slice_of T M u xs" "length (put_slice T M t ys xs) = M"
proof -
  note e = slice_of_length(2) [OF assms(1,4)]
  then show len: "length (put_slice T M t ys xs) = M" using assms(4,5) by (simp add: put_slice_def)
  show "slice_of T M u (put_slice T M t ys xs) = slice_of T M u xs"
  proof (cases "u < t")
    case True
    have "slice_pos T M u + slice_len T M u \<le> slice_pos T M t" by (rule slice_end [OF True])
    then show ?thesis
      using e assms(4) by (simp add: slice_of_def put_slice_def take_drop)
  next
    case False
    then have "slice_pos T M t + slice_len T M t \<le> slice_pos T M u" using slice_end [of t u] assms(3) by simp
    then show ?thesis
      using e assms(4,5) by (simp add: slice_of_def put_slice_def)
  qed
qed


section \<open>A round\<close>

text \<open>Where a round stands when the workers in \<open>D\<close> have run.\<close>

definition round_inv ::
  "'k key_cmp \<Rightarrow> nat \<Rightarrow> ('k, 'v) keyval_arr_t list \<Rightarrow> nat set \<Rightarrow> ('k, 'v) merge_st \<Rightarrow> bool" where
  "round_inv key_cmp T inp D st \<longleftrightarrow>
     length (fst st) = length inp \<and> length (snd st) = T \<and>
     (\<forall>u < T. u \<notin> D \<longrightarrow> slice_of T (length inp) u (fst st) = slice_of T (length inp) u inp) \<and>
     (\<forall>u \<in> D. \<exists>r. snd st ! u = Some r \<and> arr_ok key_cmp r \<and> kva_pos r = 0 \<and>
        stable_sort_of key_cmp (concat (map kva_arr (slice_of T (length inp) u inp))) (kva_arr r))"

lemma merge_worker_step:
  assumes "key_order key_cmp" and "\<forall>v \<in> set inp. arr_ok key_cmp v \<and> kva_pos v = 0"
    and "0 < T" "2 * T \<le> length inp" and "t < T" "t \<notin> D" "D \<subseteq> {..<T}"
    and "proc_bind_thread os (merge_cpu oneq (cpus ! t) mr) = 0" and "fst (proc_unbind_thread os None) = 0"
    and "round_inv key_cmp T inp D st"
  shows "\<exists>st'. merge_worker os key_cmp oneq mr T (length inp) cpus st t = Inr st' \<and>
    round_inv key_cmp T inp (insert t D) st'"
proof -
  let ?M = "length inp"
  obtain inp' mv where st: "st = (inp', mv)" by (cases st)
  have inv: "length inp' = ?M" "length mv = T" "slice_of T ?M t inp' = slice_of T ?M t inp"
    using assms(5,6,10) st by (simp_all add: round_inv_def)
  have "set (slice_of T ?M t inp) \<subseteq> set inp"
    unfolding slice_of_def by (meson in_set_dropD in_set_takeD subsetI)
  then have "\<forall>v \<in> set (slice_of T ?M t inp). arr_ok key_cmp v \<and> kva_pos v = 0" using assms(2) by blast
  from key_order.merge_results_spec [OF assms(1) this] obtain vals r where r:
    "merge_results key_cmp (slice_of T ?M t inp) = Inr (vals, r)" "length vals = length (slice_of T ?M t inp)"
    "arr_ok key_cmp r" "kva_pos r = 0"
    "stable_sort_of key_cmp (concat (map kva_arr (slice_of T ?M t inp))) (kva_arr r)" by blast
  have len: "length vals = slice_len T ?M t" "slice_pos T ?M t + slice_len T ?M t \<le> ?M"
    using r(2) slice_of_length [OF assms(5) refl, of inp] by simp_all
  have "slice_pos T ?M t < ?M"
  proof -
    have "0 < slice_len T ?M t" using assms(3,4) by (simp add: slice_len_def div_greater_zero_iff)
    then show ?thesis using len(2) by linarith
  qed
  then have "merge_worker os key_cmp oneq mr T ?M cpus st t = Inr (put_slice T ?M t vals inp', mv[t := Some r])"
    using assms(5,8,9) inv len(2) r(1) merge_slice_eq [OF assms(3,4), of t]
    by (simp add: merge_worker_def st put_slice_def slice_of_def nat_add_distrib flip: of_nat_add)
  moreover have "round_inv key_cmp T inp (insert t D) (put_slice T ?M t vals inp', mv[t := Some r])"
    unfolding round_inv_def fst_conv snd_conv
  proof (intro conjI allI impI ballI)
    show "length (put_slice T ?M t vals inp') = ?M"
      using len inv(1) by (simp add: put_slice_def)
    show "length (mv[t := Some r]) = T" using inv(2) by simp
    fix u assume u: "u < T" "u \<notin> insert t D"
    then have "slice_of T ?M u (put_slice T ?M t vals inp') = slice_of T ?M u inp'"
      using slice_of_put_slice(1) [OF assms(5) u(1) _ inv(1) len(1)] by blast
    then show "slice_of T ?M u (put_slice T ?M t vals inp') = slice_of T ?M u inp"
      using assms(10) u st by (simp add: round_inv_def)
  next
    fix u assume u: "u \<in> insert t D"
    show "\<exists>r'. mv[t := Some r] ! u = Some r' \<and> arr_ok key_cmp r' \<and> kva_pos r' = 0 \<and>
        stable_sort_of key_cmp (concat (map kva_arr (slice_of T ?M u inp))) (kva_arr r')"
    proof (cases "u = t")
      case True
      then show ?thesis using r(3-5) inv(2) assms(5) by simp
    next
      case False
      then show ?thesis using u assms(10) st by (simp add: round_inv_def)
    qed
  qed
  ultimately show ?thesis by blast
qed

lemma merge_workers_run:
  assumes "key_order key_cmp" and "\<forall>v \<in> set inp. arr_ok key_cmp v \<and> kva_pos v = 0"
    and "0 < T" "2 * T \<le> length inp"
    and "\<forall>t < T. proc_bind_thread os (merge_cpu oneq (cpus ! t) mr) = 0"
    and "fst (proc_unbind_thread os None) = 0"
    and "round_inv key_cmp T inp D st" "D \<subseteq> {..<T}"
    and "distinct order" "set order \<inter> D = {}" "set order \<subseteq> {..<T}"
  shows "\<exists>st'. foldE (merge_worker os key_cmp oneq mr T (length inp) cpus) st order = Inr st' \<and>
    round_inv key_cmp T inp (D \<union> set order) st'"
  using assms(7-)
proof (induction order arbitrary: D st)
  case (Cons t ts)
  have t: "t < T" "t \<notin> D" using Cons.prems by auto
  obtain st1 where st1: "merge_worker os key_cmp oneq mr T (length inp) cpus st t = Inr st1"
    "round_inv key_cmp T inp (insert t D) st1"
    using merge_worker_step [OF assms(1-4) t Cons.prems(2) assms(5) [rule_format, OF t(1)] assms(6) Cons.prems(1)] by blast
  from Cons.IH [OF st1(2)] Cons.prems st1(1) show ?case by auto
qed auto

lemma merge_round_spec:
  assumes "key_order key_cmp" and "\<forall>v \<in> set inp. arr_ok key_cmp v \<and> kva_pos v = 0"
    and "0 < T" "2 * T \<le> length inp" and "start_workers sp off pool T = Inr cpus"
    and "\<forall>t < T. proc_bind_thread os (merge_cpu oneq (cpus ! t) mr) = 0"
    and "fst (proc_unbind_thread os None) = 0"
    and "mset order = mset [0..<T]"
  shows "\<exists>mv. merge_round_run os key_cmp oneq sp off pool order mr T inp = Inr mv \<and> length mv = T \<and>
    (\<forall>v \<in> set mv. arr_ok key_cmp v \<and> kva_pos v = 0) \<and>
    stable_perm key_cmp (concat (map kva_arr inp)) (concat (map kva_arr mv))"
proof -
  let ?M = "length inp"
  have o: "distinct order" "set order = {..<T}"
    using assms(8) by (metis distinct_upt mset_eq_imp_distinct_iff) (metis assms(8) atLeast_upt mset_eq_setD)
  have "round_inv key_cmp T inp {} (inp, replicate T None)" by (simp add: round_inv_def)
  from merge_workers_run [OF assms(1-4,6,7) this _ o(1)] o(2)
  obtain st where st: "foldE (merge_worker os key_cmp oneq mr T ?M cpus) (inp, replicate T None) order = Inr st"
    "round_inv key_cmp T inp {..<T} st" by auto
  define mv where "mv = map the (snd st)"
  have slot: "snd st ! u = Some (mv ! u) \<and> arr_ok key_cmp (mv ! u) \<and> kva_pos (mv ! u) = 0 \<and>
      stable_sort_of key_cmp (concat (map kva_arr (slice_of T ?M u inp))) (kva_arr (mv ! u))" if "u < T" for u
  proof -
    have "u \<in> {..<T}" using that by simp
    with st(2) obtain r where "snd st ! u = Some r" "arr_ok key_cmp r" "kva_pos r = 0"
      "stable_sort_of key_cmp (concat (map kva_arr (slice_of T ?M u inp))) (kva_arr r)"
      unfolding round_inv_def by blast
    moreover have "u < length (snd st)" using st(2) that by (simp add: round_inv_def)
    ultimately show ?thesis by (simp add: mv_def)
  qed
  have len: "length mv = T" "length (snd st) = T" using st(2) by (simp_all add: mv_def round_inv_def)
  have snd: "snd st = map Some mv" using slot len by (intro nth_equalityI) simp_all
  have "mapE (\<lambda>x. case x of None \<Rightarrow> Inl Bad_access | Some v \<Rightarrow> Inr v) (map Some mv) = Inr mv"
    by (induction mv) simp_all
  then have run: "merge_round_run os key_cmp oneq sp off pool order mr T inp = Inr mv"
    using assms(5) st(1) snd by (cases st) (simp add: merge_round_run_def)
  have "stable_perm key_cmp (concat (map (\<lambda>t. concat (map kva_arr (slice_of T ?M t inp))) [0..<n]))
      (concat (map kva_arr (take n mv)))" if "n \<le> T" for n
    using that
  proof (induction n)
    case (Suc n)
    then have "take (Suc n) mv = take n mv @ [mv ! n]" using len(1) by (simp add: take_Suc_conv_app_nth)
    moreover have "stable_perm key_cmp (concat (map kva_arr (slice_of T ?M n inp))) (kva_arr (mv ! n))"
      using slot [of n] Suc.prems by (simp add: stable_sort_of_def)
    ultimately show ?case using Suc by (simp add: stable_perm_append)
  qed simp
  from this [of T] have "stable_perm key_cmp
      (concat (map (\<lambda>t. concat (map kva_arr (slice_of T ?M t inp))) [0..<T])) (concat (map kva_arr mv))"
    using len(1) by simp
  moreover have "concat (map (\<lambda>t. concat (map kva_arr (slice_of T ?M t inp))) [0..<T]) =
      concat (map kva_arr (concat (map (\<lambda>t. slice_of T ?M t inp) [0..<T])))"
    by (simp add: map_concat comp_def concat_concat_map)
  ultimately have "stable_perm key_cmp (concat (map kva_arr inp)) (concat (map kva_arr mv))"
    using slices_concat [OF assms(3) refl, of inp] by simp
  then show ?thesis using run len slot by (auto simp: in_set_conv_nth)
qed


section \<open>All rounds\<close>

lemma start_workers_ok:
  assumes "0 < n" and "int n \<le> sp_num_cpus sp" and "int n - 1 \<le> pool"
  shows "start_workers sp 0 pool n = Inr (map int [0..<n])"
proof -
  have "mapE (\<lambda>t. sched_thr_to_cpu sp (int t + 0)) [0..<n] = Inr (map int [0..<n])"
    using assms by (intro mapE_Inr) (simp add: sched_thr_to_cpu_mod)
  then show ?thesis using assms by (simp add: start_workers_def)
qed

lemma merge_rounds_spec:
  assumes "key_order key_cmp" and "os_ok os" and "\<forall>r n. mset (order r n) = mset [0..<n]"
    and "0 < T" "int T \<le> sp_num_cpus sp" "int T - 1 \<le> pool"
    and "int T * 2 ^ (if oneq then mr else Suc mr) \<le> nprocessors_onln os"
    and "2 * T \<le> length inp" and "\<forall>v \<in> set inp. arr_ok key_cmp v \<and> kva_pos v = 0"
  shows "\<exists>v. merge_rounds os key_cmp oneq sp 0 pool order mr T inp = Inr [v] \<and> arr_ok key_cmp v \<and>
    stable_sort_of key_cmp (concat (map kva_arr inp)) (kva_arr v)"
  using assms(4-)
proof (induction T arbitrary: mr inp rule: less_induct)
  case (less T)
  have cpus: "start_workers sp 0 pool T = Inr (map int [0..<T])"
    using less.prems by (intro start_workers_ok)
  have "proc_bind_thread os (merge_cpu oneq (map int [0..<T] ! t) (Suc mr)) = 0" if "t < T" for t
  proof (rule proc_bind_online [OF assms(2)])
    have "merge_cpu oneq (int t) (Suc mr) = int t * 2 ^ (if oneq then mr else Suc mr)"
      by (simp add: merge_cpu_def)
    also have "\<dots> < int T * 2 ^ (if oneq then mr else Suc mr)" using that by simp
    finally show "merge_cpu oneq (map int [0..<T] ! t) (Suc mr) < nprocessors_onln os"
      using less.prems(4) that by simp
    show "0 \<le> merge_cpu oneq (map int [0..<T] ! t) (Suc mr)" using that by (simp add: merge_cpu_def)
  qed
  then have bind: "\<forall>t < T. proc_bind_thread os (merge_cpu oneq (map int [0..<T] ! t) (Suc mr)) = 0" by blast
  from merge_round_spec [OF assms(1) less.prems(6,1,5) cpus bind proc_unbind_ok [OF assms(2)] assms(3) [rule_format, of "Suc mr"]]
  obtain mv where mv:
    "merge_round_run os key_cmp oneq sp 0 pool (order (Suc mr) T) (Suc mr) T inp = Inr mv" "length mv = T"
    "\<forall>v \<in> set mv. arr_ok key_cmp v \<and> kva_pos v = 0"
    "stable_perm key_cmp (concat (map kva_arr inp)) (concat (map kva_arr mv))"
    by (elim exE conjE) (rule that)
  have step: "merge_rounds os key_cmp oneq sp 0 pool order mr T inp =
    merge_rounds os key_cmp oneq sp 0 pool order (Suc mr) (if T div 2 = 0 then 1 else T div 2) mv"
    using less.prems(1,5) mv(1) by (subst merge_rounds.simps) simp
  show ?case
  proof (cases "T = 1")
    case True
    then obtain v where v: "mv = [v]" using mv(2) by (cases mv) auto
    have "merge_rounds os key_cmp oneq sp 0 pool order (Suc mr) 1 [v] = Inr [v]"
      by (subst merge_rounds.simps) simp
    then show ?thesis
      using step True v mv(3,4) by (simp add: stable_sort_of_def arr_ok_def)
  next
    case False
    then have h: "T div 2 < T" "0 < T div 2" "2 * (T div 2) \<le> length mv" using less.prems(1) mv(2) by auto
    have e: "int (T div 2) * 2 ^ (if oneq then Suc mr else Suc (Suc mr)) \<le> nprocessors_onln os"
    proof -
      have "int (T div 2) * 2 ^ (if oneq then Suc mr else Suc (Suc mr)) =
          int (2 * (T div 2)) * 2 ^ (if oneq then mr else Suc mr)" by simp
      also have "\<dots> \<le> int T * 2 ^ (if oneq then mr else Suc mr)" by (intro mult_right_mono) simp_all
      finally show ?thesis using less.prems(4) by simp
    qed
    have "int (T div 2) \<le> sp_num_cpus sp" "int (T div 2) - 1 \<le> pool" using less.prems(2,3) by linarith+
    from less.IH [OF h(1,2) this e h(3) mv(3)] show ?thesis
      using step h(2) mv(4) stable_perm_trans by (auto simp: stable_sort_of_def)
  qed
qed


section \<open>The phase\<close>

record ('k, 'v) final_data_t =
  fd_length :: nat
  fd_data :: "('k, 'v) keyval_t list"

text \<open>\<open>env_init\<close> allocates \<open>final_vals\<close> with exactly \<open>merge_len\<close> elements.\<close>

definition merge ::
  "os_t \<Rightarrow> 'k key_cmp \<Rightarrow> bool \<Rightarrow> sched_policy \<Rightarrow> int \<Rightarrow> int \<Rightarrow> (nat \<Rightarrow> nat \<Rightarrow> nat list) \<Rightarrow> nat \<Rightarrow> nat \<Rightarrow> nat \<Rightarrow>
   ('k, 'v) keyval_arr_t list \<Rightarrow> ('k, 'v) final_data_t res" where
  "merge os key_cmp oneOutputQueuePerReduceTask sp proc_offset pool_threads order
     num_reduce_tasks num_reduce_threads num_merge_threads final_vals =
     (let merge_len = (if oneOutputQueuePerReduceTask then num_reduce_tasks else num_reduce_threads) in
      if length final_vals < merge_len then Inl Out_of_bounds
      else
        bindE (if merge_len \<le> 1 then Inr final_vals
               else merge_rounds os key_cmp oneOutputQueuePerReduceTask sp proc_offset pool_threads order 0
                      num_merge_threads (take merge_len final_vals)) (\<lambda>vals.
        bindE (arr_get vals 0) (\<lambda>v.
        Inr \<lparr>fd_length = kva_len v, fd_data = kva_arr v\<rparr>)))"

lemma merge_single:
  assumes "length final_vals = 1" and "(if oneq then tasks else threads) = 1"
  shows "merge os key_cmp oneq sp off pool order tasks threads T final_vals =
    Inr \<lparr>fd_length = kva_len (hd final_vals), fd_data = kva_arr (hd final_vals)\<rparr>"
  using assms by (cases final_vals) (simp_all add: merge_def arr_get_def)

lemma merge_spec:
  assumes "key_order key_cmp" and "os_ok os" and "\<forall>r n. mset (order r n) = mset [0..<n]"
    and "0 < T" "int T \<le> sp_num_cpus sp" "int T - 1 \<le> pool"
    and "int T * 2 ^ (if oneq then 0 else 1) \<le> nprocessors_onln os"
    and "length final_vals = (if oneq then tasks else threads)" "2 * T \<le> length final_vals"
    and "\<forall>v \<in> set final_vals. arr_ok key_cmp v \<and> kva_pos v = 0"
  shows "\<exists>r. merge os key_cmp oneq sp 0 pool order tasks threads T final_vals = Inr r \<and>
    fd_length r = length (fd_data r) \<and>
    stable_sort_of key_cmp (concat (map kva_arr final_vals)) (fd_data r)"
proof -
  have e: "int T * 2 ^ (if oneq then 0 else Suc 0) \<le> nprocessors_onln os" using assms(7) by (cases oneq) simp_all
  have l: "length final_vals = (if oneq then tasks else threads)" "\<not> (if oneq then tasks else threads) \<le> 1"
    using assms(4,8,9) by auto
  from merge_rounds_spec [OF assms(1-6) e assms(9,10)] obtain v where
    "merge_rounds os key_cmp oneq sp 0 pool order 0 T final_vals = Inr [v]" "arr_ok key_cmp v"
    "stable_sort_of key_cmp (concat (map kva_arr final_vals)) (kva_arr v)" by blast
  then show ?thesis using l by (simp add: merge_def Let_def arr_get_def arr_ok_def)
qed

end
