(* ===== verification/Workers.thy ===== *)
theory Workers
  imports Prelude
begin

text \<open>
  How \<open>start_workers\<close> of \<open>src/map_reduce.c\<close> runs the workers of a phase. A worker binds itself, then
  does tasks until there is none, then cleans up. The workers run concurrently: an execution is a
  schedule, the list of the indices of the workers whose turn it is, and in a turn a worker does
  one of those steps. What holds for every schedule holds for every interleaving of the steps.
\<close>

section \<open>Steps\<close>

datatype worker_pc = Ready | Working | Finished

definition worker_step ::
  "(nat \<Rightarrow> 's \<Rightarrow> 's res) \<Rightarrow> (nat \<Rightarrow> 's \<Rightarrow> (bool \<times> 's) res) \<Rightarrow> (nat \<Rightarrow> 's \<Rightarrow> 's res) \<Rightarrow>
   worker_pc list \<times> 's \<Rightarrow> nat \<Rightarrow> (worker_pc list \<times> 's) res" where
  "worker_step enter do_next leave ps t =
     (case ps of (pcs, s) \<Rightarrow>
        if t < length pcs then
          (case pcs ! t of
             Ready \<Rightarrow> bindE (enter t s) (\<lambda>s. Inr (pcs[t := Working], s))
           | Working \<Rightarrow> bindE (do_next t s) (\<lambda>(more, s).
               if more then Inr (pcs, s) else bindE (leave t s) (\<lambda>s. Inr (pcs[t := Finished], s)))
           | Finished \<Rightarrow> Inr (pcs, s))
        else Inr (pcs, s))"

text \<open>
  The barrier: the phase is over when every worker has finished. A schedule that stops before is
  not a run of the phase.
\<close>

definition run_workers ::
  "(worker_pc list \<times> 's \<Rightarrow> nat \<Rightarrow> (worker_pc list \<times> 's) res) \<Rightarrow> nat \<Rightarrow> nat list \<Rightarrow> 's \<Rightarrow> 's res" where
  "run_workers worker num_threads sched s =
     bindE (foldE worker (replicate num_threads Ready, s) sched) (\<lambda>(pcs, s).
     if list_all (\<lambda>p. p = Finished) pcs then Inr s else Inl No_fuel)"

section \<open>The contract of a phase\<close>

text \<open>
  \<open>inv n\<close> is the invariant of the phase when \<open>n\<close> tasks are left. The laws: a worker's step never
  faults and keeps the invariant, a task that was taken is gone, and a worker leaves only when
  there is no task left.
\<close>

locale worker_phase =
  fixes enter :: "nat \<Rightarrow> 's \<Rightarrow> 's res"
    and do_next :: "nat \<Rightarrow> 's \<Rightarrow> (bool \<times> 's) res"
    and leave :: "nat \<Rightarrow> 's \<Rightarrow> 's res"
    and num_threads :: nat
    and inv :: "nat \<Rightarrow> worker_pc list \<Rightarrow> 's \<Rightarrow> bool"
  assumes enter_ok: "inv n pcs s \<Longrightarrow> length pcs = num_threads \<Longrightarrow> t < num_threads \<Longrightarrow> pcs ! t = Ready \<Longrightarrow>
      \<exists>s'. enter t s = Inr s' \<and> inv n (pcs[t := Working]) s'"
    and next_ok: "inv n pcs s \<Longrightarrow> length pcs = num_threads \<Longrightarrow> t < num_threads \<Longrightarrow> pcs ! t = Working \<Longrightarrow>
      (\<exists>m s'. do_next t s = Inr (True, s') \<and> m < n \<and> inv m pcs s') \<or>
      (n = 0 \<and> (\<exists>s1 s'. do_next t s = Inr (False, s1) \<and> leave t s1 = Inr s' \<and> inv 0 (pcs[t := Finished]) s'))"
begin

text \<open>Turns a worker still needs.\<close>

definition need :: "nat \<Rightarrow> worker_pc \<Rightarrow> nat" where
  "need n p = (case p of Ready \<Rightarrow> n + 2 | Working \<Rightarrow> n + 1 | Finished \<Rightarrow> 0)"

lemma need_mono: "m \<le> n \<Longrightarrow> need m p \<le> need n p"
  by (cases p) (simp_all add: need_def)

lemma step_ok:
  assumes "inv n pcs s" and "length pcs = num_threads" and "Finished \<in> set pcs \<longrightarrow> n = 0"
  shows "\<exists>m pcs' s'. worker_step enter do_next leave (pcs, s) t = Inr (pcs', s') \<and> inv m pcs' s' \<and>
    length pcs' = num_threads \<and> (Finished \<in> set pcs' \<longrightarrow> m = 0) \<and>
    (\<forall>u < num_threads. need m (pcs' ! u) \<le> need n (pcs ! u) - (if u = t then 1 else 0))"
proof (cases "t < num_threads")
  case False
  then show ?thesis using assms by (intro exI [of _ n]) (simp add: worker_step_def)
next
  case t: True
  show ?thesis
  proof (cases "pcs ! t")
    case Ready
    with enter_ok [OF assms(1,2) t] obtain s' where s': "enter t s = Inr s'" "inv n (pcs[t := Working]) s'" by blast
    have "need n (pcs[t := Working] ! u) \<le> need n (pcs ! u) - (if u = t then 1 else 0)" for u
      using Ready t assms(2) by (cases "u = t") (simp_all add: need_def)
    moreover have "Finished \<in> set (pcs[t := Working]) \<longrightarrow> n = 0"
      using assms(3) set_update_subset_insert [of pcs t Working] by blast
    ultimately show ?thesis using s' t assms(2) Ready by (intro exI [of _ n]) (simp add: worker_step_def)
  next
    case Finished
    have "need n (pcs ! u) \<le> need n (pcs ! u) - (if u = t then 1 else 0)" for u
      using Finished by (simp add: need_def)
    then show ?thesis using t assms Finished by (intro exI [of _ n]) (simp add: worker_step_def)
  next
    case Working
    from next_ok [OF assms(1,2) t Working] show ?thesis
    proof (elim disjE conjE exE)
      fix m s' assume s': "do_next t s = Inr (True, s')" "m < n" "inv m pcs s'"
      have "need m (pcs ! u) \<le> need n (pcs ! u) - (if u = t then 1 else 0)" for u
        using need_mono [of m n "pcs ! u"] s'(2) Working by (cases "u = t") (simp_all add: need_def)
      then show ?thesis using s' t assms(2,3) Working by (intro exI [of _ m]) (auto simp: worker_step_def)
    next
      fix s1 s' assume s': "n = 0" "do_next t s = Inr (False, s1)" "leave t s1 = Inr s'" "inv 0 (pcs[t := Finished]) s'"
      have "need 0 (pcs[t := Finished] ! u) \<le> need n (pcs ! u) - (if u = t then 1 else 0)" for u
        using s'(1) t assms(2) by (cases "u = t") (simp_all add: need_def)
      then show ?thesis using s' t assms(2) Working by (intro exI [of _ 0]) (simp add: worker_step_def)
    qed
  qed
qed

text \<open>No schedule faults or breaks the invariant, and turns for everybody finish everybody.\<close>

lemma steps_ok:
  assumes "inv n pcs s" and "length pcs = num_threads" and "Finished \<in> set pcs \<longrightarrow> n = 0"
  shows "\<exists>m pcs' s'. foldE (worker_step enter do_next leave) (pcs, s) sched = Inr (pcs', s') \<and> inv m pcs' s' \<and>
    length pcs' = num_threads \<and> (Finished \<in> set pcs' \<longrightarrow> m = 0) \<and>
    (\<forall>u < num_threads. need m (pcs' ! u) \<le> need n (pcs ! u) - count_list sched u)"
  using assms
proof (induction sched arbitrary: n pcs s)
  case (Cons t sched)
  from step_ok [OF Cons.prems] obtain m1 pcs1 s1 where 1: "worker_step enter do_next leave (pcs, s) t = Inr (pcs1, s1)"
    "inv m1 pcs1 s1" "length pcs1 = num_threads" "Finished \<in> set pcs1 \<longrightarrow> m1 = 0"
    "\<And>u. u < num_threads \<Longrightarrow> need m1 (pcs1 ! u) \<le> need n (pcs ! u) - (if u = t then 1 else 0)" by blast
  from Cons.IH [OF 1(2-4)] obtain m pcs' s' where 2: "foldE (worker_step enter do_next leave) (pcs1, s1) sched = Inr (pcs', s')"
    "inv m pcs' s'" "length pcs' = num_threads" "Finished \<in> set pcs' \<longrightarrow> m = 0"
    "\<And>u. u < num_threads \<Longrightarrow> need m (pcs' ! u) \<le> need m1 (pcs1 ! u) - count_list sched u" by blast
  have "need m (pcs' ! u) \<le> need n (pcs ! u) - count_list (t # sched) u" if "u < num_threads" for u
    using 1(5) [OF that] 2(5) [OF that] by (auto split: if_splits)
  then show ?case using 1(1) 2 by (intro exI [of _ m]) simp
qed auto

theorem run_workers_ok:
  assumes "0 < num_threads" and "inv n (replicate num_threads Ready) s"
    and "\<forall>t < num_threads. n + 2 \<le> count_list sched t"
  shows "\<exists>s'. run_workers (worker_step enter do_next leave) num_threads sched s = Inr s' \<and>
    inv 0 (replicate num_threads Finished) s'"
proof -
  from steps_ok [OF assms(2), of sched] obtain m pcs s' where
    s': "foldE (worker_step enter do_next leave) (replicate num_threads Ready, s) sched = Inr (pcs, s')" "inv m pcs s'"
      "length pcs = num_threads" "Finished \<in> set pcs \<longrightarrow> m = 0" "\<forall>u < num_threads. need m (pcs ! u) \<le> need n (replicate num_threads Ready ! u) - count_list sched u"
    by auto
  have fin: "pcs ! u = Finished" if "u < num_threads" for u
  proof -
    have "need m (pcs ! u) = 0" using s'(5) assms(3) that by (force simp: need_def)
    then show ?thesis by (cases "pcs ! u") (simp_all add: need_def)
  qed
  then have "pcs = replicate num_threads Finished" using s'(3) by (intro nth_equalityI) auto
  moreover have "Finished \<in> set pcs" using fin [OF assms(1)] assms(1) s'(3) nth_mem [of 0 pcs] by simp
  then have "m = 0" using s'(4) by simp
  ultimately show ?thesis using s'(1,2) by (simp add: run_workers_def list_all_iff)
qed

end

end
