(* ===== verification/MapPhase.thy ===== *)
theory MapPhase
  imports MapTasks MergePhase Workers
begin

text \<open>
  The map phase of \<open>src/map_reduce.c\<close>: \<open>emit_intermediate\<close>, \<open>run_combiner\<close>, \<open>map_worker\<close> and \<open>map\<close>. A
  turn of a worker runs one task; what workers share is the task queue, behind its locks, the
  application's memory and the count of tasks. The thread-local variables \<open>curr_thread\<close> and
  \<open>thread_index\<close> of the emit functions are lists over the threads: the calling thread and the
  threads of the pool, which get the same index in every phase.
\<close>

section \<open>The state of a run\<close>

text \<open>\<open>st_tids\<close> is what \<open>pthread_self\<close> returns in each thread.\<close>

record ('u, 'k, 'v) mr_state =
  st_env :: "('u, 'k, 'v) mr_env_t"
  st_tq :: taskQ_t
  st_app :: 'u
  st_heap :: tq_heap
  st_tids :: "nat list"
  st_emit_tls :: "int list"
  st_reduce_tls :: "int list"

text \<open>\<open>mem_calloc\<close> of \<open>tinfo\<close>.\<close>

definition thread_info_0 :: thread_info_t where
  "thread_info_0 = \<lparr>ti_tid = 0, ti_curr_task = 0\<rparr>"

section \<open>Emitting\<close>

definition emit_intermediate ::
  "nat \<Rightarrow> ('u, 'k, 'v) mr_state \<Rightarrow> 'k \<times> 'v \<times> int \<Rightarrow> ('u, 'k, 'v) mr_state res" where
  "emit_intermediate self st kv =
     (let env = st_env st; (key, val, key_size) = kv in
      bindE (arr_get (st_emit_tls st) (int self)) (\<lambda>curr_thread.
      bindE (if curr_thread < 0 then
               bindE (arr_get (st_tids st) (int self)) (\<lambda>mytid.
               bindE (getCurrThreadIndex env TASK_TYPE_MAP mytid) (\<lambda>i. Inr (int i)))
             else Inr curr_thread) (\<lambda>curr_thread.
      bindE (if e_oneOutputQueuePerMapTask env
             then bindE (arr_get (e_tinfo env) curr_thread) (\<lambda>ti. Inr (ti_curr_task ti))
             else Inr curr_thread) (\<lambda>curr_task.
      bindE (e_partition env (e_num_reduce_tasks env) key key_size) (\<lambda>reduce_pos.
      bindE (c_rem reduce_pos (e_num_reduce_tasks env)) (\<lambda>reduce_pos.
      bindE (arr_get (e_intermediate_vals env) curr_task) (\<lambda>row.
      bindE (arr_get row reduce_pos) (\<lambda>arr.
      bindE (insert_keyval_merged (e_key_cmp env) arr key val) (\<lambda>arr.
      bindE (arr_set row reduce_pos arr) (\<lambda>row.
      bindE (arr_set (e_intermediate_vals env) curr_task row) (\<lambda>ivals.
      Inr (st\<lparr>st_emit_tls := (st_emit_tls st)[self := curr_thread],
              st_env := env\<lparr>e_intermediate_vals := ivals\<rparr>\<rparr>))))))))))))"

section \<open>The combiner\<close>

text \<open>One key: its first chunk is kept, with the combined value alone in it.\<close>

definition combine_entry ::
  "('k, 'v) combiner_t \<Rightarrow> ('k, 'v) iterator_t \<Rightarrow> ('k, 'v) keyvals_t \<Rightarrow>
   (('k, 'v) iterator_t \<times> ('k, 'v) keyvals_t) res" where
  "combine_entry combiner itr reduce_pos =
     (if kv_len reduce_pos = 0 then Inr (itr, reduce_pos)
      else
        bindE (iter_add itr reduce_pos) (\<lambda>(ret, itr).
        bindE (CHECK_ERROR (ret \<noteq> 0)) (\<lambda>_.
        bindE (combiner itr) (\<lambda>reduced_val.
        case kv_vals reduce_pos of
          [] \<Rightarrow> Inl Assert_failed
        | val # _ \<Rightarrow>
            bindE (chunk_put reduced_val (val\<lparr>next_insert_pos := 0\<rparr>)) (\<lambda>val.
            Inr (iter_reset itr, reduce_pos\<lparr>kv_vals := [val], kv_len := 1\<rparr>))))))"

fun combine_entries ::
  "('k, 'v) combiner_t \<Rightarrow> ('k, 'v) iterator_t \<Rightarrow> ('k, 'v) keyvals_t list \<Rightarrow>
   (('k, 'v) iterator_t \<times> ('k, 'v) keyvals_t list) res" where
  "combine_entries combiner itr [] = Inr (itr, [])"
| "combine_entries combiner itr (e # es) =
     bindE (combine_entry combiner itr e) (\<lambda>(itr, e).
     bindE (combine_entries combiner itr es) (\<lambda>(itr, es). Inr (itr, e # es)))"

text \<open>The loop over the reduce tasks.\<close>

definition combine_slot ::
  "('k, 'v) combiner_t \<Rightarrow> ('k, 'v) iterator_t \<times> ('k, 'v) keyvals_arr_t list \<Rightarrow> nat \<Rightarrow>
   (('k, 'v) iterator_t \<times> ('k, 'v) keyvals_arr_t list) res" where
  "combine_slot combiner s i =
     (case s of (itr, row) \<Rightarrow>
        bindE (arr_get row (int i)) (\<lambda>my_output.
        bindE (combine_entries combiner itr (kvs_arr my_output)) (\<lambda>(itr, es).
        Inr (itr, row[i := my_output\<lparr>kvs_arr := es\<rparr>]))))"

definition run_combiner ::
  "('k, 'v) combiner_t \<Rightarrow> nat \<Rightarrow> ('u, 'k, 'v) mr_env_t \<Rightarrow> ('u, 'k, 'v) mr_env_t res" where
  "run_combiner combiner thread_index env =
     bindE (assertE (\<not> e_oneOutputQueuePerMapTask env)) (\<lambda>_.
     bindE (iter_init 1) (\<lambda>(ret, itr).
     bindE (CHECK_ERROR (ret \<noteq> 0)) (\<lambda>_.
     bindE (arr_get (e_intermediate_vals env) (int thread_index)) (\<lambda>row.
     bindE (foldE (combine_slot combiner) (itr, row) [0..<nat (e_num_reduce_tasks env)]) (\<lambda>(itr, row).
     Inr (env\<lparr>e_intermediate_vals := (e_intermediate_vals env)[thread_index := row]\<rparr>))))))"

section \<open>Map workers\<close>

definition map_worker_do_next_task ::
  "rand_r_t \<Rightarrow> int \<Rightarrow> nat \<Rightarrow> ('u, 'k, 'v) mr_state \<Rightarrow> (bool \<times> ('u, 'k, 'v) mr_state) res" where
  "map_worker_do_next_task rand_r lgrp thread_index st =
     bindE (tq_dequeue rand_r (st_tq st) lgrp thread_index (st_heap st)) (\<lambda>(ret, map_task, tq, h).
     let st = st\<lparr>st_tq := tq, st_heap := h\<rparr> in
     if ret = 0 then Inr (False, st)
     else
       (let env = st_env st; curr_task = e_num_map_tasks env in
        bindE (arr_get (e_tinfo env) (int thread_index)) (\<lambda>ti.
        let env = env\<lparr>e_num_map_tasks := curr_task + 1,
                      e_tinfo := (e_tinfo env)[thread_index := ti\<lparr>ti_curr_task := curr_task\<rparr>]\<rparr>;
            thread_func_arg = \<lparr>ma_length = task_len map_task, ma_data = task_data map_task\<rparr> in
        bindE (e_map env (st_app st) thread_func_arg) (\<lambda>(u, emitted).
        bindE (foldE (emit_intermediate thread_index) (st\<lparr>st_env := env, st_app := u\<rparr>) emitted) (\<lambda>st.
        Inr (True, st))))))"

text \<open>\<open>map_worker\<close> before its loop, after it, and as a whole.\<close>

definition worker_enter ::
  "os_t \<Rightarrow> int list \<Rightarrow> nat \<Rightarrow> ('u, 'k, 'v) mr_state \<Rightarrow> ('u, 'k, 'v) mr_state res" where
  "worker_enter os cpus thread_index st =
     (let env = st_env st in
      bindE (arr_get (st_tids st) (int thread_index)) (\<lambda>self.
      bindE (arr_get (e_tinfo env) (int thread_index)) (\<lambda>ti.
      let env = env\<lparr>e_tinfo := (e_tinfo env)[thread_index := ti\<lparr>ti_tid := self\<rparr>]\<rparr> in
      bindE (arr_get cpus (int thread_index)) (\<lambda>cpu_id.
      bindE (CHECK_ERROR (proc_bind_thread os cpu_id \<noteq> 0)) (\<lambda>_.
      Inr (st\<lparr>st_env := env\<rparr>))))))"

definition map_worker_leave :: "os_t \<Rightarrow> nat \<Rightarrow> ('u, 'k, 'v) mr_state \<Rightarrow> ('u, 'k, 'v) mr_state res" where
  "map_worker_leave os thread_index st =
     bindE (case e_combiner (st_env st) of
              None \<Rightarrow> Inr (st_env st)
            | Some combiner \<Rightarrow> run_combiner combiner thread_index (st_env st)) (\<lambda>env.
     bindE (CHECK_ERROR (fst (proc_unbind_thread os None) \<noteq> 0)) (\<lambda>_.
     Inr (st\<lparr>st_env := env\<rparr>)))"

definition map_worker ::
  "os_t \<Rightarrow> rand_r_t \<Rightarrow> int list \<Rightarrow> worker_pc list \<times> ('u, 'k, 'v) mr_state \<Rightarrow> nat \<Rightarrow>
   (worker_pc list \<times> ('u, 'k, 'v) mr_state) res" where
  "map_worker os rand_r cpus =
     worker_step (worker_enter os cpus) (map_worker_do_next_task rand_r (loc_get_lgrp os)) (map_worker_leave os)"

text \<open>\<open>start_workers\<close> with map workers: \<open>tinfo\<close> is allocated before and freed after.\<close>

definition start_map_workers ::
  "os_t \<Rightarrow> rand_r_t \<Rightarrow> int \<Rightarrow> nat list \<Rightarrow> ('u, 'k, 'v) mr_state \<Rightarrow> ('u, 'k, 'v) mr_state res" where
  "start_map_workers os rand_r pool_threads sched st =
     (let env = st_env st; num_threads = nat (getNumTaskThreads env TASK_TYPE_MAP) in
      bindE (arr_get (e_schedPolicies env) 0) (\<lambda>sp.
      bindE (start_workers sp (a_proc_offset (e_args env)) pool_threads num_threads) (\<lambda>cpus.
      bindE (run_workers (map_worker os rand_r cpus) num_threads sched (st\<lparr>st_env := env\<lparr>e_tinfo := replicate num_threads thread_info_0\<rparr>\<rparr>)) (\<lambda>st.
      Inr (st\<lparr>st_env := (st_env st)\<lparr>e_tinfo := []\<rparr>\<rparr>)))))"

section \<open>\<open>map\<close>\<close>

definition map_phase ::
  "nat \<Rightarrow> os_t \<Rightarrow> rand_r_t \<Rightarrow> int \<Rightarrow> nat list \<Rightarrow> ('u, 'k, 'v) mr_state \<Rightarrow> ('u, 'k, 'v) mr_state res" where
  "map_phase fuel os rand_r pool_threads sched st =
     bindE (gen_map_tasks fuel os (st_env st) (st_tq st) (st_app st) (st_heap st)) (\<lambda>(num_map_tasks, env, tq, u, h).
     bindE (assertE (num_map_tasks \<ge> 0)) (\<lambda>_.
     let env = env\<lparr>e_num_map_tasks := num_map_tasks,
                   e_num_map_threads := min num_map_tasks (e_num_map_threads env)\<rparr> in
     start_map_workers os rand_r pool_threads sched (st\<lparr>st_env := env, st_tq := tq, st_app := u, st_heap := h\<rparr>)))"

end
