(* ===== verification/ReducePhase.thy ===== *)
theory ReducePhase
  imports MapPhase
begin

text \<open>
  The reduce phase of \<open>src/map_reduce.c\<close>: \<open>emit\<close>, \<open>reduce_worker\<close> and \<open>reduce\<close>. A worker has an
  iterator of its own (\<open>rwta.itr\<close>), uninitialised until it enters; the state of the phase is these
  iterators and the state of the run.
\<close>

section \<open>Emitting\<close>

definition emit_inline ::
  "nat \<Rightarrow> 'k \<Rightarrow> 'v \<Rightarrow> ('u, 'k, 'v) mr_state \<Rightarrow> ('u, 'k, 'v) mr_state res" where
  "emit_inline self key val st =
     (let env = st_env st in
      bindE (arr_get (st_reduce_tls st) (int self)) (\<lambda>thread_index.
      bindE (if thread_index < 0 then
               bindE (arr_get (st_tids st) (int self)) (\<lambda>mytid.
               bindE (getCurrThreadIndex env TASK_TYPE_REDUCE mytid) (\<lambda>i. Inr (int i)))
             else Inr thread_index) (\<lambda>thread_index.
      bindE (if e_oneOutputQueuePerReduceTask env
             then bindE (arr_get (e_tinfo env) thread_index) (\<lambda>ti. Inr (ti_curr_task ti))
             else Inr thread_index) (\<lambda>curr_red_queue.
      bindE (arr_get (e_final_vals env) curr_red_queue) (\<lambda>arr.
      bindE (insert_keyval (e_key_cmp env) (e_oneOutputQueuePerReduceTask env) arr key val) (\<lambda>arr.
      bindE (arr_set (e_final_vals env) curr_red_queue arr) (\<lambda>finals.
      Inr (st\<lparr>st_reduce_tls := (st_reduce_tls st)[self := thread_index],
              st_env := env\<lparr>e_final_vals := finals\<rparr>\<rparr>))))))))"

definition emit :: "nat \<Rightarrow> 'k \<Rightarrow> 'v \<Rightarrow> ('u, 'k, 'v) mr_state \<Rightarrow> ('u, 'k, 'v) mr_state res" where
  "emit self key val st = emit_inline self key val st"

section \<open>Reduce workers\<close>

type_synonym ('u, 'k, 'v) reduce_st = "('k, 'v) iterator_t option list \<times> ('u, 'k, 'v) mr_state"

text \<open>The arrays of the first \<open>n\<close> map threads for one reduce task, and writing them back.\<close>

definition get_column :: "nat \<Rightarrow> int \<Rightarrow> ('k, 'v) keyvals_arr_t list list \<Rightarrow> ('k, 'v) keyvals_arr_t list res" where
  "get_column n task ivals = mapE (\<lambda>t. bindE (arr_get ivals (int t)) (\<lambda>row. arr_get row task)) [0..<n]"

definition put_column ::
  "('k, 'v) keyvals_arr_t list \<Rightarrow> nat \<Rightarrow> ('k, 'v) keyvals_arr_t list list \<Rightarrow> ('k, 'v) keyvals_arr_t list list" where
  "put_column col task ivals =
     map (\<lambda>t. if t < length col then (ivals ! t)[task := col ! t] else ivals ! t) [0..<length ivals]"

definition reduce_worker_do_next_task ::
  "rand_r_t \<Rightarrow> int \<Rightarrow> nat \<Rightarrow> ('u, 'k, 'v) reduce_st \<Rightarrow> (bool \<times> ('u, 'k, 'v) reduce_st) res" where
  "reduce_worker_do_next_task rand_r lgrp thread_index s =
     (let (itrs, st) = s in
      bindE (tq_dequeue rand_r (st_tq st) lgrp thread_index (st_heap st)) (\<lambda>(ret, reduce_task', tq, h).
      let st = st\<lparr>st_tq := tq, st_heap := h\<rparr> in
      if ret = 0 then Inr (False, (itrs, st))
      else
        (let env = st_env st;
             curr_reduce_task = sint (task_id reduce_task');
             num_map_threads = nat (if e_oneOutputQueuePerMapTask env then e_num_map_tasks env else e_num_map_threads env) in
         bindE (arr_get (e_tinfo env) (int thread_index)) (\<lambda>ti.
         let env = env\<lparr>e_tinfo := (e_tinfo env)[thread_index := ti\<lparr>ti_curr_task := to_int32 curr_reduce_task\<rparr>]\<rparr> in
         bindE (arr_get itrs (int thread_index)) (\<lambda>itr.
         case itr of None \<Rightarrow> Inl Bad_access
         | Some itr \<Rightarrow>
             bindE (get_column num_map_threads curr_reduce_task (e_intermediate_vals env)) (\<lambda>col.
             bindE (reduce_task (e_key_cmp env) (e_reduce env) (emit thread_index) num_map_threads col itr
                      (st\<lparr>st_env := env\<rparr>)) (\<lambda>(col, itr, st).
             let env = st_env st;
                 ivals = put_column col (nat curr_reduce_task) (e_intermediate_vals env) in
             Inr (True, (itrs[thread_index := Some itr],
                         st\<lparr>st_env := env\<lparr>e_intermediate_vals := ivals\<rparr>\<rparr>))))))))) "

text \<open>\<open>reduce_worker\<close> before its loop, after it, and as a whole.\<close>

definition reduce_worker_enter ::
  "os_t \<Rightarrow> int list \<Rightarrow> nat \<Rightarrow> ('u, 'k, 'v) reduce_st \<Rightarrow> ('u, 'k, 'v) reduce_st res" where
  "reduce_worker_enter os cpus thread_index s =
     (let (itrs, st) = s in
      bindE (worker_enter os cpus thread_index st) (\<lambda>st.
      bindE (iter_init (e_num_map_threads (st_env st))) (\<lambda>(ret, itr).
      bindE (CHECK_ERROR (ret \<noteq> 0)) (\<lambda>_.
      Inr (itrs[thread_index := Some itr], st)))))"

definition reduce_worker_leave :: "os_t \<Rightarrow> nat \<Rightarrow> ('u, 'k, 'v) reduce_st \<Rightarrow> ('u, 'k, 'v) reduce_st res" where
  "reduce_worker_leave os thread_index s =
     (let (itrs, st) = s in
      bindE (CHECK_ERROR (fst (proc_unbind_thread os None) \<noteq> 0)) (\<lambda>_.
      Inr (itrs[thread_index := None], st)))"

definition reduce_worker ::
  "os_t \<Rightarrow> rand_r_t \<Rightarrow> int list \<Rightarrow> worker_pc list \<times> ('u, 'k, 'v) reduce_st \<Rightarrow> nat \<Rightarrow>
   (worker_pc list \<times> ('u, 'k, 'v) reduce_st) res" where
  "reduce_worker os rand_r cpus =
     worker_step (reduce_worker_enter os cpus) (reduce_worker_do_next_task rand_r (loc_get_lgrp os)) (reduce_worker_leave os)"

definition start_reduce_workers ::
  "os_t \<Rightarrow> rand_r_t \<Rightarrow> int \<Rightarrow> nat list \<Rightarrow> ('u, 'k, 'v) mr_state \<Rightarrow> ('u, 'k, 'v) mr_state res" where
  "start_reduce_workers os rand_r pool_threads sched st =
     (let env = st_env st; num_threads = nat (getNumTaskThreads env TASK_TYPE_REDUCE) in
      bindE (arr_get (e_schedPolicies env) 1) (\<lambda>sp.
      bindE (start_workers sp (a_proc_offset (e_args env)) pool_threads num_threads) (\<lambda>cpus.
      bindE (run_workers (reduce_worker os rand_r cpus) num_threads sched
               (replicate num_threads None,
                st\<lparr>st_env := env\<lparr>e_tinfo := replicate num_threads thread_info_0\<rparr>\<rparr>)) (\<lambda>(_, st).
      Inr (st\<lparr>st_env := (st_env st)\<lparr>e_tinfo := []\<rparr>\<rparr>)))))"

section \<open>\<open>reduce\<close>\<close>

text \<open>At the end the rows are freed.\<close>

definition reduce_phase ::
  "(nat \<Rightarrow> int) \<Rightarrow> task_t \<Rightarrow> os_t \<Rightarrow> rand_r_t \<Rightarrow> int \<Rightarrow> nat list \<Rightarrow> ('u, 'k, 'v) mr_state \<Rightarrow> ('u, 'k, 'v) mr_state res" where
  "reduce_phase rnds t0 os rand_r pool_threads sched st =
     bindE (gen_reduce_tasks rnds t0 (st_env st) (st_tq st) (st_heap st)) (\<lambda>(ret, _, h).
     bindE (CHECK_ERROR (ret \<noteq> 0)) (\<lambda>_.
     bindE (start_reduce_workers os rand_r pool_threads sched (st\<lparr>st_heap := h\<rparr>)) (\<lambda>st.
     Inr (st\<lparr>st_env := (st_env st)\<lparr>e_intermediate_vals := []\<rparr>\<rparr>))))"

end
