(* ===== verification/MapPhase_Correct.thy ===== *)
theory MapPhase_Correct
  imports MapPhase
begin

text \<open>
  The map phase is correct for every schedule of its workers. What it needs of the application is
  stated as locales: \<open>mapper\<close>, \<open>partitioner\<close> and \<open>combining\<close>, put together in \<open>map_job\<close>.
\<close>

section \<open>What the rows hold\<close>

text \<open>
  The values that a list of emitted pairs brings to reduce task \<open>r\<close> for a key, those that tasks still
  to be run will bring, and those that the rows of the first \<open>T\<close> threads hold.
\<close>

definition emitted :: "'k key_cmp \<Rightarrow> ('k \<Rightarrow> nat) \<Rightarrow> ('k \<times> 'v \<times> int) list \<Rightarrow> nat \<Rightarrow> 'k \<Rightarrow> 'v multiset" where
  "emitted key_cmp slot kvs r k =
     mset (map (\<lambda>(k', v, sz). v) (filter (\<lambda>(k', v, sz). slot k' = r \<and> key_cmp k' k = 0) kvs))"

definition pending ::
  "'k key_cmp \<Rightarrow> ('k \<Rightarrow> nat) \<Rightarrow> ('p \<Rightarrow> ('k \<times> 'v \<times> int) list) \<Rightarrow> 'p multiset \<Rightarrow> nat \<Rightarrow> 'k \<Rightarrow> 'v multiset" where
  "pending key_cmp slot emits ps r k = (\<Sum>p \<in># ps. emitted key_cmp slot (emits p) r k)"

definition slot_vals :: "'k key_cmp \<Rightarrow> nat \<Rightarrow> ('k, 'v) keyvals_arr_t list list \<Rightarrow> nat \<Rightarrow> 'k \<Rightarrow> 'v multiset" where
  "slot_vals key_cmp T ivals r k = (\<Sum>t<T. values_of key_cmp (kvs_arr (ivals ! t ! r)) k)"

definition rows_ok :: "'k key_cmp \<Rightarrow> nat \<Rightarrow> nat \<Rightarrow> ('k, 'v) keyvals_arr_t list list \<Rightarrow> bool" where
  "rows_ok key_cmp T n ivals \<longleftrightarrow>
     T \<le> length ivals \<and>
     (\<forall>t < T. length (ivals ! t) = n \<and> (\<forall>r < n. keyvals_arr_ok key_cmp (ivals ! t ! r) \<and> kvs_pos (ivals ! t ! r) = 0))"

lemma emitted_Nil [simp]: "emitted key_cmp slot [] r k = {#}"
  by (simp add: emitted_def)

lemma emitted_Cons: "emitted key_cmp slot (x # kvs) r k = emitted key_cmp slot [x] r k + emitted key_cmp slot kvs r k"
  by (simp add: emitted_def)

lemma emitted_single:
  "emitted key_cmp slot [(k', v, sz)] r k = (if slot k' = r \<and> key_cmp k' k = 0 then {#v#} else {#})"
  by (simp add: emitted_def)

lemma pending_add [simp]:
  "pending key_cmp slot emits (add_mset p ps) r k = emitted key_cmp slot (emits p) r k + pending key_cmp slot emits ps r k"
  by (simp add: pending_def)

lemma pending_empty [simp]: "pending key_cmp slot emits {#} r k = {#}"
  by (simp add: pending_def)

lemma rows_okD:
  assumes "rows_ok key_cmp T n ivals" and "t < T"
  shows "t < length ivals" "length (ivals ! t) = n"
    "r < n \<Longrightarrow> keyvals_arr_ok key_cmp (ivals ! t ! r)" "r < n \<Longrightarrow> kvs_pos (ivals ! t ! r) = 0"
  using assms by (auto simp: rows_ok_def)

lemma rows_ok_update:
  assumes "rows_ok key_cmp T n ivals" and "t < T" and "length row = n"
    and "\<forall>r < n. keyvals_arr_ok key_cmp (row ! r) \<and> kvs_pos (row ! r) = 0"
  shows "rows_ok key_cmp T n (ivals[t := row])"
  using assms by (auto simp: rows_ok_def nth_list_update)

lemma slot_vals_split:
  assumes "t < T"
  shows "slot_vals key_cmp T ivals r k =
    values_of key_cmp (kvs_arr (ivals ! t ! r)) k + (\<Sum>u \<in> {..<T} - {t}. values_of key_cmp (kvs_arr (ivals ! u ! r)) k)"
  using assms unfolding slot_vals_def by (subst sum.remove [of _ t]) auto

lemma slot_vals_update:
  assumes "t < T" and "t < length ivals"
  shows "slot_vals key_cmp T (ivals[t := row]) r k =
    values_of key_cmp (kvs_arr (row ! r)) k + (\<Sum>u \<in> {..<T} - {t}. values_of key_cmp (kvs_arr (ivals ! u ! r)) k)"
proof -
  have "(\<Sum>u \<in> {..<T} - {t}. values_of key_cmp (kvs_arr (ivals[t := row] ! u ! r)) k) =
    (\<Sum>u \<in> {..<T} - {t}. values_of key_cmp (kvs_arr (ivals ! u ! r)) k)"
    by (rule sum.cong) auto
  then show ?thesis using slot_vals_split [OF assms(1), of key_cmp "ivals[t := row]"] assms(2) by simp
qed

section \<open>The application's contracts\<close>

text \<open>
  \<open>app_ok u ps\<close>: the application's memory is such that the map function can be called on the pieces
  \<open>ps\<close>, in any order; \<open>emits\<close> is what it emits for a piece.
\<close>

locale mapper =
  fixes mapf :: "('u, 'k, 'v) map_t"
    and emits :: "map_args_t \<Rightarrow> ('k \<times> 'v \<times> int) list"
    and app_ok :: "'u \<Rightarrow> map_args_t multiset \<Rightarrow> bool"
  assumes map_emits: "app_ok u (add_mset p ps) \<Longrightarrow> \<exists>u'. mapf u p = Inr (u', emits p) \<and> app_ok u' ps"

text \<open>
  The documentation of \<open>partition_t\<close> asks that equal keys get equal numbers. A negative number
  would stay negative under C's remainder, so it must not occur.
\<close>

locale partitioner = key_order key_cmp for key_cmp :: "'k key_cmp" +
  fixes part_fn :: "'k partition_t"
    and num_tasks :: nat
    and slot :: "'k \<Rightarrow> nat"
    and valid_key :: "'k \<Rightarrow> int \<Rightarrow> bool"
  assumes partition_slot: "valid_key k sz \<Longrightarrow>
      \<exists>r. part_fn (int num_tasks) k sz = Inr r \<and> 0 \<le> r \<and> nat (r mod int num_tasks) = slot k"
    and slot_cong: "key_cmp k k' = 0 \<Longrightarrow> slot k = slot k'"
    and tasks_pos: "0 < num_tasks"

text \<open>
  \<open>agg A B\<close>: the values \<open>B\<close> stand for the values \<open>A\<close>. Without a combiner that is equality. A combiner's
  result stands for what it combined.
\<close>

locale combining =
  fixes combiner :: "('k, 'v) combiner_t option"
    and agg :: "'v multiset \<Rightarrow> 'v multiset \<Rightarrow> bool"
  assumes agg_refl [simp]: "agg A A"
    and agg_trans: "agg A B \<Longrightarrow> agg B C \<Longrightarrow> agg A C"
    and agg_add: "agg A B \<Longrightarrow> agg (A + C) (B + C)"
    and agg_empty: "agg A B \<Longrightarrow> A = {#} \<longleftrightarrow> B = {#}"
    and combine: "combiner = Some c \<Longrightarrow> loaded i [e] \<Longrightarrow> \<exists>v. c i = Inr v \<and> agg (mset (kv_values e)) {#v#}"

locale map_job =
  partitioner key_cmp part_fn num_tasks slot valid_key + mapper mapf emits app_ok + combining combiner agg
  for key_cmp :: "'k key_cmp" and part_fn num_tasks slot valid_key
    and mapf :: "('u, 'k, 'v) map_t" and emits app_ok
    and combiner :: "('k, 'v) combiner_t option" and agg +
  assumes emits_valid: "app_ok u (add_mset p ps) \<Longrightarrow> (k, v, sz) \<in> set (emits p) \<Longrightarrow> valid_key k sz"
begin

lemma slot_less: "valid_key k sz \<Longrightarrow> slot k < num_tasks"
  using partition_slot [of k sz] mod_index [OF tasks_pos] by metis

end

section \<open>Emitting\<close>

text \<open>The fields of the environment that the map phase relies on and never changes.\<close>

definition env_fits ::
  "'k key_cmp \<Rightarrow> 'k partition_t \<Rightarrow> nat \<Rightarrow> ('u, 'k, 'v) map_t \<Rightarrow> ('k, 'v) combiner_t option \<Rightarrow> nat \<Rightarrow>
   ('u, 'k, 'v) mr_env_t \<Rightarrow> bool" where
  "env_fits key_cmp part_fn n mapf combiner T env \<longleftrightarrow>
     e_key_cmp env = key_cmp \<and> e_partition env = part_fn \<and> e_num_reduce_tasks env = int n \<and> e_map env = mapf \<and>
     e_combiner env = combiner \<and> e_num_map_threads env = int T \<and> \<not> e_oneOutputQueuePerMapTask env"

text \<open>Thread \<open>t\<close> finds itself: it is registered, and a thread that is not yet has the number 0.\<close>

definition registered :: "nat list \<Rightarrow> nat \<Rightarrow> (nat \<Rightarrow> bool) \<Rightarrow> thread_info_t list \<Rightarrow> bool" where
  "registered tids T here tinfo \<longleftrightarrow>
     length tinfo = T \<and> T \<le> length tids \<and> distinct tids \<and> 0 \<notin> set tids \<and>
     (\<forall>t < T. ti_tid (tinfo ! t) = (if here t then tids ! t else 0))"

definition tls_ok :: "nat \<Rightarrow> int list \<Rightarrow> bool" where
  "tls_ok T tls \<longleftrightarrow> T \<le> length tls \<and> (\<forall>t < T. tls ! t = -1 \<or> tls ! t = int t)"

lemma registered_index:
  assumes "registered tids T here (e_tinfo env)" and "t < T" and "here t" and "nat (getNumTaskThreads env ty) = T"
  shows "getCurrThreadIndex env ty (tids ! t) = Inr t"
proof -
  have r: "length (e_tinfo env) = T" "ti_tid (e_tinfo env ! t) = tids ! t" using assms by (simp_all add: registered_def)
  have "ti_tid (e_tinfo env ! k) \<noteq> tids ! t" if "k < t" for k
  proof -
    have "tids ! t \<in> set tids" "0 \<notin> set tids" using assms(1,2) by (simp_all add: registered_def)
    then have "tids ! t \<noteq> 0" by metis
    moreover have "tids ! k \<noteq> tids ! t" using assms(1,2) that by (simp add: registered_def nth_eq_iff_index_eq)
    ultimately show ?thesis using assms(1,2) that by (simp add: registered_def)
  qed
  then have "find_tid T (tids ! t) 0 (e_tinfo env) = Inr t"
    using find_tid_spec [of 0 T "e_tinfo env" t] assms(2) r by simp
  then show ?thesis using assms(2,4) by (simp add: getCurrThreadIndex_def)
qed

context map_job
begin

lemma emit_intermediate_ok:
  assumes "env_fits key_cmp part_fn num_tasks mapf combiner T (st_env st)"
    and "registered (st_tids st) T here (e_tinfo (st_env st))" and "t < T" "here t"
    and "tls_ok T (st_emit_tls st)" and "rows_ok key_cmp T num_tasks (e_intermediate_vals (st_env st))"
    and "valid_key k sz"
  shows "\<exists>ivals. emit_intermediate t st (k, v, sz) =
      Inr (st\<lparr>st_emit_tls := (st_emit_tls st)[t := int t], st_env := (st_env st)\<lparr>e_intermediate_vals := ivals\<rparr>\<rparr>) \<and>
    length ivals = length (e_intermediate_vals (st_env st)) \<and>
    rows_ok key_cmp T num_tasks ivals \<and>
    (\<forall>r < num_tasks. \<forall>k'. slot_vals key_cmp T ivals r k' =
       slot_vals key_cmp T (e_intermediate_vals (st_env st)) r k' + emitted key_cmp slot [(k, v, sz)] r k')"
proof -
  let ?env = "st_env st" and ?iv = "e_intermediate_vals (st_env st)"
  note env = assms(1) [unfolded env_fits_def]
  have tls: "t < length (st_emit_tls st)" "st_emit_tls st ! t = -1 \<or> st_emit_tls st ! t = int t"
    using assms(3,5) by (auto simp: tls_ok_def)
  have tid: "arr_get (st_tids st) (int t) = Inr (st_tids st ! t)" using assms(2,3) by (simp add: registered_def)
  have idx: "getCurrThreadIndex ?env TASK_TYPE_MAP (st_tids st ! t) = Inr t"
    using registered_index [OF assms(2-4)] env by (simp add: getNumTaskThreads_def)
  obtain r where r: "part_fn (int num_tasks) k sz = Inr r" "0 \<le> r" "nat (r mod int num_tasks) = slot k"
    using partition_slot [OF assms(7)] by blast
  have s: "slot k < num_tasks" "r mod int num_tasks = int (slot k)"
    using slot_less [OF assms(7)] mod_index [OF tasks_pos, of r] r(3) by simp_all
  have rem: "c_rem r (int num_tasks) = Inr (int (slot k))" using r(2) s(2) tasks_pos by (simp add: c_rem_pos)
  note row = rows_okD [OF assms(6,3)]
  obtain a where a: "insert_keyval_merged key_cmp (?iv ! t ! slot k) k v = Inr a" "keyvals_arr_ok key_cmp a" "kvs_pos a = 0"
    "\<And>k'. values_of key_cmp (kvs_arr a) k' = (if key_cmp k k' = 0 then add_mset v (values_of key_cmp (kvs_arr (?iv ! t ! slot k)) k')
      else values_of key_cmp (kvs_arr (?iv ! t ! slot k)) k')"
    using insert_keyval_merged_correct [OF row(3) [OF s(1)], of k v] row(4) [OF s(1)] by metis
  let ?row = "(?iv ! t)[slot k := a]"
  have eval: "emit_intermediate t st (k, v, sz) =
      Inr (st\<lparr>st_emit_tls := (st_emit_tls st)[t := int t], st_env := ?env\<lparr>e_intermediate_vals := ?iv[t := ?row]\<rparr>\<rparr>)"
    using tls tid idx env r(1) rem row(1,2) s(1) a(1)
    by (cases "st_emit_tls st ! t < 0") (auto simp: emit_intermediate_def Let_def)
  have "rows_ok key_cmp T num_tasks (?iv[t := ?row])"
    using row a(2,3) s(1) by (intro rows_ok_update [OF assms(6,3)]) (auto simp: nth_list_update)
  moreover have "slot_vals key_cmp T (?iv[t := ?row]) q k' = slot_vals key_cmp T ?iv q k' + emitted key_cmp slot [(k, v, sz)] q k'"
    if "q < num_tasks" for q k'
    unfolding slot_vals_update [OF assms(3) row(1)] slot_vals_split [OF assms(3), of key_cmp ?iv] emitted_single
    using a(4) [of k'] that row(2) s(1) by (auto simp: nth_list_update)
  ultimately show ?thesis using eval by (intro exI [of _ "?iv[t := ?row]"]) simp
qed

lemma tls_ok_set: "tls_ok T tls \<Longrightarrow> t < T \<Longrightarrow> tls_ok T (tls[t := int t])"
  by (auto simp: tls_ok_def nth_list_update)

lemma emits_ok:
  assumes "env_fits key_cmp part_fn num_tasks mapf combiner T (st_env st)"
    and "registered (st_tids st) T here (e_tinfo (st_env st))" and "t < T" "here t"
    and "tls_ok T (st_emit_tls st)" and "rows_ok key_cmp T num_tasks (e_intermediate_vals (st_env st))"
    and "\<forall>(k, v, sz) \<in> set kvs. valid_key k sz"
  shows "\<exists>tls ivals. foldE (emit_intermediate t) st kvs =
      Inr (st\<lparr>st_emit_tls := tls, st_env := (st_env st)\<lparr>e_intermediate_vals := ivals\<rparr>\<rparr>) \<and>
    length ivals = length (e_intermediate_vals (st_env st)) \<and> tls_ok T tls \<and>
    rows_ok key_cmp T num_tasks ivals \<and>
    (\<forall>r < num_tasks. \<forall>k'. slot_vals key_cmp T ivals r k' =
       slot_vals key_cmp T (e_intermediate_vals (st_env st)) r k' + emitted key_cmp slot kvs r k')"
  using assms(1,2,5-7)
proof (induction kvs arbitrary: st)
  case Nil
  then show ?case
    by (intro exI [of _ "st_emit_tls st"] exI [of _ "e_intermediate_vals (st_env st)"]) simp
next
  case (Cons x kvs)
  obtain k v sz where x: "x = (k, v, sz)" by (cases x) auto
  have "valid_key k sz" using Cons.prems(5) x by simp
  from emit_intermediate_ok [OF Cons.prems(1,2) assms(3,4) Cons.prems(3,4) this, of v] obtain ivals where
    1: "emit_intermediate t st x =
      Inr (st\<lparr>st_emit_tls := (st_emit_tls st)[t := int t], st_env := (st_env st)\<lparr>e_intermediate_vals := ivals\<rparr>\<rparr>)"
      "length ivals = length (e_intermediate_vals (st_env st))" "rows_ok key_cmp T num_tasks ivals"
      "\<forall>r < num_tasks. \<forall>k'. slot_vals key_cmp T ivals r k' =
       slot_vals key_cmp T (e_intermediate_vals (st_env st)) r k' + emitted key_cmp slot [x] r k'"
    unfolding x by blast
  let ?st = "st\<lparr>st_emit_tls := (st_emit_tls st)[t := int t], st_env := (st_env st)\<lparr>e_intermediate_vals := ivals\<rparr>\<rparr>"
  have "env_fits key_cmp part_fn num_tasks mapf combiner T (st_env ?st)" using Cons.prems(1) by (simp add: env_fits_def)
  moreover have "registered (st_tids ?st) T here (e_tinfo (st_env ?st))" using Cons.prems(2) by simp
  moreover have "tls_ok T (st_emit_tls ?st)" using tls_ok_set [OF Cons.prems(3) assms(3)] by simp
  ultimately obtain tls iv' where
    2: "foldE (emit_intermediate t) ?st kvs = Inr (?st\<lparr>st_emit_tls := tls, st_env := (st_env ?st)\<lparr>e_intermediate_vals := iv'\<rparr>\<rparr>)"
      "length iv' = length ivals" "tls_ok T tls" "rows_ok key_cmp T num_tasks iv'"
      "\<forall>r < num_tasks. \<forall>k'. slot_vals key_cmp T iv' r k' = slot_vals key_cmp T ivals r k' + emitted key_cmp slot kvs r k'"
    using Cons.IH [of ?st] 1(3) Cons.prems(5) by auto
  have "slot_vals key_cmp T iv' r k' =
       slot_vals key_cmp T (e_intermediate_vals (st_env st)) r k' + emitted key_cmp slot (x # kvs) r k'" if "r < num_tasks" for r k'
    using 1(4) 2(5) that emitted_Cons [of key_cmp slot x kvs r k'] by (simp add: ac_simps)
  then show ?case using 1(1,2) 2(1-4) by (intro exI [of _ tls] exI [of _ iv']) simp
qed

end

section \<open>Combining\<close>

context combining
begin

lemma agg_add2: "agg A A' \<Longrightarrow> agg B B' \<Longrightarrow> agg (A + B) (A' + B')"
  using agg_add [of A A' B] agg_add [of B B' A'] agg_trans by (simp add: add.commute)

lemma combine_entry_ok:
  assumes "combiner = Some c" and "iter_fresh itr" "max_list itr = 1" and "keyvals_ok e"
  shows "\<exists>itr' e'. combine_entry c itr e = Inr (itr', e') \<and> iter_fresh itr' \<and> max_list itr' = 1 \<and>
    kv_key e' = kv_key e \<and> keyvals_ok e' \<and> agg (mset (kv_values e)) (mset (kv_values e'))"
proof -
  have len: "kv_len e \<noteq> 0" using keyvals_ok_nonempty [OF assms(4)] by simp
  obtain i where i: "iter_add itr e = Inr (0, i)" "loaded i [e]" "max_list i = 1"
    using iter_add_loaded [OF loaded_Nil [OF assms(2)] assms(4)] assms(3) by auto
  obtain v where v: "c i = Inr v" "agg (mset (kv_values e)) {#v#}" using combine [OF assms(1) i(2)] by blast
  obtain w ws where w: "kv_vals e = w # ws" "chunk_ok w" using assms(4) by (cases "kv_vals e") (auto simp: keyvals_ok_def)
  let ?w = "w\<lparr>varray := v # drop (Suc 0) (varray w), next_insert_pos := Suc 0\<rparr>"
  have "chunk_put v (w\<lparr>next_insert_pos := 0\<rparr>) = Inr ?w"
    using w(2) by (simp add: chunk_put_def chunk_ok_def)
  then have "combine_entry c itr e = Inr (iter_reset i, e\<lparr>kv_vals := [?w], kv_len := 1\<rparr>)"
    using len i(1) v(1) w(1) by (simp add: combine_entry_def)
  moreover have "kv_values (e\<lparr>kv_vals := [?w], kv_len := 1\<rparr>) = [v]" by (simp add: kv_values_def chunk_vals_def)
  moreover from this have "keyvals_ok (e\<lparr>kv_vals := [?w], kv_len := 1\<rparr>)"
    using w(2) by (simp add: keyvals_ok_def chunk_ok_def)
  ultimately show ?thesis using v(2) i(3) by (intro exI [of _ "iter_reset i"] exI [of _ "e\<lparr>kv_vals := [?w], kv_len := 1\<rparr>"]) simp
qed

lemma combine_entries_ok:
  assumes "combiner = Some c" and "iter_fresh itr" "max_list itr = 1" and "\<forall>e \<in> set es. keyvals_ok e"
  shows "\<exists>itr' es'. combine_entries c itr es = Inr (itr', es') \<and> iter_fresh itr' \<and> max_list itr' = 1 \<and>
    map kv_key es' = map kv_key es \<and> (\<forall>e \<in> set es'. keyvals_ok e) \<and>
    (\<forall>k. agg (values_of key_cmp es k) (values_of key_cmp es' k))"
  using assms(2-4)
proof (induction es arbitrary: itr)
  case (Cons e es)
  have e: "keyvals_ok e" "\<forall>x \<in> set es. keyvals_ok x" using Cons.prems(3) by simp_all
  obtain i1 e' where 1: "combine_entry c itr e = Inr (i1, e')" "iter_fresh i1" "max_list i1 = 1"
    "kv_key e' = kv_key e" "keyvals_ok e'" "agg (mset (kv_values e)) (mset (kv_values e'))"
    using combine_entry_ok [OF assms(1) Cons.prems(1,2) e(1)] by blast
  obtain i2 es' where 2: "combine_entries c i1 es = Inr (i2, es')" "iter_fresh i2" "max_list i2 = 1"
    "map kv_key es' = map kv_key es" "\<forall>e \<in> set es'. keyvals_ok e" "\<forall>k. agg (values_of key_cmp es k) (values_of key_cmp es' k)"
    using Cons.IH [OF 1(2,3) e(2)] by blast
  have "agg (values_of key_cmp (e # es) k) (values_of key_cmp (e' # es') k)" for k
    using agg_add2 [OF 1(6)] 1(4) 2(6) by simp
  then show ?case using 1 2 by (intro exI [of _ i2] exI [of _ "e' # es'"]) simp
qed auto

text \<open>A thread's row after its combiner has run.\<close>

definition combined :: "'k key_cmp \<Rightarrow> ('k, 'v) keyvals_arr_t \<Rightarrow> ('k, 'v) keyvals_arr_t \<Rightarrow> bool" where
  "combined key_cmp a a' \<longleftrightarrow> keyvals_arr_ok key_cmp a' \<and> kvs_pos a' = kvs_pos a \<and>
     (\<forall>k. agg (values_of key_cmp (kvs_arr a) k) (values_of key_cmp (kvs_arr a') k))"

lemma combined_refl: "keyvals_arr_ok key_cmp a \<Longrightarrow> combined key_cmp a a"
  by (simp add: combined_def)

lemma combine_slot_ok:
  assumes "combiner = Some c" and "iter_fresh itr" "max_list itr = 1" and "i < length row" "keyvals_arr_ok key_cmp (row ! i)"
  shows "\<exists>itr' a. combine_slot c (itr, row) i = Inr (itr', row[i := a]) \<and> iter_fresh itr' \<and> max_list itr' = 1 \<and>
    combined key_cmp (row ! i) a"
proof -
  have es: "\<forall>e \<in> set (kvs_arr (row ! i)). keyvals_ok e" using assms(5) by (simp add: keyvals_arr_ok_def)
  obtain i' es' where c: "combine_entries c itr (kvs_arr (row ! i)) = Inr (i', es')" "iter_fresh i'" "max_list i' = 1"
    "map kv_key es' = map kv_key (kvs_arr (row ! i))" "\<forall>e \<in> set es'. keyvals_ok e"
    "\<forall>k. agg (values_of key_cmp (kvs_arr (row ! i)) k) (values_of key_cmp es' k)"
    using combine_entries_ok [OF assms(1-3) es] by blast
  have "length es' = length (kvs_arr (row ! i))" using c(4) by (metis length_map)
  then have "combined key_cmp (row ! i) ((row ! i)\<lparr>kvs_arr := es'\<rparr>)"
    using assms(5) c(4-6) by (simp add: combined_def keyvals_arr_ok_def)
  then show ?thesis using c assms(4)
    by (intro exI [of _ i'] exI [of _ "(row ! i)\<lparr>kvs_arr := es'\<rparr>"]) (simp add: combine_slot_def)
qed

lemma run_combiner_ok:
  assumes "combiner = Some c" and "\<not> e_oneOutputQueuePerMapTask env" and "e_num_reduce_tasks env = int n"
    and "t < length (e_intermediate_vals env)" and "row = e_intermediate_vals env ! t" and "length row = n"
    and "\<forall>r < n. keyvals_arr_ok key_cmp (row ! r)"
  shows "\<exists>row'. run_combiner c t env = Inr (env\<lparr>e_intermediate_vals := (e_intermediate_vals env)[t := row']\<rparr>) \<and>
    length row' = n \<and> (\<forall>r < n. combined key_cmp (row ! r) (row' ! r))"
proof -
  define P where "P i s \<longleftrightarrow> iter_fresh (fst s) \<and> max_list (fst s) = 1 \<and> length (snd s) = n \<and>
     (\<forall>r < n. r < i \<longrightarrow> combined key_cmp (row ! r) (snd s ! r)) \<and> (\<forall>r < n. i \<le> r \<longrightarrow> snd s ! r = row ! r)"
    for i and s :: "('k, 'v) iterator_t \<times> ('k, 'v) keyvals_arr_t list"
  obtain itr :: "('k, 'v) iterator_t" where itr: "iter_init 1 = Inr (0, itr)" "iter_fresh itr" "max_list itr = 1"
    using iter_init_fresh [of 1] by auto
  have "\<exists>s'. combine_slot c s i = Inr s' \<and> P (Suc i) s'" if i: "i < n" and p: "P i s" for i s
  proof -
    obtain x r where s: "s = (x, r)" by (cases s)
    have r: "r ! i = row ! i" "length r = n" "iter_fresh x" "max_list x = 1" using p i s by (auto simp: P_def)
    have ri: "i < length r" "keyvals_arr_ok key_cmp (r ! i)" using r(1,2) i assms(7) by simp_all
    obtain x' a where "combine_slot c (x, r) i = Inr (x', r[i := a])" "iter_fresh x'" "max_list x' = 1"
      "combined key_cmp (row ! i) a"
      using combine_slot_ok [OF assms(1) r(3,4) ri] r(1) by auto
    then show ?thesis using p s i by (auto simp: P_def nth_list_update less_Suc_eq)
  qed
  moreover have "P 0 (itr, row)" using itr(2,3) assms(6) by (simp add: P_def)
  ultimately obtain s' where s': "foldE (combine_slot c) (itr, row) [0..<n] = Inr s'" "P n s'"
    using foldE_upt [of P "(itr, row)" n "combine_slot c"] by blast
  have "run_combiner c t env = Inr (env\<lparr>e_intermediate_vals := (e_intermediate_vals env)[t := snd s']\<rparr>)"
    using assms(2-5) itr(1) s'(1) by (simp add: run_combiner_def case_prod_beta)
  then show ?thesis using s'(2) by (auto simp: P_def)
qed

end

section \<open>The invariant of the phase\<close>

text \<open>The contracts of an application, for the functions in an environment.\<close>

record ('u, 'k, 'v) job =
  j_slot :: "'k \<Rightarrow> nat"
  j_valid :: "'k \<Rightarrow> int \<Rightarrow> bool"
  j_emits :: "map_args_t \<Rightarrow> ('k \<times> 'v \<times> int) list"
  j_app_ok :: "'u \<Rightarrow> map_args_t multiset \<Rightarrow> bool"
  j_agg :: "'v multiset \<Rightarrow> 'v multiset \<Rightarrow> bool"

definition job_ok :: "('u, 'k, 'v) job \<Rightarrow> ('u, 'k, 'v) mr_env_t \<Rightarrow> bool" where
  "job_ok J env \<longleftrightarrow>
     map_job (e_key_cmp env) (e_partition env) (nat (e_num_reduce_tasks env)) (j_slot J) (j_valid J)
       (e_map env) (j_emits J) (j_app_ok J) (e_combiner env) (j_agg J) \<and>
     0 < e_num_reduce_tasks env \<and> 0 < e_num_map_threads env \<and> \<not> e_oneOutputQueuePerMapTask env"

definition key_args :: "task_key \<Rightarrow> map_args_t" where
  "key_args k = (case k of (i, l, d) \<Rightarrow> \<lparr>ma_length = l, ma_data = d\<rparr>)"

definition piece_args :: "task_key list list \<Rightarrow> map_args_t multiset" where
  "piece_args tss = image_mset key_args (mset (concat tss))"

definition job_pending :: "('u, 'k, 'v) job \<Rightarrow> 'k key_cmp \<Rightarrow> map_args_t multiset \<Rightarrow> nat \<Rightarrow> 'k \<Rightarrow> 'v multiset" where
  "job_pending J key_cmp = pending key_cmp (j_slot J) (j_emits J)"

text \<open>What the machine must provide to workers on the CPUs \<open>cpus\<close>.\<close>

definition machine_ok :: "os_t \<Rightarrow> rand_r_t \<Rightarrow> nat \<Rightarrow> int list \<Rightarrow> bool" where
  "machine_ok os rand_r T cpus \<longleftrightarrow>
     os_ok os \<and> (\<forall>s. 0 \<le> fst (rand_r s)) \<and> T \<le> length cpus \<and> (\<forall>t < T. 0 \<le> cpus ! t \<and> cpus ! t < nprocessors_onln os)"

text \<open>A state of the phase that started in \<open>st0\<close>: only these components change.\<close>

definition map_st ::
  "('u, 'k, 'v) mr_state \<Rightarrow> int \<Rightarrow> thread_info_t list \<Rightarrow> ('k, 'v) keyvals_arr_t list list \<Rightarrow> int list \<Rightarrow> 'u \<Rightarrow> tq_heap \<Rightarrow> taskQ_t \<Rightarrow>
   ('u, 'k, 'v) mr_state" where
  "map_st st0 m ti ivals tls u h tq =
     st0\<lparr>st_env := (st_env st0)\<lparr>e_num_map_tasks := m, e_tinfo := ti, e_intermediate_vals := ivals\<rparr>,
         st_emit_tls := tls, st_app := u, st_heap := h, st_tq := tq\<rparr>"

definition map_data ::
  "('u, 'k, 'v) job \<Rightarrow> ('u, 'k, 'v) mr_env_t \<Rightarrow> (nat \<Rightarrow> 'k \<Rightarrow> 'v multiset) \<Rightarrow> nat \<Rightarrow> ('k, 'v) keyvals_arr_t list list \<Rightarrow>
   'u \<Rightarrow> map_args_t multiset \<Rightarrow> bool" where
  "map_data J env due T ivals u ps \<longleftrightarrow>
     rows_ok (e_key_cmp env) T (nat (e_num_reduce_tasks env)) ivals \<and>
     length ivals = length (e_intermediate_vals env) \<and> j_app_ok J u ps \<and>
     (\<forall>r < nat (e_num_reduce_tasks env). \<forall>k.
        j_agg J (due r k) (slot_vals (e_key_cmp env) T ivals r k + job_pending J (e_key_cmp env) ps r k))"

definition map_inv ::
  "os_t \<Rightarrow> rand_r_t \<Rightarrow> int list \<Rightarrow> ('u, 'k, 'v) job \<Rightarrow> ('u, 'k, 'v) mr_state \<Rightarrow> (nat \<Rightarrow> 'k \<Rightarrow> 'v multiset) \<Rightarrow> nat \<Rightarrow>
   nat \<Rightarrow> worker_pc list \<Rightarrow> ('u, 'k, 'v) mr_state \<Rightarrow> bool" where
  "map_inv os rand_r cpus J st0 due T n pcs st \<longleftrightarrow>
     job_ok J (st_env st0) \<and> T = nat (e_num_map_threads (st_env st0)) \<and> machine_ok os rand_r T cpus \<and>
     (\<exists>m ti ivals tls u h tq tss. st = map_st st0 m ti ivals tls u h tq \<and>
        registered (st_tids st0) T (\<lambda>t. pcs ! t \<noteq> Ready) ti \<and> tls_ok T tls \<and>
        tq_has h tq tss \<and> (T \<le> num_threads tq \<and> num_threads tq = num_threads (st_tq st0)) \<and> n = length (concat tss) \<and>
        brk h = brk (st_heap st0) \<and> mem_limit h = mem_limit (st_heap st0) \<and>
        map_data J (st_env st0) due T ivals u (piece_args tss))"

lemma map_st_sel [simp]:
  "st_env (map_st st0 m ti ivals tls u h tq) = (st_env st0)\<lparr>e_num_map_tasks := m, e_tinfo := ti, e_intermediate_vals := ivals\<rparr>"
  "st_tids (map_st st0 m ti ivals tls u h tq) = st_tids st0" "st_tq (map_st st0 m ti ivals tls u h tq) = tq"
  "st_heap (map_st st0 m ti ivals tls u h tq) = h" "st_app (map_st st0 m ti ivals tls u h tq) = u"
  "st_emit_tls (map_st st0 m ti ivals tls u h tq) = tls"
  by (simp_all add: map_st_def)

lemma registered_enter:
  assumes "registered tids T (\<lambda>t. pcs ! t \<noteq> Ready) ti" and "t < T" and "length pcs = T"
  shows "registered tids T (\<lambda>u. pcs[t := Working] ! u \<noteq> Ready) (ti[t := (ti ! t)\<lparr>ti_tid := tids ! t\<rparr>])"
  using assms by (auto simp: registered_def nth_list_update)

lemma registered_task:
  "registered tids T here ti \<Longrightarrow> t < T \<Longrightarrow> registered tids T here (ti[t := (ti ! t)\<lparr>ti_curr_task := m\<rparr>])"
  by (auto simp: registered_def nth_list_update)

lemma piece_args_tl:
  assumes "j < length tss" and "tss ! j \<noteq> []"
  shows "piece_args tss = add_mset (key_args (hd (tss ! j))) (piece_args (tss[j := tl (tss ! j)]))"
    "length (concat tss) = Suc (length (concat (tss[j := tl (tss ! j)])))"
proof -
  note c = concat_update_tl [OF assms, symmetric]
  show "piece_args tss = add_mset (key_args (hd (tss ! j))) (piece_args (tss[j := tl (tss ! j)]))"
    unfolding piece_args_def c by simp
  show "length (concat tss) = Suc (length (concat (tss[j := tl (tss ! j)])))"
    using arg_cong [OF c, of size] by (simp only: size_mset size_add_mset)
qed

lemma map_enter_ok:
  assumes "map_inv os rand_r cpus J st0 due T n pcs st" and "length pcs = T" and "t < T"
  shows "\<exists>st'. worker_enter os cpus t st = Inr st' \<and> map_inv os rand_r cpus J st0 due T n (pcs[t := Working]) st'"
proof -
  obtain m ti ivals tls u h tq tss where
    st: "st = map_st st0 m ti ivals tls u h tq" and reg: "registered (st_tids st0) T (\<lambda>t. pcs ! t \<noteq> Ready) ti"
    and rest: "tls_ok T tls" "tq_has h tq tss" "T \<le> num_threads tq \<and> num_threads tq = num_threads (st_tq st0)" "n = length (concat tss)"
      "brk h = brk (st_heap st0)" "mem_limit h = mem_limit (st_heap st0)" "map_data J (st_env st0) due T ivals u (piece_args tss)"
    using assms(1) unfolding map_inv_def by blast
  have inv: "job_ok J (st_env st0)" "T = nat (e_num_map_threads (st_env st0))" "machine_ok os rand_r T cpus"
    using assms(1) unfolding map_inv_def by blast+
  let ?ti = "ti[t := (ti ! t)\<lparr>ti_tid := st_tids st0 ! t\<rparr>]"
  have "arr_get (st_tids st0) (int t) = Inr (st_tids st0 ! t)" "arr_get ti (int t) = Inr (ti ! t)"
    "arr_get cpus (int t) = Inr (cpus ! t)" "proc_bind_thread os (cpus ! t) = 0"
    using reg assms(3) inv(3) proc_bind_online [of os "cpus ! t"] by (simp_all add: registered_def machine_ok_def)
  then have "worker_enter os cpus t st = Inr (map_st st0 m ?ti ivals tls u h tq)"
    by (simp add: worker_enter_def st Let_def map_st_def)
  moreover have "map_inv os rand_r cpus J st0 due T n (pcs[t := Working]) (map_st st0 m ?ti ivals tls u h tq)"
    unfolding map_inv_def
    using inv rest registered_enter [OF reg assms(3,2)]
    by (intro conjI exI [of _ m] exI [of _ ?ti] exI [of _ ivals] exI [of _ tls] exI [of _ u] exI [of _ h] exI [of _ tq]
        exI [of _ tss]) simp_all
  ultimately show ?thesis by blast
qed

lemma job_okD:
  assumes "job_ok J env"
  shows "map_job (e_key_cmp env) (e_partition env) (nat (e_num_reduce_tasks env)) (j_slot J) (j_valid J)
       (e_map env) (j_emits J) (j_app_ok J) (e_combiner env) (j_agg J)"
    "combining (e_combiner env) (j_agg J)" "mapper (e_map env) (j_emits J) (j_app_ok J)" "key_order (e_key_cmp env)"
    "partitioner (e_key_cmp env) (e_partition env) (nat (e_num_reduce_tasks env)) (j_slot J) (j_valid J)"
  using assms unfolding job_ok_def map_job_def partitioner_def by blast+

text \<open>A task's emissions move its values from the pending ones to the rows.\<close>

lemma map_data_emits:
  assumes "job_ok J env" and "map_data J env due T ivals u (add_mset p ps)" and "T = nat (e_num_map_threads env)"
    and "st_env st = env\<lparr>e_num_map_tasks := m, e_tinfo := ti, e_intermediate_vals := ivals\<rparr>"
    and "registered (st_tids st) T here ti" "t < T" "here t" "tls_ok T (st_emit_tls st)"
  shows "\<exists>u' tls ivals'. e_map env u p = Inr (u', j_emits J p) \<and>
    foldE (emit_intermediate t) st (j_emits J p) =
      Inr (st\<lparr>st_emit_tls := tls, st_env := (st_env st)\<lparr>e_intermediate_vals := ivals'\<rparr>\<rparr>) \<and>
    tls_ok T tls \<and> map_data J env due T ivals' u' ps"
proof -
  note J = job_okD [OF assms(1)]
  let ?cmp = "e_key_cmp env" and ?n = "nat (e_num_reduce_tasks env)"
  have d: "rows_ok ?cmp T ?n ivals" "length ivals = length (e_intermediate_vals env)" "j_app_ok J u (add_mset p ps)"
    "\<forall>r < ?n. \<forall>k. j_agg J (due r k) (slot_vals ?cmp T ivals r k + job_pending J ?cmp (add_mset p ps) r k)"
    using assms(2) by (simp_all add: map_data_def)
  obtain u' where u': "e_map env u p = Inr (u', j_emits J p)" "j_app_ok J u' ps"
    using mapper.map_emits [OF J(3) d(3)] by blast
  have valid: "\<forall>(k, v, sz) \<in> set (j_emits J p). j_valid J k sz"
    using map_job.emits_valid [OF J(1) d(3)] by auto
  have fits: "env_fits ?cmp (e_partition env) ?n (e_map env) (e_combiner env) T (st_env st)"
    using assms(1,3,4) by (auto simp: env_fits_def job_ok_def)
  have r: "registered (st_tids st) T here (e_tinfo (st_env st))" "rows_ok ?cmp T ?n (e_intermediate_vals (st_env st))"
    using assms(4,5) d(1) by simp_all
  from map_job.emits_ok [OF J(1) fits r(1) assms(6-8) r(2) valid] obtain tls ivals' where
    e: "foldE (emit_intermediate t) st (j_emits J p) =
      Inr (st\<lparr>st_emit_tls := tls, st_env := (st_env st)\<lparr>e_intermediate_vals := ivals'\<rparr>\<rparr>)"
      "length ivals' = length ivals" "tls_ok T tls" "rows_ok ?cmp T ?n ivals'"
      "\<forall>r < ?n. \<forall>k. slot_vals ?cmp T ivals' r k = slot_vals ?cmp T ivals r k + emitted ?cmp (j_slot J) (j_emits J p) r k"
    using assms(4) by auto
  have "map_data J env due T ivals' u' ps"
    using d e(2,4,5) u'(2) by (simp add: map_data_def job_pending_def add.assoc)
  then show ?thesis using u'(1) e(1,3) by blast
qed

text \<open>Running the combiner on a row keeps what the rows stand for.\<close>

lemma map_data_combine:
  assumes "job_ok J env" and "map_data J env due T ivals u ps" and "t < T"
    and "length row = nat (e_num_reduce_tasks env)"
    and "\<forall>r < nat (e_num_reduce_tasks env). combining.combined (j_agg J) (e_key_cmp env) (ivals ! t ! r) (row ! r)"
  shows "map_data J env due T (ivals[t := row]) u ps"
proof -
  note J = job_okD [OF assms(1)] and cb = combining.combined_def [OF job_okD(2) [OF assms(1)]]
  let ?cmp = "e_key_cmp env" and ?n = "nat (e_num_reduce_tasks env)"
  have d: "rows_ok ?cmp T ?n ivals" "length ivals = length (e_intermediate_vals env)" "j_app_ok J u ps"
    "\<forall>r < ?n. \<forall>k. j_agg J (due r k) (slot_vals ?cmp T ivals r k + job_pending J ?cmp ps r k)"
    using assms(2) by (simp_all add: map_data_def)
  note row = rows_okD [OF d(1) assms(3)]
  have c: "keyvals_arr_ok ?cmp (row ! r)" "kvs_pos (row ! r) = 0"
    "j_agg J (values_of ?cmp (kvs_arr (ivals ! t ! r)) k) (values_of ?cmp (kvs_arr (row ! r)) k)" if "r < ?n" for r k
    using assms(5) row(4) [OF that] that unfolding cb by auto
  have "rows_ok ?cmp T ?n (ivals[t := row])"
    using c assms(4) by (intro rows_ok_update [OF d(1) assms(3)]) auto
  moreover have "j_agg J (due r k) (slot_vals ?cmp T (ivals[t := row]) r k + job_pending J ?cmp ps r k)" if r: "r < ?n" for r k
  proof -
    let ?others = "(\<Sum>v \<in> {..<T} - {t}. values_of ?cmp (kvs_arr (ivals ! v ! r)) k) + job_pending J ?cmp ps r k"
    have "j_agg J (values_of ?cmp (kvs_arr (ivals ! t ! r)) k + ?others) (values_of ?cmp (kvs_arr (row ! r)) k + ?others)"
      by (rule combining.agg_add [OF J(2) c(3) [OF r]])
    then have "j_agg J (slot_vals ?cmp T ivals r k + job_pending J ?cmp ps r k)
        (slot_vals ?cmp T (ivals[t := row]) r k + job_pending J ?cmp ps r k)"
      unfolding slot_vals_update [OF assms(3) row(1)] slot_vals_split [OF assms(3), of ?cmp ivals] by (simp add: add.assoc)
    then show ?thesis using combining.agg_trans [OF J(2)] d(4) r by blast
  qed
  ultimately show ?thesis using d(2,3) by (simp add: map_data_def)
qed

lemma map_leave_ok:
  assumes "map_inv os rand_r cpus J st0 due T n pcs st" and "length pcs = T" and "t < T" and "pcs ! t \<noteq> Ready"
  shows "\<exists>st'. map_worker_leave os t st = Inr st' \<and> map_inv os rand_r cpus J st0 due T n (pcs[t := Finished]) st'"
proof -
  obtain m ti ivals tls u h tq tss where
    st: "st = map_st st0 m ti ivals tls u h tq" and reg: "registered (st_tids st0) T (\<lambda>t. pcs ! t \<noteq> Ready) ti"
    and rest: "tls_ok T tls" "tq_has h tq tss" "T \<le> num_threads tq \<and> num_threads tq = num_threads (st_tq st0)" "n = length (concat tss)"
      "brk h = brk (st_heap st0)" "mem_limit h = mem_limit (st_heap st0)"
    and data: "map_data J (st_env st0) due T ivals u (piece_args tss)"
    using assms(1) unfolding map_inv_def by blast
  have inv: "job_ok J (st_env st0)" "T = nat (e_num_map_threads (st_env st0))" "machine_ok os rand_r T cpus"
    using assms(1) unfolding map_inv_def by blast+
  let ?env = "(st_env st0)\<lparr>e_num_map_tasks := m, e_tinfo := ti, e_intermediate_vals := ivals\<rparr>"
  let ?n = "nat (e_num_reduce_tasks (st_env st0))"
  have unb: "fst (proc_unbind_thread os None) = 0" using inv(3) by (simp add: machine_ok_def proc_unbind_ok)
  have reg': "registered (st_tids st0) T (\<lambda>u. pcs[t := Finished] ! u \<noteq> Ready) ti"
    using reg assms(2-4) by (auto simp: registered_def nth_list_update)
  have "\<exists>iv'. map_worker_leave os t st = Inr (map_st st0 m ti iv' tls u h tq) \<and>
    map_data J (st_env st0) due T iv' u (piece_args tss)"
  proof (cases "e_combiner (st_env st0)")
    case None
    then have "map_worker_leave os t st = Inr (map_st st0 m ti ivals tls u h tq)"
      using unb by (simp add: map_worker_leave_def st map_st_def)
    then show ?thesis using data by blast
  next
    case (Some c)
    have rows: "rows_ok (e_key_cmp (st_env st0)) T ?n ivals" using data by (simp add: map_data_def)
    note row = rows_okD [OF rows assms(3)]
    have q: "\<not> e_oneOutputQueuePerMapTask ?env" "e_num_reduce_tasks ?env = int ?n" "t < length (e_intermediate_vals ?env)"
      "ivals ! t = e_intermediate_vals ?env ! t"
      using inv(1) row(1) by (simp_all add: job_ok_def)
    have ok: "\<forall>r < ?n. keyvals_arr_ok (e_key_cmp (st_env st0)) (ivals ! t ! r)" using row(3) by blast
    obtain row' where r: "run_combiner c t ?env = Inr (?env\<lparr>e_intermediate_vals := ivals[t := row']\<rparr>)" "length row' = ?n"
      "\<forall>r < ?n. combining.combined (j_agg J) (e_key_cmp (st_env st0)) (ivals ! t ! r) (row' ! r)"
      using combining.run_combiner_ok [OF job_okD(2) [OF inv(1)] Some q row(2) ok] by auto
    have "map_worker_leave os t st = Inr (map_st st0 m ti (ivals[t := row']) tls u h tq)"
      using unb Some r(1) by (simp add: map_worker_leave_def st) (simp add: map_st_def)
    then show ?thesis using map_data_combine [OF inv(1) data assms(3) r(2,3)] by blast
  qed
  then obtain iv' where iv': "map_worker_leave os t st = Inr (map_st st0 m ti iv' tls u h tq)"
    "map_data J (st_env st0) due T iv' u (piece_args tss)" by blast
  have "map_inv os rand_r cpus J st0 due T n (pcs[t := Finished]) (map_st st0 m ti iv' tls u h tq)"
    unfolding map_inv_def
    using inv rest reg' iv'(2)
    by (intro conjI exI [of _ m] exI [of _ ti] exI [of _ iv'] exI [of _ tls] exI [of _ u] exI [of _ h] exI [of _ tq]
        exI [of _ tss]) simp_all
  then show ?thesis using iv'(1) by blast
qed

lemma map_next_ok:
  assumes "map_inv os rand_r cpus J st0 due T n pcs st" and "length pcs = T" and "t < T" and "pcs ! t = Working"
  shows "(\<exists>m st'. map_worker_do_next_task rand_r lgrp t st = Inr (True, st') \<and> m < n \<and>
      map_inv os rand_r cpus J st0 due T m pcs st') \<or>
    (n = 0 \<and> (\<exists>st1. map_worker_do_next_task rand_r lgrp t st = Inr (False, st1) \<and>
      map_inv os rand_r cpus J st0 due T 0 pcs st1))"
proof -
  obtain m ti ivals tls u h tq tss where
    st: "st = map_st st0 m ti ivals tls u h tq" and reg: "registered (st_tids st0) T (\<lambda>t. pcs ! t \<noteq> Ready) ti"
    and rest: "tls_ok T tls" "tq_has h tq tss" "T \<le> num_threads tq \<and> num_threads tq = num_threads (st_tq st0)" "n = length (concat tss)"
      "brk h = brk (st_heap st0)" "mem_limit h = mem_limit (st_heap st0)"
    and data: "map_data J (st_env st0) due T ivals u (piece_args tss)"
    using assms(1) unfolding map_inv_def by blast
  have inv: "job_ok J (st_env st0)" "T = nat (e_num_map_threads (st_env st0))" "machine_ok os rand_r T cpus"
    using assms(1) unfolding map_inv_def by blast+
  have tid: "t < num_threads tq" "\<forall>s. 0 \<le> fst (rand_r s)" using assms(3) rest(3) inv(3) by (simp_all add: machine_ok_def)
  from tq_has_dequeue [OF rest(2) tid, of lgrp] show ?thesis
  proof (elim disjE conjE exE)
    fix tq' assume c: "concat tss = []" "tq_dequeue rand_r tq lgrp t h = Inr (0, task_0, tq', h)" "tq_has h tq' tss"
      "num_threads tq' = num_threads tq"
    have "map_worker_do_next_task rand_r lgrp t st = Inr (False, map_st st0 m ti ivals tls u h tq')"
      using c(2) by (simp add: map_worker_do_next_task_def st) (simp add: map_st_def)
    moreover have "map_inv os rand_r cpus J st0 due T 0 pcs (map_st st0 m ti ivals tls u h tq')"
      unfolding map_inv_def
      using inv rest reg data c
      by (intro conjI exI [of _ m] exI [of _ ti] exI [of _ ivals] exI [of _ tls] exI [of _ u] exI [of _ h] exI [of _ tq']
          exI [of _ tss]) simp_all
    ultimately show ?thesis using c(1) rest(4) by simp
  next
    fix j task tq' h' assume c: "j < length tss" "tss ! j \<noteq> []" "task_key task = hd (tss ! j)"
      "tq_dequeue rand_r tq lgrp t h = Inr (1, task, tq', h')" "tq_has h' tq' (tss[j := tl (tss ! j)])"
      "num_threads tq' = num_threads tq" "brk h' = brk h" "mem_limit h' = mem_limit h"
    note tl = piece_args_tl [OF c(1,2)]
    let ?p = "\<lparr>ma_length = task_len task, ma_data = task_data task\<rparr>" and ?ti = "ti[t := (ti ! t)\<lparr>ti_curr_task := m\<rparr>]"
    let ?tss = "tss[j := tl (tss ! j)]"
    have p: "key_args (hd (tss ! j)) = ?p" by (simp flip: c(3) add: task_key_def key_args_def)
    have data': "map_data J (st_env st0) due T ivals u (add_mset ?p (piece_args ?tss))" using data tl(1) p by simp
    then have "j_app_ok J u (add_mset ?p (piece_args ?tss))" by (simp add: map_data_def)
    then obtain u1 where u1: "e_map (st_env st0) u ?p = Inr (u1, j_emits J ?p)"
      using mapper.map_emits [OF job_okD(3) [OF inv(1)]] by blast
    let ?st = "map_st st0 (m + 1) ?ti ivals tls u1 h' tq'"
    have reg': "registered (st_tids ?st) T (\<lambda>t. pcs ! t \<noteq> Ready) ?ti"
      using registered_task [OF reg assms(3)] by simp
    have env: "st_env ?st = (st_env st0)\<lparr>e_num_map_tasks := m + 1, e_tinfo := ?ti, e_intermediate_vals := ivals\<rparr>" by simp
    have here: "pcs ! t \<noteq> Ready" "tls_ok T (st_emit_tls ?st)" using assms(4) rest(1) by simp_all
    from map_data_emits [OF inv(1) data' inv(2) env reg' assms(3) here] obtain tls' ivals' where
      e: "foldE (emit_intermediate t) ?st (j_emits J ?p) =
          Inr (?st\<lparr>st_emit_tls := tls', st_env := (st_env ?st)\<lparr>e_intermediate_vals := ivals'\<rparr>\<rparr>)"
        "tls_ok T tls'" "map_data J (st_env st0) due T ivals' u1 (piece_args ?tss)" using u1 by auto
    have ti: "arr_get ti (int t) = Inr (ti ! t)" using reg assms(3) by (simp add: registered_def)
    have s1: "(map_st st0 m ti ivals tls u h tq)\<lparr>st_tq := tq', st_heap := h', st_env := (st_env (map_st st0 m ti ivals tls u h tq))
        \<lparr>e_num_map_tasks := m + 1, e_tinfo := ?ti\<rparr>, st_app := u1\<rparr> = ?st"
      by (cases st0; cases "st_env st0") (simp add: map_st_def)
    have s2: "?st\<lparr>st_emit_tls := tls', st_env := (st_env ?st)\<lparr>e_intermediate_vals := ivals'\<rparr>\<rparr> =
        map_st st0 (m + 1) ?ti ivals' tls' u1 h' tq'"
      by (cases st0; cases "st_env st0") (simp add: map_st_def)
    have "map_worker_do_next_task rand_r lgrp t st = Inr (True, map_st st0 (m + 1) ?ti ivals' tls' u1 h' tq')"
      using c(4) u1 e(1) [unfolded s2] ti s1 by (simp add: map_worker_do_next_task_def st Let_def)
    moreover have "map_inv os rand_r cpus J st0 due T (length (concat ?tss)) pcs (map_st st0 (m + 1) ?ti ivals' tls' u1 h' tq')"
      unfolding map_inv_def
      using inv rest c reg' e(2,3)
      by (intro conjI exI [of _ "m + 1"] exI [of _ ?ti] exI [of _ ivals'] exI [of _ tls'] exI [of _ u1] exI [of _ h'] exI [of _ tq']
          exI [of _ ?tss]) simp_all
    moreover have "length (concat ?tss) < n" using tl(2) rest(4) by simp
    ultimately show ?thesis by blast
  qed
qed

text \<open>So the map workers are a phase, whatever the application, the machine and the start.\<close>

interpretation map_workers: worker_phase "worker_enter os cpus" "map_worker_do_next_task rand_r lgrp" "map_worker_leave os"
    T "map_inv os rand_r cpus J st0 due T"
  for os cpus rand_r lgrp T J st0 due
proof unfold_locales
  fix n pcs and st :: "('a, 'b, 'c) mr_state" and t
  assume "map_inv os rand_r cpus J st0 due T n pcs st" "length pcs = T" "t < T"
  then show "\<exists>s'. worker_enter os cpus t st = Inr s' \<and> map_inv os rand_r cpus J st0 due T n (pcs[t := Working]) s'"
    by (rule map_enter_ok)
next
  fix n pcs and st :: "('a, 'b, 'c) mr_state" and t
  assume a: "map_inv os rand_r cpus J st0 due T n pcs st" "length pcs = T" "t < T" "pcs ! t = Working"
  from map_next_ok [OF a, of lgrp] show "(\<exists>m s'. map_worker_do_next_task rand_r lgrp t st = Inr (True, s') \<and> m < n \<and>
      map_inv os rand_r cpus J st0 due T m pcs s') \<or>
    (n = 0 \<and> (\<exists>s1 s'. map_worker_do_next_task rand_r lgrp t st = Inr (False, s1) \<and> map_worker_leave os t s1 = Inr s' \<and>
      map_inv os rand_r cpus J st0 due T 0 (pcs[t := Finished]) s'))"
    using map_leave_ok [OF _ a(2,3)] a(4) by (metis worker_pc.distinct(1))
qed

section \<open>The phase\<close>

lemma start_workers_mod:
  assumes "0 < n" and "0 < sp_num_cpus sp" and "0 \<le> off" and "int n - 1 \<le> pool"
  shows "start_workers sp off pool n = Inr (map (\<lambda>t. (int t + off) mod sp_num_cpus sp) [0..<n])"
proof -
  have "mapE (\<lambda>t. sched_thr_to_cpu sp (int t + off)) [0..<n] = Inr (map (\<lambda>t. (int t + off) mod sp_num_cpus sp) [0..<n])"
    using assms by (intro mapE_Inr) (simp add: sched_thr_to_cpu_mod)
  then show ?thesis using assms by (simp add: start_workers_def)
qed

text \<open>What \<open>start_workers\<close> and the workers need of the machine, the policy and the pool.\<close>

definition workers_fit :: "os_t \<Rightarrow> rand_r_t \<Rightarrow> sched_policy \<Rightarrow> int \<Rightarrow> int \<Rightarrow> nat \<Rightarrow> bool" where
  "workers_fit os rand_r sp off pool T \<longleftrightarrow>
     os_ok os \<and> (\<forall>s. 0 \<le> fst (rand_r s)) \<and> 0 < sp_num_cpus sp \<and> sp_num_cpus sp \<le> nprocessors_onln os \<and>
     0 \<le> off \<and> 0 < T \<and> int T - 1 \<le> pool"

lemma workers_fit_start:
  assumes "workers_fit os rand_r sp off pool T"
  shows "\<exists>cpus. start_workers sp off pool T = Inr cpus \<and> machine_ok os rand_r T cpus \<and> 0 < T"
proof -
  have c: "0 < sp_num_cpus sp" "sp_num_cpus sp \<le> nprocessors_onln os" using assms by (simp_all add: workers_fit_def)
  have "0 \<le> (int t + off) mod sp_num_cpus sp" "(int t + off) mod sp_num_cpus sp < nprocessors_onln os" for t
    using c pos_mod_bound [OF c(1), of "int t + off"] by (simp, linarith)
  then show ?thesis
    using assms start_workers_mod [of T sp off pool] by (auto simp: workers_fit_def machine_ok_def)
qed

lemma key_args_piece_keys: "map key_args (piece_keys n ps) = ps"
  by (induction ps arbitrary: n) (simp_all add: key_args_def)

lemma values_of_empty_rows:
  "T \<le> M \<Longrightarrow> r < n \<Longrightarrow> slot_vals key_cmp T (replicate M (replicate n keyvals_arr_0)) r k = {#}"
  by (simp add: slot_vals_def keyvals_arr_0_def)

lemma rows_ok_empty: "T \<le> M \<Longrightarrow> rows_ok key_cmp T n (replicate M (replicate n keyvals_arr_0))"
  by (simp add: rows_ok_def keyvals_arr_0_ok) (simp add: keyvals_arr_0_def)

lemma map_workers_ok:
  assumes "job_ok J (st_env st)" and "T = nat (e_num_map_threads (st_env st))"
    and "e_intermediate_vals (st_env st) = replicate M (replicate (nat (e_num_reduce_tasks (st_env st))) keyvals_arr_0)" "T \<le> M"
    and "workers_fit os rand_r sp (a_proc_offset (e_args (st_env st))) pool T" and "e_schedPolicies (st_env st) = sp # pols"
    and "length (st_tids st) \<ge> T" "distinct (st_tids st)" "0 \<notin> set (st_tids st)" "tls_ok T (st_emit_tls st)"
    and "tq_has (st_heap st) (st_tq st) tss" "T \<le> num_threads (st_tq st)"
    and "j_app_ok J (st_app st) (piece_args tss)"
    and "\<forall>t < T. length (concat tss) + 2 \<le> count_list sched t"
  shows "\<exists>m ivals tls u h tq tss'. start_map_workers os rand_r pool sched st = Inr (map_st st m [] ivals tls u h tq) \<and>
    map_data J (st_env st) (job_pending J (e_key_cmp (st_env st)) (piece_args tss)) T ivals u {#} \<and> tls_ok T tls \<and>
    tq_has h tq tss' \<and> concat tss' = [] \<and> num_threads tq = num_threads (st_tq st) \<and>
    brk h = brk (st_heap st) \<and> mem_limit h = mem_limit (st_heap st)"
proof -
  let ?due = "job_pending J (e_key_cmp (st_env st)) (piece_args tss)" and ?env = "st_env st"
  let ?n = "nat (e_num_reduce_tasks ?env)" and ?iv = "e_intermediate_vals ?env"
  let ?s = "st\<lparr>st_env := ?env\<lparr>e_tinfo := replicate T thread_info_0\<rparr>\<rparr>"
  obtain cpus where cpus: "start_workers sp (a_proc_offset (e_args ?env)) pool T = Inr cpus" "machine_ok os rand_r T cpus" "0 < T"
    using workers_fit_start [OF assms(5)] by blast
  have "map_data J ?env ?due T ?iv (st_app st) (piece_args tss)"
    using assms(3,4,13) combining.agg_refl [OF job_okD(2) [OF assms(1)]]
    by (simp add: map_data_def rows_ok_empty values_of_empty_rows)
  moreover have "registered (st_tids st) T (\<lambda>t. replicate T Ready ! t \<noteq> Ready) (replicate T thread_info_0)"
    using assms(7-9) by (simp add: registered_def thread_info_0_def)
  moreover have "?s = map_st st (e_num_map_tasks ?env) (replicate T thread_info_0) ?iv (st_emit_tls st) (st_app st) (st_heap st) (st_tq st)"
    by (cases st; cases ?env) (simp add: map_st_def)
  ultimately have inv: "map_inv os rand_r cpus J st ?due T (length (concat tss)) (replicate T Ready) ?s"
    unfolding map_inv_def using assms(1,2,10-12) cpus(2) by blast
  obtain st' where st': "run_workers (map_worker os rand_r cpus) T sched ?s = Inr st'"
    "map_inv os rand_r cpus J st ?due T 0 (replicate T Finished) st'"
    using map_workers.run_workers_ok [OF cpus(3) inv assms(14), of "loc_get_lgrp os"] unfolding map_worker_def by blast
  then obtain m ti ivals tls u h tq tss' where e: "st' = map_st st m ti ivals tls u h tq" "tls_ok T tls" "tq_has h tq tss'"
    "T \<le> num_threads tq \<and> num_threads tq = num_threads (st_tq st)" "length (concat tss') = 0" "brk h = brk (st_heap st)" "mem_limit h = mem_limit (st_heap st)"
    "map_data J ?env ?due T ivals u (piece_args tss')" unfolding map_inv_def by metis
  have fin: "st'\<lparr>st_env := (st_env st')\<lparr>e_tinfo := []\<rparr>\<rparr> = map_st st m [] ivals tls u h tq"
    by (simp add: e(1)) (simp add: map_st_def)
  have "start_map_workers os rand_r pool sched st = Inr (map_st st m [] ivals tls u h tq)"
    using assms(2,6) cpus(1) st'(1) fin by (simp add: start_map_workers_def getNumTaskThreads_def arr_get_def Let_def)
  moreover have "piece_args tss' = {#}" "concat tss' = []" using e(5) by (simp_all add: piece_args_def)
  ultimately show ?thesis using e by metis
qed

text \<open>
  \<open>map\<close>, for a splitter that is a stream of the pieces \<open>ps\<close>: whatever the schedule, as long as every
  worker gets enough turns, the rows of the workers hold together exactly what the map function
  emits for the pieces, each value under its key in the slot of its reduce task.
\<close>

lemma map_phase_ok:
  assumes "value_stream (call_splitter (st_env st) (e_chunk_size (st_env st))) pieces ok"
    and "ok (e_splitter_pos (st_env st), st_app st)" "pieces (e_splitter_pos (st_env st), st_app st) = ps"
    and "length ps < fuel" "ps \<noteq> []"
    and "\<forall>pos u. ok (pos, u) \<longrightarrow> j_app_ok J u (mset ps)"
    and "job_ok J (st_env st)" and "T = min (length ps) (nat (e_num_map_threads (st_env st)))"
    and "e_intermediate_vals (st_env st) = replicate M (replicate (nat (e_num_reduce_tasks (st_env st))) keyvals_arr_0)" "T \<le> M"
    and "workers_fit os rand_r sp (a_proc_offset (e_args (st_env st))) pool T" and "e_schedPolicies (st_env st) = sp # pols"
    and "length (st_tids st) \<ge> T" "distinct (st_tids st)" "0 \<notin> set (st_tids st)" "tls_ok T (st_emit_tls st)"
    and "tq_has (st_heap st) (st_tq st) tss" "concat tss = []" "T \<le> num_threads (st_tq st)"
    and "room (st_heap st) (QUEUE_SIZE + 2 * ENTRY_SIZE * length ps)" "0 < loc_get_lgrp_size os"
    and "\<forall>t < T. length ps + 2 \<le> count_list sched t"
  shows "\<exists>pos m ivals tls u h tq tss'.
    map_phase fuel os rand_r pool sched st =
      Inr (map_st (st\<lparr>st_env := (st_env st)\<lparr>e_splitter_pos := pos, e_num_map_threads := int T\<rparr>\<rparr>) m [] ivals tls u h tq) \<and>
    map_data J (st_env st) (job_pending J (e_key_cmp (st_env st)) (mset ps)) T ivals u {#} \<and> tls_ok T tls \<and>
    tq_has h tq tss' \<and> concat tss' = [] \<and> num_threads tq = num_threads (st_tq st) \<and>
    brk h = brk (st_heap st) + QUEUE_SIZE + 2 * ENTRY_SIZE * length ps \<and> mem_limit h = mem_limit (st_heap st)"
proof -
  let ?env = "st_env st" and ?b = "e_splitter (st_env st) \<noteq> None \<and> e_locator (st_env st) = None"
  let ?n = "tq_count os (nat (e_num_map_threads ?env))"
  have M: "0 \<le> e_num_map_threads ?env" "0 < e_num_map_threads ?env" using assms(7) by (simp_all add: job_ok_def)
  obtain pos u1 h1 where g: "gen_map_tasks fuel os ?env (st_tq st) (st_app st) (st_heap st) =
      Inr (int (length ps), ?env\<lparr>e_splitter_pos := pos\<rparr>, st_tq st, u1, h1)"
    "tq_has h1 (st_tq st) (map_tasks_spread ?b ?n (piece_keys 0 ps) tss)" "ok (pos, u1)"
    "brk h1 = brk (st_heap st) + QUEUE_SIZE + 2 * ENTRY_SIZE * length ps" "mem_limit h1 = mem_limit (st_heap st)"
    using gen_map_tasks_ok [OF assms(1-5,17,20,21) M(1)] by blast
  let ?tss = "map_tasks_spread ?b ?n (piece_keys 0 ps) tss"
  let ?env1 = "?env\<lparr>e_splitter_pos := pos, e_num_map_tasks := int (length ps), e_num_map_threads := int T\<rparr>"
  let ?st = "st\<lparr>st_env := ?env1, st_tq := st_tq st, st_app := u1, st_heap := h1\<rparr>"
  have "tss \<noteq> []" using tq_has_length [OF assms(17)] by auto
  moreover have "0 < ?n" by (simp add: tq_count_def)
  ultimately have spread: "mset (concat ?tss) = mset (piece_keys 0 ps)"
    using mset_map_tasks_spread [of ?n tss ?b] assms(18) by simp
  then have pa: "piece_args ?tss = mset ps" and len: "length (concat ?tss) = length ps"
    using key_args_piece_keys [of 0 ps] mset_eq_length [OF spread] by (simp_all add: piece_args_def flip: mset_map)
  have tmin: "min (int (length ps)) (e_num_map_threads ?env) = int T" using assms(8) M(1) by linarith
  have tpos: "0 < T" using assms(5,8) M(2) by (cases ps) auto
  have job: "job_ok J (st_env ?st)" using assms(7) tpos by (simp add: job_ok_def)
  have args: "T = nat (e_num_map_threads (st_env ?st))"
    "e_intermediate_vals (st_env ?st) = replicate M (replicate (nat (e_num_reduce_tasks (st_env ?st))) keyvals_arr_0)"
    "workers_fit os rand_r sp (a_proc_offset (e_args (st_env ?st))) pool T" "e_schedPolicies (st_env ?st) = sp # pols"
    "length (st_tids ?st) \<ge> T" "distinct (st_tids ?st)" "0 \<notin> set (st_tids ?st)" "tls_ok T (st_emit_tls ?st)"
    "tq_has (st_heap ?st) (st_tq ?st) ?tss" "T \<le> num_threads (st_tq ?st)" "j_app_ok J (st_app ?st) (piece_args ?tss)"
    "\<forall>t < T. length (concat ?tss) + 2 \<le> count_list sched t"
    using assms(6,9-16,19,22) g(2,3) pa len by simp_all
  obtain m ivals tls u h tq tss' where w: "start_map_workers os rand_r pool sched ?st = Inr (map_st ?st m [] ivals tls u h tq)"
    "map_data J (st_env ?st) (job_pending J (e_key_cmp (st_env ?st)) (piece_args ?tss)) T ivals u {#}" "tls_ok T tls"
    "tq_has h tq tss'" "concat tss' = []" "num_threads tq = num_threads (st_tq ?st)"
    "brk h = brk (st_heap ?st)" "mem_limit h = mem_limit (st_heap ?st)"
    using map_workers_ok [OF job args(1,2) assms(10) args(3-12)] by blast
  have "map_phase fuel os rand_r pool sched st = start_map_workers os rand_r pool sched ?st"
    using g(1) by (simp add: map_phase_def Let_def tmin)
  moreover have "map_st ?st m [] ivals tls u h tq =
      map_st (st\<lparr>st_env := ?env\<lparr>e_splitter_pos := pos, e_num_map_threads := int T\<rparr>\<rparr>) m [] ivals tls u h tq"
    by (cases st; cases ?env) (simp add: map_st_def)
  ultimately show ?thesis
    using w g(4,5) pa by (intro exI [of _ pos] exI [of _ m] exI [of _ ivals] exI [of _ tls] exI [of _ u] exI [of _ h] exI [of _ tq]
        exI [of _ tss']) (simp add: map_data_def)
qed

end
