(* ===== verification/ReducePhase_Correct.thy ===== *)
theory ReducePhase_Correct
  imports ReducePhase MapPhase_Correct
begin

text \<open>
  The reduce phase is correct for every schedule of its workers: every reduce task that was queued
  is run once, and its output goes to one of the output arrays, which stay sorted.
\<close>

section \<open>Output\<close>

definition out_rec :: "'k \<times> 'v \<Rightarrow> ('k, 'v) keyval_t" where
  "out_rec kv = \<lparr>kr_key = fst kv, kr_val = snd kv\<rparr>"

definition finals_ok :: "'k key_cmp \<Rightarrow> ('k, 'v) keyval_arr_t list \<Rightarrow> bool" where
  "finals_ok key_cmp F \<longleftrightarrow> (\<forall>a \<in> set F. keyval_arr_ok a \<and> kva_pos a = 0 \<and> keys_sorted key_cmp (kva_arr a))"

definition all_out :: "('k, 'v) keyval_arr_t list \<Rightarrow> ('k, 'v) keyval_t multiset" where
  "all_out F = mset (concat (map kva_arr F))"

text \<open>
  \<open>task_out red cols kvs\<close>: a run of a reduce task over the arrays \<open>cols\<close> may emit \<open>kvs\<close>. The keys are
  in order, each once; which of several equal keys is handed to the reduce function is not said.
\<close>

definition task_out ::
  "'k key_cmp \<Rightarrow> ('k \<Rightarrow> 'v list \<Rightarrow> ('k \<times> 'v) list) \<Rightarrow> ('k, 'v) keyvals_arr_t list \<Rightarrow> ('k \<times> 'v) list \<Rightarrow> bool" where
  "task_out key_cmp red cols kvs \<longleftrightarrow>
     (\<exists>ks. distinct_keys key_cmp (concat (map todo cols)) ks \<and>
        kvs = concat (map (\<lambda>k. red k (values_for key_cmp (map todo cols) k)) ks))"

lemma all_out_update:
  assumes "q < length F" and "mset (kva_arr a) = mset (kva_arr (F ! q)) + M"
  shows "all_out (F[q := a]) = all_out F + M"
proof -
  have "mset (concat ((map kva_arr F)[q := kva_arr a])) + mset (map kva_arr F ! q) =
      mset (concat (map kva_arr F)) + mset (kva_arr a)"
    using assms(1) by (intro concat_update_mset) simp
  then have "all_out (F[q := a]) + mset (kva_arr (F ! q)) = all_out F + M + mset (kva_arr (F ! q))"
    using assms by (simp add: all_out_def map_update)
  then show ?thesis by simp
qed

lemma finals_ok_update:
  "finals_ok key_cmp F \<Longrightarrow> keyval_arr_ok a \<Longrightarrow> kva_pos a = 0 \<Longrightarrow> keys_sorted key_cmp (kva_arr a) \<Longrightarrow>
   finals_ok key_cmp (F[q := a])"
  unfolding finals_ok_def using set_update_subset_insert [of F q a] by blast

text \<open>The fields of the environment the reduce phase relies on.\<close>

definition red_fits :: "'k key_cmp \<Rightarrow> bool \<Rightarrow> nat \<Rightarrow> ('u, 'k, 'v) mr_env_t \<Rightarrow> bool" where
  "red_fits key_cmp oneq R env \<longleftrightarrow>
     e_key_cmp env = key_cmp \<and> e_oneOutputQueuePerReduceTask env = oneq \<and> e_num_reduce_threads env = int R"

definition out_queue :: "bool \<Rightarrow> nat \<Rightarrow> thread_info_t list \<Rightarrow> int" where
  "out_queue oneq t tinfo = (if oneq then ti_curr_task (tinfo ! t) else int t)"

lemma emit_ok:
  assumes "key_order key_cmp" and "red_fits key_cmp oneq R (st_env st)"
    and "registered (st_tids st) R here (e_tinfo (st_env st))" "t < R" "here t" "tls_ok R (st_reduce_tls st)"
    and "out_queue oneq t (e_tinfo (st_env st)) = int q" "q < length (e_final_vals (st_env st))"
    and "finals_ok key_cmp (e_final_vals (st_env st))"
    and "oneq \<Longrightarrow> keys_sorted key_cmp (kva_arr (e_final_vals (st_env st) ! q) @ [out_rec (k, v)])"
  shows "\<exists>a. emit t k v st = Inr (st\<lparr>st_reduce_tls := (st_reduce_tls st)[t := int t],
      st_env := (st_env st)\<lparr>e_final_vals := (e_final_vals (st_env st))[q := a]\<rparr>\<rparr>) \<and>
    keyval_arr_ok a \<and> kva_pos a = 0 \<and> keys_sorted key_cmp (kva_arr a) \<and>
    mset (kva_arr a) = add_mset (out_rec (k, v)) (mset (kva_arr (e_final_vals (st_env st) ! q))) \<and>
    (oneq \<longrightarrow> kva_arr a = kva_arr (e_final_vals (st_env st) ! q) @ [out_rec (k, v)])"
proof -
  let ?env = "st_env st" and ?F = "e_final_vals (st_env st)"
  note env = assms(2) [unfolded red_fits_def]
  have tls: "t < length (st_reduce_tls st)" "st_reduce_tls st ! t = -1 \<or> st_reduce_tls st ! t = int t"
    using assms(4,6) by (auto simp: tls_ok_def)
  have tid: "arr_get (st_tids st) (int t) = Inr (st_tids st ! t)" "arr_get (e_tinfo ?env) (int t) = Inr (e_tinfo ?env ! t)"
    using assms(3,4) by (simp_all add: registered_def)
  have idx: "getCurrThreadIndex ?env TASK_TYPE_REDUCE (st_tids st ! t) = Inr t"
    using registered_index [OF assms(3-5)] env by (simp add: getNumTaskThreads_def)
  have f: "keyval_arr_ok (?F ! q)" "kva_pos (?F ! q) = 0" "keys_sorted key_cmp (kva_arr (?F ! q))"
    using assms(8,9) nth_mem [OF assms(8)] by (simp_all add: finals_ok_def)
  obtain a where a: "insert_keyval key_cmp oneq (?F ! q) k v = Inr a" "keyval_arr_ok a" "kva_pos a = 0"
    "keys_sorted key_cmp (kva_arr a)" "mset (kva_arr a) = add_mset (out_rec (k, v)) (mset (kva_arr (?F ! q)))"
    "oneq \<longrightarrow> kva_arr a = kva_arr (?F ! q) @ [out_rec (k, v)]"
  proof (cases oneq)
    case True
    obtain n where n: "insert_keyval key_cmp True (?F ! q) k v =
        Inr ((?F ! q)\<lparr>kva_alloc_len := n, kva_arr := kva_arr (?F ! q) @ [out_rec (k, v)], kva_len := kva_len (?F ! q) + 1\<rparr>)"
      "kva_len (?F ! q) < n"
      using insert_keyval_append [OF f(1), of key_cmp k v] by (auto simp: out_rec_def)
    then show thesis using True f assms(10)
      by (intro that [of "(?F ! q)\<lparr>kva_alloc_len := n, kva_arr := kva_arr (?F ! q) @ [out_rec (k, v)], kva_len := kva_len (?F ! q) + 1\<rparr>"])
        (auto simp: keyval_arr_ok_def)
  next
    case False
    obtain a where "insert_keyval key_cmp False (?F ! q) k v = Inr a" "keyval_arr_ok a" "keys_sorted key_cmp (kva_arr a)"
      "kva_pos a = kva_pos (?F ! q)" "mset (kva_arr a) = add_mset \<lparr>kr_key = k, kr_val = v\<rparr> (mset (kva_arr (?F ! q)))"
      by (rule key_order.insert_keyval_sorted [OF assms(1) f(1,3), of k v])
    then show thesis using False f(2) by (intro that [of a]) (simp_all add: out_rec_def)
  qed
  have get: "arr_get ?F (int q) = Inr (?F ! q)" using assms(8) by simp
  have "emit t k v st = Inr (st\<lparr>st_reduce_tls := (st_reduce_tls st)[t := int t], st_env := ?env\<lparr>e_final_vals := ?F[q := a]\<rparr>\<rparr>)"
    using tls tid idx env get a(1) assms(7,8)
    by (cases oneq; cases "st_reduce_tls st ! t < 0") (auto simp: emit_def emit_inline_def Let_def out_queue_def)
  then show ?thesis using a by blast
qed

lemma emits_out_ok:
  assumes "key_order key_cmp" and "red_fits key_cmp oneq R (st_env st)"
    and "registered (st_tids st) R here (e_tinfo (st_env st))" "t < R" "here t" "tls_ok R (st_reduce_tls st)"
    and "out_queue oneq t (e_tinfo (st_env st)) = int q" "q < length (e_final_vals (st_env st))"
    and "finals_ok key_cmp (e_final_vals (st_env st))"
    and "oneq \<Longrightarrow> keys_sorted key_cmp (kva_arr (e_final_vals (st_env st) ! q) @ map out_rec kvs)"
  shows "\<exists>tls a. emit_all (emit t) kvs st = Inr (st\<lparr>st_reduce_tls := tls,
      st_env := (st_env st)\<lparr>e_final_vals := (e_final_vals (st_env st))[q := a]\<rparr>\<rparr>) \<and> tls_ok R tls \<and>
    finals_ok key_cmp ((e_final_vals (st_env st))[q := a]) \<and>
    mset (kva_arr a) = mset (kva_arr (e_final_vals (st_env st) ! q)) + mset (map out_rec kvs)"
  using assms(2,3,6-10)
proof (induction kvs arbitrary: st)
  case Nil
  then show ?case
    by (intro exI [of _ "st_reduce_tls st"] exI [of _ "e_final_vals (st_env st) ! q"]) (simp add: list_update_id)
next
  case (Cons x kvs)
  obtain k v where x: "x = (k, v)" by (cases x)
  let ?F = "e_final_vals (st_env st)"
  have srt: "oneq \<Longrightarrow> keys_sorted key_cmp (kva_arr (?F ! q) @ [out_rec (k, v)])"
    using Cons.prems(7) x by (simp add: keys_sorted_def sorted_wrt_append)
  obtain a where a: "emit t k v st = Inr (st\<lparr>st_reduce_tls := (st_reduce_tls st)[t := int t],
      st_env := (st_env st)\<lparr>e_final_vals := ?F[q := a]\<rparr>\<rparr>)" "keyval_arr_ok a" "kva_pos a = 0" "keys_sorted key_cmp (kva_arr a)"
    "mset (kva_arr a) = add_mset (out_rec (k, v)) (mset (kva_arr (?F ! q)))"
    "oneq \<longrightarrow> kva_arr a = kva_arr (?F ! q) @ [out_rec (k, v)]"
    using emit_ok [OF assms(1) Cons.prems(1,2) assms(4,5) Cons.prems(3-6) srt] by blast
  let ?st = "st\<lparr>st_reduce_tls := (st_reduce_tls st)[t := int t], st_env := (st_env st)\<lparr>e_final_vals := ?F[q := a]\<rparr>\<rparr>"
  have p: "red_fits key_cmp oneq R (st_env ?st)" "registered (st_tids ?st) R here (e_tinfo (st_env ?st))"
    "tls_ok R (st_reduce_tls ?st)" "out_queue oneq t (e_tinfo (st_env ?st)) = int q" "q < length (e_final_vals (st_env ?st))"
    "finals_ok key_cmp (e_final_vals (st_env ?st))"
    using Cons.prems(1-6) assms(4) finals_ok_update [OF Cons.prems(6) a(2-4), of q]
    by (auto simp: red_fits_def tls_ok_def nth_list_update)
  have s: "keys_sorted key_cmp (kva_arr (e_final_vals (st_env ?st) ! q) @ map out_rec kvs)" if oneq
    using Cons.prems(5,7) that a(6) x by simp
  obtain tls b where b: "emit_all (emit t) kvs ?st = Inr (?st\<lparr>st_reduce_tls := tls,
      st_env := (st_env ?st)\<lparr>e_final_vals := (e_final_vals (st_env ?st))[q := b]\<rparr>\<rparr>)" "tls_ok R tls"
    "finals_ok key_cmp ((e_final_vals (st_env ?st))[q := b])"
    "mset (kva_arr b) = mset (kva_arr (e_final_vals (st_env ?st) ! q)) + mset (map out_rec kvs)"
    using Cons.IH [OF p s] by blast
  show ?case
    using a(1,5) b x Cons.prems(5) by (intro exI [of _ tls] exI [of _ b]) simp
qed

section \<open>The invariant of the phase\<close>

definition task_no :: "task_key \<Rightarrow> nat" where
  "task_no k = unat (fst k)"

definition column :: "nat \<Rightarrow> nat \<Rightarrow> ('k, 'v) keyvals_arr_t list list \<Rightarrow> ('k, 'v) keyvals_arr_t list" where
  "column T r ivals = map (\<lambda>t. ivals ! t ! r) [0..<T]"

text \<open>What the arrays hold when the tasks in \<open>D\<close> have run; \<open>ivals0\<close> is what the map phase left.\<close>

definition red_data ::
  "'k key_cmp \<Rightarrow> ('k \<Rightarrow> 'v list \<Rightarrow> ('k \<times> 'v) list) \<Rightarrow> bool \<Rightarrow> nat \<Rightarrow> nat \<Rightarrow> ('k, 'v) keyvals_arr_t list list \<Rightarrow>
   nat set \<Rightarrow> ('k, 'v) keyvals_arr_t list list \<Rightarrow> ('k, 'v) keyval_arr_t list \<Rightarrow> bool" where
  "red_data key_cmp red oneq T N ivals0 D ivals F \<longleftrightarrow>
     length ivals = length ivals0 \<and> finite D \<and>
     (\<forall>t < T. length (ivals ! t) = N \<and> (\<forall>r < N. r \<notin> D \<longrightarrow> ivals ! t ! r = ivals0 ! t ! r)) \<and>
     finals_ok key_cmp F \<and> (oneq \<longrightarrow> (\<forall>r < N. r \<notin> D \<longrightarrow> kva_arr (F ! r) = [])) \<and>
     (\<exists>outs. (\<forall>r \<in> D. task_out key_cmp red (column T r ivals0) (outs r)) \<and>
        all_out F = (\<Sum>r \<in> D. mset (map out_rec (outs r))))"

definition red_static ::
  "os_t \<Rightarrow> rand_r_t \<Rightarrow> int list \<Rightarrow> ('k \<Rightarrow> 'v list \<Rightarrow> ('k \<times> 'v) list) \<Rightarrow> ('u, 'k, 'v) mr_env_t \<Rightarrow> nat \<Rightarrow> nat \<Rightarrow> nat \<Rightarrow> bool" where
  "red_static os rand_r cpus red env T N R \<longleftrightarrow>
     key_order (e_key_cmp env) \<and> reducer (e_reduce env) red \<and>
     (e_oneOutputQueuePerReduceTask env \<longrightarrow>
        (\<forall>k vs k' v. (k', v) \<in> set (red k vs) \<longrightarrow> e_key_cmp env k' k = 0)) \<and>
     e_num_map_threads env = int T \<and> 0 < T \<and> e_num_reduce_threads env = int R \<and> N < 2 ^ 31 \<and>
     \<not> e_oneOutputQueuePerMapTask env \<and> rows_ok (e_key_cmp env) T N (e_intermediate_vals env) \<and>
     length (e_final_vals env) = (if e_oneOutputQueuePerReduceTask env then N else R) \<and>
     machine_ok os rand_r R cpus"

definition red_st ::
  "('u, 'k, 'v) mr_state \<Rightarrow> thread_info_t list \<Rightarrow> ('k, 'v) keyvals_arr_t list list \<Rightarrow> ('k, 'v) keyval_arr_t list \<Rightarrow>
   int list \<Rightarrow> tq_heap \<Rightarrow> taskQ_t \<Rightarrow> ('u, 'k, 'v) mr_state" where
  "red_st st0 ti ivals F tls h tq =
     st0\<lparr>st_env := (st_env st0)\<lparr>e_tinfo := ti, e_intermediate_vals := ivals, e_final_vals := F\<rparr>,
         st_reduce_tls := tls, st_heap := h, st_tq := tq\<rparr>"

definition iters_ok :: "nat \<Rightarrow> nat \<Rightarrow> worker_pc list \<Rightarrow> ('k, 'v) iterator_t option list \<Rightarrow> bool" where
  "iters_ok T R pcs itrs \<longleftrightarrow>
     length itrs = R \<and> (\<forall>t < R. pcs ! t = Working \<longrightarrow> (\<exists>i. itrs ! t = Some i \<and> loaded i [] \<and> max_list i = T))"

definition red_inv ::
  "os_t \<Rightarrow> rand_r_t \<Rightarrow> int list \<Rightarrow> ('k \<Rightarrow> 'v list \<Rightarrow> ('k \<times> 'v) list) \<Rightarrow> ('u, 'k, 'v) mr_state \<Rightarrow> nat \<Rightarrow> nat \<Rightarrow> nat set \<Rightarrow> nat \<Rightarrow>
   nat \<Rightarrow> worker_pc list \<Rightarrow> ('u, 'k, 'v) reduce_st \<Rightarrow> bool" where
  "red_inv os rand_r cpus red st0 T N E R n pcs s \<longleftrightarrow>
     red_static os rand_r cpus red (st_env st0) T N R \<and> finite E \<and> E \<subseteq> {..<N} \<and> iters_ok T R pcs (fst s) \<and>
     (\<exists>ti ivals F tls h tq tss D. snd s = red_st st0 ti ivals F tls h tq \<and>
        registered (st_tids st0) R (\<lambda>t. pcs ! t \<noteq> Ready) ti \<and> tls_ok R tls \<and>
        tq_has h tq tss \<and> R \<le> num_threads tq \<and> n = length (concat tss) \<and>
        length F = length (e_final_vals (st_env st0)) \<and> brk h = brk (st_heap st0) \<and> mem_limit h = mem_limit (st_heap st0) \<and>
        image_mset task_no (mset (concat tss)) + mset_set D = mset_set E \<and>
        red_data (e_key_cmp (st_env st0)) red (e_oneOutputQueuePerReduceTask (st_env st0)) T N
          (e_intermediate_vals (st_env st0)) D ivals F)"

lemma red_st_sel [simp]:
  "st_env (red_st st0 ti ivals F tls h tq) = (st_env st0)\<lparr>e_tinfo := ti, e_intermediate_vals := ivals, e_final_vals := F\<rparr>"
  "st_tids (red_st st0 ti ivals F tls h tq) = st_tids st0" "st_tq (red_st st0 ti ivals F tls h tq) = tq"
  "st_heap (red_st st0 ti ivals F tls h tq) = h" "st_reduce_tls (red_st st0 ti ivals F tls h tq) = tls"
  by (simp_all add: red_st_def)

lemma get_column_ok:
  assumes "T \<le> length ivals" and "\<forall>t < T. length (ivals ! t) = N" and "r < N"
  shows "get_column T (int r) ivals = Inr (column T r ivals)"
  unfolding get_column_def column_def using assms by (intro mapE_Inr) auto

lemma put_column_nth:
  "t < length ivals \<Longrightarrow> put_column col r ivals ! t = (if t < length col then (ivals ! t)[r := col ! t] else ivals ! t)"
  "length (put_column col r ivals) = length ivals"
  by (simp_all add: put_column_def)

lemma sint_unat:
  assumes "unat w < 2 ^ 31"
  shows "sint (w :: 64 word) = int (unat w)"
proof -
  have "unat w < 2 ^ 63" using assms by simp
  then have "int (unat w) < 2 ^ 63" by (simp only: of_nat_less_numeral_power_cancel_iff)
  moreover have "- (2 ^ 63) \<le> int (unat w)" by (rule order_trans [of _ 0]) simp_all
  ultimately have "signed_take_bit 63 (int (unat w)) = int (unat w)" by (intro signed_take_bit_int_eq_self)
  then show ?thesis by (simp add: sint_uint)
qed

text \<open>The output of one task is sorted when the reduce function keeps to the key it is given.\<close>

lemma task_out_sorted:
  assumes "key_order key_cmp" and "\<forall>k vs k' v. (k', v) \<in> set (red k vs) \<longrightarrow> key_cmp k' k = 0"
    and "task_out key_cmp red cols kvs"
  shows "keys_sorted key_cmp (map out_rec kvs)"
proof -
  obtain ks where ks: "sorted_wrt (\<lambda>x y. key_cmp x y < 0) ks"
    "kvs = concat (map (\<lambda>k. red k (values_for key_cmp (map todo cols) k)) ks)"
    using assms(3) by (auto simp: task_out_def distinct_keys_def)
  have "sorted_wrt (\<lambda>x y. key_cmp x y \<le> 0) (map fst (concat (map (\<lambda>k. red k (f k)) ks)))" for f
    using ks(1)
  proof (induction ks)
    case (Cons k ks)
    have here: "key_cmp x k = 0" if "x \<in> set (map fst (red k (f k)))" for x using that assms(2) by force
    have "key_cmp x y \<le> 0" if x: "x \<in> set (map fst (red k (f k)))" and y: "y \<in> set (map fst (concat (map (\<lambda>k. red k (f k)) ks)))" for x y
    proof -
      obtain j where "j \<in> set ks" "key_cmp y j = 0" using y assms(2) by force
      then have "key_cmp k j \<le> 0" "key_cmp j y \<le> 0"
        using Cons.prems key_order.cmp_eq_sym [OF assms(1), of y j] by auto
      then show ?thesis using here [OF x] key_order.cmp_trans [OF assms(1)] by (metis order_refl)
    qed
    moreover have "sorted_wrt (\<lambda>x y. key_cmp x y \<le> 0) (map fst (red k (f k)))"
    proof (rule sorted_wrt_mono_rel [of _ "\<lambda>_ _. True"])
      show "key_cmp x y \<le> 0" if "x \<in> set (map fst (red k (f k)))" "y \<in> set (map fst (red k (f k)))" for x y
        using here [OF that(1)] here [OF that(2)] key_order.cmp_eq_sym [OF assms(1), of y k]
          key_order.cmp_trans [OF assms(1), of x k y] by simp
    qed (simp add: sorted_wrt_true)
    ultimately show ?case using Cons by (auto simp: sorted_wrt_append)
  qed simp
  moreover have "map kr_key (map out_rec kvs) = map fst kvs" by (simp add: out_rec_def)
  ultimately show ?thesis using ks(2) by (simp add: keys_sorted_def del: map_map)
qed

section \<open>The workers keep the invariant\<close>

lemma red_data_task:
  assumes "red_data key_cmp red oneq T N ivals0 D ivals F" and "T \<le> length ivals0" and "r < N" "r \<notin> D"
    and "task_out key_cmp red (column T r ivals0) kvs" and "q < length F" "oneq \<longrightarrow> q = r"
    and "finals_ok key_cmp (F[q := a])" "mset (kva_arr a) = mset (kva_arr (F ! q)) + mset (map out_rec kvs)"
  shows "red_data key_cmp red oneq T N ivals0 (insert r D) (put_column col r ivals) (F[q := a])"
proof -
  have d: "length ivals = length ivals0" "finite D"
    "\<forall>t < T. length (ivals ! t) = N \<and> (\<forall>r < N. r \<notin> D \<longrightarrow> ivals ! t ! r = ivals0 ! t ! r)"
    "oneq \<longrightarrow> (\<forall>r < N. r \<notin> D \<longrightarrow> kva_arr (F ! r) = [])"
    using assms(1) by (simp_all add: red_data_def)
  obtain outs where o: "\<forall>r \<in> D. task_out key_cmp red (column T r ivals0) (outs r)"
    "all_out F = (\<Sum>r \<in> D. mset (map out_rec (outs r)))" using assms(1) by (auto simp: red_data_def)
  have "\<forall>t < T. length (put_column col r ivals ! t) = N \<and>
      (\<forall>p < N. p \<notin> insert r D \<longrightarrow> put_column col r ivals ! t ! p = ivals0 ! t ! p)"
    using d(1,3) assms(2) by (auto simp: put_column_nth)
  moreover have "all_out (F[q := a]) = (\<Sum>p \<in> insert r D. mset (map out_rec ((outs(r := kvs)) p)))"
  proof -
    have "(\<Sum>p \<in> D. mset (map out_rec ((outs(r := kvs)) p))) = (\<Sum>p \<in> D. mset (map out_rec (outs p)))"
      using assms(4) by (intro sum.cong) auto
    then show ?thesis
      using all_out_update [where F = F, OF assms(6,9)] o(2) d(2) assms(4) by (simp add: add.commute)
  qed
  moreover have "\<forall>p \<in> insert r D. task_out key_cmp red (column T p ivals0) ((outs(r := kvs)) p)"
    using o(1) assms(5) by simp
  moreover have "oneq \<longrightarrow> (\<forall>p < N. p \<notin> insert r D \<longrightarrow> kva_arr (F[q := a] ! p) = [])"
    using d(4) assms(7) by auto
  moreover have "length (put_column col r ivals) = length ivals0" "finite (insert r D)" using d(1,2) by (simp_all add: put_column_nth)
  ultimately show ?thesis unfolding red_data_def using assms(8) by (intro conjI exI [of _ "outs(r := kvs)"])
qed

lemma red_enter_ok:
  fixes st0 :: "('u, 'k, 'v) mr_state"
  assumes "red_inv os rand_r cpus red st0 T N E R n pcs s" and "length pcs = R" and "t < R"
  shows "\<exists>s'. reduce_worker_enter os cpus t s = Inr s' \<and> red_inv os rand_r cpus red st0 T N E R n (pcs[t := Working]) s'"
proof -
  have inv: "red_static os rand_r cpus red (st_env st0) T N R" "finite E" "E \<subseteq> {..<N}" "iters_ok T R pcs (fst s)"
    using assms(1) unfolding red_inv_def by blast+
  obtain ti ivals F tls h tq tss D where
    st: "snd s = red_st st0 ti ivals F tls h tq" and reg: "registered (st_tids st0) R (\<lambda>t. pcs ! t \<noteq> Ready) ti"
    and rest: "tls_ok R tls" "tq_has h tq tss" "R \<le> num_threads tq" "n = length (concat tss)"
        "length F = length (e_final_vals (st_env st0))" "brk h = brk (st_heap st0)" "mem_limit h = mem_limit (st_heap st0)"
        "image_mset task_no (mset (concat tss)) + mset_set D = mset_set E"
        "red_data (e_key_cmp (st_env st0)) red (e_oneOutputQueuePerReduceTask (st_env st0)) T N
          (e_intermediate_vals (st_env st0)) D ivals F"
    using assms(1) unfolding red_inv_def by blast
  let ?ti = "ti[t := (ti ! t)\<lparr>ti_tid := st_tids st0 ! t\<rparr>]"
  have "arr_get (st_tids st0) (int t) = Inr (st_tids st0 ! t)" "arr_get ti (int t) = Inr (ti ! t)"
    "arr_get cpus (int t) = Inr (cpus ! t)" "proc_bind_thread os (cpus ! t) = 0"
    using reg assms(3) inv(1) proc_bind_online [of os "cpus ! t"] by (simp_all add: registered_def machine_ok_def red_static_def)
  then have w: "worker_enter os cpus t (snd s) = Inr (red_st st0 ?ti ivals F tls h tq)"
    by (simp add: worker_enter_def st Let_def red_st_def)
  have T: "e_num_map_threads (st_env st0) = int T" "0 < T" using inv(1) by (simp_all add: red_static_def)
  obtain i :: "('k, 'v) iterator_t" where i: "iter_init (int T) = Inr (0, i)" "iter_fresh i" "max_list i = T"
    using iter_init_fresh [of "int T"] T(2) by auto
  have "reduce_worker_enter os cpus t s = Inr ((fst s)[t := Some i], red_st st0 ?ti ivals F tls h tq)"
    using w i(1) T(1) by (simp add: reduce_worker_enter_def case_prod_beta)
  moreover have "iters_ok T R (pcs[t := Working]) ((fst s)[t := Some i])"
    using inv(4) loaded_Nil [OF i(2)] i(3) assms(2,3) by (auto simp: iters_ok_def nth_list_update)
  then have "red_inv os rand_r cpus red st0 T N E R n (pcs[t := Working]) ((fst s)[t := Some i], red_st st0 ?ti ivals F tls h tq)"
    unfolding red_inv_def fst_conv snd_conv
    using inv rest registered_enter [OF reg assms(3,2)] by blast
  ultimately show ?thesis by blast
qed

lemma red_leave_ok:
  assumes "red_inv os rand_r cpus red st0 T N E R n pcs s" and "length pcs = R" and "t < R" and "pcs ! t \<noteq> Ready"
  shows "\<exists>s'. reduce_worker_leave os t s = Inr s' \<and> red_inv os rand_r cpus red st0 T N E R n (pcs[t := Finished]) s'"
proof -
  have inv: "red_static os rand_r cpus red (st_env st0) T N R" "finite E" "E \<subseteq> {..<N}" "iters_ok T R pcs (fst s)"
    using assms(1) unfolding red_inv_def by blast+
  obtain ti ivals F tls h tq tss D where
    st: "snd s = red_st st0 ti ivals F tls h tq" and reg: "registered (st_tids st0) R (\<lambda>t. pcs ! t \<noteq> Ready) ti"
    and rest: "tls_ok R tls" "tq_has h tq tss" "R \<le> num_threads tq" "n = length (concat tss)"
        "length F = length (e_final_vals (st_env st0))" "brk h = brk (st_heap st0)" "mem_limit h = mem_limit (st_heap st0)"
        "image_mset task_no (mset (concat tss)) + mset_set D = mset_set E"
        "red_data (e_key_cmp (st_env st0)) red (e_oneOutputQueuePerReduceTask (st_env st0)) T N
          (e_intermediate_vals (st_env st0)) D ivals F"
    using assms(1) unfolding red_inv_def by blast
  have "reduce_worker_leave os t s = Inr ((fst s)[t := None], snd s)"
    using inv(1) by (simp add: reduce_worker_leave_def case_prod_beta red_static_def machine_ok_def proc_unbind_ok)
  moreover have "registered (st_tids st0) R (\<lambda>u. pcs[t := Finished] ! u \<noteq> Ready) ti"
    using reg assms(2-4) by (auto simp: registered_def nth_list_update)
  moreover have "iters_ok T R (pcs[t := Finished]) ((fst s)[t := None])"
    using inv(4) assms(2,3) by (auto simp: iters_ok_def nth_list_update)
  ultimately have "red_inv os rand_r cpus red st0 T N E R n (pcs[t := Finished]) ((fst s)[t := None], snd s)"
    unfolding red_inv_def fst_conv snd_conv using inv(1-3) rest st by blast
  then show ?thesis using \<open>reduce_worker_leave os t s = _\<close> by blast
qed

lemma iters_ok_set:
  assumes "iters_ok T R pcs itrs" and "loaded i []" "max_list i = T"
  shows "iters_ok T R pcs (itrs[t := Some i])"
  unfolding iters_ok_def
proof (intro conjI allI impI)
  fix u assume "u < R" "pcs ! u = Working"
  then show "\<exists>i'. itrs[t := Some i] ! u = Some i' \<and> loaded i' [] \<and> max_list i' = T"
    using assms by (cases "u = t") (auto simp: iters_ok_def)
qed (use assms(1) in \<open>simp add: iters_ok_def\<close>)

lemma next_task_no:
  assumes "image_mset task_no (mset (concat tss)) + mset_set D = mset_set E" and "finite E" "finite D"
    and "j < length tss" "tss ! j \<noteq> []" and "r = task_no (hd (tss ! j))"
  shows "r \<in> E" "r \<notin> D"
    "image_mset task_no (mset (concat (tss[j := tl (tss ! j)]))) + mset_set (insert r D) = mset_set E"
proof -
  let ?rest = "image_mset task_no (mset (concat (tss[j := tl (tss ! j)])))"
  have c: "image_mset task_no (mset (concat tss)) = add_mset r ?rest"
    unfolding concat_update_tl [OF assms(4,5), symmetric] by (simp add: assms(6))
  have e: "add_mset r (?rest + mset_set D) = mset_set E" using assms(1) unfolding c by simp
  then show "r \<in> E" using assms(2) by (metis elem_mset_set union_single_eq_member add_mset_add_single union_commute)
  have "count (mset_set E) r \<le> 1" by (simp add: count_mset_set')
  then have "count (mset_set D) r = 0" unfolding e [symmetric] by simp
  then show "r \<notin> D" using assms(3) by (auto simp: count_mset_set')
  then show "?rest + mset_set (insert r D) = mset_set E" using e assms(3) by simp
qed

lemma column_cols_ok:
  assumes "rows_ok key_cmp T N ivals0" and "r < N"
  shows "\<forall>a \<in> set (column T r ivals0). column_ok key_cmp a" "length (column T r ivals0) = T"
  using assms by (auto simp: column_def rows_ok_def column_ok_def)

lemma red_next_ok:
  fixes st0 :: "('u, 'k, 'v) mr_state"
  assumes "red_inv os rand_r cpus red st0 T N E R n pcs s" and "length pcs = R" and "t < R" and "pcs ! t = Working"
  shows "(\<exists>m s'. reduce_worker_do_next_task rand_r lgrp t s = Inr (True, s') \<and> m < n \<and>
      red_inv os rand_r cpus red st0 T N E R m pcs s') \<or>
    (n = 0 \<and> (\<exists>s1. reduce_worker_do_next_task rand_r lgrp t s = Inr (False, s1) \<and>
      red_inv os rand_r cpus red st0 T N E R 0 pcs s1))"
proof -
  let ?env = "st_env st0"
  let ?cmp = "e_key_cmp ?env" and ?oneq = "e_oneOutputQueuePerReduceTask ?env" and ?iv0 = "e_intermediate_vals ?env"
  have inv: "red_static os rand_r cpus red ?env T N R" "finite E" "E \<subseteq> {..<N}" "iters_ok T R pcs (fst s)"
    using assms(1) unfolding red_inv_def by blast+
  obtain ti ivals F tls h tq tss D where
    st: "snd s = red_st st0 ti ivals F tls h tq" and reg: "registered (st_tids st0) R (\<lambda>t. pcs ! t \<noteq> Ready) ti"
    and rest: "tls_ok R tls" "tq_has h tq tss" "R \<le> num_threads tq" "n = length (concat tss)"
        "length F = length (e_final_vals ?env)" "brk h = brk (st_heap st0)" "mem_limit h = mem_limit (st_heap st0)"
        "image_mset task_no (mset (concat tss)) + mset_set D = mset_set E"
    and data: "red_data ?cmp red ?oneq T N ?iv0 D ivals F"
    using assms(1) unfolding red_inv_def by blast
  note stat = inv(1) [unfolded red_static_def]
  have tid: "t < num_threads tq" "\<forall>s. 0 \<le> fst (rand_r s)" using assms(3) rest(3) stat by (auto simp: machine_ok_def)
  obtain i where i: "fst s ! t = Some i" "loaded i []" "max_list i = T" "length (fst s) = R"
    using inv(4) assms(3,4) by (auto simp: iters_ok_def)
  obtain itrs where s: "s = (itrs, red_st st0 ti ivals F tls h tq)" "fst s = itrs" using st by (cases s) auto
  from tq_has_dequeue [OF rest(2) tid, of lgrp] show ?thesis
  proof (elim disjE conjE exE)
    fix tq' assume c: "concat tss = []" "tq_dequeue rand_r tq lgrp t h = Inr (0, task_0, tq', h)" "tq_has h tq' tss"
      "num_threads tq' = num_threads tq"
    have "reduce_worker_do_next_task rand_r lgrp t s = Inr (False, itrs, red_st st0 ti ivals F tls h tq')"
      using c(2) by (simp add: reduce_worker_do_next_task_def s(1)) (simp add: red_st_def)
    moreover have "red_inv os rand_r cpus red st0 T N E R 0 pcs (itrs, red_st st0 ti ivals F tls h tq')"
      unfolding red_inv_def fst_conv snd_conv
      using inv rest reg data c s(2) by (metis list.size(3))
    ultimately show ?thesis using c(1) rest(4) by simp
  next
    fix j task tq' h' assume c: "j < length tss" "tss ! j \<noteq> []" "task_key task = hd (tss ! j)"
      "tq_dequeue rand_r tq lgrp t h = Inr (1, task, tq', h')" "tq_has h' tq' (tss[j := tl (tss ! j)])"
      "num_threads tq' = num_threads tq" "brk h' = brk h" "mem_limit h' = mem_limit h"
    define r where "r = task_no (hd (tss ! j))"
    have "finite D" using data by (simp add: red_data_def)
    note no = next_task_no [OF rest(8) inv(2) this c(1,2) r_def]
    have r: "r < N" "r < 2 ^ 31" using no(1) inv(3) stat by auto
    have "unat (task_id task) = r" by (simp add: r_def task_no_def task_key_def flip: c(3))
    then have rid: "sint (task_id task) = int r" using sint_unat [of "task_id task"] r(2) by simp
    have r32: "to_int32 (int r) = int r" using r(2) by (intro to_int32_id) auto
    let ?ti = "ti[t := (ti ! t)\<lparr>ti_curr_task := int r\<rparr>]" and ?tss = "tss[j := tl (tss ! j)]"
    define q where "q = (if ?oneq then r else t)"
    define st1 where "st1 = red_st st0 ?ti ivals F tls h' tq'"
    have lt: "t < length ti" "ti ! t = ti ! t" using reg assms(3) by (simp_all add: registered_def)
    have cols: "column T r ivals = column T r ?iv0"
      using data no(2) r(1) by (auto simp: column_def red_data_def)
    have gc: "get_column T (int r) ivals = Inr (column T r ?iv0)"
      using get_column_ok [of T ivals N r] data stat r(1) unfolding cols by (auto simp: red_data_def rows_ok_def)
    have rok: "rows_ok ?cmp T N ?iv0" "key_order ?cmp" "reducer (e_reduce ?env) red" using stat by blast+
    note cok = column_cols_ok [OF rok(1) r(1)]
    have len: "length (column T r ?iv0) \<le> max_list i" using cok(2) i(3) by simp
    have kl: "keys_left ([] :: ('k, 'v) keyvals_arr_t list) = 0" by (simp add: keys_left_def)
    from key_order.reduce_task_spec [OF rok(2) cok(1) i(2) len rok(3) kl, of "emit t" st1] obtain ks xs' i' where
      rt: "distinct_keys ?cmp (concat (map todo (column T r ?iv0))) ks" "loaded i' []" "max_list i' = T"
        "reduce_task ?cmp (e_reduce ?env) (emit t) T (column T r ?iv0) i st1 =
          bindE (emit_all (emit t) (concat (map (\<lambda>k. red k (values_for ?cmp (map todo (column T r ?iv0)) k)) ks)) st1)
            (\<lambda>out. Inr (xs', i', out))"
      using i(3) cok(2) by auto
    define kvs where "kvs = concat (map (\<lambda>k. red k (values_for ?cmp (map todo (column T r ?iv0)) k)) ks)"
    have out: "task_out ?cmp red (column T r ?iv0) kvs" using rt(1) by (auto simp: task_out_def kvs_def)
    have qF: "q < length F" using r(1) assms(3) stat rest(5) by (simp add: q_def)
    have fits: "red_fits ?cmp ?oneq R (st_env st1)" using stat by (auto simp: red_fits_def st1_def)
    have regd: "registered (st_tids st1) R (\<lambda>t. pcs ! t \<noteq> Ready) (e_tinfo (st_env st1))" "tls_ok R (st_reduce_tls st1)"
      using registered_task [OF reg assms(3)] rest(1) by (simp_all add: st1_def)
    have qs: "out_queue ?oneq t (e_tinfo (st_env st1)) = int q" "q < length (e_final_vals (st_env st1))"
      "finals_ok ?cmp (e_final_vals (st_env st1))" "pcs ! t \<noteq> Ready"
      using lt qF data assms(4) by (simp_all add: st1_def out_queue_def q_def red_data_def)
    have "keys_sorted ?cmp (kva_arr (e_final_vals (st_env st1) ! q) @ map out_rec kvs)" if "?oneq"
    proof -
      have "kva_arr (F ! q) = []" using data that no(2) r(1) by (simp add: red_data_def q_def)
      moreover have "keys_sorted ?cmp (map out_rec kvs)" using task_out_sorted [OF rok(2) _ out] stat that by blast
      ultimately show ?thesis by (simp add: st1_def)
    qed
    from emits_out_ok [OF rok(2) fits regd(1) assms(3) qs(4) regd(2) qs(1-3) this] obtain tls' a where
      e: "emit_all (emit t) kvs st1 = Inr (st1\<lparr>st_reduce_tls := tls',
          st_env := (st_env st1)\<lparr>e_final_vals := (e_final_vals (st_env st1))[q := a]\<rparr>\<rparr>)" "tls_ok R tls'"
        "finals_ok ?cmp (F[q := a])" "mset (kva_arr a) = mset (kva_arr (F ! q)) + mset (map out_rec kvs)"
      by (auto simp: st1_def)
    let ?st' = "red_st st0 ?ti (put_column xs' r ivals) (F[q := a]) tls' h' tq'"
    have red_task: "reduce_task ?cmp (e_reduce ?env) (emit t) T (column T r ?iv0) i st1 =
        Inr (xs', i', red_st st0 ?ti ivals (F[q := a]) tls' h' tq')"
      using rt(4) e(1) unfolding kvs_def [symmetric] by (cases st0; cases "st_env st0") (simp add: st1_def red_st_def)
    have s1: "(red_st st0 ti ivals F tls h tq)\<lparr>st_tq := tq', st_heap := h',
        st_env := (st_env (red_st st0 ti ivals F tls h tq))\<lparr>e_tinfo := ?ti\<rparr>\<rparr> = st1"
      unfolding st1_def by (cases st0; cases "st_env st0") (simp add: red_st_def)
    have s2: "(red_st st0 ?ti ivals (F[q := a]) tls' h' tq')\<lparr>st_env := (st_env (red_st st0 ?ti ivals (F[q := a]) tls' h' tq'))
        \<lparr>e_intermediate_vals := put_column xs' r ivals\<rparr>\<rparr> = ?st'"
      by (cases st0; cases "st_env st0") (simp add: red_st_def)
    have ai: "arr_get ti (int t) = Inr (ti ! t)" "arr_get itrs (int t) = Inr (Some i)"
      using lt(1) i(1,4) assms(3) s(2) by simp_all
    have nt: "\<not> e_oneOutputQueuePerMapTask ?env" "e_num_map_threads ?env = int T" using stat by simp_all
    have "reduce_worker_do_next_task rand_r lgrp t s = Inr (True, itrs[t := Some i'], ?st')"
      using c(4) rid r32 ai nt gc s1 s2 red_task by (simp add: reduce_worker_do_next_task_def s(1) Let_def)
    moreover have "red_inv os rand_r cpus red st0 T N E R (length (concat ?tss)) pcs (itrs[t := Some i'], ?st')"
    proof -
      have "iters_ok T R pcs (itrs[t := Some i'])" using iters_ok_set [OF inv(4) rt(2,3)] s(2) by simp
      moreover have "red_data ?cmp red ?oneq T N ?iv0 (insert r D) (put_column xs' r ivals) (F[q := a])"
        using rok(1) by (intro red_data_task [OF data _ r(1) no(2) out qF _ e(3,4)]) (simp_all add: rows_ok_def q_def)
      moreover have "length (F[q := a]) = length (e_final_vals ?env)" using rest(5) by simp
      moreover have "R \<le> num_threads tq'" "brk h' = brk (st_heap st0)" "mem_limit h' = mem_limit (st_heap st0)"
        using c(6-8) rest(3,6,7) by simp_all
      ultimately show ?thesis
        unfolding red_inv_def fst_conv snd_conv
        using inv(1-3) registered_task [OF reg assms(3)] e(2) c(5) no(3) by blast
    qed
    moreover have "length (concat ?tss) < n" using piece_args_tl(2) [OF c(1,2)] rest(4) by simp
    ultimately show ?thesis by blast
  qed
qed

interpretation reduce_workers: worker_phase "reduce_worker_enter os cpus" "reduce_worker_do_next_task rand_r lgrp"
    "reduce_worker_leave os" R "red_inv os rand_r cpus red st0 T N E R"
  for os cpus rand_r lgrp R red st0 T N E
proof unfold_locales
  fix n pcs and s :: "('c, 'a, 'b) reduce_st" and t
  assume "red_inv os rand_r cpus red st0 T N E R n pcs s" "length pcs = R" "t < R"
  then show "\<exists>s'. reduce_worker_enter os cpus t s = Inr s' \<and> red_inv os rand_r cpus red st0 T N E R n (pcs[t := Working]) s'"
    by (rule red_enter_ok)
next
  fix n pcs and s :: "('c, 'a, 'b) reduce_st" and t
  assume a: "red_inv os rand_r cpus red st0 T N E R n pcs s" "length pcs = R" "t < R" "pcs ! t = Working"
  from red_next_ok [OF a, of lgrp] show "(\<exists>m s'. reduce_worker_do_next_task rand_r lgrp t s = Inr (True, s') \<and> m < n \<and>
      red_inv os rand_r cpus red st0 T N E R m pcs s') \<or>
    (n = 0 \<and> (\<exists>s1 s'. reduce_worker_do_next_task rand_r lgrp t s = Inr (False, s1) \<and> reduce_worker_leave os t s1 = Inr s' \<and>
      red_inv os rand_r cpus red st0 T N E R 0 (pcs[t := Finished]) s'))"
    using red_leave_ok [OF _ a(2,3)] a(4) by (metis worker_pc.distinct(1))
qed

section \<open>The phase\<close>

text \<open>
  \<open>reduce\<close> runs exactly the tasks that \<open>gen_reduce_tasks\<close> queued, the first \<open>reduce_count\<close> ones,
  each once, on what the map phase left. With more map than reduce threads that can be fewer than
  there are: see \<open>reduce_count\<close>.
\<close>

lemma reduce_phase_ok:
  fixes st :: "('u, 'k, 'v) mr_state"
  assumes "key_order (e_key_cmp (st_env st))" and "reducer (e_reduce (st_env st)) red"
    and "e_oneOutputQueuePerReduceTask (st_env st) \<Longrightarrow> \<forall>k vs k' v. (k', v) \<in> set (red k vs) \<longrightarrow> e_key_cmp (st_env st) k' k = 0"
    and "e_num_map_threads (st_env st) = int T" "0 < T" and "e_num_reduce_threads (st_env st) = int R"
    and "e_num_reduce_tasks (st_env st) = int N" "N < 2 ^ 31" and "\<not> e_oneOutputQueuePerMapTask (st_env st)"
    and "rows_ok (e_key_cmp (st_env st)) T N (e_intermediate_vals (st_env st))"
    and "e_final_vals (st_env st) = replicate (if e_oneOutputQueuePerReduceTask (st_env st) then N else R) keyval_arr_0"
    and "workers_fit os rand_r sp (a_proc_offset (e_args (st_env st))) pool R" and "e_schedPolicies (st_env st) = sp0 # sp # pols"
    and "length (st_tids st) \<ge> R" "distinct (st_tids st)" "0 \<notin> set (st_tids st)" "tls_ok R (st_reduce_tls st)"
    and "tq_has (st_heap st) (st_tq st) tss" "concat tss = []" "R \<le> num_threads (st_tq st)"
    and "room (st_heap st) (ENTRY_SIZE * N)" and "\<forall>i. 0 \<le> rnds i"
    and "cnt = reduce_count N R (int T)" and "\<forall>t < R. cnt + 2 \<le> count_list sched t"
  shows "\<exists>F tls h tq tss' outs. reduce_phase rnds t0 os rand_r pool sched st = Inr (red_st st [] [] F tls h tq) \<and>
    tls_ok R tls \<and> tq_has h tq tss' \<and> concat tss' = [] \<and> length F = length (e_final_vals (st_env st)) \<and>
    finals_ok (e_key_cmp (st_env st)) F \<and>
    (\<forall>r < cnt. task_out (e_key_cmp (st_env st)) red (column T r (e_intermediate_vals (st_env st))) (outs r)) \<and>
    all_out F = (\<Sum>r<cnt. mset (map out_rec (outs r)))"
proof -
  let ?env = "st_env st" and ?cmp = "e_key_cmp (st_env st)" and ?oneq = "e_oneOutputQueuePerReduceTask (st_env st)"
  have R: "0 < R" using assms(12) by (simp add: workers_fit_def)
  have cntd: "cnt = reduce_count N R (e_num_map_threads ?env)" using assms(4,23) by simp
  obtain h1 where g: "gen_reduce_tasks rnds t0 ?env (st_tq st) (st_heap st) = Inr (0, cnt, h1)"
    "tq_has h1 (st_tq st) (put_ids rnds (reduce_key t0) [0..<cnt] tss)" "mem_limit h1 = mem_limit (st_heap st)"
    using gen_reduce_tasks_ok [OF assms(18,7,6) R assms(21,22) cntd] by blast
  define st1 where "st1 = st\<lparr>st_heap := h1\<rparr>"
  let ?tss = "put_ids rnds (reduce_key t0) [0..<cnt] tss"
  have "tss \<noteq> []" using tq_has_length [OF assms(18)] by auto
  then have ids: "mset (concat ?tss) = image_mset (reduce_key t0) (mset [0..<cnt])"
    using mset_put_ids [of tss rnds "reduce_key t0" "[0..<cnt]"] assms(19) by simp
  have cntN: "cnt \<le> N" using assms(23) by (simp add: reduce_count_def)
  have len: "length (concat ?tss) = cnt" using mset_eq_length [of "concat ?tss" "map (reduce_key t0) [0..<cnt]"] ids by simp
  have no: "task_no (reduce_key t0 r) = r" if "r < cnt" for r
  proof -
    have "r < 2 ^ 64" using that cntN assms(8) by simp
    then show ?thesis by (simp add: task_no_def reduce_key_def unsigned_of_nat take_bit_nat_eq_self)
  qed
  have "image_mset task_no (mset (concat ?tss)) = mset_set {..<cnt}"
  proof -
    have "image_mset task_no (mset (concat ?tss)) = mset (map (\<lambda>r. task_no (reduce_key t0 r)) [0..<cnt])"
      unfolding ids by (simp add: multiset.map_comp comp_def)
    also have "map (\<lambda>r. task_no (reduce_key t0 r)) [0..<cnt] = [0..<cnt]" using no by (intro map_idI) simp
    finally show ?thesis by (simp add: lessThan_atLeast0)
  qed
  note E = this
  obtain cpus where cpus: "start_workers sp (a_proc_offset (e_args ?env)) pool R = Inr cpus" "machine_ok os rand_r R cpus"
    using workers_fit_start [OF assms(12)] by blast
  have stat: "red_static os rand_r cpus red (st_env st1) T N R"
    using assms(1-6,8-11) cpus(2) by (simp add: red_static_def st1_def)
  let ?s = "(replicate R None, st1\<lparr>st_env := (st_env st1)\<lparr>e_tinfo := replicate R thread_info_0\<rparr>\<rparr>)"
  have rs: "snd ?s = red_st st1 (replicate R thread_info_0) (e_intermediate_vals ?env) (e_final_vals ?env) (st_reduce_tls st) h1 (st_tq st)"
    unfolding st1_def by (cases st; cases ?env) (simp add: red_st_def)
  have "red_data ?cmp red ?oneq T N (e_intermediate_vals ?env) {} (e_intermediate_vals ?env) (e_final_vals ?env)"
    using assms(10,11) by (auto simp: red_data_def rows_ok_def finals_ok_def keyval_arr_0_def keyval_arr_ok_def keys_sorted_def all_out_def)
  moreover have "registered (st_tids st1) R (\<lambda>t. replicate R Ready ! t \<noteq> Ready) (replicate R thread_info_0)"
    using assms(14-16) by (simp add: registered_def thread_info_0_def st1_def)
  ultimately have inv: "red_inv os rand_r cpus red st1 T N {..<cnt} R cnt (replicate R Ready) ?s"
    unfolding red_inv_def using stat rs assms(17,20) g(2) len E cntN
    by (intro conjI exI [of _ "replicate R thread_info_0"] exI [of _ "e_intermediate_vals ?env"] exI [of _ "e_final_vals ?env"]
        exI [of _ "st_reduce_tls st"] exI [of _ h1] exI [of _ "st_tq st"] exI [of _ ?tss] exI [of _ "{}"])
      (auto simp: iters_ok_def st1_def)
  obtain s' where s': "run_workers (reduce_worker os rand_r cpus) R sched ?s = Inr s'"
    "red_inv os rand_r cpus red st1 T N {..<cnt} R 0 (replicate R Finished) s'"
    using reduce_workers.run_workers_ok [OF R inv assms(24), of "loc_get_lgrp os"] unfolding reduce_worker_def by blast
  then obtain ti ivals F tls h tq tss' D where e: "snd s' = red_st st1 ti ivals F tls h tq" "tls_ok R tls" "tq_has h tq tss'"
    "0 = length (concat tss')" "length F = length (e_final_vals ?env)"
    "image_mset task_no (mset (concat tss')) + mset_set D = mset_set {..<cnt}"
    "red_data ?cmp red ?oneq T N (e_intermediate_vals ?env) D ivals F"
    unfolding red_inv_def by (auto simp: st1_def)
  have "finite D" using e(7) by (simp add: red_data_def)
  then have D: "D = {..<cnt}" using e(4,6) by (metis finite_lessThan finite_set_mset_mset_set image_mset_empty length_0_conv mset.simps(1) add_0)
  obtain outs where o: "\<forall>r \<in> {..<cnt}. task_out ?cmp red (column T r (e_intermediate_vals ?env)) (outs r)"
    "all_out F = (\<Sum>r<cnt. mset (map out_rec (outs r)))" "finals_ok ?cmp F"
    using e(7) unfolding D red_data_def by blast
  have fin: "(snd s')\<lparr>st_env := (st_env (snd s'))\<lparr>e_tinfo := []\<rparr>\<rparr>\<lparr>st_env := (st_env (snd s'))\<lparr>e_tinfo := [], e_intermediate_vals := []\<rparr>\<rparr> =
      red_st st [] [] F tls h tq"
    by (simp add: e(1)) (simp add: red_st_def st1_def)
  have sp: "arr_get (e_schedPolicies ?env) 1 = Inr sp" using assms(13) by (simp add: arr_get_def)
  have "start_reduce_workers os rand_r pool sched st1 = Inr ((snd s')\<lparr>st_env := (st_env (snd s'))\<lparr>e_tinfo := []\<rparr>\<rparr>)"
    using sp assms(6) cpus(1) s'(1)
    by (simp add: start_reduce_workers_def getNumTaskThreads_def Let_def case_prod_beta st1_def)
  then have "reduce_phase rnds t0 os rand_r pool sched st = Inr (red_st st [] [] F tls h tq)"
    using g(1) fin by (simp add: reduce_phase_def flip: st1_def)
  then show ?thesis using e(2-5) o by (metis length_0_conv lessThan_iff)
qed

end
