(* ===== verification/MapReduce.thy ===== *)
theory MapReduce
  imports ReducePhase_Correct
begin

text \<open>
  \<open>map_reduce\<close> of \<open>src/map_reduce.c\<close>, the three phases put together, and the theorem that its result
  is what MapReduce promises. What outlives a call is the process: the heap, the thread pool (here
  its number of threads; None before the first call) and the thread-local variables.
\<close>

section \<open>The engine\<close>

record mr_proc =
  p_heap :: tq_heap
  p_tpool :: "int option"
  p_tids :: "nat list"
  p_emit_tls :: "int list"
  p_reduce_tls :: "int list"

text \<open>
  A run is determined by what the program does not: the schedules of the phases, what \<open>rand\<close> and
  \<open>rand_r\<close> return, and the garbage in an uninitialised task.
\<close>

record mr_run =
  r_os :: os_t
  r_rand_r :: rand_r_t
  r_rands :: "nat \<Rightarrow> int"
  r_garbage :: task_t
  r_fuel :: nat
  r_map_sched :: "nat list"
  r_reduce_sched :: "nat list"
  r_merge_order :: "nat \<Rightarrow> nat \<Rightarrow> nat list"

definition env_fini :: "taskQ_t \<Rightarrow> tq_heap \<Rightarrow> tq_heap res" where
  "env_fini taskQueue h = tq_finalize taskQueue h"

definition merge_phase ::
  "mr_run \<Rightarrow> int \<Rightarrow> ('u, 'k, 'v) mr_env_t \<Rightarrow> ('k, 'v) final_data_t res" where
  "merge_phase run pool_threads env =
     bindE (arr_get (e_schedPolicies env) 2) (\<lambda>sp.
     merge (r_os run) (e_key_cmp env) (e_oneOutputQueuePerReduceTask env) sp (a_proc_offset (e_args env)) pool_threads
       (r_merge_order run) (nat (e_num_reduce_tasks env)) (nat (e_num_reduce_threads env)) (nat (e_num_merge_threads env))
       (e_final_vals env))"

definition map_reduce ::
  "mr_run \<Rightarrow> ('u, 'k, 'v) map_reduce_args_t \<Rightarrow> 'u \<Rightarrow> mr_proc \<Rightarrow>
   (int \<times> ('k, 'v) final_data_t \<times> 'u \<times> mr_proc) res" where
  "map_reduce run args u p =
     bindE (assertE (a_unit_size args > 0)) (\<lambda>_.
     bindE (env_init (r_os run) args) (\<lambda>env.
     bindE (tq_init (r_os run) (nat (e_num_map_threads env)) (p_heap p)) (\<lambda>(taskQueue, h).
     case taskQueue of None \<Rightarrow> Inl Assert_failed
     | Some tq \<Rightarrow>
         (let pool = (case p_tpool p of None \<Rightarrow> e_num_map_threads env | Some n \<Rightarrow> n);
              st = \<lparr>st_env = env, st_tq = tq, st_app = u, st_heap = h, st_tids = p_tids p,
                    st_emit_tls = p_emit_tls p, st_reduce_tls = p_reduce_tls p\<rparr> in
          bindE (map_phase (r_fuel run) (r_os run) (r_rand_r run) pool (r_map_sched run) st) (\<lambda>st.
          bindE (reduce_phase (r_rands run) (r_garbage run) (r_os run) (r_rand_r run) pool (r_reduce_sched run) st) (\<lambda>st.
          bindE (merge_phase run pool (st_env st)) (\<lambda>result.
          bindE (env_fini (st_tq st) (st_heap st)) (\<lambda>h.
          Inr (0, result, st_app st,
               p\<lparr>p_heap := h, p_tpool := Some pool, p_emit_tls := st_emit_tls st, p_reduce_tls := st_reduce_tls st\<rparr>)))))))))"

text \<open>
  \<open>map_reduce_init\<close> and \<open>map_reduce_finalize\<close>: the key under which the process keeps its thread pool.
  \<open>tpool_destroy\<close> asserts that there is one, so finalizing without a run stops the program.
\<close>

definition map_reduce_init :: "mr_proc \<Rightarrow> int \<times> mr_proc" where
  "map_reduce_init p = (0, p\<lparr>p_tpool := None\<rparr>)"

definition map_reduce_finalize :: "mr_proc \<Rightarrow> (int \<times> mr_proc) res" where
  "map_reduce_finalize p =
     (case p_tpool p of None \<Rightarrow> Inl Assert_failed | Some tpool \<Rightarrow> Inr (0, p\<lparr>p_tpool := None\<rparr>))"

section \<open>What it promises\<close>

text \<open>All values emitted under a key (up to \<open>key_cmp\<close>).\<close>

definition values_under :: "'k key_cmp \<Rightarrow> ('k \<times> 'v \<times> int) list \<Rightarrow> 'k \<Rightarrow> 'v multiset" where
  "values_under key_cmp kvs k = mset (map (\<lambda>(k', v, sz). v) (filter (\<lambda>(k', v, sz). key_cmp k' k = 0) kvs))"

text \<open>
  The specification: the reduce function is called once for each distinct key that was emitted, with
  values that stand for all the values emitted under it, and the result is everything it emits,
  sorted by key. \<open>calls\<close> lists its calls.
\<close>

definition mr_spec ::
  "'k key_cmp \<Rightarrow> ('k \<Rightarrow> 'v list \<Rightarrow> ('k \<times> 'v) list) \<Rightarrow> ('v multiset \<Rightarrow> 'v multiset \<Rightarrow> bool) \<Rightarrow> ('k \<times> 'v \<times> int) list \<Rightarrow>
   ('k, 'v) final_data_t \<Rightarrow> bool" where
  "mr_spec key_cmp red agg emitted_pairs result \<longleftrightarrow>
     fd_length result = length (fd_data result) \<and> keys_sorted key_cmp (fd_data result) \<and>
     (\<exists>calls. mset (fd_data result) = mset (map out_rec (concat (map (\<lambda>(k, vs). red k vs) calls))) \<and>
        sorted_wrt (\<lambda>x y. key_cmp (fst x) (fst y) \<noteq> 0) calls \<and>
        (\<forall>(k, vs) \<in> set calls. vs \<noteq> [] \<and> agg (values_under key_cmp emitted_pairs k) (mset vs)) \<and>
        (\<forall>(k, v, sz) \<in> set emitted_pairs. \<exists>(k', vs) \<in> set calls. key_cmp k k' = 0))"

section \<open>From the tables to the specification\<close>

lemma values_of_filter:
  "values_of key_cmp es k = mset (concat (map kv_values (filter (\<lambda>e. key_cmp (kv_key e) k = 0) es)))"
  by (induction es) simp_all

lemma values_for_slot_vals:
  fixes ivals :: "('k, 'v) keyvals_arr_t list list"
  assumes "rows_ok key_cmp T N ivals" and "r < N"
  shows "mset (values_for key_cmp (map todo (column T r ivals)) k) = slot_vals key_cmp T ivals r k"
proof -
  have "todo (ivals ! t ! r) = kvs_arr (ivals ! t ! r)" if "t < T" for t
    using rows_okD(4) [OF assms(1) that assms(2)] by (simp add: todo_def)
  then have "map todo (column T r ivals) = map (\<lambda>t. kvs_arr (ivals ! t ! r)) [0..<T]" by (simp add: column_def)
  moreover have "mset (values_for key_cmp (map f ts) k) = (\<Sum>t\<leftarrow>ts. values_of key_cmp (f t) k)" for f :: "nat \<Rightarrow> ('k, 'v) keyvals_t list" and ts
    by (induction ts) (simp_all add: values_for_def values_of_filter)
  ultimately show ?thesis
    by (simp add: slot_vals_def interv_sum_list_conv_sum_set_nat lessThan_atLeast0)
qed

lemma values_of_not_empty:
  assumes "keyvals_arr_ok key_cmp a"
  shows "values_of key_cmp (kvs_arr a) k \<noteq> {#} \<longleftrightarrow> (\<exists>e \<in> set (kvs_arr a). key_cmp (kv_key e) k = 0)"
proof -
  have "\<forall>e \<in> set (kvs_arr a). kv_values e \<noteq> []" using assms keyvals_ok_nonempty by (auto simp: keyvals_arr_ok_def)
  then show ?thesis by (auto simp: values_of_filter filter_empty_conv)
qed

lemma slot_vals_not_empty:
  assumes "rows_ok key_cmp T N ivals" and "r < N"
  shows "slot_vals key_cmp T ivals r k \<noteq> {#} \<longleftrightarrow>
    (\<exists>e \<in> set (concat (map todo (column T r ivals))). key_cmp (kv_key e) k = 0)"
proof -
  have t: "todo (ivals ! t ! r) = kvs_arr (ivals ! t ! r)" "keyvals_arr_ok key_cmp (ivals ! t ! r)" if "t < T" for t
    using rows_okD(3,4) [OF assms(1) that assms(2)] by (simp_all add: todo_def)
  have "slot_vals key_cmp T ivals r k \<noteq> {#} \<longleftrightarrow> (\<exists>t < T. values_of key_cmp (kvs_arr (ivals ! t ! r)) k \<noteq> {#})"
    by (auto simp: slot_vals_def sum_eq_empty_iff)
  also have "\<dots> \<longleftrightarrow> (\<exists>t < T. \<exists>e \<in> set (todo (ivals ! t ! r)). key_cmp (kv_key e) k = 0)"
    using values_of_not_empty [OF t(2), of _ k] t(1) by metis
  finally show ?thesis by (auto simp: column_def)
qed

lemma pending_all:
  fixes emits :: "'p \<Rightarrow> ('k \<times> 'v \<times> int) list"
  assumes "\<And>k'. key_cmp k' k = 0 \<Longrightarrow> slot k' = slot k"
  shows "pending key_cmp slot emits (mset ps) r k =
    (if slot k = r then values_under key_cmp (concat (map emits ps)) k else {#})"
proof -
  have "emitted key_cmp slot kvs r k = (if slot k = r then values_under key_cmp kvs k else {#})" for kvs :: "('k \<times> 'v \<times> int) list"
  proof (cases "slot k = r")
    case True
    then have "(\<lambda>(k', v :: 'v, sz :: int). slot k' = r \<and> key_cmp k' k = 0) = (\<lambda>(k', v, sz). key_cmp k' k = 0)"
      using assms by (auto simp: fun_eq_iff)
    then show ?thesis using True by (simp add: emitted_def values_under_def)
  next
    case False
    then have "(\<lambda>(k', v :: 'v, sz :: int). slot k' = r \<and> key_cmp k' k = 0) = (\<lambda>_. False)"
      using assms by (auto simp: fun_eq_iff)
    then show ?thesis using False by (simp add: emitted_def)
  qed
  then show ?thesis by (induction ps) (simp_all add: values_under_def)
qed

text \<open>The calls the reduce tasks make, from the first \<open>cnt\<close> tasks.\<close>

definition task_calls ::
  "'k key_cmp \<Rightarrow> nat \<Rightarrow> ('k, 'v) keyvals_arr_t list list \<Rightarrow> 'k list \<Rightarrow> nat \<Rightarrow> ('k \<times> 'v list) list" where
  "task_calls key_cmp T ivals ks r = map (\<lambda>k. (k, values_for key_cmp (map todo (column T r ivals)) k)) ks"

lemma tasks_calls:
  assumes "partitioner key_cmp part_fn N slot valid" and "combining combiner agg"
    and "rows_ok key_cmp T N ivals" and "cnt \<le> N"
    and "\<forall>r < N. \<forall>k. agg (pending key_cmp slot emits (mset ps) r k) (slot_vals key_cmp T ivals r k)"
    and "\<forall>r < cnt. distinct_keys key_cmp (concat (map todo (column T r ivals))) (ks r)"
    and "calls = concat (map (\<lambda>r. task_calls key_cmp T ivals (ks r) r) [0..<cnt])"
  shows "sorted_wrt (\<lambda>x y. key_cmp (fst x) (fst y) \<noteq> 0) calls"
    and "\<forall>(k, vs) \<in> set calls. vs \<noteq> [] \<and> agg (values_under key_cmp (concat (map emits ps)) k) (mset vs)"
    and "\<forall>(k, v, sz) \<in> set (concat (map emits ps)). slot k < cnt \<longrightarrow> (\<exists>(k', vs) \<in> set calls. key_cmp k k' = 0)"
proof -
  have ko: "key_order key_cmp" using assms(1) by (simp add: partitioner_def)
  note cong = partitioner.slot_cong [OF assms(1)] and ae = combining.agg_empty [OF assms(2)]
  have pend: "pending key_cmp slot emits (mset ps) r k = (if slot k = r then values_under key_cmp (concat (map emits ps)) k else {#})"
    for r k using cong by (intro pending_all) blast
  have key: "slot k = r" "slot_vals key_cmp T ivals r k \<noteq> {#}" if "r < cnt" "k \<in> set (ks r)" for r k
  proof -
    have "k \<in> kv_key ` set (concat (map todo (column T r ivals)))"
      using assms(6) that unfolding distinct_keys_def by blast
    then have "\<exists>e \<in> set (concat (map todo (column T r ivals))). key_cmp (kv_key e) k = 0"
      using key_order.cmp_refl [OF ko] by auto
    then show "slot_vals key_cmp T ivals r k \<noteq> {#}" using slot_vals_not_empty [OF assms(3), of r k] that assms(4) by simp
    then show "slot k = r" using assms(4,5) that ae pend [of r k] by (metis less_le_trans)
  qed
  have lt: "r < N" if "r < cnt" for r using that assms(4) by simp
  show "sorted_wrt (\<lambda>x y. key_cmp (fst x) (fst y) \<noteq> 0) calls"
    unfolding assms(7)
  proof (rule sorted_wrt_concat_upt)
    fix r assume r: "r < cnt"
    have "sorted_wrt (\<lambda>x y. key_cmp x y < 0) (ks r)" using assms(6) r by (simp add: distinct_keys_def)
    then have "sorted_wrt (\<lambda>x y. key_cmp x y \<noteq> 0) (ks r)" by (rule sorted_wrt_mono_rel [rotated]) simp
    then show "sorted_wrt (\<lambda>x y. key_cmp (fst x) (fst y) \<noteq> 0) (task_calls key_cmp T ivals (ks r) r)"
      by (simp add: task_calls_def sorted_wrt_map)
  next
    fix r q x y assume "r < q" "q < cnt" "x \<in> set (task_calls key_cmp T ivals (ks r) r)" "y \<in> set (task_calls key_cmp T ivals (ks q) q)"
    then have "slot (fst x) = r" "slot (fst y) = q" using key(1) by (auto simp: task_calls_def)
    then show "key_cmp (fst x) (fst y) \<noteq> 0" using cong \<open>r < q\<close> by force
  qed
  show "\<forall>(k, vs) \<in> set calls. vs \<noteq> [] \<and> agg (values_under key_cmp (concat (map emits ps)) k) (mset vs)"
  proof (intro ballI, clarify)
    fix k vs assume "(k, vs) \<in> set calls"
    then obtain r where r: "r < cnt" "k \<in> set (ks r)" "vs = values_for key_cmp (map todo (column T r ivals)) k"
      unfolding assms(7) by (auto simp: task_calls_def)
    have vs: "mset vs = slot_vals key_cmp T ivals r k" unfolding r(3) by (rule values_for_slot_vals [OF assms(3) lt [OF r(1)]])
    have "agg (values_under key_cmp (concat (map emits ps)) k) (mset vs)"
      using assms(5) lt [OF r(1)] key(1) [OF r(1,2)] pend [of r k] vs by metis
    then show "vs \<noteq> [] \<and> agg (values_under key_cmp (concat (map emits ps)) k) (mset vs)"
      using key(2) [OF r(1,2)] vs by (metis mset_zero_iff)
  qed
  show "\<forall>(k, v, sz) \<in> set (concat (map emits ps)). slot k < cnt \<longrightarrow> (\<exists>(k', vs) \<in> set calls. key_cmp k k' = 0)"
  proof (intro ballI, clarify)
    fix k v sz assume e: "(k, v, sz) \<in> set (concat (map emits ps))" and s: "slot k < cnt"
    have "values_under key_cmp (concat (map emits ps)) k \<noteq> {#}"
      using e key_order.cmp_refl [OF ko, of k] unfolding values_under_def by (force simp: filter_empty_conv)
    then have "slot_vals key_cmp T ivals (slot k) k \<noteq> {#}" using assms(5) lt [OF s] ae pend [of "slot k" k] by metis
    then obtain e' where e': "e' \<in> set (concat (map todo (column T (slot k) ivals)))" "key_cmp (kv_key e') k = 0"
      using slot_vals_not_empty [OF assms(3) lt [OF s]] by blast
    then obtain k' where k': "k' \<in> set (ks (slot k))" "key_cmp (kv_key e') k' = 0"
      using assms(6) s unfolding distinct_keys_def by blast
    have "key_cmp k k' = 0" using key_order.cmp_eq_left(2) [OF ko e'(2)] k'(2) by simp
    then show "\<exists>(k', vs) \<in> set calls. key_cmp k k' = 0"
      unfolding assms(7) using k'(1) s by (force simp: task_calls_def)
  qed
qed

section \<open>The environment of a run\<close>

text \<open>What \<open>env_init\<close> promises: the arrays are empty, and the numbers of threads fit together.\<close>

lemma sched_policy_get_strand:
  "sched_policy_get os SCHED_POLICY_STRAND_FILL =
     Inr \<lparr>sp_num_cpus = proc_get_num_cpus os, sp_num_chips_per_sys = loc_get_num_lgrps os, sp_map = Map_fill_strand\<rparr>"
  by (simp add: sched_policy_get_def SCHED_POLICY_STRAND_FILL_def SCHED_POLICY_LAST_def policies_def arr_get_def)

lemma env_init_fields:
  assumes "env_init os args = Inr env"
  shows "e_args env = args" "e_key_cmp env = a_key_cmp args" "e_map env = a_map args" "e_combiner env = a_combiner args"
    "e_splitter env = a_splitter args" "e_splitter_pos env = 0" "\<not> e_oneOutputQueuePerMapTask env"
    "e_oneOutputQueuePerReduceTask env = a_use_one_queue_per_task args"
    "e_num_reduce_tasks env = (if a_use_one_queue_per_task args then 256 else 32768)"
    "e_intermediate_vals env = replicate (nat (e_num_map_threads env)) (replicate (nat (e_num_reduce_tasks env)) keyvals_arr_0)"
    "e_final_vals env = replicate (nat (if a_use_one_queue_per_task args then e_num_reduce_tasks env else e_num_reduce_threads env)) keyval_arr_0"
    "\<exists>sp. sp_num_cpus sp = proc_get_num_cpus os \<and> e_schedPolicies env = [sp, sp, sp]"
    "e_num_merge_threads env = min (max (if a_use_one_queue_per_task args
        then (if a_num_merge_threads args > 0 then a_num_merge_threads args else e_num_reduce_threads env)
        else e_num_reduce_threads env sdiv 2) 1) (e_num_reduce_tasks env sdiv 2)"
  using assms
proof -
  define sp where "sp = \<lparr>sp_num_cpus = proc_get_num_cpus os, sp_num_chips_per_sys = loc_get_num_lgrps os, sp_map = Map_fill_strand\<rparr>"
  have "mapE (\<lambda>_. sched_policy_get os SCHED_POLICY_STRAND_FILL) [0..<TASK_TYPE_TOTAL] = Inr [sp, sp, sp]"
    by (simp add: sched_policy_get_strand TASK_TYPE_TOTAL_def upt_rec sp_def)
  then obtain np cs where e: "env = env_filled args np cs [sp, sp, sp]"
    using assms by (auto simp: env_init_def Let_def bindE_Inr_conv)
  have numbers: "EXTENDED_NUM_REDUCE_TASKS = 32768" "DEFAULT_NUM_REDUCE_TASKS = 256"
    by (simp_all add: DEFAULT_NUM_REDUCE_TASKS_def EXTENDED_NUM_REDUCE_TASKS_def)
  show "\<exists>sp. sp_num_cpus sp = proc_get_num_cpus os \<and> e_schedPolicies env = [sp, sp, sp]"
    by (rule exI [of _ sp]) (simp add: e env_filled_def Let_def sp_def)
  show "e_args env = args" "e_key_cmp env = a_key_cmp args" "e_map env = a_map args" "e_combiner env = a_combiner args"
    "e_splitter env = a_splitter args" "e_splitter_pos env = 0" "\<not> e_oneOutputQueuePerMapTask env"
    "e_oneOutputQueuePerReduceTask env = a_use_one_queue_per_task args"
    "e_num_reduce_tasks env = (if a_use_one_queue_per_task args then 256 else 32768)"
    "e_intermediate_vals env = replicate (nat (e_num_map_threads env)) (replicate (nat (e_num_reduce_tasks env)) keyvals_arr_0)"
    "e_final_vals env = replicate (nat (if a_use_one_queue_per_task args then e_num_reduce_tasks env else e_num_reduce_threads env)) keyval_arr_0"
    "e_num_merge_threads env = min (max (if a_use_one_queue_per_task args
        then (if a_num_merge_threads args > 0 then a_num_merge_threads args else e_num_reduce_threads env)
        else e_num_reduce_threads env sdiv 2) 1) (e_num_reduce_tasks env sdiv 2)"
    unfolding e env_filled_def Let_def mr_env_t.simps numbers 
    by (rule refl | simp only: not_False_eq_True | (cases "a_use_one_queue_per_task args"; simp only: simp_thms if_True if_False))+
qed

lemma merge_threads_fit:
  fixes R M N :: nat and num_reduce_threads num_reduce_tasks cpus onln pool :: int
  assumes "num_merge_threads = min (max (if oneq then (if arg > 0 then arg else num_reduce_threads) else num_reduce_threads sdiv 2) 1)
      (num_reduce_tasks sdiv 2)"
    and "num_reduce_threads = int R" and "num_reduce_tasks = (if oneq then 256 else 32768)"
    and "0 < R" "R \<le> M" "int M - 1 \<le> pool" "int R \<le> cpus"
    and "oneq \<longrightarrow> num_merge_threads \<le> cpus \<and> num_merge_threads - 1 \<le> pool"
    and "cpus \<le> onln" "c = cpus" and "N = (if oneq then 256 else 32768)"
  shows "(if oneq then N else R) = 1 \<or> 0 < nat num_merge_threads \<and> int (nat num_merge_threads) \<le> c \<and>
    int (nat num_merge_threads) - 1 \<le> pool \<and>
    int (nat num_merge_threads) * 2 ^ (if oneq then 0 else 1) \<le> onln \<and>
    2 * nat num_merge_threads \<le> (if oneq then N else R)"
proof (cases oneq)
  case True
  then have "num_merge_threads = min (max (if arg > 0 then arg else num_reduce_threads) 1) 128" using assms(1,3) by simp
  then have "1 \<le> num_merge_threads" "num_merge_threads \<le> 128" by simp_all
  then show ?thesis using True assms(8-11) by simp
next
  case False
  have "num_merge_threads = min (max (int R sdiv 2) 1) 16384" using False assms(1-3) by simp
  moreover have "int R sdiv 2 = int R div 2" using assms(4) by (simp add: signed_divide_int_def)
  ultimately have t: "num_merge_threads = min (max (int R div 2) 1) 16384" by simp
  then have "1 \<le> num_merge_threads" by simp
  moreover have "2 * num_merge_threads \<le> int R" if "R \<noteq> 1" using t assms(4) that by simp
  ultimately show ?thesis using False assms(4-7,9,10) by auto
qed

section \<open>The whole run\<close>

text \<open>
  What a run needs besides the application's contracts: the machine, the process and its memory, and
  schedules that give every worker enough turns. \<open>M\<close> and \<open>R\<close> are the numbers of map and reduce
  threads, \<open>P\<close> is the number of pieces.
\<close>

definition pool_of :: "mr_proc \<Rightarrow> nat \<Rightarrow> int" where
  "pool_of p M = (case p_tpool p of None \<Rightarrow> int M | Some n \<Rightarrow> n)"

definition mr_ready :: "mr_run \<Rightarrow> ('u, 'k, 'v) map_reduce_args_t \<Rightarrow> ('u, 'k, 'v) mr_env_t \<Rightarrow> mr_proc \<Rightarrow> nat \<Rightarrow> nat \<Rightarrow> nat \<Rightarrow> bool" where
  "mr_ready run args env p M R P \<longleftrightarrow>
     0 < a_unit_size args \<and> a_proc_offset args = 0 \<and>
     e_num_map_threads env = int M \<and> e_num_reduce_threads env = int R \<and> 0 < R \<and> R \<le> M \<and> int M - 1 \<le> pool_of p M \<and>
     os_ok (r_os run) \<and> int R \<le> proc_get_num_cpus (r_os run) \<and> 0 < loc_get_lgrp_size (r_os run) \<and>
     (a_use_one_queue_per_task args \<longrightarrow>
        e_num_merge_threads env \<le> proc_get_num_cpus (r_os run) \<and> e_num_merge_threads env - 1 \<le> pool_of p M) \<and>
     (\<forall>s. 0 \<le> fst (r_rand_r run s)) \<and> (\<forall>i. 0 \<le> r_rands run i) \<and> P < r_fuel run \<and>
     (\<forall>t < min P M. P + 2 \<le> count_list (r_map_sched run) t) \<and>
     (\<forall>t < R. nat (e_num_reduce_tasks env) + 2 \<le> count_list (r_reduce_sched run) t) \<and>
     (\<forall>r n. mset (r_merge_order run r n) = mset [0..<n]) \<and>
     heap_ok (p_heap p) \<and>
     brk (p_heap p) + tq_words (tq_count (r_os run) M) M + QUEUE_SIZE + 2 * ENTRY_SIZE * P +
       ENTRY_SIZE * nat (e_num_reduce_tasks env) \<le> mem_limit (p_heap p) \<and>
     M \<le> length (p_tids p) \<and> distinct (p_tids p) \<and> 0 \<notin> set (p_tids p) \<and>
     tls_ok M (p_emit_tls p) \<and> tls_ok M (p_reduce_tls p)"

lemma tls_ok_less: "tls_ok M tls \<Longrightarrow> T \<le> M \<Longrightarrow> tls_ok T tls"
  by (auto simp: tls_ok_def)

lemma merge_phase_ok:
  assumes "key_order (e_key_cmp env)" and "os_ok (r_os run)" and "\<forall>r n. mset (r_merge_order run r n) = mset [0..<n]"
    and "e_schedPolicies env = [sp0, sp1, sp]" "a_proc_offset (e_args env) = 0"
    and "length (e_final_vals env) = nat (if e_oneOutputQueuePerReduceTask env then e_num_reduce_tasks env else e_num_reduce_threads env)"
    and "finals_ok (e_key_cmp env) (e_final_vals env)" and "T = nat (e_num_merge_threads env)"
    and "length (e_final_vals env) = 1 \<or> 0 < T \<and> int T \<le> sp_num_cpus sp \<and> int T - 1 \<le> pool \<and>
      int T * 2 ^ (if e_oneOutputQueuePerReduceTask env then 0 else 1) \<le> nprocessors_onln (r_os run) \<and>
      2 * T \<le> length (e_final_vals env)"
  shows "\<exists>result. merge_phase run pool env = Inr result \<and> fd_length result = length (fd_data result) \<and>
    keys_sorted (e_key_cmp env) (fd_data result) \<and> mset (fd_data result) = all_out (e_final_vals env)"
proof -
  have sp: "arr_get [sp0, sp1, sp] 2 = Inr sp" by (simp add: arr_get_def)
  let ?F = "e_final_vals env" and ?oneq = "e_oneOutputQueuePerReduceTask env"
  let ?tasks = "nat (e_num_reduce_tasks env)" and ?threads = "nat (e_num_reduce_threads env)"
  have len: "length ?F = (if ?oneq then ?tasks else ?threads)" using assms(6) by simp
  show ?thesis
  proof (cases "length ?F = 1")
    case True
    then obtain v where v: "?F = [v]" by (cases ?F) auto
    have "(if ?oneq then ?tasks else ?threads) = 1" using len True by simp
    note single = merge_single [OF True this]
    have "kva_len v = length (kva_arr v)" "keys_sorted (e_key_cmp env) (kva_arr v)"
      using assms(7) v by (simp_all add: finals_ok_def keyval_arr_ok_def)
    then show ?thesis using v single by (simp add: merge_phase_def assms(4) sp all_out_def)
  next
    case False
    then have T: "0 < T" "int T \<le> sp_num_cpus sp" "int T - 1 \<le> pool"
      "int T * 2 ^ (if ?oneq then 0 else 1) \<le> nprocessors_onln (r_os run)" "2 * T \<le> length ?F"
      using assms(9) by blast+
    have arrs: "\<forall>v \<in> set ?F. arr_ok (e_key_cmp env) v \<and> kva_pos v = 0"
      using assms(7) by (auto simp: finals_ok_def keyval_arr_ok_def arr_ok_def)
    from merge_spec [OF assms(1-3) T(1-4) len T(5) arrs]
    obtain r where "merge (r_os run) (e_key_cmp env) ?oneq sp 0 pool (r_merge_order run) ?tasks ?threads T ?F = Inr r"
      "fd_length r = length (fd_data r)" "stable_sort_of (e_key_cmp env) (concat (map kva_arr ?F)) (fd_data r)"
      by blast
    then show ?thesis
      by (simp add: merge_phase_def assms(4,5,8) sp stable_sort_of_def stable_perm_def all_out_def)
  qed
qed


text \<open>A run that starts with these resources ends with what MapReduce promises.\<close>

lemma map_reduce_ok:
  fixes args :: "('u, 'k, 'v) map_reduce_args_t"
  assumes "env_init (r_os run) args = Inr env" and "job_ok J env" and "reducer (e_reduce env) red"
    and "a_use_one_queue_per_task args \<longrightarrow> (\<forall>k vs k' v. (k', v) \<in> set (red k vs) \<longrightarrow> a_key_cmp args k' k = 0)"
    and "value_stream (call_splitter env (e_chunk_size env)) pieces ok"
    and "ok (0, u)" "pieces (0, u) = ps" "ps \<noteq> []" "\<forall>pos u'. ok (pos, u') \<longrightarrow> j_app_ok J u' (mset ps)"
    and "mr_ready run args env p M R (length ps)" and "min (length ps) M \<le> R"
  shows "\<exists>result u' p'. map_reduce run args u p = Inr (0, result, u', p') \<and>
    mr_spec (a_key_cmp args) red (j_agg J) (concat (map (j_emits J) ps)) result"
proof -
  note F = env_init_fields [OF assms(1)]
  obtain pol where pol: "sp_num_cpus pol = proc_get_num_cpus (r_os run)" "e_schedPolicies env = [pol, pol, pol]" using F(12) by blast
  let ?cmp = "a_key_cmp args" and ?oneq = "a_use_one_queue_per_task args" and ?P = "length ps" and ?pool = "pool_of p M"
  define T N where "T = min ?P M" and "N = nat (e_num_reduce_tasks env)"
  have N: "e_num_reduce_tasks env = int N" "0 < N" "N < 2 ^ 31" "N = (if ?oneq then 256 else 32768)"
    using F(9) by (simp_all add: N_def)
  have rdy: "0 < a_unit_size args" "a_proc_offset args = 0" "e_num_map_threads env = int M" "e_num_reduce_threads env = int R"
    "0 < R" "R \<le> M" "int M - 1 \<le> ?pool" "os_ok (r_os run)" "int R \<le> proc_get_num_cpus (r_os run)"
    "0 < loc_get_lgrp_size (r_os run)" "\<forall>s. 0 \<le> fst (r_rand_r run s)" "\<forall>i. 0 \<le> r_rands run i" "?P < r_fuel run"
    "\<forall>t < T. ?P + 2 \<le> count_list (r_map_sched run) t" "\<forall>t < R. N + 2 \<le> count_list (r_reduce_sched run) t"
    "\<forall>r n. mset (r_merge_order run r n) = mset [0..<n]" "heap_ok (p_heap p)"
    "brk (p_heap p) + tq_words (tq_count (r_os run) M) M + QUEUE_SIZE + 2 * ENTRY_SIZE * ?P + ENTRY_SIZE * N \<le> mem_limit (p_heap p)"
    "M \<le> length (p_tids p)" "distinct (p_tids p)" "0 \<notin> set (p_tids p)" "tls_ok M (p_emit_tls p)" "tls_ok M (p_reduce_tls p)"
    "?oneq \<longrightarrow> e_num_merge_threads env \<le> proc_get_num_cpus (r_os run) \<and> e_num_merge_threads env - 1 \<le> ?pool"
    using assms(10) by (simp_all add: mr_ready_def T_def N_def)
  have T: "0 < T" "T \<le> M" "T \<le> R" "T \<le> ?P" using assms(8,11) rdy(5,6) by (auto simp: T_def)
  have onln: "proc_get_num_cpus (r_os run) \<le> nprocessors_onln (r_os run)"
    using proc_get_num_cpus_bounds [of "r_os run"] rdy(8) by (simp add: os_ok_def)
  have fit: "workers_fit (r_os run) (r_rand_r run) pol 0 ?pool n" if "0 < n" "n \<le> M" for n
    using that rdy(5,7,8,9,11) onln pol(1) by (simp add: workers_fit_def)
  obtain tq h0 where q: "tq_init (r_os run) M (p_heap p) = Inr (Some tq, h0)" "num_threads tq = M"
    "tq_ok h0 tq (replicate (num_queues tq) []) (replicate (num_queues tq) [])"
    "brk h0 = brk (p_heap p) + tq_words (tq_count (r_os run) M) M" "mem_limit h0 = mem_limit (p_heap p)"
    using tq_init_ok [OF rdy(17) _ rdy(10), of M] rdy(5,6,18) unfolding alloced_def by auto
  define st where "st = \<lparr>st_env = env, st_tq = tq, st_app = u, st_heap = h0, st_tids = p_tids p,
    st_emit_tls = p_emit_tls p, st_reduce_tls = p_reduce_tls p\<rparr>"
  have has0: "tq_has h0 tq (replicate (num_queues tq) [])"
    using q(3) by (auto simp: tq_has_def)
  obtain pos m ivals tls u1 h1 tq1 tss1 where mp:
    "map_phase (r_fuel run) (r_os run) (r_rand_r run) ?pool (r_map_sched run) st =
       Inr (map_st (st\<lparr>st_env := (st_env st)\<lparr>e_splitter_pos := pos, e_num_map_threads := int T\<rparr>\<rparr>) m [] ivals tls u1 h1 tq1)"
    "map_data J env (job_pending J (e_key_cmp env) (mset ps)) T ivals u1 {#}" "tls_ok T tls"
    "tq_has h1 tq1 tss1" "concat tss1 = []" "num_threads tq1 = num_threads tq"
    "brk h1 = brk h0 + QUEUE_SIZE + 2 * ENTRY_SIZE * ?P" "mem_limit h1 = mem_limit h0"
  proof -
    have e: "e_splitter_pos (st_env st) = 0" "st_app st = u" "e_chunk_size (st_env st) = e_chunk_size env" "st_env st = env"
      using F(6) by (simp_all add: st_def)
    have s: "value_stream (call_splitter (st_env st) (e_chunk_size (st_env st))) pieces ok"
      "ok (e_splitter_pos (st_env st), st_app st)" "pieces (e_splitter_pos (st_env st), st_app st) = ps"
      using assms(5-7) e by simp_all
    have j: "job_ok J (st_env st)" "T = min ?P (nat (e_num_map_threads (st_env st)))"
      "e_intermediate_vals (st_env st) = replicate M (replicate (nat (e_num_reduce_tasks (st_env st))) keyvals_arr_0)"
      using assms(2) e(4) rdy(3) F(10) by (simp_all add: T_def)
    have w: "workers_fit (r_os run) (r_rand_r run) pol (a_proc_offset (e_args (st_env st))) ?pool T"
      "e_schedPolicies (st_env st) = pol # [pol, pol]"
      using fit [OF T(1,2)] e(4) F(1) rdy(2) pol(2) by simp_all
    have t: "T \<le> length (st_tids st)" "distinct (st_tids st)" "0 \<notin> set (st_tids st)" "tls_ok T (st_emit_tls st)"
      using rdy(19-22) T(2) tls_ok_less by (auto simp: st_def)
    have h: "tq_has (st_heap st) (st_tq st) (replicate (num_queues tq) [])" "concat (replicate (num_queues tq) []) = []"
      "T \<le> num_threads (st_tq st)" "room (st_heap st) (QUEUE_SIZE + 2 * ENTRY_SIZE * ?P)"
      using has0 q(2,4,5) T(2) rdy(18) by (simp_all add: st_def room_def)
    from map_phase_ok [OF s rdy(13) assms(8) assms(9) j T(2) w t h rdy(10,14)]
    show ?thesis using that e by (auto simp: st_def)
  qed
  define st1 where "st1 = map_st (st\<lparr>st_env := (st_env st)\<lparr>e_splitter_pos := pos, e_num_map_threads := int T\<rparr>\<rparr>) m [] ivals tls u1 h1 tq1"
  have env1: "e_key_cmp (st_env st1) = ?cmp" "e_reduce (st_env st1) = e_reduce env" "e_num_map_threads (st_env st1) = int T"
    "e_num_reduce_threads (st_env st1) = int R" "e_num_reduce_tasks (st_env st1) = int N"
    "e_oneOutputQueuePerReduceTask (st_env st1) = ?oneq" "\<not> e_oneOutputQueuePerMapTask (st_env st1)"
    "e_intermediate_vals (st_env st1) = ivals" "e_final_vals (st_env st1) = replicate (if ?oneq then N else R) keyval_arr_0"
    "e_schedPolicies (st_env st1) = pol # pol # [pol]" "a_proc_offset (e_args (st_env st1)) = 0"
    "e_num_merge_threads (st_env st1) = e_num_merge_threads env" "st_app st1 = u1"
    "st_tids st1 = p_tids p" "st_heap st1 = h1" "st_tq st1 = tq1" "st_reduce_tls st1 = p_reduce_tls p" "st_emit_tls st1 = tls"
    using F(1,2,7,8,11) N(1) rdy(2,4) pol(2) by (simp_all add: st1_def st_def map_st_def)
  have rows: "rows_ok ?cmp T N ivals" "\<forall>r < N. \<forall>k. j_agg J (pending ?cmp (j_slot J) (j_emits J) (mset ps) r k) (slot_vals ?cmp T ivals r k)"
    using mp(2) F(2) by (simp_all add: map_data_def job_pending_def pending_def N_def)
  have part: "partitioner ?cmp (e_partition env) N (j_slot J) (j_valid J)" "combining (e_combiner env) (j_agg J)" "key_order ?cmp"
    using job_okD [OF assms(2)] F(2) by (simp_all add: N_def)
  obtain F' rtls h2 tq2 tss2 outs where rp:
    "reduce_phase (r_rands run) (r_garbage run) (r_os run) (r_rand_r run) ?pool (r_reduce_sched run) st1 =
       Inr (red_st st1 [] [] F' rtls h2 tq2)"
    "tq_has h2 tq2 tss2" "length F' = (if ?oneq then N else R)" "finals_ok ?cmp F'"
    "\<forall>r < N. task_out ?cmp red (column T r ivals) (outs r)" "all_out F' = (\<Sum>r<N. mset (map out_rec (outs r)))"
  proof -
    have a: "key_order (e_key_cmp (st_env st1))" "reducer (e_reduce (st_env st1)) red"
      "e_oneOutputQueuePerReduceTask (st_env st1) \<Longrightarrow> \<forall>k vs k' v. (k', v) \<in> set (red k vs) \<longrightarrow> e_key_cmp (st_env st1) k' k = 0"
      "rows_ok (e_key_cmp (st_env st1)) T N (e_intermediate_vals (st_env st1))"
      "e_final_vals (st_env st1) = replicate (if e_oneOutputQueuePerReduceTask (st_env st1) then N else R) keyval_arr_0"
      using assms(3,4) part(3) rows(1) by (simp_all add: env1)
    have b: "workers_fit (r_os run) (r_rand_r run) pol (a_proc_offset (e_args (st_env st1))) ?pool R"
      "R \<le> length (st_tids st1)" "distinct (st_tids st1)" "0 \<notin> set (st_tids st1)" "tls_ok R (st_reduce_tls st1)"
      "tq_has (st_heap st1) (st_tq st1) tss1" "R \<le> num_threads (st_tq st1)" "room (st_heap st1) (ENTRY_SIZE * N)"
      using fit [OF rdy(5,6)] rdy(6,18-21,23) tls_ok_less mp(4,6,7,8) q(2,4,5) by (auto simp: env1 room_def)
    have c: "N = reduce_count N R (int T)" using reduce_count_all [OF rdy(5), of "int T" N] T(3) by simp
    from reduce_phase_ok [OF a(1,2) a(3) env1(3) T(1) env1(4,5) N(3) env1(7) a(4,5) b(1) env1(10) b(2-6) mp(5) b(7,8) rdy(12) c rdy(15), of "r_garbage run"]
    show ?thesis using that by (auto simp: env1)
  qed
  obtain ks where ks: "\<forall>r < N. distinct_keys ?cmp (concat (map todo (column T r ivals))) (ks r)"
    "\<forall>r < N. outs r = concat (map (\<lambda>k. red k (values_for ?cmp (map todo (column T r ivals)) k)) (ks r))"
    using rp(5) unfolding task_out_def by metis
  define calls where "calls = concat (map (\<lambda>r. task_calls ?cmp T ivals (ks r) r) [0..<N])"
  have out: "concat (map (\<lambda>(k, vs). red k vs) calls) = concat (map outs [0..<N])"
  proof -
    have "concat (map (\<lambda>(k, vs). red k vs) (task_calls ?cmp T ivals (ks r) r)) = outs r" if "r < N" for r
      using ks(2) that by (simp add: task_calls_def comp_def)
    then have "map (\<lambda>r. concat (map (\<lambda>(k, vs). red k vs) (task_calls ?cmp T ivals (ks r) r))) [0..<N] = map outs [0..<N]"
      by simp
    moreover have "concat (map g (concat xss)) = concat (map (\<lambda>xs. concat (map g xs)) xss)" for g :: "'k \<times> 'v list \<Rightarrow> ('k \<times> 'v) list" and xss
      by (induction xss) simp_all
    ultimately show ?thesis unfolding calls_def by (simp only: map_map comp_def)
  qed
  have all: "all_out F' = mset (map out_rec (concat (map outs [0..<N])))"
    by (simp add: rp(6) map_concat mset_concat comp_def interv_sum_list_conv_sum_set_nat lessThan_atLeast0)
  note tc = tasks_calls [OF part(1,2) rows(1) le_refl rows(2) ks(1) calls_def]
  have "j_slot J k < N" if "(k, v, sz) \<in> set (concat (map (j_emits J) ps))" for k v sz
  proof -
    obtain q where "q \<in> set ps" "(k, v, sz) \<in> set (j_emits J q)" using \<open>(k, v, sz) \<in> _\<close> by auto
    moreover have "mset ps = add_mset q (mset ps - {#q#})" using \<open>q \<in> set ps\<close> by simp
    moreover have "j_app_ok J u (mset ps)" using assms(6,9) by blast
    moreover have mj: "map_job ?cmp (e_partition env) N (j_slot J) (j_valid J) (e_map env) (j_emits J) (j_app_ok J) (e_combiner env) (j_agg J)"
      using job_okD(1) [OF assms(2)] F(2) by (simp add: N_def)
    ultimately have "j_valid J k sz" using map_job.emits_valid [OF mj] by metis
    then show ?thesis using map_job.slot_less [OF mj] by blast
  qed
  then have covered: "\<forall>(k, v, sz) \<in> set (concat (map (j_emits J) ps)). \<exists>(k', vs) \<in> set calls. ?cmp k k' = 0"
    using tc(3) by blast
  define env2 where "env2 = st_env (red_st st1 [] [] F' rtls h2 tq2)"
  have env2: "e_key_cmp env2 = ?cmp" "e_schedPolicies env2 = [pol, pol, pol]" "a_proc_offset (e_args env2) = 0"
    "e_oneOutputQueuePerReduceTask env2 = ?oneq" "e_num_reduce_tasks env2 = int N" "e_num_reduce_threads env2 = int R"
    "e_final_vals env2 = F'" "e_num_merge_threads env2 = e_num_merge_threads env"
    using env1 by (simp_all add: env2_def red_st_def)
  obtain result where res: "merge_phase run ?pool env2 = Inr result" "fd_length result = length (fd_data result)"
    "keys_sorted ?cmp (fd_data result)" "mset (fd_data result) = all_out F'"
  proof -
    let ?Tm = "nat (e_num_merge_threads env)"
    have len: "length (e_final_vals env2) = nat (if e_oneOutputQueuePerReduceTask env2 then e_num_reduce_tasks env2 else e_num_reduce_threads env2)"
      using rp(3) by (simp add: env2)
    have cond: "length (e_final_vals env2) = 1 \<or> 0 < ?Tm \<and> int ?Tm \<le> sp_num_cpus pol \<and> int ?Tm - 1 \<le> ?pool \<and>
      int ?Tm * 2 ^ (if e_oneOutputQueuePerReduceTask env2 then 0 else 1) \<le> nprocessors_onln (r_os run) \<and>
      2 * ?Tm \<le> length (e_final_vals env2)"
      unfolding env2 rp(3)
      by (rule merge_threads_fit [OF F(13) rdy(4) F(9) rdy(5,6,7,9,24) onln pol(1) N(4)])
    have "key_order (e_key_cmp env2)" "finals_ok (e_key_cmp env2) (e_final_vals env2)" "nat (e_num_merge_threads env) = nat (e_num_merge_threads env2)"
      using part(3) rp(4) by (simp_all add: env2)
    from merge_phase_ok [OF this(1) rdy(8,16) env2(2,3) len this(2,3) cond]
    show ?thesis using that by (auto simp: env2)
  qed
  obtain h3 where fin: "tq_finalize tq2 h2 = Inr h3" using tq_finalize_ok rp(2) unfolding tq_has_def by blast
  have pool: "(case p_tpool p of None \<Rightarrow> e_num_map_threads env | Some n \<Rightarrow> n) = ?pool"
    by (cases "p_tpool p") (simp_all add: pool_of_def rdy(3))
  have data: "mset (fd_data result) = mset (map out_rec (concat (map (\<lambda>(k, vs). red k vs) calls)))"
    unfolding res(4) all out ..
  have "\<exists>u' p'. map_reduce run args u p = Inr (0, result, u', p')"
    unfolding map_reduce_def
    using rdy(1,3) q(1) mp(1) rp(1) res(1) fin
    by (simp add: assms(1) pool env2_def env_fini_def Let_def flip: st_def st1_def)
  moreover have "mr_spec ?cmp red (j_agg J) (concat (map (j_emits J) ps)) result"
    unfolding mr_spec_def by (intro conjI exI [of _ calls] res(2,3) data tc(1,2) covered)
  ultimately show ?thesis by blast
qed

end
