(* ===== verification/WordCount.thy ===== *)
theory WordCount
  imports ReduceTask
begin

text \<open>
  The callbacks of \<open>tests/word_count/word_count.c\<close>: comparison of words, splitter, map, reduce and
  combiner. They are what the runtime's user-supplied functions look like, and the comparator and
  the reduce function satisfy the contracts the runtime relies on. A string is the list of its
  bytes; \<open>strcmp\<close> and \<open>toupper\<close> (in the C locale) are the C library's.
\<close>

section \<open>The C library\<close>

type_synonym byte = "8 word"

definition c_str :: "byte list \<Rightarrow> byte list" where
  "c_str s = takeWhile (\<lambda>b. b \<noteq> 0) s"

fun str_diff :: "byte list \<Rightarrow> byte list \<Rightarrow> int" where
  "str_diff [] [] = 0"
| "str_diff [] (b # t) = - uint b"
| "str_diff (a # s) [] = uint a"
| "str_diff (a # s) (b # t) = (if a = b then str_diff s t else uint a - uint b)"

definition strcmp :: "byte list \<Rightarrow> byte list \<Rightarrow> int" where
  "strcmp s t = str_diff (c_str s) (c_str t)"

definition toupper :: "byte \<Rightarrow> byte" where
  "toupper c = (if 97 \<le> c \<and> c \<le> 122 then c - 32 else c)"

section \<open>Comparing words\<close>

definition mystrcmp :: "byte list key_cmp" where
  "mystrcmp s1 s2 = strcmp s1 s2"

lemma str_diff_refl: "str_diff s s = 0"
  by (induction s) simp_all

lemma uint_pos: "b \<noteq> 0 \<Longrightarrow> 0 < uint (b :: byte)"
  using uint_nonnegative [of b] uint_0_iff [of b] by linarith

lemma uint_diff: "a \<noteq> b \<Longrightarrow> uint (a :: byte) \<noteq> uint b"
  by (simp add: word_uint_eq_iff)

lemma str_diff_neg: "str_diff s t = - str_diff t s"
  by (induction s t rule: str_diff.induct) auto

lemma str_diff_trans:
  assumes "0 \<notin> set s" "0 \<notin> set t" "0 \<notin> set u"
    and "str_diff s t \<le> 0" and "str_diff t u \<le> 0"
  shows "str_diff s u \<le> 0"
  using assms
proof (induction s t arbitrary: u rule: str_diff.induct)
  case (2 b t)
  then show ?case by (cases u) (simp_all add: uint_nonnegative)
next
  case (3 a s)
  then have "0 < uint a" by (intro uint_pos) auto
  then show ?case using 3 by simp
next
  case (4 a s b t)
  show ?case
  proof (cases u)
    case Nil
    then have "0 < uint b" using 4 by (intro uint_pos) auto
    then show ?thesis using 4 Nil by simp
  next
    case (Cons c v)
    consider "a = b" "b = c" | "a \<noteq> b" "b = c" | "a = b" "b \<noteq> c" | "a \<noteq> b" "b \<noteq> c" by blast
    then show ?thesis
    proof cases
      case 4
      then have "uint a < uint b" "uint b < uint c"
        using uint_diff [of a b] uint_diff [of b c] "4.prems"(4,5) Cons by auto
      then show ?thesis using Cons by auto
    qed (use 4 Cons in auto)
  qed
qed simp

lemma c_str_nonzero: "0 \<notin> set (c_str s)"
  by (auto simp: c_str_def dest: set_takeWhileD)

interpretation wc: key_order mystrcmp
proof unfold_locales
  show "mystrcmp a a = 0" for a by (simp add: mystrcmp_def strcmp_def str_diff_refl)
  show "mystrcmp a b < 0 \<longleftrightarrow> mystrcmp b a > 0" for a b
    using str_diff_neg [of "c_str a" "c_str b"] by (simp add: mystrcmp_def strcmp_def)
  show "mystrcmp a c \<le> 0" if "mystrcmp a b \<le> 0" "mystrcmp b c \<le> 0" for a b c
    using str_diff_trans [OF c_str_nonzero c_str_nonzero c_str_nonzero] that
    by (simp add: mystrcmp_def strcmp_def)
qed

section \<open>Reduce and combiner\<close>

definition wordcount_sum :: "('k, 64 word) iterator_t \<Rightarrow> 64 word res" where
  "wordcount_sum itr =
     bindE (while_next iter_next (Suc (it_size itr)) (\<lambda>sum v. Inr (sum + v)) 0 itr) (\<lambda>(sum, _). Inr sum)"

definition wordcount_reduce :: "('k, 64 word) reduce_t" where
  "wordcount_reduce key itr = bindE (wordcount_sum itr) (\<lambda>sum. Inr [(key, sum)])"

definition wordcount_combiner :: "('k, 64 word) iterator_t \<Rightarrow> 64 word res" where
  "wordcount_combiner itr = wordcount_sum itr"

lemma sum_fold: "foldE (\<lambda>sum v. Inr (sum + v)) (s :: 64 word) vs = Inr (s + sum_list vs)"
  by (induction vs arbitrary: s) (simp_all add: add.assoc)

lemma wordcount_sum_loaded:
  assumes "loaded i es" and "es \<noteq> []"
  shows "wordcount_sum i = Inr (sum_list (concat (map kv_values es)))"
proof -
  have "length (iter_rest i) < Suc (it_size i)"
    using loaded_ok [OF assms] assms(1) by (simp add: loaded_def)
  from itr.while_next_folds [OF loaded_ok(1) [OF assms] this, of "\<lambda>sum v. Inr (sum + v)" 0]
  show ?thesis using loaded_ok(2) [OF assms] by (auto simp: wordcount_sum_def sum_fold)
qed

interpretation wcr: reducer wordcount_reduce "\<lambda>k vs. [(k, sum_list vs)]"
  by unfold_locales (simp add: wordcount_reduce_def wordcount_sum_loaded)

section \<open>Splitter\<close>

record wc_data_t =
  wc_fpos :: int
  wc_flen :: int
  wc_fdata :: "byte list"
  wc_unit_size :: int

text \<open>What the splitter writes to its output argument: the address is an offset into the file.\<close>

record wc_args_t =
  wa_length :: int
  wa_offset :: int

definition is_blank :: "byte \<Rightarrow> bool" where
  "is_blank c \<longleftrightarrow> c = 32 \<or> c = 9 \<or> c = 13 \<or> c = 10"

text \<open>The loop that moves the end of the piece to the next blank.\<close>

function to_blank :: "byte list \<Rightarrow> int \<Rightarrow> int \<Rightarrow> int \<Rightarrow> (int \<times> int) res" where
  "to_blank fdata flen fpos len =
     (if fpos < flen then
        bindE (arr_get fdata fpos) (\<lambda>c.
        if \<not> is_blank c then to_blank fdata flen (fpos + 1) (len + 1) else Inr (fpos, len))
      else Inr (fpos, len))"
  by pat_completeness auto
termination by (relation "measure (\<lambda>(d, n, p, l). nat (n - p))") auto

declare to_blank.simps [simp del]

text \<open>
  \<open>fpos\<close> and the product of \<open>req_units\<close> and \<open>unit_size\<close> are 32 bits wide; the length is 64 bits
  wide, so the sum that is stored back into \<open>fpos\<close> is cut.
\<close>

definition wordcount_splitter :: "wc_data_t \<Rightarrow> int \<Rightarrow> (int \<times> wc_args_t option \<times> wc_data_t) res" where
  "wordcount_splitter data req_units =
     bindE (assertE (wc_flen data \<ge> 0)) (\<lambda>_.
     bindE (assertE (req_units \<noteq> 0)) (\<lambda>_.
     bindE (assertE (wc_fpos data \<ge> 0)) (\<lambda>_.
     if wc_fpos data \<ge> wc_flen data then Inr (0, None, data)
     else
       (let len = to_int32 (req_units * wc_unit_size data);
            len = (if wc_fpos data + len > wc_flen data then wc_flen data - wc_fpos data else len)
        in bindE (to_blank (wc_fdata data) (wc_flen data) (to_int32 (wc_fpos data + len)) len) (\<lambda>(fpos, len).
           Inr (1, Some \<lparr>wa_length = len, wa_offset = wc_fpos data\<rparr>, data\<lparr>wc_fpos := fpos\<rparr>))))))"

lemma to_blank_spec:
  assumes "0 \<le> fpos" "fpos \<le> flen" "flen = int (length fdata)"
  shows "\<exists>k. to_blank fdata flen fpos len = Inr (fpos + k, len + k) \<and> 0 \<le> k \<and> fpos + k \<le> flen \<and>
    (fpos + k < flen \<longrightarrow> is_blank (fdata ! nat (fpos + k)))"
  using assms
proof (induction fdata flen fpos len rule: to_blank.induct)
  case (1 fdata flen fpos len)
  show ?case
  proof (cases "fpos < flen")
    case less: True
    have get: "arr_get fdata fpos = Inr (fdata ! nat fpos)" using 1(2,4) less by (simp add: arr_get_int)
    show ?thesis
    proof (cases "is_blank (fdata ! nat fpos)")
      case True
      then show ?thesis using less get 1(2-4) by (intro exI [of _ 0]) (simp add: to_blank.simps [of fdata])
    next
      case False
      have "0 \<le> fpos + 1" "fpos + 1 \<le> flen" using less 1(2) by simp_all
      from 1(1) [OF less get _ this 1(4)] False obtain k where k:
        "to_blank fdata flen (fpos + 1) (len + 1) = Inr (fpos + 1 + k, len + 1 + k)" "0 \<le> k" "fpos + 1 + k \<le> flen"
        "fpos + 1 + k < flen \<longrightarrow> is_blank (fdata ! nat (fpos + 1 + k))" by blast
      then show ?thesis
        using less get False by (intro exI [of _ "k + 1"]) (simp add: to_blank.simps [of fdata] ac_simps)
    qed
  qed (use 1(2-4) in \<open>intro exI [of _ 0]; simp add: to_blank.simps [of fdata]\<close>)
qed

text \<open>
  On a file of less than 2 GB a call that is not at the end returns the next piece: it is not
  empty, the position moves to its end, and it ends at a blank or at the end of the file.
\<close>

lemma wordcount_splitter_piece:
  assumes "wc_flen d = int (length (wc_fdata d))" "wc_flen d < 2 ^ 31"
    and "0 \<le> wc_fpos d" "wc_fpos d < wc_flen d"
    and "0 < req" "0 < wc_unit_size d" "req * wc_unit_size d < 2 ^ 31"
  shows "\<exists>n. wordcount_splitter d req =
      Inr (1, Some \<lparr>wa_length = n, wa_offset = wc_fpos d\<rparr>, d\<lparr>wc_fpos := wc_fpos d + n\<rparr>) \<and>
    0 < n \<and> wc_fpos d + n \<le> wc_flen d \<and>
    (wc_fpos d + n < wc_flen d \<longrightarrow> is_blank (wc_fdata d ! nat (wc_fpos d + n)))"
proof -
  let ?n = "req * wc_unit_size d"
  define len where "len = (if wc_fpos d + ?n > wc_flen d then wc_flen d - wc_fpos d else ?n)"
  have n: "0 < ?n" using assms(5,6) by simp
  have i: "to_int32 ?n = ?n" using n assms(7) by (intro to_int32_id) auto
  have len: "0 < len" "wc_fpos d + len \<le> wc_flen d" using n assms(4) by (auto simp: len_def)
  have p: "to_int32 (wc_fpos d + len) = wc_fpos d + len" using len assms(2,3) by (intro to_int32_id) auto
  obtain k where "to_blank (wc_fdata d) (wc_flen d) (wc_fpos d + len) len = Inr (wc_fpos d + len + k, len + k)"
    "0 \<le> k" "wc_fpos d + len + k \<le> wc_flen d"
    "wc_fpos d + len + k < wc_flen d \<longrightarrow> is_blank (wc_fdata d ! nat (wc_fpos d + len + k))"
    using to_blank_spec [of "wc_fpos d + len" "wc_flen d" "wc_fdata d" len] len assms(1,3) by auto
  then show ?thesis
    using assms(3-6) len
    by (intro exI [of _ "len + k"]) (simp add: wordcount_splitter_def i p Let_def flip: len_def, simp add: add.assoc)
qed


section \<open>Map\<close>

definition is_letter :: "byte \<Rightarrow> bool" where
  "is_letter c \<longleftrightarrow> 65 \<le> c \<and> c \<le> 90"

definition is_word_char :: "byte \<Rightarrow> bool" where
  "is_word_char c \<longleftrightarrow> is_letter c \<or> c = 39"

text \<open>
  The loop: \<open>n\<close> more bytes, position \<open>i\<close>, start of the current word, whether in a word, the piece
  of the file (which the loop overwrites) and what was emitted: the string and the size it is
  given. The pointer comparisons with \<open>char\<close>, which is signed, agree with these on bytes.
\<close>

fun wordcount_map_loop ::
  "nat \<Rightarrow> nat \<Rightarrow> nat \<Rightarrow> bool \<Rightarrow> byte list \<Rightarrow> (byte list \<times> int) list \<Rightarrow> (byte list \<times> (byte list \<times> int) list) res" where
  "wordcount_map_loop 0 i curr_start in_word data out = Inr (data, out)"
| "wordcount_map_loop (Suc n) i curr_start in_word data out =
     bindE (arr_get data (int i)) (\<lambda>c.
     let curr_ltr = toupper c in
     if in_word then
       if \<not> is_letter curr_ltr \<and> curr_ltr \<noteq> 39 then
         (let data = (data[i := curr_ltr])[i := 0] in
          wordcount_map_loop n (Suc i) curr_start False data
            (out @ [(c_str (drop curr_start data), int i - int curr_start + 1)]))
       else wordcount_map_loop n (Suc i) curr_start True (data[i := curr_ltr]) out
     else if is_letter curr_ltr then wordcount_map_loop n (Suc i) i True (data[i := curr_ltr]) out
     else wordcount_map_loop n (Suc i) curr_start False data out)"

definition wordcount_map :: "byte list \<Rightarrow> nat \<Rightarrow> (byte list \<times> (byte list \<times> int) list) res" where
  "wordcount_map data len = wordcount_map_loop len 0 0 False data []"

text \<open>
  The words of a text in upper case: maximal runs of letters and apostrophes that begin with a
  letter and that another character follows.
\<close>

function chunk_words :: "byte list \<Rightarrow> byte list list" where
  "chunk_words [] = []"
| "chunk_words (c # cs) =
     (if is_letter c then
        (case dropWhile is_word_char cs of
           [] \<Rightarrow> []
         | _ # r \<Rightarrow> (c # takeWhile is_word_char cs) # chunk_words r)
      else chunk_words cs)"
  by pat_completeness auto
termination
  by (relation "measure length")
    (auto, metis Suc_le_lessD le_SucI length_Cons length_dropWhile_le)

declare chunk_words.simps(2) [simp del]

definition word_rest :: "byte list \<Rightarrow> byte list \<Rightarrow> byte list list" where
  "word_rest w u =
     (case dropWhile is_word_char u of [] \<Rightarrow> [] | _ # r \<Rightarrow> (w @ takeWhile is_word_char u) # chunk_words r)"

lemma word_rest_simps:
  "word_rest w [] = []"
  "is_word_char c \<Longrightarrow> word_rest w (c # u) = word_rest (w @ [c]) u"
  "\<not> is_word_char c \<Longrightarrow> word_rest w (c # u) = w # chunk_words u"
  by (cases "dropWhile is_word_char u"; simp add: word_rest_def del: dropWhile_eq_Nil_conv)+

lemma chunk_words_Cons:
  "chunk_words (c # u) = (if is_letter c then word_rest [c] u else chunk_words u)"
  by (cases "dropWhile is_word_char u") (simp_all add: chunk_words.simps(2) word_rest_def del: dropWhile_eq_Nil_conv)

lemma is_word_char_nonzero: "is_word_char c \<Longrightarrow> c \<noteq> 0" "is_letter c \<Longrightarrow> c \<noteq> 0"
  by (auto simp: is_word_char_def is_letter_def)

definition with_size :: "byte list \<Rightarrow> byte list \<times> int" where
  "with_size w = (w, int (length w) + 1)"

lemma wordcount_map_loop_spec:
  assumes "n \<le> length rest" and "u = map toupper (take n rest)"
  shows "(\<exists>data'. wordcount_map_loop n (length pre) cs False (pre @ rest) out =
      Inr (data', out @ map with_size (chunk_words u))) \<and>
    (0 \<notin> set w \<longrightarrow> (\<exists>data'. wordcount_map_loop n (length pre + length w) (length pre) True (pre @ w @ rest) out =
      Inr (data', out @ map with_size (word_rest w u))))"
  using assms
proof (induction n arbitrary: pre w rest u cs out)
  case 0
  then show ?case by (simp add: word_rest_simps)
next
  case (Suc n)
  then obtain c rest' where rest: "rest = c # rest'" by (cases rest) auto
  let ?c = "toupper c" and ?u = "map toupper (take n rest')"
  have u: "u = ?c # ?u" and n: "n \<le> length rest'" using Suc.prems rest by simp_all
  note out = Suc.IH [OF n refl, THEN conjunct1] and into = Suc.IH [OF n refl, THEN conjunct2, THEN mp]
  have "\<exists>data'. wordcount_map_loop (Suc n) (length pre) cs False (pre @ rest) out =
      Inr (data', out @ map with_size (chunk_words u))"
  proof (cases "is_letter ?c")
    case True
    with into [of "[?c]" pre out] is_word_char_nonzero(2) [OF True] show ?thesis
      by (auto simp: rest u chunk_words_Cons)
  next
    case False
    with out [of "pre @ [c]" cs out] show ?thesis by (simp add: rest u chunk_words_Cons)
  qed
  moreover have "\<exists>data'. wordcount_map_loop (Suc n) (length pre + length w) (length pre) True (pre @ w @ rest) out =
      Inr (data', out @ map with_size (word_rest w u))" if w: "0 \<notin> set w"
  proof -
    have get: "arr_get (pre @ w @ c # rest') (int (length pre + length w)) = Inr c"
      by (subst arr_get_nth) (simp_all add: nth_append)
    have upd: "(pre @ w @ y # rest')[length pre + length w := x] = pre @ w @ x # rest'" for x y
      by (simp add: list_update_append)
    show ?thesis
    proof (cases "is_word_char ?c")
      case True
      have "0 \<notin> set (w @ [?c])" using w is_word_char_nonzero(1) [OF True] by auto
      from into [OF this, of pre out] True get show ?thesis
        by (auto simp: rest u upd word_rest_simps is_word_char_def Let_def)
    next
      case False
      have "takeWhile (\<lambda>b. b \<noteq> 0) w = w" using w by (auto simp: takeWhile_eq_all_conv)
      then have "c_str (w @ 0 # rest') = w" using w by (auto simp: c_str_def takeWhile_append)
      with out [of "pre @ w @ [0]" "length pre" "out @ [with_size w]"] False get show ?thesis
        by (simp add: rest u upd word_rest_simps is_word_char_def Let_def) (simp add: with_size_def)
    qed
  qed
  ultimately show ?case by blast
qed

lemma wordcount_map_words:
  assumes "len \<le> length data"
  shows "\<exists>data'. wordcount_map data len = Inr (data', map with_size (chunk_words (map toupper (take len data))))"
  using wordcount_map_loop_spec [OF assms refl, of "[]" 0 "[]"] by (simp add: wordcount_map_def)

end
