(* ===== verification/WordCountJob.thy ===== *)
theory WordCountJob
  imports MapReduce WordCount
begin

text \<open>
  \<open>tests/word_count/word_count.c\<close> as a job of the runtime: its callbacks meet the contracts of
  \<open>map_phase_ok\<close> and \<open>reduce_phase_ok\<close>, so that a run counts the words of its pieces. The application's
  memory is the input in memory at an address \<open>base\<close>; an emitted key is a string inside it, which the map
  function terminates with a zero byte and nobody overwrites.
\<close>

section \<open>The callbacks behind the runtime's types\<close>

definition wc_splitter :: "64 word \<Rightarrow> wc_data_t splitter_t" where
  "wc_splitter base d req_units =
     bindE (wordcount_splitter d req_units) (\<lambda>(ret, out, d).
     Inr (ret, map_option (\<lambda>a. \<lparr>ma_length = word_of_int (wa_length a), ma_data = base + word_of_int (wa_offset a)\<rparr>) out, d))"

definition wc_start :: "64 word \<Rightarrow> map_args_t \<Rightarrow> nat" where
  "wc_start base p = unat (ma_data p - base)"

definition wc_end :: "64 word \<Rightarrow> map_args_t \<Rightarrow> nat" where
  "wc_end base p = wc_start base p + unat (ma_length p)"

definition wc_map :: "64 word \<Rightarrow> (wc_data_t, byte list, 64 word) map_t" where
  "wc_map base d p =
     bindE (assertE (wc_end base p \<le> length (wc_fdata d))) (\<lambda>_.
     bindE (wordcount_map (drop (wc_start base p) (wc_fdata d)) (unat (ma_length p))) (\<lambda>(data, words).
     Inr (d\<lparr>wc_fdata := take (wc_start base p) (wc_fdata d) @ data\<rparr>, map (\<lambda>(w, sz). (w, 1, sz)) words)))"

text \<open>The bytes at a key's address, for the default partition.\<close>

definition wc_key_mem :: "byte list \<Rightarrow> 8 word list" where
  "wc_key_mem k = c_str k @ [0]"

definition wc_partition :: "byte list partition_t" where
  "wc_partition n key sz = default_partition n (wc_key_mem key) sz"

section \<open>Comparing\<close>

lemma str_diff_eq: "0 \<notin> set s \<Longrightarrow> 0 \<notin> set t \<Longrightarrow> str_diff s t = 0 \<longleftrightarrow> s = t"
proof (induction s t rule: str_diff.induct)
  case (2 b t)
  then show ?case using uint_pos [of b] by auto
next
  case (3 a s)
  then show ?case using uint_pos [of a] by auto
next
  case (4 a s b t)
  then show ?case using uint_diff [of a b] by auto
qed simp

lemma mystrcmp_eq: "mystrcmp s t = 0 \<longleftrightarrow> c_str s = c_str t"
  by (simp add: mystrcmp_def strcmp_def str_diff_eq c_str_nonzero)

lemma c_str_id: "0 \<notin> set s \<Longrightarrow> c_str s = s"
  by (auto simp: c_str_def takeWhile_eq_all_conv)

section \<open>Partition\<close>

definition wc_slot :: "nat \<Rightarrow> byte list \<Rightarrow> nat" where
  "wc_slot n k = (case wc_partition (int n) k (int (length (c_str k)) + 1) of Inl _ \<Rightarrow> 0 | Inr r \<Rightarrow> nat r)"

definition wc_valid :: "byte list \<Rightarrow> int \<Rightarrow> bool" where
  "wc_valid k sz \<longleftrightarrow> 0 \<notin> set k \<and> sz = int (length k) + 1"

lemma wc_partitioner:
  assumes "0 < n" and "n < 2 ^ 31"
  shows "partitioner mystrcmp wc_partition n (wc_slot n) wc_valid"
proof (intro partitioner.intro partitioner_axioms.intro)
  show "key_order mystrcmp" by (rule wc.key_order_axioms)
  fix k k' :: "byte list" and sz
  show "\<exists>r. wc_partition (int n) k sz = Inr r \<and> 0 \<le> r \<and> nat (r mod int n) = wc_slot n k" if "wc_valid k sz"
  proof -
    have s: "sz = int (length (c_str k)) + 1" using that by (simp add: wc_valid_def c_str_id)
    then obtain r where "wc_partition (int n) k sz = Inr r" "0 \<le> r" "r < int n"
      using default_partition_range [of "int n" sz "wc_key_mem k"] assms by (auto simp: wc_partition_def wc_key_mem_def)
    then show ?thesis using s by (simp add: wc_slot_def)
  qed
  show "wc_slot n k = wc_slot n k'" if "mystrcmp k k' = 0"
    using that by (simp add: mystrcmp_eq wc_slot_def wc_partition_def wc_key_mem_def)
qed (rule assms)

interpretation wcp: partitioner mystrcmp wc_partition 32768 "wc_slot 32768" wc_valid
  by (rule wc_partitioner) simp_all

section \<open>Combiner\<close>

definition wc_agg :: "64 word multiset \<Rightarrow> 64 word multiset \<Rightarrow> bool" where
  "wc_agg A B \<longleftrightarrow> sum_mset A = sum_mset B \<and> (A = {#} \<longleftrightarrow> B = {#})"

lemma wc_combine:
  assumes "loaded i [e]"
  shows "\<exists>v. wordcount_combiner i = Inr v \<and> wc_agg (mset (kv_values e)) {#v#}"
proof -
  have "kv_values e \<noteq> []" using assms by (simp add: loaded_def keyvals_ok_nonempty)
  then show ?thesis
    using wordcount_sum_loaded [OF assms] by (simp add: wordcount_combiner_def wc_agg_def sum_mset_sum_list)
qed

interpretation wcc: combining "Some (wordcount_combiner :: (byte list, 64 word) combiner_t)" wc_agg
proof unfold_locales
  fix c :: "(byte list, 64 word) combiner_t" and i :: "(byte list, 64 word) iterator_t" and e
  assume "Some wordcount_combiner = Some c" "loaded i [e]"
  then show "\<exists>v. c i = Inr v \<and> wc_agg (mset (kv_values e)) {#v#}" using wc_combine by simp
qed (auto simp: wc_agg_def)

text \<open>Without a combiner the values arrive as they were emitted.\<close>

interpretation plain: combining None "(=)"
  by unfold_locales auto

section \<open>Map\<close>

definition wc_bytes :: "64 word \<Rightarrow> byte list \<Rightarrow> map_args_t \<Rightarrow> byte list" where
  "wc_bytes base input p = take (unat (ma_length p)) (drop (wc_start base p) input)"

definition wc_words :: "64 word \<Rightarrow> byte list \<Rightarrow> map_args_t \<Rightarrow> byte list list" where
  "wc_words base input p = chunk_words (map toupper (wc_bytes base input p))"

definition wc_emits :: "64 word \<Rightarrow> byte list \<Rightarrow> map_args_t \<Rightarrow> (byte list \<times> 64 word \<times> int) list" where
  "wc_emits base input p = map (\<lambda>w. (w, 1, int (length w) + 1)) (wc_words base input p)"

text \<open>
  The pieces still to be mapped do not overlap and hold what the input held at the start; the map
  function overwrites only its own piece.
\<close>

definition wc_apart :: "64 word \<Rightarrow> map_args_t list \<Rightarrow> bool" where
  "wc_apart base = sorted_wrt (\<lambda>p q. wc_end base p \<le> wc_start base q)"

definition wc_app_ok :: "64 word \<Rightarrow> byte list \<Rightarrow> wc_data_t \<Rightarrow> map_args_t multiset \<Rightarrow> bool" where
  "wc_app_ok base input d ps \<longleftrightarrow>
     length (wc_fdata d) = length input \<and>
     (\<forall>p \<in># ps. wc_end base p \<le> length input \<and> wc_bytes base (wc_fdata d) p = wc_bytes base input p) \<and>
     (\<exists>l. mset l = ps \<and> wc_apart base l)"

lemma wordcount_map_loop_frame:
  assumes "wordcount_map_loop n i cs st data out = Inr (data', out')"
  shows "length data' = length data \<and> drop (i + n) data' = drop (i + n) data"
  using assms
proof (induction n arbitrary: i cs st data out)
  case (Suc n)
  obtain c where c: "arr_get data (int i) = Inr c" using Suc.prems by (cases "arr_get data (int i)") simp_all
  obtain data1 cs1 st1 out1 where 1: "wordcount_map_loop n (Suc i) cs1 st1 data1 out1 = Inr (data', out')"
    "length data1 = length data" "drop (Suc i + n) data1 = drop (Suc i + n) data"
  proof -
    have "length (data[i := x]) = length data" "drop (Suc i + n) (data[i := x]) = drop (Suc i + n) data" for x by simp_all
    then show ?thesis using Suc.prems c that by (auto simp: Let_def split: if_splits)
  qed
  then show ?case using Suc.IH [OF 1(1)] by simp
qed simp

lemma wordcount_map_frame:
  assumes "wordcount_map data n = Inr (data', words)"
  shows "length data' = length data" "drop n data' = drop n data"
  using wordcount_map_loop_frame [OF assms [unfolded wordcount_map_def]] by simp_all

lemma chunk_words_chars: "w \<in> set (chunk_words u) \<Longrightarrow> w \<noteq> [] \<and> (\<forall>c \<in> set w. is_word_char c)"
proof (induction u rule: chunk_words.induct)
  case (2 c cs)
  show ?case
  proof (cases "is_letter c \<and> dropWhile is_word_char cs \<noteq> []")
    case True
    then obtain y r where r: "dropWhile is_word_char cs = y # r" by (cases "dropWhile is_word_char cs") auto
    then have "w = c # takeWhile is_word_char cs \<or> w \<in> set (chunk_words r)"
      using 2(3) True by (simp add: chunk_words.simps(2) [of c])
    then show ?thesis
    proof
      assume "w = c # takeWhile is_word_char cs"
      then show ?thesis using True by (auto simp: is_word_char_def dest: set_takeWhileD)
    qed (use 2(1) True r in auto)
  next
    case False
    then have "chunk_words (c # cs) = (if is_letter c then [] else chunk_words cs)"
      by (subst chunk_words.simps(2)) (auto simp del: dropWhile_eq_Nil_conv)
    then show ?thesis using 2(2,3) by (cases "is_letter c") simp_all
  qed
qed simp

lemma chunk_words_all_chars: "\<forall>c \<in> set u. is_word_char c \<Longrightarrow> chunk_words u = []"
proof (induction u rule: chunk_words.induct)
  case (2 c cs)
  then have "dropWhile is_word_char cs = []" by simp
  then show ?case using 2 by (subst chunk_words.simps(2)) (simp del: dropWhile_eq_Nil_conv)
qed simp

lemma wc_words_nonzero:
  assumes "w \<in> set (wc_words base input p)"
  shows "0 \<notin> set w"
proof
  assume "0 \<in> set w"
  then have "is_word_char 0" using chunk_words_chars assms unfolding wc_words_def by metis
  then show False using is_word_char_nonzero(1) by metis
qed

lemma wc_bytes_beside:
  assumes "wc_end base p \<le> length data" and "length data' = length data - wc_start base p"
    and "drop (unat (ma_length p)) data' = drop (wc_end base p) data"
    and "wc_end base p \<le> wc_start base q \<or> wc_end base q \<le> wc_start base p"
  shows "wc_bytes base (take (wc_start base p) data @ data') q = wc_bytes base data q"
  using assms(4)
proof
  assume q: "wc_end base p \<le> wc_start base q"
  let ?n = "unat (ma_length p)"
  have s: "wc_start base p + ?n \<le> wc_start base q" using q by (simp add: wc_end_def)
  have "drop (wc_start base q) (take (wc_start base p) data @ data') = drop (wc_start base q - wc_start base p) data'"
    using s assms(1) by (simp add: wc_end_def)
  also have "\<dots> = drop (wc_start base q - wc_start base p - ?n) (drop ?n data')" using s by simp
  also have "\<dots> = drop (wc_start base q) data" using s unfolding assms(3) by (simp add: wc_end_def)
  finally show ?thesis by (simp add: wc_bytes_def)
next
  assume q: "wc_end base q \<le> wc_start base p"
  then have "take (wc_end base q) (take (wc_start base p) data @ data') = take (wc_end base q) data"
    using assms(1) by (simp add: wc_end_def)
  moreover have "wc_bytes base xs q = drop (wc_start base q) (take (wc_end base q) xs)" for xs
    by (simp only: wc_bytes_def wc_end_def take_drop add.commute)
  ultimately show ?thesis by simp
qed

lemma wc_map_emits:
  assumes "wc_app_ok base input d (add_mset p ps)"
  shows "\<exists>d'. wc_map base d p = Inr (d', wc_emits base input p) \<and> wc_app_ok base input d' ps"
proof -
  let ?s = "wc_start base p" and ?n = "unat (ma_length p)" and ?data = "wc_fdata d"
  have len: "length ?data = length input"
    and pieces: "\<forall>q \<in># add_mset p ps. wc_end base q \<le> length input \<and> wc_bytes base ?data q = wc_bytes base input q"
    using assms by (simp_all add: wc_app_ok_def)
  obtain l where l: "mset l = add_mset p ps" "wc_apart base l" using assms by (auto simp: wc_app_ok_def)
  then have "p \<in> set l" by (metis add_mset_add_single multi_member_this set_mset_mset union_commute union_single_eq_member)
  then obtain l1 l2 where l12: "l = l1 @ p # l2" by (meson split_list)
  have e: "wc_end base p \<le> length ?data" using pieces len by simp
  then have n: "?n \<le> length (drop ?s ?data)" by (simp add: wc_end_def)
  obtain data' where data': "wordcount_map (drop ?s ?data) ?n = Inr (data', map with_size (wc_words base input p))"
    using wordcount_map_words [OF n] pieces by (auto simp: wc_words_def wc_bytes_def)
  let ?d = "d\<lparr>wc_fdata := take ?s ?data @ data'\<rparr>"
  have fr: "length data' = length ?data - ?s" "drop ?n data' = drop (wc_end base p) ?data"
    using wordcount_map_frame [OF data'] by (simp_all add: wc_end_def add.commute)
  have "wc_map base d p = Inr (?d, wc_emits base input p)"
    using e data' by (simp add: wc_map_def wc_emits_def with_size_def comp_def)
  moreover have "wc_app_ok base input ?d ps"
  proof -
    have ps: "mset (l1 @ l2) = ps" using l(1) l12 by simp
    have beside: "wc_end base p \<le> wc_start base q \<or> wc_end base q \<le> wc_start base p" if "q \<in> set (l1 @ l2)" for q
      using l(2) l12 that by (auto simp: wc_apart_def sorted_wrt_append)
    have "wc_apart base (l1 @ l2)" using l(2) l12 by (auto simp: wc_apart_def sorted_wrt_append)
    moreover have "wc_bytes base (wc_fdata ?d) q = wc_bytes base input q" if "q \<in># ps" for q
      using wc_bytes_beside [OF e fr beside, of q] pieces that ps by auto
    moreover have "length (wc_fdata ?d) = length input" using len e fr(1) by (simp add: wc_end_def)
    ultimately show ?thesis
      unfolding wc_app_ok_def using ps pieces by (intro conjI ballI exI [of _ "l1 @ l2"]) simp_all
  qed
  ultimately show ?thesis by blast
qed

interpretation wcm: mapper "wc_map base" "wc_emits base input" "wc_app_ok base input" for base input
  by unfold_locales (rule wc_map_emits)

lemma wc_emits_valid:
  assumes "(k, v, sz) \<in> set (wc_emits base input p)"
  shows "wc_valid k sz"
  using assms wc_words_nonzero [of k base input p] by (auto simp: wc_emits_def wc_valid_def)

interpretation wcj: map_job mystrcmp wc_partition 32768 "wc_slot 32768" wc_valid "wc_map base" "wc_emits base input"
  "wc_app_ok base input" "Some (wordcount_combiner :: (byte list, 64 word) combiner_t)" wc_agg for base input
  by unfold_locales (rule wc_emits_valid)

section \<open>Pieces\<close>

text \<open>What the splitter hands out from a state on. It always ends, because the position moves.\<close>

function wc_pieces :: "64 word \<Rightarrow> int \<Rightarrow> wc_data_t \<Rightarrow> map_args_t list" where
  "wc_pieces base req d =
     (case wc_splitter base d req of
        Inr (ret, Some p, d') \<Rightarrow>
          if wc_fpos d < wc_fpos d' \<and> wc_fpos d' \<le> wc_flen d \<and> wc_flen d' = wc_flen d then p # wc_pieces base req d' else []
      | _ \<Rightarrow> [])"
  by pat_completeness auto
termination by (relation "measure (\<lambda>(b, r, d). nat (wc_flen d - wc_fpos d))") auto

declare wc_pieces.simps [simp del]

definition wc_ok :: "byte list \<Rightarrow> int \<Rightarrow> wc_data_t \<Rightarrow> bool" where
  "wc_ok input req d \<longleftrightarrow>
     wc_fdata d = input \<and> wc_flen d = int (length input) \<and> wc_flen d < 2 ^ 31 \<and> 0 \<le> wc_fpos d \<and> wc_fpos d \<le> wc_flen d \<and>
     0 < req \<and> 0 < wc_unit_size d \<and> req * wc_unit_size d < 2 ^ 31"

lemma wc_splitter_end:
  assumes "wc_ok input req d" and "\<not> wc_fpos d < wc_flen d"
  shows "wc_splitter base d req = Inr (0, None, d)" "wc_pieces base req d = []"
proof -
  show "wc_splitter base d req = Inr (0, None, d)"
    using assms by (simp add: wc_ok_def wc_splitter_def wordcount_splitter_def)
  then show "wc_pieces base req d = []" by (simp add: wc_pieces.simps)
qed

lemma wc_splitter_next:
  assumes "wc_ok input req d" and "wc_fpos d < wc_flen d"
  shows "\<exists>p d'. wc_splitter base d req = Inr (1, Some p, d') \<and> wc_ok input req d' \<and>
    wc_pieces base req d = p # wc_pieces base req d' \<and>
    int (wc_start base p) = wc_fpos d \<and> int (wc_end base p) = wc_fpos d' \<and> wc_fpos d < wc_fpos d'"
proof -
  obtain n where n: "wordcount_splitter d req = Inr (1, Some \<lparr>wa_length = n, wa_offset = wc_fpos d\<rparr>, d\<lparr>wc_fpos := wc_fpos d + n\<rparr>)"
    "0 < n" "wc_fpos d + n \<le> wc_flen d"
    using wordcount_splitter_piece [of d req] assms by (auto simp: wc_ok_def)
  let ?p = "\<lparr>ma_length = word_of_int n, ma_data = base + word_of_int (wc_fpos d)\<rparr>" and ?d = "d\<lparr>wc_fpos := wc_fpos d + n\<rparr>"
  have s: "wc_splitter base d req = Inr (1, Some ?p, ?d)" by (simp add: wc_splitter_def n(1))
  have w: "int (unat (word_of_int x :: 64 word)) = x" if "0 \<le> x" "x < 2 ^ 32" for x
    using that by (simp add: unsigned_of_int take_bit_int_eq_self)
  have "int (wc_start base ?p) = wc_fpos d" "int (unat (ma_length ?p)) = n"
    using w [of "wc_fpos d"] w [of n] assms n(2,3) by (simp_all add: wc_ok_def wc_start_def)
  moreover have "wc_pieces base req d = ?p # wc_pieces base req ?d"
    using s n(2,3) by (subst wc_pieces.simps) simp
  moreover have "wc_ok input req ?d" using assms n(2,3) by (simp add: wc_ok_def)
  ultimately show ?thesis using s n(2) by (intro exI [of _ ?p] exI [of _ ?d]) (simp add: wc_end_def)
qed

text \<open>With this splitter the splitter of the environment is a stream of the pieces.\<close>

lemma wc_stream:
  assumes "e_splitter env = Some (wc_splitter base)"
  shows "value_stream (call_splitter env req) (\<lambda>(pos, d). wc_pieces base req d) (\<lambda>(pos, d). wc_ok input req d)"
proof
  fix s :: "64 word \<times> wc_data_t"
  obtain pos d where s: "s = (pos, d)" by (cases s)
  assume "case s of (pos, d) \<Rightarrow> wc_ok input req d"
  then have i: "wc_ok input req d" using s by simp
  {
    assume "(case s of (pos, d) \<Rightarrow> wc_pieces base req d) = []"
    then show "call_splitter env req s = Inr (0, None, s)"
      using wc_splitter_end [OF i] wc_splitter_next [OF i, of base] s assms by (fastforce simp: call_splitter_def)
  next
    fix x xs
    assume "(case s of (pos, d) \<Rightarrow> wc_pieces base req d) = x # xs"
    then show "\<exists>s'. call_splitter env req s = Inr (1, Some x, s') \<and>
        (case s' of (pos, d) \<Rightarrow> wc_ok input req d) \<and> (case s' of (pos, d) \<Rightarrow> wc_pieces base req d) = xs"
      using wc_splitter_end [OF i] wc_splitter_next [OF i, of base] s assms
      by (cases "wc_fpos d < wc_flen d") (auto simp: call_splitter_def)
  }
qed

text \<open>The pieces are consecutive, and together they are the rest of the file.\<close>

lemma wc_pieces_spec:
  assumes "wc_ok input req d"
  shows "wc_apart base (wc_pieces base req d) \<and>
    (\<forall>p \<in> set (wc_pieces base req d). wc_fpos d \<le> int (wc_start base p) \<and> wc_end base p \<le> length input) \<and>
    concat (map (wc_bytes base input) (wc_pieces base req d)) = drop (nat (wc_fpos d)) input"
  using assms
proof (induction "nat (wc_flen d - wc_fpos d)" arbitrary: d rule: less_induct)
  case less
  have fl: "wc_flen d = int (length input)" "0 \<le> wc_fpos d" "wc_fpos d \<le> wc_flen d" using less.prems by (simp_all add: wc_ok_def)
  show ?case
  proof (cases "wc_fpos d < wc_flen d")
    case False
    then show ?thesis using wc_splitter_end(2) [OF less.prems False] fl by (simp add: wc_apart_def)
  next
    case True
    from wc_splitter_next [OF less.prems True] obtain p d' where
      p: "wc_ok input req d'" "wc_pieces base req d = p # wc_pieces base req d'"
        "int (wc_start base p) = wc_fpos d" "int (wc_end base p) = wc_fpos d'" "wc_fpos d < wc_fpos d'" by blast
    have d': "wc_flen d' = int (length input)" "wc_fpos d' \<le> int (length input)" using p(1) by (simp_all add: wc_ok_def)
    have "nat (wc_flen d' - wc_fpos d') < nat (wc_flen d - wc_fpos d)" using fl d' p(5) by simp
    from less.hyps [OF this p(1)] have IH: "wc_apart base (wc_pieces base req d')"
      "\<And>q. q \<in> set (wc_pieces base req d') \<Longrightarrow> wc_fpos d' \<le> int (wc_start base q) \<and> wc_end base q \<le> length input"
      "concat (map (wc_bytes base input) (wc_pieces base req d')) = drop (nat (wc_fpos d')) input" by blast+
    have n: "nat (wc_fpos d) = wc_start base p" "nat (wc_fpos d') = wc_end base p" using p(3,4) by linarith+
    have "wc_bytes base input p @ drop (wc_end base p) input = drop (wc_start base p) input"
      by (metis wc_bytes_def wc_end_def append_take_drop_id drop_drop add.commute)
    moreover have "wc_apart base (p # wc_pieces base req d')"
      using IH(1,2) p(4) by (force simp: wc_apart_def)
    moreover have "wc_end base p \<le> length input" using d'(2) p(4) by linarith
    ultimately show ?thesis using IH(2,3) p(2-5) n by force
  qed
qed

lemma wc_app_ok_start:
  assumes "wc_ok input req d" and "wc_fdata d' = input"
  shows "wc_app_ok base input d' (mset (wc_pieces base req d))"
  unfolding wc_app_ok_def using wc_pieces_spec [OF assms(1), of base] assms(2) by auto

section \<open>The result\<close>

text \<open>
  Every word of \<open>ws\<close> is there once, in the order of \<open>strcmp\<close>, with the number of its occurrences
  (modulo \<open>2 ^ 64\<close>).
\<close>

definition words_counted :: "byte list list \<Rightarrow> (byte list, 64 word) final_data_t \<Rightarrow> bool" where
  "words_counted ws result \<longleftrightarrow>
     fd_length result = length (fd_data result) \<and>
     sorted_wrt (\<lambda>e f. mystrcmp (kr_key e) (kr_key f) < 0) (fd_data result) \<and>
     (\<lambda>e. c_str (kr_key e)) ` set (fd_data result) = set ws \<and>
     (\<forall>e \<in> set (fd_data result). kr_val e = of_nat (count_list ws (c_str (kr_key e))))"

definition word_pairs :: "byte list list \<Rightarrow> (byte list \<times> 64 word \<times> int) list" where
  "word_pairs ws = map (\<lambda>w. (w, 1, int (length w) + 1)) ws"

lemma values_under_words:
  assumes "\<forall>w \<in> set ws. 0 \<notin> set w"
  shows "values_under mystrcmp (word_pairs ws) k = replicate_mset (count_list ws (c_str k)) 1"
  using assms by (induction ws) (auto simp: values_under_def word_pairs_def mystrcmp_eq c_str_id)

lemma sum_replicate_one: "sum_mset (replicate_mset n (1 :: 64 word)) = of_nat n"
  by (induction n) simp_all

lemma sorted_distinct_strict:
  assumes "keys_sorted mystrcmp xs" and "distinct (map (\<lambda>e. c_str (kr_key e)) xs)"
  shows "sorted_wrt (\<lambda>e f. mystrcmp (kr_key e) (kr_key f) < 0) xs"
  using assms
proof (induction xs)
  case (Cons x xs)
  have "mystrcmp (kr_key x) (kr_key y) < 0" if "y \<in> set xs" for y
  proof -
    have "mystrcmp (kr_key x) (kr_key y) \<le> 0" using Cons.prems(1) that by (simp add: keys_sorted_def)
    moreover have "c_str (kr_key x) \<noteq> c_str (kr_key y)" using Cons.prems(2) that by force
    then have "mystrcmp (kr_key x) (kr_key y) \<noteq> 0" by (simp add: mystrcmp_eq)
    ultimately show ?thesis by simp
  qed
  then show ?case using Cons by (simp add: keys_sorted_def)
qed simp

lemma wc_mr_spec:
  assumes "mr_spec mystrcmp (\<lambda>k vs. [(k, sum_list vs)]) wc_agg (word_pairs ws) result" and nz: "\<forall>w \<in> set ws. 0 \<notin> set w"
  shows "words_counted ws result"
proof -
  let ?key = "\<lambda>e. c_str (kr_key e)" and ?D = "fd_data result"
  obtain calls where c: "mset ?D = mset (map out_rec (concat (map (\<lambda>(k, vs). [(k, sum_list vs)]) calls)))"
    "sorted_wrt (\<lambda>x y. mystrcmp (fst x) (fst y) \<noteq> 0) calls"
    "\<forall>(k, vs) \<in> set calls. vs \<noteq> [] \<and> wc_agg (values_under mystrcmp (word_pairs ws) k) (mset vs)"
    "\<forall>(k, v, sz) \<in> set (word_pairs ws). \<exists>(k', vs) \<in> set calls. mystrcmp k k' = 0"
    using assms(1) unfolding mr_spec_def by blast
  have "concat (map (\<lambda>(k, vs). [(k, sum_list vs)]) calls) = map (\<lambda>(k, vs). (k, sum_list vs)) calls" by (induction calls) auto
  then have D: "mset ?D = mset (map (\<lambda>x. out_rec (fst x, sum_list (snd x))) calls)"
    using c(1) by (simp add: comp_def case_prod_beta)
  then have set_D: "set ?D = (\<lambda>x. out_rec (fst x, sum_list (snd x))) ` set calls" using mset_eq_setD [OF D] by simp
  have val: "sum_list vs = of_nat (count_list ws (c_str k)) \<and> c_str k \<in> set ws" if "(k, vs) \<in> set calls" for k vs
  proof -
    have a: "vs \<noteq> []" "wc_agg (replicate_mset (count_list ws (c_str k)) 1) (mset vs)"
      using c(3) that values_under_words [OF nz] by auto
    then have "count_list ws (c_str k) \<noteq> 0" by (auto simp: wc_agg_def)
    then show ?thesis using a(2) by (auto simp: wc_agg_def sum_replicate_one sum_mset_sum_list count_list_0_iff)
  qed
  have "mset (map ?key ?D) = mset (map (\<lambda>x. c_str (fst x)) calls)"
    using arg_cong [OF D, of "image_mset ?key"] by (simp add: multiset.map_comp comp_def case_prod_beta out_rec_def)
  moreover have "distinct (map (\<lambda>x. c_str (fst x)) calls)"
    using c(2) by (induction calls) (auto simp: mystrcmp_eq)
  ultimately have dist: "distinct (map ?key ?D)" using mset_eq_imp_distinct_iff by blast
  have keys: "?key ` set ?D = set ws"
  proof
    show "?key ` set ?D \<subseteq> set ws" using val by (auto simp: set_D out_rec_def)
    show "set ws \<subseteq> ?key ` set ?D"
    proof
      fix w assume w: "w \<in> set ws"
      then have "(w, 1, int (length w) + 1) \<in> set (word_pairs ws)" by (simp add: word_pairs_def)
      then obtain k' vs where k': "(k', vs) \<in> set calls" "mystrcmp w k' = 0" using c(4) by blast
      then have "c_str k' = w" using nz w by (simp add: mystrcmp_eq c_str_id)
      then show "w \<in> ?key ` set ?D" using k'(1) by (force simp: set_D out_rec_def)
    qed
  qed
  have "\<forall>e \<in> set ?D. kr_val e = of_nat (count_list ws (?key e))" using val by (auto simp: set_D out_rec_def)
  then show ?thesis
    using assms(1) keys sorted_distinct_strict [OF _ dist] by (simp add: words_counted_def mr_spec_def)
qed

section \<open>The program\<close>

text \<open>
  The arguments that \<open>main\<close> fills in; the numbers come from the environment variables. Everything else
  is zero.
\<close>

definition wordcount_args :: "64 word \<Rightarrow> int \<Rightarrow> int \<Rightarrow> int \<Rightarrow> int \<Rightarrow> (wc_data_t, byte list, 64 word) map_reduce_args_t" where
  "wordcount_args base data_size cache threads procs =
     \<lparr>a_task_data = 0, a_data_size = data_size, a_unit_size = 5, a_map = wc_map base, a_reduce = Some wordcount_reduce,
      a_combiner = Some wordcount_combiner, a_splitter = Some (wc_splitter base), a_locator = Some ma_data,
      a_key_cmp = mystrcmp, a_partition = None, a_use_one_queue_per_task = False, a_L1_cache_size = cache,
      a_num_map_threads = threads, a_num_reduce_threads = threads, a_num_merge_threads = threads, a_num_procs = procs,
      a_proc_offset = 0, a_key_mem = wc_key_mem\<rparr>"

lemma wordcount_args_sel [simp]:
  "a_unit_size (wordcount_args base data_size cache threads procs) = 5"
  "a_L1_cache_size (wordcount_args base data_size cache threads procs) = cache"
  "a_map (wordcount_args base data_size cache threads procs) = wc_map base"
  "a_reduce (wordcount_args base data_size cache threads procs) = Some wordcount_reduce"
  "a_combiner (wordcount_args base data_size cache threads procs) = Some wordcount_combiner"
  "a_splitter (wordcount_args base data_size cache threads procs) = Some (wc_splitter base)"
  "a_key_cmp (wordcount_args base data_size cache threads procs) = mystrcmp"
  "a_partition (wordcount_args base data_size cache threads procs) = None"
  "a_key_mem (wordcount_args base data_size cache threads procs) = wc_key_mem"
  "\<not> a_use_one_queue_per_task (wordcount_args base data_size cache threads procs)"
  "a_num_map_threads (wordcount_args base data_size cache threads procs) = threads"
  "a_num_reduce_threads (wordcount_args base data_size cache threads procs) = threads"
  "a_num_merge_threads (wordcount_args base data_size cache threads procs) = threads"
  "a_num_procs (wordcount_args base data_size cache threads procs) = procs"
  "a_proc_offset (wordcount_args base data_size cache threads procs) = 0"
  by (simp_all add: wordcount_args_def)

definition wordcount_data :: "byte list \<Rightarrow> wc_data_t" where
  "wordcount_data input = \<lparr>wc_fpos = 0, wc_flen = int (length input), wc_fdata = input, wc_unit_size = 5\<rparr>"

lemma wc_env:
  assumes "env_init os (wordcount_args base data_size cache threads procs) = Inr env"
  shows "e_map env = wc_map base" "e_reduce env = wordcount_reduce" "e_combiner env = Some wordcount_combiner"
    "e_splitter env = Some (wc_splitter base)" "e_key_cmp env = mystrcmp" "e_partition env = wc_partition"
    "e_num_reduce_tasks env = 32768" "\<not> e_oneOutputQueuePerMapTask env" "0 < e_chunk_size env"
    "cache < 2 ^ 31 \<Longrightarrow> e_chunk_size env * 5 < 2 ^ 31"
proof -
  let ?args = "wordcount_args base data_size cache threads procs"
  note F = env_init_fields [OF assms]
  obtain np pols where e: "env = env_filled ?args np ((if a_L1_cache_size ?args > 0 then a_L1_cache_size ?args else DEFAULT_CACHE_SIZE) sdiv 5) pols"
    using assms by (auto simp: env_init_def Let_def bindE_Inr_conv c_div_def)
  show "e_map env = wc_map base" "e_combiner env = Some wordcount_combiner"
    "e_splitter env = Some (wc_splitter base)" "e_key_cmp env = mystrcmp"
    "e_num_reduce_tasks env = 32768" "\<not> e_oneOutputQueuePerMapTask env"
    using F by simp_all
  show "e_reduce env = wordcount_reduce" "e_partition env = wc_partition"
    by (simp_all add: e env_filled_def Let_def fun_eq_iff wc_partition_def)
  have ch: "e_chunk_size env = max 1 ((if cache > 0 then cache else DEFAULT_CACHE_SIZE) sdiv 5)"
    by (cases "cache > 0") (simp_all add: e env_filled_def Let_def max_def)
  show "0 < e_chunk_size env" by (simp add: ch)
  show "e_chunk_size env * 5 < 2 ^ 31" if "cache < 2 ^ 31"
  proof -
    have "x sdiv 5 = x div 5" if "0 < x" for x :: int using that by (simp add: signed_divide_int_def)
    moreover have "max 1 (cache div 5) * 5 < 2 ^ 31" using that by (auto simp: max_def)
    ultimately show ?thesis by (cases "cache > 0") (simp_all add: ch DEFAULT_CACHE_SIZE_def)
  qed
qed

definition wc_job :: "64 word \<Rightarrow> byte list \<Rightarrow> (wc_data_t, byte list, 64 word) job" where
  "wc_job base input =
     \<lparr>j_slot = wc_slot 32768, j_valid = wc_valid, j_emits = wc_emits base input, j_app_ok = wc_app_ok base input, j_agg = wc_agg\<rparr>"

text \<open>The callbacks of the program meet all contracts of the runtime.\<close>

lemma wordcount_contracts:
  assumes "env_init os (wordcount_args base (int (length input)) cache threads procs) = Inr env"
    and "input \<noteq> []" and "length input < 2 ^ 31" and "cache < 2 ^ 31" and "0 < e_num_map_threads env"
    and "ps = wc_pieces base (e_chunk_size env) (wordcount_data input)"
  shows "wc_ok input (e_chunk_size env) (wordcount_data input)" "ps \<noteq> []" "job_ok (wc_job base input) env"
    "reducer (e_reduce env) (\<lambda>k vs. [(k, sum_list vs)])"
    "value_stream (call_splitter env (e_chunk_size env)) (\<lambda>(pos, d). wc_pieces base (e_chunk_size env) d)
       (\<lambda>(pos, d). wc_ok input (e_chunk_size env) d)"
    "\<forall>pos d. (case (pos :: 64 word, d) of (pos, d) \<Rightarrow> wc_ok input (e_chunk_size env) d) \<longrightarrow>
       j_app_ok (wc_job base input) d (mset ps)"
proof -
  note E = wc_env [OF assms(1)]
  show ok: "wc_ok input (e_chunk_size env) (wordcount_data input)"
    using E(9) E(10) [OF assms(4)] assms(3) by (simp add: wc_ok_def wordcount_data_def)
  show "ps \<noteq> []"
    using wc_splitter_next [OF ok, of base] assms(2,6) by (auto simp: wordcount_data_def)
  show "job_ok (wc_job base input) env"
    using wcj.map_job_axioms [of base input] E assms(5) by (simp add: job_ok_def wc_job_def)
  show "reducer (e_reduce env) (\<lambda>k vs. [(k, sum_list vs)])" unfolding E(2) by (rule wcr.reducer_axioms)
  show "\<forall>pos d. (case (pos :: 64 word, d) of (pos, d) \<Rightarrow> wc_ok input (e_chunk_size env) d) \<longrightarrow>
      j_app_ok (wc_job base input) d (mset ps)"
    using wc_app_ok_start [OF ok] assms(6) by (auto simp: wc_job_def wc_ok_def)
qed (rule wc_stream [OF wc_env(4) [OF assms(1)]])

lemma wordcount_ok:
  assumes "env_init (r_os run) (wordcount_args base (int (length input)) cache threads procs) = Inr env"
    and "input \<noteq> []" and "length input < 2 ^ 31" and "cache < 2 ^ 31"
    and "ps = wc_pieces base (e_chunk_size env) (wordcount_data input)"
    and "mr_ready run (wordcount_args base (int (length input)) cache threads procs) env p M R (length ps)"
    and "min (length ps) M \<le> R"
  shows "\<exists>result u' p'.
    map_reduce run (wordcount_args base (int (length input)) cache threads procs) (wordcount_data input) p =
      Inr (0, result, u', p') \<and>
    words_counted (concat (map (wc_words base input) ps)) result"
proof -
  let ?args = "wordcount_args base (int (length input)) cache threads procs"
  have thr: "0 < e_num_map_threads env" using assms(6) by (simp add: mr_ready_def)
  note C = wordcount_contracts [OF assms(1-4) thr assms(5)]
  have "\<exists>result u' p'. map_reduce run ?args (wordcount_data input) p = Inr (0, result, u', p') \<and>
    mr_spec (a_key_cmp ?args) (\<lambda>k vs. [(k, sum_list vs)]) (j_agg (wc_job base input)) (concat (map (j_emits (wc_job base input)) ps)) result"
    by (rule map_reduce_ok [OF assms(1) C(3,4) _ C(5) _ _ C(2,6) assms(6,7)]) (use C(1) assms(5) in simp_all)
  moreover have "concat (map (wc_emits base input) ps) = word_pairs (concat (map (wc_words base input) ps))"
    by (induction ps) (simp_all add: wc_emits_def word_pairs_def)
  ultimately show ?thesis
    using wc_mr_spec [of "concat (map (wc_words base input) ps)"] wc_words_nonzero
    by (auto simp: wc_job_def)
qed

end
