(* ===== verification/Samples.thy ===== *)
theory Samples
  imports WordCountJob
begin

text \<open>
  Concrete machines, memories and values at which the properties are instantiated: a machine with
  four CPUs in one locality group, an empty heap, integer keys.
\<close>

definition sample_os :: os_t where
  "sample_os = \<lparr>nprocessors_onln = 4, mapred_nprocessors = None,
     setaffinity = (\<lambda>s. if \<exists>c \<in> s. c < 4 then 0 else -1), getaffinity = Some {0, 1, 2, 3},
     processor_bind = (\<lambda>_. 0), nlgrps = 1, lgrp_home = 0, lgrp_ncpus = 4\<rparr>"

definition sample_heap :: "nat \<Rightarrow> tq_heap" where
  "sample_heap n = \<lparr>objs = (\<lambda>_. None), live = (\<lambda>_. False), brk = 1, mem_limit = n,
     li_next = (\<lambda>_. 0), li_prev = (\<lambda>_. 0), mtx = (\<lambda>_. Mtx_garbage), tq_task = (\<lambda>_. task_0)\<rparr>"

lemma sample_heap_ok [simp]: "heap_ok (sample_heap n)"
  by (simp add: heap_ok_def sample_heap_def)

lemma sample_heap_sel [simp]: "brk (sample_heap n) = 1" "mem_limit (sample_heap n) = n" "objs (sample_heap n) = (\<lambda>_. None)"
  by (simp_all add: sample_heap_def)

lemma sample_os_ok [simp]: "os_ok sample_os"
  by (auto simp: os_ok_def sample_os_def CPU_SETSIZE_def)

lemma sample_os_sel [simp]: "loc_get_lgrp_size sample_os = 4" "proc_get_num_cpus sample_os = 4" "nprocessors_onln sample_os = 4"
  by (simp_all add: sample_os_def loc_get_lgrp_size_def proc_get_num_cpus_def)

definition rand_r_0 :: rand_r_t where
  "rand_r_0 s = (7, s + 1)"

lemma rand_r_0_nonneg [simp]: "0 \<le> fst (rand_r_0 s)"
  by (simp add: rand_r_0_def)

section \<open>Integer keys\<close>

definition int_cmp :: "int key_cmp" where
  "int_cmp a b = a - b"

interpretation ic: key_order int_cmp
  by unfold_locales (auto simp: int_cmp_def)

text \<open>A row of the intermediate table after \<open>emit_intermediate\<close> of 5 under 1, and of 6, 7 under 2.\<close>

definition sample_entry :: "int \<Rightarrow> nat list \<Rightarrow> (int, nat) keyvals_t" where
  "sample_entry k vs = \<lparr>kv_len = length vs, kv_key = k, kv_vals = [\<lparr>vsize = 10, next_insert_pos = length vs, varray = vs\<rparr>]\<rparr>"

definition sample_row :: "(int, nat) keyvals_t list \<Rightarrow> (int, nat) keyvals_arr_t" where
  "sample_row es = \<lparr>kvs_len = length es, kvs_alloc_len = 10, kvs_pos = 0, kvs_arr = es\<rparr>"

lemma sample_entry_ok [simp]: "vs \<noteq> [] \<Longrightarrow> length vs \<le> 10 \<Longrightarrow> keyvals_ok (sample_entry k vs)"
  by (simp add: sample_entry_def keyvals_ok_def chunk_ok_def kv_values_def chunk_vals_def Suc_le_eq)

lemma sample_entry_sel [simp]: "kv_key (sample_entry k vs) = k" "kv_values (sample_entry k vs) = vs"
  by (simp_all add: sample_entry_def kv_values_def chunk_vals_def)

definition sample_out :: "(int \<times> nat) list \<Rightarrow> (int, nat) keyval_arr_t" where
  "sample_out kvs = \<lparr>kva_len = length kvs, kva_alloc_len = 10, kva_pos = 0, kva_arr = map out_rec kvs\<rparr>"

section \<open>A run of the word count\<close>

text \<open>One thread, the text \<open>a b\<close> and a newline, the default cache size.\<close>

definition sample_text :: "byte list" where
  "sample_text = [97, 32, 98, 10]"

definition sample_run :: mr_run where
  "sample_run = \<lparr>r_os = sample_os, r_rand_r = rand_r_0, r_rands = (\<lambda>_. 0), r_garbage = task_0, r_fuel = 5,
     r_map_sched = replicate 10 0, r_reduce_sched = replicate 32770 0, r_merge_order = (\<lambda>r n. [0..<n])\<rparr>"

definition sample_proc :: mr_proc where
  "sample_proc = \<lparr>p_heap = sample_heap 1000000, p_tpool = None, p_tids = [1], p_emit_tls = [-1], p_reduce_tls = [-1]\<rparr>"

abbreviation sample_args :: "(wc_data_t, byte list, 64 word) map_reduce_args_t" where
  "sample_args \<equiv> wordcount_args 4096 4 0 1 1"

definition sample_policy :: sched_policy where
  "sample_policy = \<lparr>sp_num_cpus = 4, sp_num_chips_per_sys = 1, sp_map = Map_fill_strand\<rparr>"

lemma sample_policy_sel [simp]: "sp_num_cpus sample_policy = 4"
  by (simp add: sample_policy_def)

definition sample_env :: "(wc_data_t, byte list, 64 word) mr_env_t" where
  "sample_env = env_filled sample_args 1 13107 [sample_policy, sample_policy, sample_policy]"

lemma sample_env_init: "env_init sample_os sample_args = Inr sample_env"
proof -
  have "mapE (\<lambda>_. sched_policy_get sample_os SCHED_POLICY_STRAND_FILL) [0..<TASK_TYPE_TOTAL] =
    Inr [sample_policy, sample_policy, sample_policy]"
    by (simp add: sched_policy_get_strand TASK_TYPE_TOTAL_def upt_rec sample_policy_def loc_get_num_lgrps_def)
  then show ?thesis
    by (simp add: env_init_def sample_env_def Let_def c_div_def DEFAULT_CACHE_SIZE_def signed_divide_int_def)
qed

lemma sample_env_sel [simp]:
  "e_num_map_threads sample_env = 1" "e_num_reduce_threads sample_env = 1" "e_chunk_size sample_env = 13107"
  "e_num_reduce_tasks sample_env = 32768" "e_num_merge_threads sample_env = 1"
  by (simp_all add: sample_env_def env_filled_def Let_def EXTENDED_NUM_REDUCE_TASKS_def DEFAULT_NUM_REDUCE_TASKS_def signed_divide_int_def)

lemma count_list_replicate [simp]: "count_list (replicate n x) x = n"
  by (induction n) simp_all

lemma sample_ready: "mr_ready sample_run sample_args sample_env sample_proc 1 1 1"
  by (simp add: mr_ready_def sample_run_def sample_proc_def pool_of_def tls_ok_def tq_words_def tq_count_def
      TQ_SIZE_def LOCK_SIZE_def ENTRY_SIZE_def QUEUE_SIZE_def)

lemma sample_pieces:
  "wc_pieces 4096 (e_chunk_size sample_env) (wordcount_data sample_text) = [\<lparr>ma_length = 4, ma_data = 4096\<rparr>]"
  by (simp add: wc_pieces.simps wc_splitter_def wordcount_splitter_def wordcount_data_def sample_text_def
      to_int32_def to_blank.simps Let_def)

lemma sample_words: "wc_words 4096 sample_text \<lparr>ma_length = 4, ma_data = 4096\<rparr> = [[65], [66]]"
  by (simp add: wc_words_def wc_bytes_def wc_start_def sample_text_def toupper_def chunk_words.simps is_letter_def is_word_char_def)

text \<open>The state of that run between its phases.\<close>

lemma sample_queue_ok:
  "\<exists>tq h. tq_init sample_os 1 (sample_heap 1000000) = Inr (Some tq, h) \<and> num_threads tq = 1 \<and> num_queues tq = 1 \<and>
     tq_ok h tq [[]] [[]] \<and> brk h + ENTRY_SIZE \<le> mem_limit h \<and>
     room h (QUEUE_SIZE + 2 * ENTRY_SIZE * 1) \<and> room h (ENTRY_SIZE * 32768)"
proof -
  obtain tq h where q: "tq_init sample_os 1 (sample_heap 1000000) = Inr (Some tq, h)" "num_queues tq = tq_count sample_os 1" "num_threads tq = 1"
    "tq_ok h tq (replicate (num_queues tq) []) (replicate (num_queues tq) [])"
    "brk h = 1 + tq_words (num_queues tq) 1" "mem_limit h = 1000000"
    using tq_init_ok [of "sample_heap 1000000" 1 sample_os]
    by (auto simp: alloced_def tq_words_def tq_count_def TQ_SIZE_def LOCK_SIZE_def)
  have "num_queues tq = 1" using q(2) by (simp add: tq_count_def)
  then show ?thesis
    using q by (auto simp: room_def tq_words_def TQ_SIZE_def LOCK_SIZE_def QUEUE_SIZE_def ENTRY_SIZE_def)
qed

lemma sample_queue:
  "\<exists>tq h. tq_init sample_os 1 (sample_heap 1000000) = Inr (Some tq, h) \<and> tq_has h tq [[]] \<and> num_threads tq = 1 \<and>
     room h (QUEUE_SIZE + 2 * ENTRY_SIZE * 1) \<and> room h (ENTRY_SIZE * 32768)"
proof -
  have "tq_has h tq [[]]" if "tq_ok h tq [[]] [[]]" for tq h
    unfolding tq_has_def using that by (intro exI [of _ "[[]]"]) auto
  then show ?thesis using sample_queue_ok by blast
qed

definition sample_state ::
  "(byte list, 64 word) keyvals_arr_t list list \<Rightarrow> taskQ_t \<Rightarrow> tq_heap \<Rightarrow> (wc_data_t, byte list, 64 word) mr_state" where
  "sample_state ivals tq h =
     \<lparr>st_env = sample_env\<lparr>e_intermediate_vals := ivals\<rparr>, st_tq = tq, st_app = wordcount_data sample_text, st_heap = h, st_tids = [1],
      st_emit_tls = [-1], st_reduce_tls = [-1]\<rparr>"

lemma sample_env_fields:
  "e_intermediate_vals sample_env = [replicate 32768 keyvals_arr_0]" "e_final_vals sample_env = [keyval_arr_0]"
  "e_key_cmp sample_env = mystrcmp" "e_splitter_pos sample_env = 0" "e_args sample_env = sample_args"
  "\<not> e_oneOutputQueuePerReduceTask sample_env" "\<not> e_oneOutputQueuePerMapTask sample_env"
  "e_schedPolicies sample_env = [sample_policy, sample_policy, sample_policy]"
  "e_reduce sample_env = wordcount_reduce"
  by (simp_all add: sample_env_def env_filled_def Let_def EXTENDED_NUM_REDUCE_TASKS_def DEFAULT_NUM_REDUCE_TASKS_def)

lemma sample_workers_fit: "workers_fit sample_os rand_r_0 sample_policy 0 1 1"
  by (simp add: workers_fit_def)

lemma sample_init: "env_init sample_os (wordcount_args 4096 (int (length sample_text)) 0 1 1) = Inr sample_env"
  using sample_env_init by (simp add: sample_text_def)

abbreviation sample_piece :: map_args_t where
  "sample_piece \<equiv> \<lparr>ma_length = 4, ma_data = 4096\<rparr>"

lemma sample_contracts:
  "wc_ok sample_text 13107 (wordcount_data sample_text)" "job_ok (wc_job 4096 sample_text) sample_env"
  "reducer (wordcount_reduce :: (byte list, 64 word) reduce_t) (\<lambda>k vs. [(k, sum_list vs)])"
  "value_stream (call_splitter sample_env 13107) (\<lambda>(pos, d). wc_pieces 4096 13107 d) (\<lambda>(pos, d). wc_ok sample_text 13107 d)"
  "\<forall>d. wc_ok sample_text 13107 d \<longrightarrow> j_app_ok (wc_job 4096 sample_text) d {#sample_piece#}"
proof -
  have "sample_text \<noteq> []" "length sample_text < 2 ^ 31" "(0 :: int) < 2 ^ 31" "0 < e_num_map_threads sample_env"
    by (simp_all add: sample_text_def)
  note C = wordcount_contracts [OF sample_init this sample_pieces [symmetric]]
  show "wc_ok sample_text 13107 (wordcount_data sample_text)" "job_ok (wc_job 4096 sample_text) sample_env"
    "reducer (wordcount_reduce :: (byte list, 64 word) reduce_t) (\<lambda>k vs. [(k, sum_list vs)])"
    "value_stream (call_splitter sample_env 13107) (\<lambda>(pos, d). wc_pieces 4096 13107 d) (\<lambda>(pos, d). wc_ok sample_text 13107 d)"
    "\<forall>d. wc_ok sample_text 13107 d \<longrightarrow> j_app_ok (wc_job 4096 sample_text) d {#sample_piece#}"
    using C by (simp_all add: sample_env_fields)
qed

text \<open>Rows in which one reduce task, number 5, has a key with two values.\<close>

definition sample_rows :: "(byte list, 64 word) keyvals_arr_t list list" where
  "sample_rows = [(replicate 32768 keyvals_arr_0)
     [5 := \<lparr>kvs_len = 1, kvs_alloc_len = 10, kvs_pos = 0,
        kvs_arr = [\<lparr>kv_len = 2, kv_key = [65], kv_vals = [\<lparr>vsize = 10, next_insert_pos = 2, varray = [1, 3]\<rparr>]\<rparr>]\<rparr>]]"

lemma sample_rows_ok: "rows_ok mystrcmp 1 32768 sample_rows"
  by (simp add: rows_ok_def sample_rows_def nth_list_update keyvals_arr_0_ok)
    (simp add: keyvals_arr_0_def keyvals_arr_ok_def keyvals_ok_def kv_values_def chunk_vals_def chunk_ok_def)

text \<open>What \<open>iter_init\<close> makes for two map threads.\<close>

definition fresh_iterator :: "('k, 'v) iterator_t" where
  "fresh_iterator = (case iter_init 2 of Inr (r, i) \<Rightarrow> i)"

lemma fresh_iterator_loaded:
  "loaded (fresh_iterator :: ('k, 'v) iterator_t) []" "max_list (fresh_iterator :: ('k, 'v) iterator_t) = 2"
proof -
  obtain i :: "('k, 'v) iterator_t" where i: "iter_init 2 = Inr (0, i)" "iter_fresh i" "max_list i = 2"
    using iter_init_fresh [of 2] by auto
  then have "fresh_iterator = i" by (simp add: fresh_iterator_def)
  then show "loaded (fresh_iterator :: ('k, 'v) iterator_t) []" "max_list (fresh_iterator :: ('k, 'v) iterator_t) = 2"
    using i loaded_Nil by simp_all
qed

text \<open>That iterator after two lists were added.\<close>

definition sample_iterator :: "(int, nat) iterator_t" where
  "sample_iterator = (case iter_add fresh_iterator (sample_entry 2 [5]) of Inr (r, i) \<Rightarrow>
     (case iter_add i (sample_entry 2 [6, 7]) of Inr (r, i) \<Rightarrow> i))"

lemma sample_iterator_ok: "iter_ok sample_iterator" "iter_rest sample_iterator = [5, 6, 7]"
proof -
  have e: "keyvals_ok (sample_entry 2 [5])" "keyvals_ok (sample_entry 2 [6, 7])" by simp_all
  have m: "max_list (fresh_iterator :: (int, nat) iterator_t) = 2" by (rule fresh_iterator_loaded)
  obtain i1 where i1: "iter_add fresh_iterator (sample_entry 2 [5]) = Inr (0, i1)" "loaded i1 [sample_entry 2 [5]]" "max_list i1 = 2"
    using iter_add_loaded [OF fresh_iterator_loaded(1) e(1)] m by auto
  obtain i2 where i2: "iter_add i1 (sample_entry 2 [6, 7]) = Inr (0, i2)" "loaded i2 [sample_entry 2 [5], sample_entry 2 [6, 7]]"
    using iter_add_loaded [OF i1(2) e(2)] i1(3) by auto
  have "sample_iterator = i2" by (simp add: sample_iterator_def i1(1) i2(1))
  then show "iter_ok sample_iterator" "iter_rest sample_iterator = [5, 6, 7]" using loaded_ok [OF i2(2)] by simp_all
qed

section \<open>Lists and locks\<close>

text \<open>Two lists, with heads at 10 and 20, and a free cell at 30.\<close>

definition sample_lists :: heap where
  "sample_lists = \<lparr>objs = (\<lambda>_. None), live = (\<lambda>a. a \<in> {10, 11, 12, 20, 21, 30}), brk = 1, mem_limit = 100,
     li_next = (\<lambda>_. 0)(10 := 11, 11 := 12, 12 := 10, 20 := 21, 21 := 20),
     li_prev = (\<lambda>_. 0)(11 := 10, 12 := 11, 10 := 12, 21 := 20, 20 := 21)\<rparr>"

lemma sample_lists_dll:
  "dll sample_lists 10 [11, 12]" "dll sample_lists 20 [21]" "set [10 :: addr, 11, 12] \<inter> set [20, 21] = {}"
  by (simp_all add: dll_def sample_lists_def)

definition sample_mutex :: "mtx_state \<Rightarrow> lock_heap" where
  "sample_mutex m = \<lparr>objs = (\<lambda>_. None), live = (\<lambda>a. a = 1), brk = 2, mem_limit = 100,
     li_next = (\<lambda>_. 0), li_prev = (\<lambda>_. 0), mtx = (\<lambda>_. Mtx_garbage)(1 := m)\<rparr>"

lemma sample_mutex_set:
  "set_mtx (sample_mutex m) 1 b = sample_mutex (if b then Mtx_locked else Mtx_unlocked)"
  "mtx_held (sample_mutex Mtx_unlocked) 1 = Some False" "mtx_held (sample_mutex Mtx_locked) 1 = Some True"
  by (simp_all add: set_mtx_def sample_mutex_def mtx_held_def)

end
