(* ===== verification/ThreadPool.thy ===== *)
theory ThreadPool
  imports Env
begin

text \<open>
  \<open>src/tpool.c\<close>: the pool of threads that run the workers of a phase. The caller's thread and the
  threads of the pool are interleaved: each step below is one access to what they share (a
  semaphore, the counter, a field of the pool), and a run is a sequence of steps in any order.
  The blocks of the pool are objects of the heap, so that the use of a released block is a fault.
  \<open>fetch_and_inc\<close> is that of \<open>src/atomic.h\<close>. The results are in theory \<open>ThreadPool_Correct\<close>.
\<close>

section \<open>Semaphores and the atomic counter\<close>

text \<open>
  The count of a semaphore, None after \<open>sem_destroy\<close>. Waiting on zero blocks, a post fails when
  the count is at its limit, and using a destroyed semaphore is a fault.
\<close>

type_synonym sem_t = "nat option"

definition SEM_VALUE_MAX :: nat where "SEM_VALUE_MAX = 2147483647"

definition sem_post :: "sem_t \<Rightarrow> (int \<times> sem_t) res" where
  "sem_post s =
     (case s of None \<Rightarrow> Inl Bad_access
      | Some v \<Rightarrow> Inr (if v < SEM_VALUE_MAX then (0, Some (Suc v)) else (-1, Some v)))"

definition sem_wait :: "sem_t \<Rightarrow> (int \<times> sem_t) res" where
  "sem_wait s =
     (case s of None \<Rightarrow> Inl Bad_access
      | Some v \<Rightarrow> if v = 0 then Inl Would_block else Inr (0, Some (v - 1)))"

text \<open>The value before, and the value after.\<close>

definition fetch_and_inc :: "32 word \<Rightarrow> 32 word \<times> 32 word" where
  "fetch_and_inc n = (n, n + 1)"

section \<open>The pool\<close>

text \<open>
  \<open>tpool_t\<close>; the addresses are those of the four blocks it consists of. An argument slot that was
  not written is None.
\<close>

record ('f, 'a) tpool_t =
  tp_num_threads :: int
  tp_num_workers :: int
  tp_die :: int
  tp_thread_func :: "'f option"
  tp_sem_all_workers_done :: sem_t
  tp_num_workers_done :: "32 word"
  tp_args :: "'a option list"
  tp_self :: addr
  tp_args_arr :: addr
  tp_threads_arr :: addr
  tp_thread_args_arr :: addr

text \<open>
  Where a thread of the pool is in \<open>thread_loop\<close>. \<open>Count\<close>, \<open>Compare\<close> and \<open>Post\<close> stand for the
  code that counts the thread as done, which is there twice: in the loop (\<open>False\<close>) and after it
  (\<open>True\<close>). The second argument of \<open>Compare\<close> is the local \<open>num_workers_done\<close>.
\<close>

datatype ('f, 'a, 'r) thread_pc =
    Wait_run | Test_die | Load | Run 'f 'a | Store 'r
  | Count bool | Compare bool int | Post bool
  | Destroy_run | Gone | Cancelled

text \<open>\<open>thread_arg_t\<close>: the semaphore of the thread, the cell for its result, and its position.\<close>

record ('f, 'a, 'r) tp_thread =
  th_sem_run :: sem_t
  th_ret :: addr
  th_ret_val :: "'r option"
  th_pc :: "('f, 'a, 'r) thread_pc"

datatype ('f, 'a) tp_call = Set 'f "'a list" int | Begin | Wait | Get_results | Destroy

text \<open>
  The caller: between two calls, in the loop of \<open>tpool_begin\<close>, in the loop of \<open>tpool_destroy\<close>, or
  in the wait after it.
\<close>

datatype caller_pc = Idle | Posting nat | Killing nat | Joining

text \<open>
  All there is: the pool, its threads, the heap, the memory \<open>'s\<close> the thread function works on, the
  caller's position, the calls it is going to make, what the last call returned and the results
  it was given.
\<close>

record ('f, 'a, 'r, 's) tp_state =
  ps_pool :: "('f, 'a) tpool_t"
  ps_threads :: "('f, 'a, 'r) tp_thread list"
  ps_heap :: heap
  ps_mem :: 's
  ps_caller :: caller_pc
  ps_calls :: "('f, 'a) tp_call list"
  ps_ret :: int
  ps_rets :: "'r option list"

text \<open>An access to blocks of the heap.\<close>

definition touch :: "'h heap_scheme \<Rightarrow> addr list \<Rightarrow> unit res" where
  "touch h ps = (if \<forall>p \<in> set ps. live h p then Inr () else Inl Bad_access)"

section \<open>\<open>thread_loop\<close>\<close>

text \<open>
  One step of thread \<open>i\<close>. The thread function \<open>exec\<close> runs in one step here; how the steps of
  workers interleave is the subject of theory \<open>Workers\<close>.
\<close>

definition thread_step ::
  "('f \<Rightarrow> 'a \<Rightarrow> 's \<Rightarrow> 'r \<times> 's) \<Rightarrow> nat \<Rightarrow> ('f, 'a, 'r, 's) tp_state \<Rightarrow> ('f, 'a, 'r, 's) tp_state res" where
  "thread_step exec i S =
     bindE (arr_get (ps_threads S) (int i)) (\<lambda>t.
     let pool = ps_pool S;
         pool_mem = [tp_thread_args_arr pool, tp_self pool];
         go = (\<lambda>t. S\<lparr>ps_threads := (ps_threads S)[i := t]\<rparr>) in
     case th_pc t of
       Wait_run \<Rightarrow>
         bindE (touch (ps_heap S) [tp_thread_args_arr pool]) (\<lambda>_.
         bindE (sem_wait (th_sem_run t)) (\<lambda>(r, s).
         bindE (CHECK_ERROR (r \<noteq> 0)) (\<lambda>_.
         Inr (go (t\<lparr>th_sem_run := s, th_pc := Test_die\<rparr>)))))
     | Test_die \<Rightarrow>
         bindE (touch (ps_heap S) pool_mem) (\<lambda>_.
         Inr (go (t\<lparr>th_pc := if tp_die pool \<noteq> 0 then Destroy_run else Load\<rparr>)))
     | Load \<Rightarrow>
         bindE (touch (ps_heap S) (tp_args_arr pool # pool_mem)) (\<lambda>_.
         bindE (arr_get (tp_args pool) (int i)) (\<lambda>a.
         case (tp_thread_func pool, a) of
           (Some thread_func, Some thread_func_arg) \<Rightarrow> Inr (go (t\<lparr>th_pc := Run thread_func thread_func_arg\<rparr>))
         | (None, _) \<Rightarrow> Inl Null_deref
         | (_, None) \<Rightarrow> Inl Bad_access))
     | Run thread_func thread_func_arg \<Rightarrow>
         (let (r, m) = exec thread_func thread_func_arg (ps_mem S) in
          Inr ((go (t\<lparr>th_pc := Store r\<rparr>))\<lparr>ps_mem := m\<rparr>))
     | Store r \<Rightarrow>
         bindE (touch (ps_heap S) [th_ret t]) (\<lambda>_.
         Inr (go (t\<lparr>th_ret_val := Some r, th_pc := Count False\<rparr>)))
     | Count leaving \<Rightarrow>
         bindE (touch (ps_heap S) pool_mem) (\<lambda>_.
         let (old, new) = fetch_and_inc (tp_num_workers_done pool) in
         Inr ((go (t\<lparr>th_pc := Compare leaving (sint (old + 1))\<rparr>))
                \<lparr>ps_pool := pool\<lparr>tp_num_workers_done := new\<rparr>\<rparr>))
     | Compare leaving num_workers_done \<Rightarrow>
         bindE (touch (ps_heap S) pool_mem) (\<lambda>_.
         Inr (go (t\<lparr>th_pc := if num_workers_done = tp_num_workers pool then Post leaving
                            else if leaving then Gone else Wait_run\<rparr>)))
     | Post leaving \<Rightarrow>
         bindE (touch (ps_heap S) pool_mem) (\<lambda>_.
         bindE (sem_post (tp_sem_all_workers_done pool)) (\<lambda>(r, s).
         bindE (CHECK_ERROR (r \<noteq> 0)) (\<lambda>_.
         Inr ((go (t\<lparr>th_pc := if leaving then Gone else Wait_run\<rparr>))
                \<lparr>ps_pool := pool\<lparr>tp_sem_all_workers_done := s\<rparr>\<rparr>))))
     | Destroy_run \<Rightarrow>
         bindE (touch (ps_heap S) [tp_thread_args_arr pool]) (\<lambda>_.
         Inr (go (t\<lparr>th_sem_run := None, th_pc := Count True\<rparr>)))
     | Gone \<Rightarrow> Inl Would_block
     | Cancelled \<Rightarrow> Inl Would_block)"

section \<open>The calls\<close>

definition TPOOL_SIZE :: nat where "TPOOL_SIZE = 12"
definition THREAD_ARG_SIZE :: nat where "THREAD_ARG_SIZE = 11"

text \<open>
  \<open>tpool_create\<close>. \<open>sem_init_ret\<close> is what \<open>sem_init\<close> returns for the pool, \<open>create_ret i\<close> what
  \<open>pthread_create\<close> returns for thread \<open>i\<close>; the other calls of the thread library succeed. The
  allocations stop the program when they fail, so the tests for NULL after them never succeed.
\<close>

fun tpool_create_threads ::
  "(nat \<Rightarrow> int) \<Rightarrow> nat \<Rightarrow> nat \<Rightarrow> ('f, 'a, 'r) tp_thread list \<Rightarrow> 'h heap_scheme \<Rightarrow>
   (bool \<times> ('f, 'a, 'r) tp_thread list \<times> 'h heap_scheme) res" where
  "tpool_create_threads create_ret 0 i ths h = Inr (True, ths, h)"
| "tpool_create_threads create_ret (Suc n) i ths h =
     bindE (mem_malloc 1 h) (\<lambda>(ret, h).
     bindE (CHECK_ERROR (ret = 0)) (\<lambda>_.
     if create_ret i \<noteq> 0 then Inr (False, map (\<lambda>t. t\<lparr>th_pc := Cancelled\<rparr>) ths, h)
     else tpool_create_threads create_ret n (Suc i)
            (ths @ [\<lparr>th_sem_run = Some 0, th_ret = ret, th_ret_val = None, th_pc = Wait_run\<rparr>]) h))"

definition tpool_create ::
  "int \<Rightarrow> (nat \<Rightarrow> int) \<Rightarrow> int \<Rightarrow> heap \<Rightarrow>
   ((('f, 'a) tpool_t \<times> ('f, 'a, 'r) tp_thread list) option \<times> heap) res" where
  "tpool_create sem_init_ret create_ret nthreads h =
     bindE (mem_calloc 1 TPOOL_SIZE h) (\<lambda>(tpool, h).
     if tpool = 0 then Inr (None, h)
     else if nthreads < 0 then Inl Assert_failed
     else
     bindE (mem_malloc (nat nthreads) h) (\<lambda>(args, h).
     if args = 0 then Inr (None, h)
     else
     bindE (mem_malloc (nat nthreads) h) (\<lambda>(threads, h).
     if threads = 0 then bindE (mem_free args h) (\<lambda>h. Inr (None, h))
     else
     bindE (mem_malloc (THREAD_ARG_SIZE * nat nthreads) h) (\<lambda>(thread_args, h).
     if thread_args = 0 then
       bindE (mem_free threads h) (\<lambda>h. bindE (mem_free args h) (\<lambda>h. Inr (None, h)))
     else
     bindE (if sem_init_ret \<noteq> 0 then Inr (False, [], h)
            else tpool_create_threads create_ret (nat nthreads) 0 [] h) (\<lambda>(created, ths, h).
     if created then
       Inr (Some (\<lparr>tp_num_threads = nthreads, tp_num_workers = nthreads, tp_die = 0, tp_thread_func = None,
                   tp_sem_all_workers_done = Some 0, tp_num_workers_done = 0,
                   tp_args = replicate (nat nthreads) None, tp_self = tpool, tp_args_arr = args,
                   tp_threads_arr = threads, tp_thread_args_arr = thread_args\<rparr>, ths), h)
     else
       bindE (mem_free thread_args h) (\<lambda>h.
       bindE (mem_free threads h) (\<lambda>h.
       bindE (mem_free args h) (\<lambda>h.
       Inr (None, h)))))))))"

definition tpool_set :: "('f, 'a) tpool_t \<Rightarrow> 'f \<Rightarrow> 'a list \<Rightarrow> int \<Rightarrow> (int \<times> ('f, 'a) tpool_t) res" where
  "tpool_set tpool thread_func args num_workers =
     (let tpool = tpool\<lparr>tp_thread_func := Some thread_func\<rparr> in
      bindE (assertE (num_workers \<le> tp_num_threads tpool)) (\<lambda>_.
      bindE (foldE (\<lambda>targs i. bindE (arr_get args (int i)) (\<lambda>a. arr_set targs (int i) (Some a)))
               (tp_args tpool) [0..<nat num_workers]) (\<lambda>targs.
      Inr (0, tpool\<lparr>tp_num_workers := num_workers, tp_args := targs\<rparr>))))"

text \<open>\<open>tpool_begin\<close> up to its loop, and one round of the loop.\<close>

definition tpool_begin :: "('f, 'a, 'r, 's) tp_state \<Rightarrow> ('f, 'a, 'r, 's) tp_state res" where
  "tpool_begin S =
     (if tp_num_workers (ps_pool S) = 0 then Inr (S\<lparr>ps_ret := 0\<rparr>)
      else Inr (S\<lparr>ps_pool := (ps_pool S)\<lparr>tp_num_workers_done := 0\<rparr>, ps_caller := Posting 0\<rparr>))"

definition tpool_begin_post :: "nat \<Rightarrow> ('f, 'a, 'r, 's) tp_state \<Rightarrow> ('f, 'a, 'r, 's) tp_state res" where
  "tpool_begin_post i S =
     (if int i < tp_num_workers (ps_pool S) then
        bindE (arr_get (ps_threads S) (int i)) (\<lambda>t.
        bindE (sem_post (th_sem_run t)) (\<lambda>(r, s).
        let S = S\<lparr>ps_threads := (ps_threads S)[i := t\<lparr>th_sem_run := s\<rparr>]\<rparr> in
        if r \<noteq> 0 then Inr (S\<lparr>ps_caller := Idle, ps_ret := -1\<rparr>)
        else Inr (S\<lparr>ps_caller := Posting (Suc i)\<rparr>)))
      else Inr (S\<lparr>ps_caller := Idle, ps_ret := 0\<rparr>))"

definition tpool_wait :: "('f, 'a, 'r, 's) tp_state \<Rightarrow> ('f, 'a, 'r, 's) tp_state res" where
  "tpool_wait S =
     (if tp_num_workers (ps_pool S) = 0 then Inr (S\<lparr>ps_ret := 0\<rparr>)
      else
        bindE (sem_wait (tp_sem_all_workers_done (ps_pool S))) (\<lambda>(r, s).
        Inr (S\<lparr>ps_pool := (ps_pool S)\<lparr>tp_sem_all_workers_done := s\<rparr>, ps_ret := if r \<noteq> 0 then -1 else 0\<rparr>)))"

text \<open>The array of results; the caller owns it. A result that no thread stored is None.\<close>

definition tpool_get_results :: "('f, 'a, 'r, 's) tp_state \<Rightarrow> ('f, 'a, 'r, 's) tp_state res" where
  "tpool_get_results S =
     bindE (mem_malloc (nat (tp_num_threads (ps_pool S))) (ps_heap S)) (\<lambda>(rets, h).
     bindE (CHECK_ERROR (rets = 0)) (\<lambda>_.
     bindE (mapE (\<lambda>i. bindE (arr_get (ps_threads S) (int i)) (\<lambda>t.
                       bindE (touch h [th_ret t]) (\<lambda>_. Inr (th_ret_val t))))
              [0..<nat (tp_num_threads (ps_pool S))]) (\<lambda>vals.
     Inr (S\<lparr>ps_heap := h, ps_rets := vals\<rparr>))))"

text \<open>\<open>tpool_destroy\<close> up to its loop, one round of the loop, and what follows it.\<close>

definition tpool_destroy :: "('f, 'a, 'r, 's) tp_state \<Rightarrow> ('f, 'a, 'r, 's) tp_state res" where
  "tpool_destroy S =
     bindE (assertE (tp_die (ps_pool S) = 0)) (\<lambda>_.
     Inr (S\<lparr>ps_pool := (ps_pool S)\<lparr>tp_num_workers := tp_num_threads (ps_pool S), tp_num_workers_done := 0\<rparr>,
            ps_caller := Killing 0\<rparr>))"

definition tpool_destroy_kill :: "nat \<Rightarrow> ('f, 'a, 'r, 's) tp_state \<Rightarrow> ('f, 'a, 'r, 's) tp_state res" where
  "tpool_destroy_kill i S =
     (if int i < tp_num_threads (ps_pool S) then
        bindE (arr_get (ps_threads S) (int i)) (\<lambda>t.
        bindE (mem_free (th_ret t) (ps_heap S)) (\<lambda>h.
        bindE (sem_post (th_sem_run t)) (\<lambda>(_, s).
        Inr (S\<lparr>ps_heap := h, ps_pool := (ps_pool S)\<lparr>tp_die := 1\<rparr>,
               ps_threads := (ps_threads S)[i := t\<lparr>th_sem_run := s\<rparr>], ps_caller := Killing (Suc i)\<rparr>))))
      else Inr (S\<lparr>ps_caller := Joining\<rparr>))"

definition tpool_destroy_join :: "('f, 'a, 'r, 's) tp_state \<Rightarrow> ('f, 'a, 'r, 's) tp_state res" where
  "tpool_destroy_join S =
     bindE (sem_wait (tp_sem_all_workers_done (ps_pool S))) (\<lambda>_.
     bindE (foldE (\<lambda>h p. mem_free p h) (ps_heap S)
              [tp_args_arr (ps_pool S), tp_threads_arr (ps_pool S), tp_thread_args_arr (ps_pool S), tp_self (ps_pool S)]) (\<lambda>h.
     Inr (S\<lparr>ps_heap := h, ps_pool := (ps_pool S)\<lparr>tp_sem_all_workers_done := None\<rparr>, ps_caller := Idle, ps_ret := 0\<rparr>)))"

text \<open>
  \<open>start_thread_pool\<close> of \<open>src/map_reduce.c\<close>: the function of the workers of a phase, and the calls
  it makes.
\<close>

datatype worker_func = Map_worker | Reduce_worker | Merge_worker

definition worker_of :: "TASK_TYPE_T \<Rightarrow> worker_func" where
  "worker_of task_type =
     (case task_type of
        TASK_TYPE_MAP \<Rightarrow> Map_worker | TASK_TYPE_REDUCE \<Rightarrow> Reduce_worker | TASK_TYPE_MERGE \<Rightarrow> Merge_worker)"

definition start_thread_pool :: "TASK_TYPE_T \<Rightarrow> 'a list \<Rightarrow> int \<Rightarrow> (worker_func, 'a) tp_call list" where
  "start_thread_pool task_type th_arg_array num_workers = [Set (worker_of task_type) th_arg_array num_workers, Begin]"

section \<open>Runs\<close>

text \<open>A step of the caller: the next of its calls, or the next round of the loop it is in.\<close>

definition caller_step :: "('f, 'a, 'r, 's) tp_state \<Rightarrow> ('f, 'a, 'r, 's) tp_state res" where
  "caller_step S =
     (case ps_caller S of
        Posting i \<Rightarrow> tpool_begin_post i S
      | Killing i \<Rightarrow> tpool_destroy_kill i S
      | Joining \<Rightarrow> tpool_destroy_join S
      | Idle \<Rightarrow>
          (case ps_calls S of
             [] \<Rightarrow> Inl Would_block
           | c # cs \<Rightarrow>
               (let S = S\<lparr>ps_calls := cs\<rparr> in
                case c of
                  Set thread_func args num_workers \<Rightarrow>
                    bindE (tpool_set (ps_pool S) thread_func args num_workers) (\<lambda>(r, pool).
                    Inr (S\<lparr>ps_pool := pool, ps_ret := r\<rparr>))
                | Begin \<Rightarrow> tpool_begin S
                | Wait \<Rightarrow> tpool_wait S
                | Get_results \<Rightarrow> tpool_get_results S
                | Destroy \<Rightarrow> tpool_destroy S)))"

inductive pool_step ::
  "('f \<Rightarrow> 'a \<Rightarrow> 's \<Rightarrow> 'r \<times> 's) \<Rightarrow> ('f, 'a, 'r, 's) tp_state \<Rightarrow> ('f, 'a, 'r, 's) tp_state \<Rightarrow> bool"
  for exec where
  caller: "caller_step S = Inr S' \<Longrightarrow> pool_step exec S S'"
| thread: "thread_step exec i S = Inr S' \<Longrightarrow> pool_step exec S S'"

text \<open>A run along a schedule: None is a step of the caller, \<open>Some i\<close> one of thread \<open>i\<close>.\<close>

definition pool_run ::
  "('f \<Rightarrow> 'a \<Rightarrow> 's \<Rightarrow> 'r \<times> 's) \<Rightarrow> nat option list \<Rightarrow> ('f, 'a, 'r, 's) tp_state \<Rightarrow> ('f, 'a, 'r, 's) tp_state res" where
  "pool_run exec sched S =
     foldE (\<lambda>S x. case x of None \<Rightarrow> caller_step S | Some i \<Rightarrow> thread_step exec i S) S sched"

lemma pool_run_steps: "pool_run exec sched S = Inr S' \<Longrightarrow> (pool_step exec)\<^sup>*\<^sup>* S S'"
proof (induction sched arbitrary: S)
  case (Cons x sched)
  then obtain S1 where S1: "(case x of None \<Rightarrow> caller_step S | Some i \<Rightarrow> thread_step exec i S) = Inr S1"
    and rest: "pool_run exec sched S1 = Inr S'" by (auto simp: pool_run_def bindE_Inr_conv)
  from S1 have "pool_step exec S S1" by (cases x) (auto intro: pool_step.intros)
  with Cons.IH [OF rest] show ?case by (rule converse_rtranclp_into_rtranclp [rotated])
qed (simp add: pool_run_def)

inductive_cases pool_stepE: "pool_step exec S S'"

end
