(* ===== verification/ThreadPool_Correct.thy ===== *)
theory ThreadPool_Correct
  imports ThreadPool
begin

text \<open>
  What the pool of \<open>src/tpool.c\<close> promises. Every program of calls ends: \<open>pool_rank\<close> bounds the steps
  of any run. A round (\<open>tpool_set\<close>, \<open>tpool_begin\<close>, \<open>tpool_wait\<close>) runs the thread function of every
  worker exactly once before the wait returns, in some order, and keeps its result, whatever the
  interleaving, provided that the number of workers does not shrink from one round to the next.
\<close>

section \<open>Every run ends\<close>

definition pc_rank :: "('f, 'a, 'r) thread_pc \<Rightarrow> nat" where
  "pc_rank p =
     (case p of Test_die \<Rightarrow> 7 | Load \<Rightarrow> 6 | Run _ _ \<Rightarrow> 5 | Store _ \<Rightarrow> 4 | Destroy_run \<Rightarrow> 4
      | Count _ \<Rightarrow> 3 | Compare _ _ \<Rightarrow> 2 | Post _ \<Rightarrow> 1 | _ \<Rightarrow> 0)"

definition thread_rank :: "('f, 'a, 'r) tp_thread \<Rightarrow> nat" where
  "thread_rank t = 10 * (case th_sem_run t of None \<Rightarrow> 0 | Some v \<Rightarrow> v) + pc_rank (th_pc t)"

definition call_rank :: "nat \<Rightarrow> ('f, 'a) tp_call \<Rightarrow> nat" where
  "call_rank N c = (case c of Begin \<Rightarrow> 11 * N + 3 | Destroy \<Rightarrow> 11 * N + 4 | _ \<Rightarrow> 1)"

definition caller_rank :: "('f, 'a) tpool_t \<Rightarrow> caller_pc \<Rightarrow> nat" where
  "caller_rank pool p =
     (case p of Idle \<Rightarrow> 0 | Posting i \<Rightarrow> 11 * (nat (tp_num_workers pool) - i) + 2
      | Killing i \<Rightarrow> 11 * (nat (tp_num_threads pool) - i) + 3 | Joining \<Rightarrow> 2)"

definition pool_rank :: "('f, 'a, 'r, 's) tp_state \<Rightarrow> nat" where
  "pool_rank S =
     sum_list (map thread_rank (ps_threads S)) + caller_rank (ps_pool S) (ps_caller S) +
     sum_list (map (call_rank (nat (tp_num_threads (ps_pool S)))) (ps_calls S))"

definition pool_fits :: "('f, 'a, 'r, 's) tp_state \<Rightarrow> bool" where
  "pool_fits S \<longleftrightarrow> tp_num_workers (ps_pool S) \<le> tp_num_threads (ps_pool S)"

lemma sum_list_map_update:
  fixes f :: "'b \<Rightarrow> nat"
  assumes "i < length xs"
  shows "sum_list (map f (xs[i := x])) + f (xs ! i) = sum_list (map f xs) + f x"
  using assms
proof (induction xs arbitrary: i)
  case (Cons y ys)
  then show ?case by (cases i) (auto simp: algebra_simps)
qed simp

lemma arr_get_Inr: "arr_get xs (int i) = Inr x \<longleftrightarrow> i < length xs \<and> x = xs ! i"
  by (auto simp: arr_get_def)

lemma touch_Inr [simp]: "touch h ps = Inr u \<longleftrightarrow> (\<forall>p \<in> set ps. live h p)"
  by (simp add: touch_def)

lemmas thread_step_Inr = thread_step_def bindE_Inr_conv arr_get_Inr Let_def sem_wait_def sem_post_def fetch_and_inc_def

text \<open>A step of a thread changes that thread, and the pool's counter and semaphore at most.\<close>

lemma thread_step_frame:
  assumes "thread_step exec i S = Inr S'"
  shows "\<exists>t'. i < length (ps_threads S) \<and> ps_threads S' = (ps_threads S)[i := t'] \<and>
      thread_rank t' < thread_rank (ps_threads S ! i)"
    "ps_caller S' = ps_caller S" "ps_calls S' = ps_calls S" "ps_heap S' = ps_heap S"
    "ps_ret S' = ps_ret S" "ps_rets S' = ps_rets S"
    "\<exists>c s. ps_pool S' = (ps_pool S)\<lparr>tp_num_workers_done := c, tp_sem_all_workers_done := s\<rparr>"
proof -
  let ?t = "ps_threads S ! i"
  have i: "i < length (ps_threads S)" using assms by (auto simp: thread_step_Inr)
  have "(\<exists>t'. ps_threads S' = (ps_threads S)[i := t'] \<and> thread_rank t' < thread_rank ?t) \<and>
    ps_caller S' = ps_caller S \<and> ps_calls S' = ps_calls S \<and> ps_heap S' = ps_heap S \<and>
    ps_ret S' = ps_ret S \<and> ps_rets S' = ps_rets S \<and>
    (\<exists>c s. ps_pool S' = (ps_pool S)\<lparr>tp_num_workers_done := c, tp_sem_all_workers_done := s\<rparr>)"
  proof (cases "th_pc ?t")
    case Wait_run
    then show ?thesis using assms i
      by (cases S; cases "ps_pool S"; cases "th_sem_run ?t")
        (auto simp: thread_step_Inr thread_rank_def pc_rank_def split: if_splits)
  next
    case Load
    then show ?thesis using assms i
      by (cases S; cases "ps_pool S")
        (auto simp: thread_step_Inr thread_rank_def pc_rank_def split: option.splits prod.splits)
  next
    case (Post l)
    then show ?thesis using assms i
      by (cases S; cases "ps_pool S")
        (auto simp: thread_step_Inr thread_rank_def pc_rank_def split: option.splits if_splits prod.splits)
  qed (use assms i in \<open>cases S; cases "ps_pool S";
        auto simp: thread_step_Inr thread_rank_def pc_rank_def split: option.splits if_splits prod.splits\<close>)+
  then show "\<exists>t'. i < length (ps_threads S) \<and> ps_threads S' = (ps_threads S)[i := t'] \<and> thread_rank t' < thread_rank ?t"
    "ps_caller S' = ps_caller S" "ps_calls S' = ps_calls S" "ps_heap S' = ps_heap S"
    "ps_ret S' = ps_ret S" "ps_rets S' = ps_rets S"
    "\<exists>c s. ps_pool S' = (ps_pool S)\<lparr>tp_num_workers_done := c, tp_sem_all_workers_done := s\<rparr>"
    using i by auto
qed

lemma thread_step_rank:
  assumes "thread_step exec i S = Inr S'" and "pool_fits S"
  shows "pool_rank S' < pool_rank S \<and> pool_fits S'"
proof -
  note F = thread_step_frame [OF assms(1)]
  obtain t' where t': "i < length (ps_threads S)" "ps_threads S' = (ps_threads S)[i := t']"
    "thread_rank t' < thread_rank (ps_threads S ! i)" using F(1) by blast
  obtain c s where pool: "ps_pool S' = (ps_pool S)\<lparr>tp_num_workers_done := c, tp_sem_all_workers_done := s\<rparr>"
    using F(7) by blast
  have "sum_list (map thread_rank (ps_threads S')) < sum_list (map thread_rank (ps_threads S))"
    using sum_list_map_update [OF t'(1), of thread_rank t'] t'(2,3) by simp
  then show ?thesis using assms(2) F(2,3) pool
    by (simp add: pool_rank_def caller_rank_def pool_fits_def split: caller_pc.splits)
qed

lemma post_rank:
  assumes "i < length ths" and "sem_post (th_sem_run (ths ! i)) = Inr (r, s)"
  shows "sum_list (map thread_rank (ths[i := (ths ! i)\<lparr>th_sem_run := s\<rparr>])) \<le> sum_list (map thread_rank ths) + 10"
  using sum_list_map_update [OF assms(1), of thread_rank "(ths ! i)\<lparr>th_sem_run := s\<rparr>"] assms(2)
  by (auto simp: sem_post_def thread_rank_def split: option.splits if_splits)

lemma caller_step_rank:
  assumes "caller_step S = Inr S'" and "pool_fits S"
  shows "pool_rank S' < pool_rank S \<and> pool_fits S'"
proof (cases "ps_caller S")
  case (Posting i)
  show ?thesis
  proof (cases "int i < tp_num_workers (ps_pool S)")
    case False
    then show ?thesis using assms Posting
      by (auto simp: caller_step_def tpool_begin_post_def pool_rank_def caller_rank_def pool_fits_def)
  next
    case True
    let ?t = "ps_threads S ! i"
    obtain r s where i: "i < length (ps_threads S)" and s: "sem_post (th_sem_run ?t) = Inr (r, s)"
      and S': "S' = (let S = S\<lparr>ps_threads := (ps_threads S)[i := ?t\<lparr>th_sem_run := s\<rparr>]\<rparr> in
        if r \<noteq> 0 then S\<lparr>ps_caller := Idle, ps_ret := -1\<rparr> else S\<lparr>ps_caller := Posting (Suc i)\<rparr>)"
      using assms(1) Posting True
      by (auto simp: caller_step_def tpool_begin_post_def bindE_Inr_conv arr_get_Inr Let_def split: if_splits)
    have "nat (tp_num_workers (ps_pool S)) - i = Suc (nat (tp_num_workers (ps_pool S)) - Suc i)" using True by simp
    then show ?thesis using S' Posting post_rank [OF i s] assms(2)
      by (auto simp: pool_rank_def caller_rank_def pool_fits_def Let_def)
  qed
next
  case (Killing i)
  show ?thesis
  proof (cases "int i < tp_num_threads (ps_pool S)")
    case False
    then show ?thesis using assms Killing
      by (auto simp: caller_step_def tpool_destroy_kill_def pool_rank_def caller_rank_def pool_fits_def)
  next
    case True
    let ?t = "ps_threads S ! i"
    obtain r s h where i: "i < length (ps_threads S)" and s: "sem_post (th_sem_run ?t) = Inr (r, s)"
      and S': "S' = S\<lparr>ps_heap := h, ps_pool := (ps_pool S)\<lparr>tp_die := 1\<rparr>,
               ps_threads := (ps_threads S)[i := ?t\<lparr>th_sem_run := s\<rparr>], ps_caller := Killing (Suc i)\<rparr>"
      using assms(1) Killing True
      by (auto simp: caller_step_def tpool_destroy_kill_def bindE_Inr_conv arr_get_Inr)
    have "nat (tp_num_threads (ps_pool S)) - i = Suc (nat (tp_num_threads (ps_pool S)) - Suc i)" using True by simp
    then show ?thesis using S' Killing post_rank [OF i s] assms(2)
      by (auto simp: pool_rank_def caller_rank_def pool_fits_def)
  qed
next
  case Joining
  then show ?thesis using assms
    by (auto simp: caller_step_def tpool_destroy_join_def pool_rank_def caller_rank_def pool_fits_def bindE_Inr_conv)
next
  case Idle
  then obtain c cs where calls: "ps_calls S = c # cs" using assms(1) by (cases "ps_calls S") (auto simp: caller_step_def)
  note defs = caller_step_def pool_rank_def caller_rank_def pool_fits_def call_rank_def
  have fit: "nat (tp_num_workers (ps_pool S)) \<le> nat (tp_num_threads (ps_pool S))"
    using assms(2) by (simp add: pool_fits_def)
  show ?thesis
  proof (cases c)
    case (Set f as n)
    then show ?thesis using assms Idle calls by (auto simp: defs tpool_set_def Let_def bindE_Inr_conv)
  next
    case Begin
    then show ?thesis using assms Idle calls fit by (auto simp: defs tpool_begin_def Let_def split: if_splits)
  next
    case Wait
    then show ?thesis using assms Idle calls by (auto simp: defs tpool_wait_def Let_def bindE_Inr_conv split: if_splits)
  next
    case Get_results
    then show ?thesis using assms Idle calls by (auto simp: defs tpool_get_results_def Let_def bindE_Inr_conv)
  next
    case Destroy
    then show ?thesis using assms Idle calls by (auto simp: defs tpool_destroy_def Let_def bindE_Inr_conv)
  qed
qed

lemma pool_step_rank:
  "pool_step exec S S' \<Longrightarrow> pool_fits S \<Longrightarrow> pool_rank S' < pool_rank S \<and> pool_fits S'"
  by (erule pool_stepE) (simp_all add: caller_step_rank thread_step_rank)

lemma pool_steps_bounded:
  "(pool_step exec ^^ k) S S' \<Longrightarrow> pool_fits S \<Longrightarrow> k + pool_rank S' \<le> pool_rank S \<and> pool_fits S'"
proof (induction k arbitrary: S')
  case (Suc k)
  then obtain S1 where "(pool_step exec ^^ k) S S1" "pool_step exec S1 S'" by auto
  with Suc.IH [of S1] Suc.prems(2) pool_step_rank show ?case by fastforce
qed simp

section \<open>A round\<close>

text \<open>
  The thread functions of the workers in the order \<open>ord\<close>, from memory \<open>m\<close>: the memory after them
  and the result of each worker.
\<close>

definition run_one ::
  "('f \<Rightarrow> 'a \<Rightarrow> 's \<Rightarrow> 'r \<times> 's) \<Rightarrow> 'f \<Rightarrow> 'a list \<Rightarrow> 's \<times> (nat \<Rightarrow> 'r option) \<Rightarrow> nat \<Rightarrow> 's \<times> (nat \<Rightarrow> 'r option)" where
  "run_one exec f as s i = (let (r, m) = exec f (as ! i) (fst s) in (m, (snd s)(i := Some r)))"

definition run_in_order ::
  "('f \<Rightarrow> 'a \<Rightarrow> 's \<Rightarrow> 'r \<times> 's) \<Rightarrow> 'f \<Rightarrow> 'a list \<Rightarrow> 's \<Rightarrow> nat list \<Rightarrow> 's \<times> (nat \<Rightarrow> 'r option)" where
  "run_in_order exec f as m ord = foldl (run_one exec f as) (m, \<lambda>_. None) ord"

lemma run_in_order_Nil [simp]: "run_in_order exec f as m [] = (m, \<lambda>_. None)"
  by (simp add: run_in_order_def)

lemma run_in_order_snoc:
  "run_in_order exec f as m (ord @ [i]) = run_one exec f as (run_in_order exec f as m ord) i"
  by (simp add: run_in_order_def)

text \<open>
  The stages of a thread in a round of \<open>n\<close> workers: not woken in this round (it may still be about to
  compare its count of the round before, which is less than \<open>n\<close>), woken, done with the function,
  counted as done.
\<close>

definition at_rest :: "nat \<Rightarrow> ('f, 'a, 'r) thread_pc \<Rightarrow> bool" where
  "at_rest n p \<longleftrightarrow> p = Wait_run \<or> (\<exists>k < int n. p = Compare False k)"

definition asleep :: "nat \<Rightarrow> ('f, 'a, 'r) tp_thread \<Rightarrow> bool" where
  "asleep n t \<longleftrightarrow> th_sem_run t = Some 0 \<and> at_rest n (th_pc t)"

definition woken :: "nat \<Rightarrow> 'f \<Rightarrow> 'a \<Rightarrow> ('f, 'a, 'r) tp_thread \<Rightarrow> bool" where
  "woken n f a t \<longleftrightarrow>
     th_sem_run t = Some 1 \<and> at_rest n (th_pc t) \<or>
     th_sem_run t = Some 0 \<and> th_pc t \<in> {Test_die, Load, Run f a}"

definition ran :: "'r option \<Rightarrow> ('f, 'a, 'r) tp_thread \<Rightarrow> bool" where
  "ran r t \<longleftrightarrow> th_sem_run t = Some 0 \<and>
     (\<exists>x. r = Some x \<and> (th_pc t = Store x \<or> th_pc t = Count False \<and> th_ret_val t = Some x))"

definition counted :: "nat \<Rightarrow> 'r option \<Rightarrow> ('f, 'a, 'r) tp_thread \<Rightarrow> bool" where
  "counted n r t \<longleftrightarrow> th_sem_run t = Some 0 \<and> r \<noteq> None \<and> th_ret_val t = r \<and>
     (at_rest n (th_pc t) \<or> th_pc t \<in> {Compare False (int n), Post False})"

definition stage ::
  "nat \<Rightarrow> 'f \<Rightarrow> 'a list \<Rightarrow> (nat \<Rightarrow> 'r option) \<Rightarrow> nat \<Rightarrow> nat list \<Rightarrow> nat set \<Rightarrow> nat \<Rightarrow> ('f, 'a, 'r) tp_thread \<Rightarrow> bool" where
  "stage n f as rs posted ord cnt i t \<longleftrightarrow>
     (if i \<in> cnt then counted n (rs i) t
      else if i \<in> set ord then ran (rs i) t
      else if i < posted then woken n f (as ! i) t
      else asleep n t)"

text \<open>The thread that is going to post the end of the round.\<close>

definition token :: "nat \<Rightarrow> ('f, 'a, 'r) tp_thread \<Rightarrow> nat" where
  "token n t = (if th_pc t \<in> {Compare False (int n), Post False} then 1 else 0)"

text \<open>The pool's blocks are there, with as many threads as it says.\<close>

definition pool_ok :: "('f, 'a, 'r, 's) tp_state \<Rightarrow> bool" where
  "pool_ok S \<longleftrightarrow>
     (let pool = ps_pool S in
      tp_num_threads pool = int (length (ps_threads S)) \<and> tp_num_threads pool < 2 ^ 31 \<and>
      length (tp_args pool) = length (ps_threads S) \<and> tp_die pool = 0 \<and>
      (\<forall>p \<in> {tp_self pool, tp_args_arr pool, tp_thread_args_arr pool} \<union> th_ret ` set (ps_threads S).
         live (ps_heap S) p))"

text \<open>Between two rounds; \<open>n\<close> bounds the counts that threads may still be about to compare.\<close>

definition pool_idle :: "nat \<Rightarrow> ('f, 'a, 'r, 's) tp_state \<Rightarrow> bool" where
  "pool_idle n S \<longleftrightarrow>
     pool_ok S \<and> int n \<le> tp_num_workers (ps_pool S) \<and> ps_caller S = Idle \<and> tp_sem_all_workers_done (ps_pool S) = Some 0 \<and>
     (\<forall>t \<in> set (ps_threads S). asleep n t)"

text \<open>In a round that began with memory \<open>m\<close>.\<close>

definition in_round ::
  "('f \<Rightarrow> 'a \<Rightarrow> 's \<Rightarrow> 'r \<times> 's) \<Rightarrow> nat \<Rightarrow> 'f \<Rightarrow> 'a list \<Rightarrow> 's \<Rightarrow> nat \<Rightarrow> nat list \<Rightarrow> nat set \<Rightarrow>
   ('f, 'a, 'r, 's) tp_state \<Rightarrow> bool" where
  "in_round exec n f as m posted ord cnt S \<longleftrightarrow>
     pool_ok S \<and> 0 < n \<and> n \<le> length (ps_threads S) \<and> posted \<le> n \<and>
     (ps_caller S = Posting posted \<or> ps_caller S = Idle \<and> posted = n) \<and> ps_calls S = [Wait] \<and>
     tp_num_workers (ps_pool S) = int n \<and> tp_thread_func (ps_pool S) = Some f \<and>
     (\<forall>i < n. tp_args (ps_pool S) ! i = Some (as ! i)) \<and>
     distinct ord \<and> cnt \<subseteq> set ord \<and> set ord \<subseteq> {..<posted} \<and>
     tp_num_workers_done (ps_pool S) = of_nat (card cnt) \<and>
     fst (run_in_order exec f as m ord) = ps_mem S \<and>
     (\<forall>i < length (ps_threads S). stage n f as (snd (run_in_order exec f as m ord)) posted ord cnt i (ps_threads S ! i)) \<and>
     (\<exists>s. tp_sem_all_workers_done (ps_pool S) = Some s \<and>
          s + sum_list (map (token n) (ps_threads S)) = (if card cnt = n then 1 else 0))"

section \<open>Steps of threads\<close>

lemma pool_okD:
  assumes "pool_ok S"
  shows "live (ps_heap S) (tp_self (ps_pool S))" "live (ps_heap S) (tp_args_arr (ps_pool S))"
    "live (ps_heap S) (tp_thread_args_arr (ps_pool S))" "tp_die (ps_pool S) = 0"
    "i < length (ps_threads S) \<Longrightarrow> live (ps_heap S) (th_ret (ps_threads S ! i))"
    "tp_num_threads (ps_pool S) = int (length (ps_threads S))" "length (ps_threads S) < 2 ^ 31"
    "length (tp_args (ps_pool S)) = length (ps_threads S)"
  using assms by (auto simp: pool_ok_def Let_def)

lemma pool_ok_update:
  assumes "pool_ok S" and "ps_threads S' = (ps_threads S)[i := t']" and "th_ret t' = th_ret (ps_threads S ! i)"
    and "ps_heap S' = ps_heap S"
    and "ps_pool S' = ps_pool S \<or> (\<exists>c s. ps_pool S' = (ps_pool S)\<lparr>tp_num_workers_done := c, tp_sem_all_workers_done := s\<rparr>)"
  shows "pool_ok S'"
proof (cases "i < length (ps_threads S)")
  case True
  have "th_ret ` set (ps_threads S') \<subseteq> insert (th_ret t') (th_ret ` set (ps_threads S))"
    using assms(2) set_update_subset_insert [of "ps_threads S" i t'] by auto
  also have "\<dots> = th_ret ` set (ps_threads S)" using assms(3) True by auto
  finally have "th_ret ` set (ps_threads S') \<subseteq> th_ret ` set (ps_threads S)" .
  then show ?thesis using assms by (auto simp: pool_ok_def Let_def)
next
  case False
  then show ?thesis using assms by (auto simp: pool_ok_def Let_def list_update_beyond)
qed

lemma stage_other:
  assumes "j \<in> cnt' \<longleftrightarrow> j \<in> cnt" and "j \<in> set ord' \<longleftrightarrow> j \<in> set ord" and "rs' j = rs j"
  shows "stage n f as rs' posted ord' cnt' j t = stage n f as rs posted ord cnt j t"
  using assms by (simp add: stage_def)

lemma in_round_update:
  assumes R: "in_round exec n f as m posted ord cnt S" and i: "i < length (ps_threads S)"
    and ths: "ps_threads S' = (ps_threads S)[i := t']" and ret: "th_ret t' = th_ret (ps_threads S ! i)"
    and same: "ps_heap S' = ps_heap S" "ps_caller S' = ps_caller S" "ps_calls S' = ps_calls S"
    and pool: "ps_pool S' = (ps_pool S)\<lparr>tp_num_workers_done := of_nat (card cnt'), tp_sem_all_workers_done := Some s'\<rparr>"
    and ord': "distinct ord'" "cnt' \<subseteq> set ord'" "set ord' \<subseteq> {..<posted}"
    and others: "cnt' - {i} = cnt - {i}" "set ord' - {i} = set ord - {i}"
      "\<And>j. j \<noteq> i \<Longrightarrow> snd (run_in_order exec f as m ord') j = snd (run_in_order exec f as m ord) j"
    and mem: "fst (run_in_order exec f as m ord') = ps_mem S'"
    and stage': "stage n f as (snd (run_in_order exec f as m ord')) posted ord' cnt' i t'"
    and tok: "s' + sum_list (map (token n) (ps_threads S')) = (if card cnt' = n then 1 else 0)"
  shows "in_round exec n f as m posted ord' cnt' S'"
proof -
  have "stage n f as (snd (run_in_order exec f as m ord')) posted ord' cnt' j (ps_threads S' ! j)"
    if j: "j < length (ps_threads S')" for j
  proof (cases "j = i")
    case True
    then show ?thesis using stage' ths i by simp
  next
    case False
    have "j \<in> cnt' \<longleftrightarrow> j \<in> cnt" "j \<in> set ord' \<longleftrightarrow> j \<in> set ord" using others(1,2) False by blast+
    then have "stage n f as (snd (run_in_order exec f as m ord')) posted ord' cnt' j (ps_threads S ! j) =
      stage n f as (snd (run_in_order exec f as m ord)) posted ord cnt j (ps_threads S ! j)"
      using others(3) [OF False] by (intro stage_other)
    then show ?thesis using R j ths False by (simp add: in_round_def)
  qed
  moreover have "pool_ok S'"
    using R ths ret same(1) pool by (intro pool_ok_update [of S S' i t']) (auto simp: in_round_def)
  ultimately show ?thesis
    using R ths same pool ord' mem tok unfolding in_round_def by auto
qed

lemma in_roundD:
  assumes "in_round exec n f as m posted ord cnt S"
  shows "pool_ok S" "0 < n" "n \<le> length (ps_threads S)" "posted \<le> n" "ps_calls S = [Wait]"
    "tp_num_workers (ps_pool S) = int n" "tp_thread_func (ps_pool S) = Some f"
    "i < n \<Longrightarrow> tp_args (ps_pool S) ! i = Some (as ! i)" "distinct ord" "cnt \<subseteq> set ord" "set ord \<subseteq> {..<posted}"
    "tp_num_workers_done (ps_pool S) = of_nat (card cnt)" "fst (run_in_order exec f as m ord) = ps_mem S"
    "i < length (ps_threads S) \<Longrightarrow> stage n f as (snd (run_in_order exec f as m ord)) posted ord cnt i (ps_threads S ! i)"
    "\<exists>s. tp_sem_all_workers_done (ps_pool S) = Some s \<and> s + sum_list (map (token n) (ps_threads S)) = (if card cnt = n then 1 else 0)"
    "ps_caller S = Posting posted \<or> ps_caller S = Idle \<and> posted = n" "finite cnt" "card cnt \<le> n"
proof -
  show "finite cnt" using assms finite_subset [of cnt "set ord"] by (simp add: in_round_def)
  have "cnt \<subseteq> {..<n}" using assms by (fastforce simp: in_round_def)
  then show "card cnt \<le> n" using card_mono [of "{..<n}" cnt] by simp
qed (use assms in \<open>auto simp: in_round_def\<close>)

text \<open>A step that changes neither what ran nor what was counted, nor the tokens.\<close>

lemma in_round_quiet:
  assumes R: "in_round exec n f as m posted ord cnt S" and i: "i < length (ps_threads S)"
    and S': "S' = S\<lparr>ps_threads := (ps_threads S)[i := t']\<rparr>" and ret: "th_ret t' = th_ret (ps_threads S ! i)"
    and stage': "stage n f as (snd (run_in_order exec f as m ord)) posted ord cnt i t'"
    and tok: "token n t' = token n (ps_threads S ! i)"
  shows "in_round exec n f as m posted ord cnt S'"
proof -
  note D = in_roundD [OF R]
  obtain s where s: "tp_sem_all_workers_done (ps_pool S) = Some s"
    "s + sum_list (map (token n) (ps_threads S)) = (if card cnt = n then 1 else 0)" using D(15) by blast
  have sum: "sum_list (map (token n) ((ps_threads S)[i := t'])) = sum_list (map (token n) (ps_threads S))"
    using sum_list_map_update [OF i, of "token n" t'] tok by simp
  show ?thesis
    by (rule in_round_update [OF R i, where t' = t' and s' = s])
      (use S' ret D s sum stage' in auto)
qed

lemma quiet_step:
  assumes R: "in_round exec n f as m posted ord cnt S" and i: "i < length (ps_threads S)"
    and step: "thread_step exec i S = Inr (S\<lparr>ps_threads := (ps_threads S)[i := t']\<rparr>)" and ret: "th_ret t' = th_ret (ps_threads S ! i)"
    and stage': "stage n f as (snd (run_in_order exec f as m ord)) posted ord cnt i t'"
    and tok: "token n t' = token n (ps_threads S ! i)"
  shows "\<exists>S' ord' cnt'. thread_step exec i S = Inr S' \<and> in_round exec n f as m posted ord' cnt' S'"
  using step in_round_quiet [OF R i refl ret stage' tok] by blast

lemma asleep_step:
  assumes "pool_ok S" and "i < length (ps_threads S)" and "at_rest n (th_pc (ps_threads S ! i))"
    and "th_pc (ps_threads S ! i) \<noteq> Wait_run" and "tp_num_workers (ps_pool S) = int n"
  shows "thread_step exec i S = Inr (S\<lparr>ps_threads := (ps_threads S)[i := (ps_threads S ! i)\<lparr>th_pc := Wait_run\<rparr>]\<rparr>)"
  using assms(3,4,5) pool_okD(1,3) [OF assms(1)] assms(2)
  by (auto simp: at_rest_def thread_step_def Let_def touch_def)

lemma waiting_step:
  assumes "pool_ok S" and "i < length (ps_threads S)" and "th_pc (ps_threads S ! i) = Wait_run"
    and "th_sem_run (ps_threads S ! i) = Some v"
  shows "thread_step exec i S =
    (if v = 0 then Inl Would_block
     else Inr (S\<lparr>ps_threads := (ps_threads S)[i := (ps_threads S ! i)\<lparr>th_sem_run := Some (v - 1), th_pc := Test_die\<rparr>]\<rparr>))"
  using assms(2-4) pool_okD(3) [OF assms(1)] by (simp add: thread_step_def Let_def touch_def sem_wait_def)

lemma woken_step:
  assumes R: "in_round exec n f as m posted ord cnt S" and i: "i < length (ps_threads S)"
    and "i \<notin> set ord" and "i < posted"
  shows "\<exists>S' ord' cnt'. thread_step exec i S = Inr S' \<and> in_round exec n f as m posted ord' cnt' S'"
proof -
  note D = in_roundD [OF R]
  note P = pool_okD [OF D(1)]
  let ?t = "ps_threads S ! i"
  have nc: "i \<notin> cnt" using assms(3) D(10) by blast
  have n: "i < n" using assms(4) D(4) by simp
  have st: "woken n f (as ! i) ?t" using D(14) [OF i] nc assms(3,4) by (simp add: stage_def)
  have stage_i: "stage n f as rs posted ord cnt i t' \<longleftrightarrow> woken n f (as ! i) t'" for rs t'
    using nc assms(3,4) by (simp add: stage_def)
  show ?thesis
  proof (cases "th_sem_run ?t = Some 1")
    case True
    then have rest: "at_rest n (th_pc ?t)" using st by (auto simp: woken_def)
    show ?thesis
    proof (cases "th_pc ?t = Wait_run")
      case w: True
      show ?thesis
        by (rule quiet_step [OF R i, where t' = "?t\<lparr>th_sem_run := Some 0, th_pc := Test_die\<rparr>"])
          (simp_all add: waiting_step [OF D(1) i w True] stage_i woken_def token_def w)
    next
      case False
      show ?thesis
        by (rule quiet_step [OF R i asleep_step [OF D(1) i rest False D(6)]])
          (use rest True in \<open>auto simp: stage_i woken_def token_def at_rest_def\<close>)
    qed
  next
    case False
    then have sem: "th_sem_run ?t = Some 0" and pc: "th_pc ?t \<in> {Test_die, Load, Run f (as ! i)}"
      using st by (auto simp: woken_def)
    then consider "th_pc ?t = Test_die" | "th_pc ?t = Load" | "th_pc ?t = Run f (as ! i)" by blast
    then show ?thesis
    proof cases
      case 1
      have "thread_step exec i S = Inr (S\<lparr>ps_threads := (ps_threads S)[i := ?t\<lparr>th_pc := Load\<rparr>]\<rparr>)"
        using 1 i P(1,3,4) by (simp add: thread_step_def Let_def touch_def)
      then show ?thesis
        by (rule quiet_step [OF R i]) (simp_all add: stage_i woken_def token_def 1 sem)
    next
      case 2
      have "thread_step exec i S = Inr (S\<lparr>ps_threads := (ps_threads S)[i := ?t\<lparr>th_pc := Run f (as ! i)\<rparr>]\<rparr>)"
        using 2 i P(1-3,8) D(7) D(8) [OF n] by (simp add: thread_step_def Let_def touch_def)
      then show ?thesis
        by (rule quiet_step [OF R i]) (simp_all add: stage_i woken_def token_def 2 sem)
    next
      case 3
      obtain r m' where e: "exec f (as ! i) (ps_mem S) = (r, m')" by fastforce
      obtain s where s: "tp_sem_all_workers_done (ps_pool S) = Some s"
        "s + sum_list (map (token n) (ps_threads S)) = (if card cnt = n then 1 else 0)" using D(15) by blast
      let ?t' = "?t\<lparr>th_pc := Store r\<rparr>"
      have run: "run_in_order exec f as m (ord @ [i]) = (m', (snd (run_in_order exec f as m ord))(i := Some r))"
        using D(13) e by (simp add: run_in_order_snoc run_one_def)
      have "thread_step exec i S = Inr (S\<lparr>ps_threads := (ps_threads S)[i := ?t'], ps_mem := m'\<rparr>)"
        using 3 i e by (simp add: thread_step_def Let_def)
      moreover have "in_round exec n f as m posted (ord @ [i]) cnt (S\<lparr>ps_threads := (ps_threads S)[i := ?t'], ps_mem := m'\<rparr>)"
      proof (rule in_round_update [OF R i, where t' = ?t' and s' = s])
        show "stage n f as (snd (run_in_order exec f as m (ord @ [i]))) posted (ord @ [i]) cnt i ?t'"
          using nc sem run by (simp add: stage_def ran_def)
        show "s + sum_list (map (token n) (ps_threads (S\<lparr>ps_threads := (ps_threads S)[i := ?t'], ps_mem := m'\<rparr>))) = (if card cnt = n then 1 else 0)"
          using sum_list_map_update [OF i, of "token n" ?t'] s(2) 3 by (simp add: token_def)
      qed (use D assms(3,4) s(1) run in auto)
      ultimately show ?thesis by blast
    qed
  qed
qed

lemma sint_count:
  assumes "k < 2 ^ 31"
  shows "sint (of_nat k + 1 :: 32 word) = int k + 1 \<or> k + 1 = 2 ^ 31"
proof -
  have "sint (of_nat (k + 1) :: 32 word) = int (k + 1)" if "k + 1 < 2 ^ 31"
    using that by (simp only: signed_of_nat) (simp add: signed_take_bit_int_eq_self)
  then show ?thesis using assms by (auto simp: add.commute)
qed

lemma ran_step:
  assumes R: "in_round exec n f as m posted ord cnt S" and i: "i < length (ps_threads S)"
    and ord: "i \<in> set ord" and nc: "i \<notin> cnt"
  shows "\<exists>S' ord' cnt'. thread_step exec i S = Inr S' \<and> in_round exec n f as m posted ord' cnt' S'"
proof -
  note D = in_roundD [OF R]
  note P = pool_okD [OF D(1)]
  let ?t = "ps_threads S ! i" and ?rs = "snd (run_in_order exec f as m ord)"
  have st: "ran (?rs i) ?t" using D(14) [OF i] nc ord by (simp add: stage_def)
  then obtain x where sem: "th_sem_run ?t = Some 0" and x: "?rs i = Some x"
    and pc: "th_pc ?t = Store x \<or> th_pc ?t = Count False \<and> th_ret_val ?t = Some x" by (auto simp: ran_def)
  show ?thesis
  proof (cases "th_pc ?t = Store x")
    case True
    have "thread_step exec i S =
        Inr (S\<lparr>ps_threads := (ps_threads S)[i := ?t\<lparr>th_ret_val := Some x, th_pc := Count False\<rparr>]\<rparr>)"
      using True i P(5) [OF i] by (simp add: thread_step_def Let_def touch_def)
    then show ?thesis
      by (rule quiet_step [OF R i]) (simp_all add: stage_def nc ord ran_def token_def True sem x)
  next
    case False
    then have pc: "th_pc ?t = Count False" "th_ret_val ?t = Some x" using pc by auto
    obtain s where s: "tp_sem_all_workers_done (ps_pool S) = Some s"
      "s + sum_list (map (token n) (ps_threads S)) = (if card cnt = n then 1 else 0)" using D(15) by blast
    have iless: "i < n" using ord D(4,11) by fastforce
    have "insert i cnt \<subseteq> {..<n}" using iless D(4,10,11) by fastforce
    from card_mono [OF _ this] have card: "Suc (card cnt) \<le> n" using nc D(17) by simp
    have k: "sint (of_nat (card cnt) + 1 :: 32 word) = int (Suc (card cnt))"
      using sint_count [of "card cnt"] card D(3) P(7) by auto
    let ?t' = "?t\<lparr>th_pc := Compare False (int (Suc (card cnt)))\<rparr>"
    let ?S' = "S\<lparr>ps_threads := (ps_threads S)[i := ?t'], ps_pool := (ps_pool S)\<lparr>tp_num_workers_done := of_nat (card cnt) + 1\<rparr>\<rparr>"
    have "thread_step exec i S = Inr ?S'"
      using pc i P(1,3) D(12) k by (simp add: thread_step_def Let_def touch_def fetch_and_inc_def)
    moreover have "in_round exec n f as m posted ord (insert i cnt) ?S'"
    proof (rule in_round_update [OF R i, where t' = ?t' and s' = s])
      show "stage n f as ?rs posted ord (insert i cnt) i ?t'"
        using sem x pc card by (auto simp: stage_def counted_def at_rest_def)
      show "s + sum_list (map (token n) (ps_threads ?S')) = (if card (insert i cnt) = n then 1 else 0)"
        using sum_list_map_update [OF i, of "token n" ?t'] s(2) pc(1) nc D(17) card by (auto simp: token_def)
    qed (use D ord nc s(1) in \<open>auto simp: add.commute\<close>)
    ultimately show ?thesis by blast
  qed
qed

lemma counted_step:
  assumes R: "in_round exec n f as m posted ord cnt S" and i: "i < length (ps_threads S)" and c: "i \<in> cnt"
  shows "thread_step exec i S = Inl Would_block \<or>
    (\<exists>S' ord' cnt'. thread_step exec i S = Inr S' \<and> in_round exec n f as m posted ord' cnt' S')"
proof -
  note D = in_roundD [OF R]
  note P = pool_okD [OF D(1)]
  let ?t = "ps_threads S ! i" and ?rs = "snd (run_in_order exec f as m ord)"
  have st: "counted n (?rs i) ?t" using D(14) [OF i] c by (simp add: stage_def)
  have sem: "th_sem_run ?t = Some 0" and ret: "?rs i \<noteq> None" "th_ret_val ?t = ?rs i" using st by (auto simp: counted_def)
  consider "th_pc ?t = Wait_run" | "at_rest n (th_pc ?t)" "th_pc ?t \<noteq> Wait_run"
    | "th_pc ?t = Compare False (int n)" | "th_pc ?t = Post False" using st by (auto simp: counted_def)
  then show ?thesis
  proof cases
    case 1
    then show ?thesis using waiting_step [OF D(1) i 1 sem] by simp
  next
    case 2
    have "\<exists>S' ord' cnt'. thread_step exec i S = Inr S' \<and> in_round exec n f as m posted ord' cnt' S'"
      by (rule quiet_step [OF R i asleep_step [OF D(1) i 2 D(6)]])
        (use 2 sem ret c in \<open>auto simp: stage_def counted_def token_def at_rest_def\<close>)
    then show ?thesis ..
  next
    case 3
    have "thread_step exec i S = Inr (S\<lparr>ps_threads := (ps_threads S)[i := ?t\<lparr>th_pc := Post False\<rparr>]\<rparr>)"
      using 3 i P(1,3) D(6) by (simp add: thread_step_def Let_def touch_def)
    then have "\<exists>S' ord' cnt'. thread_step exec i S = Inr S' \<and> in_round exec n f as m posted ord' cnt' S'"
      by (rule quiet_step [OF R i]) (use 3 sem ret c in \<open>auto simp: stage_def counted_def token_def\<close>)
    then show ?thesis ..
  next
    case 4
    obtain s where s: "tp_sem_all_workers_done (ps_pool S) = Some s"
      "s + sum_list (map (token n) (ps_threads S)) = (if card cnt = n then 1 else 0)" using D(15) by blast
    let ?t' = "?t\<lparr>th_pc := Wait_run\<rparr>"
    let ?S' = "S\<lparr>ps_threads := (ps_threads S)[i := ?t'], ps_pool := (ps_pool S)\<lparr>tp_sem_all_workers_done := Some (Suc s)\<rparr>\<rparr>"
    have tok: "sum_list (map (token n) (ps_threads S)) = Suc (sum_list (map (token n) ((ps_threads S)[i := ?t'])))"
      using sum_list_map_update [OF i, of "token n" ?t'] 4 by (simp add: token_def)
    then have "s = 0" using s(2) by (simp split: if_splits)
    then have "thread_step exec i S = Inr ?S'"
      using 4 i P(1,3) s(1) by (simp add: thread_step_def Let_def touch_def sem_post_def SEM_VALUE_MAX_def)
    moreover have "in_round exec n f as m posted ord cnt ?S'"
    proof (rule in_round_update [OF R i, where t' = ?t' and s' = "Suc s"])
      show "stage n f as ?rs posted ord cnt i ?t'" using sem ret c by (simp add: stage_def counted_def at_rest_def)
      show "Suc s + sum_list (map (token n) (ps_threads ?S')) = (if card cnt = n then 1 else 0)" using tok s(2) by simp
      show "ps_pool ?S' = (ps_pool S)\<lparr>tp_num_workers_done := of_nat (card cnt), tp_sem_all_workers_done := Some (Suc s)\<rparr>"
        using D(12) by simp
    qed (use D in auto)
    ultimately show ?thesis by blast
  qed
qed

lemma in_round_thread_step:
  assumes R: "in_round exec n f as m posted ord cnt S" and i: "i < length (ps_threads S)"
  shows "thread_step exec i S = Inl Would_block \<or>
    (\<exists>S' ord' cnt'. thread_step exec i S = Inr S' \<and> in_round exec n f as m posted ord' cnt' S')"
proof -
  note D = in_roundD [OF R]
  consider "i \<in> cnt" | "i \<in> set ord" "i \<notin> cnt" | "i \<notin> set ord" "i < posted" | "i \<notin> set ord" "\<not> i < posted" by blast
  then show ?thesis
  proof cases
    case 1
    then show ?thesis by (rule counted_step [OF R i])
  next
    case 2
    then show ?thesis using ran_step [OF R i] by blast
  next
    case 3
    then show ?thesis using woken_step [OF R i] by blast
  next
    case 4
    then have nc: "i \<notin> cnt" using D(10) by blast
    have st: "asleep n (ps_threads S ! i)" using D(14) [OF i] 4 nc by (simp add: stage_def)
    show ?thesis
    proof (cases "th_pc (ps_threads S ! i) = Wait_run")
      case True
      then show ?thesis using waiting_step [OF D(1) i True, of 0] st by (simp add: asleep_def)
    next
      case False
      have rest: "at_rest n (th_pc (ps_threads S ! i))" using st by (simp add: asleep_def)
      have "\<exists>S' ord' cnt'. thread_step exec i S = Inr S' \<and> in_round exec n f as m posted ord' cnt' S'"
        by (rule quiet_step [OF R i asleep_step [OF D(1) i rest False D(6)]])
          (use rest st 4 nc in \<open>auto simp: stage_def asleep_def token_def at_rest_def\<close>)
      then show ?thesis ..
    qed
  qed
qed

section \<open>Steps of the caller\<close>

definition round_done ::
  "('f \<Rightarrow> 'a \<Rightarrow> 's \<Rightarrow> 'r \<times> 's) \<Rightarrow> nat \<Rightarrow> 'f \<Rightarrow> 'a list \<Rightarrow> 's \<Rightarrow> ('f, 'a, 'r, 's) tp_state \<Rightarrow> bool" where
  "round_done exec n f as m S \<longleftrightarrow>
     pool_idle n S \<and> n \<le> length (ps_threads S) \<and> ps_calls S = [] \<and> ps_ret S = 0 \<and> tp_num_workers (ps_pool S) = int n \<and>
     (\<exists>ord. distinct ord \<and> set ord = {..<n} \<and> fst (run_in_order exec f as m ord) = ps_mem S \<and>
       (\<forall>i < n. snd (run_in_order exec f as m ord) i \<noteq> None \<and>
          th_ret_val (ps_threads S ! i) = snd (run_in_order exec f as m ord) i))"

lemma post_step:
  assumes R: "in_round exec n f as m posted ord cnt S" and "ps_caller S = Posting posted"
  shows "\<exists>S' posted'. caller_step S = Inr S' \<and> in_round exec n f as m posted' ord cnt S'"
proof (cases "posted < n")
  case False
  then have "posted = n" using in_roundD(4) [OF R] by simp
  then have "in_round exec n f as m n ord cnt (S\<lparr>ps_caller := Idle, ps_ret := 0\<rparr>)"
    using R by (simp add: in_round_def pool_ok_def Let_def)
  moreover have "caller_step S = Inr (S\<lparr>ps_caller := Idle, ps_ret := 0\<rparr>)"
    using assms(2) False in_roundD(6) [OF R] by (simp add: caller_step_def tpool_begin_post_def)
  ultimately show ?thesis by blast
next
  case True
  note D = in_roundD [OF R]
  let ?t = "ps_threads S ! posted" and ?rs = "snd (run_in_order exec f as m ord)"
  have i: "posted < length (ps_threads S)" using True D(3) by simp
  have no: "posted \<notin> set ord" "posted \<notin> cnt" using D(10,11) by auto
  have st: "asleep n ?t" using D(14) [OF i] no by (simp add: stage_def)
  let ?t' = "?t\<lparr>th_sem_run := Some 1\<rparr>"
  let ?S' = "S\<lparr>ps_threads := (ps_threads S)[posted := ?t'], ps_caller := Posting (Suc posted)\<rparr>"
  have "caller_step S = Inr ?S'"
    using assms(2) True D(6) i st
    by (simp add: caller_step_def tpool_begin_post_def sem_post_def asleep_def SEM_VALUE_MAX_def Let_def)
  moreover have "in_round exec n f as m (Suc posted) ord cnt ?S'"
  proof -
    have "stage n f as ?rs (Suc posted) ord cnt j (ps_threads ?S' ! j)" if j: "j < length (ps_threads S)" for j
    proof (cases "j = posted")
      case True
      then show ?thesis using i no st by (simp add: stage_def woken_def asleep_def)
    next
      case False
      then have "j < Suc posted \<longleftrightarrow> j < posted" by auto
      then show ?thesis using D(14) [OF j] False by (simp add: stage_def)
    qed
    moreover have "sum_list (map (token n) (ps_threads ?S')) = sum_list (map (token n) (ps_threads S))"
      using sum_list_map_update [OF i, of "token n" ?t'] by (simp add: token_def)
    moreover have "pool_ok ?S'" by (rule pool_ok_update [OF D(1), where i = posted and t' = ?t']) auto
    ultimately show ?thesis
      using R True unfolding in_round_def by (auto intro: less_SucI)
  qed
  ultimately show ?thesis by blast
qed

lemma wait_step:
  assumes R: "in_round exec n f as m posted ord cnt S" and "ps_caller S = Idle"
  shows "caller_step S = Inl Would_block \<or> (\<exists>S'. caller_step S = Inr S' \<and> round_done exec n f as m S')"
proof -
  note D = in_roundD [OF R]
  let ?rs = "snd (run_in_order exec f as m ord)"
  have posted: "posted = n" using D(16) assms(2) by simp
  obtain s where s: "tp_sem_all_workers_done (ps_pool S) = Some s"
    "s + sum_list (map (token n) (ps_threads S)) = (if card cnt = n then 1 else 0)" using D(15) by blast
  show ?thesis
  proof (cases "s = 0")
    case True
    then show ?thesis
      using assms(2) D(2,5,6) s(1) by (simp add: caller_step_def tpool_wait_def sem_wait_def)
  next
    case False
    then have card: "card cnt = n" using s(2) by (auto split: if_splits)
    then have total: "s + sum_list (map (token n) (ps_threads S)) = 1" using s(2) by simp
    have s1: "s = 1" and sum: "sum_list (map (token n) (ps_threads S)) = 0" using total False by linarith+
    have "cnt \<subseteq> {..<n}" using D(10,11) posted by blast
    then have cnt: "cnt = {..<n}" using card_subset_eq [of "{..<n}" cnt] card by simp
    then have ord: "set ord = {..<n}" using D(10,11) posted by blast
    have notok: "token n t = 0" if "t \<in> set (ps_threads S)" for t
      using sum that member_le_sum_list [of "token n t" "map (token n) (ps_threads S)"] by simp
    let ?S' = "S\<lparr>ps_calls := [], ps_pool := (ps_pool S)\<lparr>tp_sem_all_workers_done := Some 0\<rparr>, ps_ret := 0\<rparr>"
    have "caller_step S = Inr ?S'"
      using assms(2) D(2,5,6) s(1) s1 by (simp add: caller_step_def tpool_wait_def sem_wait_def)
    moreover have "round_done exec n f as m ?S'"
    proof -
      have fin: "counted n (?rs i) (ps_threads S ! i)" if "i < n" for i
        using D(14) [of i] that cnt D(3) by (simp add: stage_def)
      have "asleep n t" if t: "t \<in> set (ps_threads S)" for t
      proof -
        obtain i where i: "i < length (ps_threads S)" "t = ps_threads S ! i" using t by (metis in_set_conv_nth)
        show ?thesis
        proof (cases "i < n")
          case True
          then show ?thesis using fin [OF True] notok [OF t] i(2) by (auto simp: counted_def asleep_def token_def split: if_splits)
        next
          case False
          then show ?thesis using D(14) [OF i(1)] cnt ord posted i(2) by (simp add: stage_def)
        qed
      qed
      moreover have "pool_ok ?S'" using D(1) by (simp add: pool_ok_def Let_def)
      moreover have "?rs i \<noteq> None \<and> th_ret_val (ps_threads S ! i) = ?rs i" if "i < n" for i
        using fin [OF that] by (simp add: counted_def)
      ultimately show ?thesis
        using assms(2) D(3,6,9,13) ord unfolding round_done_def pool_idle_def by auto
    qed
    ultimately show ?thesis by blast
  qed
qed

section \<open>Between rounds\<close>

lemma asleep_mono: "asleep k t \<Longrightarrow> k \<le> n \<Longrightarrow> asleep n t"
  by (fastforce simp: asleep_def at_rest_def)

lemma idle_thread_step:
  assumes I: "pool_idle n S" and i: "i < length (ps_threads S)"
  shows "thread_step exec i S = Inl Would_block \<or>
    thread_step exec i S = Inr (S\<lparr>ps_threads := (ps_threads S)[i := (ps_threads S ! i)\<lparr>th_pc := Wait_run\<rparr>]\<rparr>) \<and>
    pool_idle n (S\<lparr>ps_threads := (ps_threads S)[i := (ps_threads S ! i)\<lparr>th_pc := Wait_run\<rparr>]\<rparr>)"
proof -
  have ok: "pool_ok S" and st: "asleep n (ps_threads S ! i)" using I i by (auto simp: pool_idle_def)
  show ?thesis
  proof (cases "th_pc (ps_threads S ! i) = Wait_run")
    case True
    then show ?thesis using waiting_step [OF ok i True, of 0] st by (simp add: asleep_def)
  next
    case False
    let ?t' = "(ps_threads S ! i)\<lparr>th_pc := Wait_run\<rparr>"
    obtain k where k: "th_pc (ps_threads S ! i) = Compare False k" "k \<noteq> tp_num_workers (ps_pool S)"
      using st False I by (auto simp: asleep_def at_rest_def pool_idle_def)
    have "thread_step exec i S = Inr (S\<lparr>ps_threads := (ps_threads S)[i := ?t']\<rparr>)"
      using k i pool_okD(1,3) [OF ok] by (simp add: thread_step_def Let_def touch_def)
    moreover have "pool_ok (S\<lparr>ps_threads := (ps_threads S)[i := ?t']\<rparr>)"
      by (rule pool_ok_update [OF ok, where i = i and t' = ?t']) auto
    moreover have "asleep n t" if "t \<in> set ((ps_threads S)[i := ?t'])" for t
      using that I st set_update_subset_insert [of "ps_threads S" i ?t'] by (auto simp: pool_idle_def asleep_def at_rest_def)
    ultimately show ?thesis using I by (auto simp: pool_idle_def)
  qed
qed

section \<open>Rounds\<close>

definition round_calls :: "nat \<Rightarrow> 'f \<Rightarrow> 'a list \<Rightarrow> ('f, 'a) tp_call list" where
  "round_calls n f as = [Set f as (int n), Begin, Wait]"

text \<open>All that a run of the three calls goes through, from a pool that was at rest with memory \<open>m\<close>.\<close>

definition round_inv ::
  "('f \<Rightarrow> 'a \<Rightarrow> 's \<Rightarrow> 'r \<times> 's) \<Rightarrow> nat \<Rightarrow> nat \<Rightarrow> 'f \<Rightarrow> 'a list \<Rightarrow> 's \<Rightarrow> ('f, 'a, 'r, 's) tp_state \<Rightarrow> bool" where
  "round_inv exec k n f as m S \<longleftrightarrow>
     k \<le> n \<and> 0 < n \<and> n \<le> length as \<and> n \<le> length (ps_threads S) \<and>
     (pool_idle k S \<and> ps_mem S = m \<and> ps_calls S = round_calls n f as \<or>
      pool_idle k S \<and> ps_mem S = m \<and> ps_calls S = [Begin, Wait] \<and> tp_num_workers (ps_pool S) = int n \<and>
        tp_thread_func (ps_pool S) = Some f \<and> (\<forall>i < n. tp_args (ps_pool S) ! i = Some (as ! i)) \<or>
      (\<exists>posted ord cnt. in_round exec n f as m posted ord cnt S) \<or>
      round_done exec n f as m S)"

lemma set_args:
  assumes "n \<le> length as" and "n \<le> length targs"
  shows "foldE (\<lambda>targs i. bindE (arr_get as (int i)) (\<lambda>a. arr_set targs (int i) (Some a))) targs [0..<n] =
    Inr (map Some (take n as) @ drop n targs)"
  using assms
proof (induction n)
  case (Suc n)
  have "(map Some (take n as) @ drop n targs)[n := Some (as ! n)] = map Some (take (Suc n) as) @ drop (Suc n) targs"
    using Suc.prems by (simp add: list_update_append take_Suc_conv_app_nth Cons_nth_drop_Suc [symmetric])
  then show ?case using Suc by (simp add: foldE_append)
qed simp

lemma set_step:
  assumes "pool_idle k S" and "ps_calls S = round_calls n f as" and "n \<le> length as" and "n \<le> length (ps_threads S)" and "k \<le> n"
  shows "\<exists>S'. caller_step S = Inr S' \<and> pool_idle k S' \<and> ps_mem S' = ps_mem S \<and> ps_calls S' = [Begin, Wait] \<and>
    tp_num_workers (ps_pool S') = int n \<and> tp_thread_func (ps_pool S') = Some f \<and>
    (\<forall>i < n. tp_args (ps_pool S') ! i = Some (as ! i)) \<and> ps_threads S' = ps_threads S"
proof -
  have ok: "pool_ok S" using assms(1) by (simp add: pool_idle_def)
  note P = pool_okD [OF ok]
  let ?targs = "map Some (take n as) @ drop n (tp_args (ps_pool S))"
  let ?pool = "(ps_pool S)\<lparr>tp_thread_func := Some f, tp_num_workers := int n, tp_args := ?targs\<rparr>"
  have "tpool_set (ps_pool S) f as (int n) = Inr (0, ?pool)"
    using set_args [of n as "tp_args (ps_pool S)"] assms(3,4) P(6,8) by (simp add: tpool_set_def)
  then have "caller_step S = Inr (S\<lparr>ps_calls := [Begin, Wait], ps_pool := ?pool, ps_ret := 0\<rparr>)"
    using assms(1,2) by (simp add: caller_step_def round_calls_def pool_idle_def)
  moreover have "?targs ! i = Some (as ! i)" if "i < n" for i using that assms(3) by (simp add: nth_append)
  moreover have "length ?targs = length (ps_threads S)" using assms(3,4) P(8) by simp
  ultimately show ?thesis
    using assms(1,5) by (auto simp: pool_idle_def pool_ok_def Let_def)
qed

lemma begin_step:
  assumes I: "pool_idle k S" and "ps_calls S = [Begin, Wait]" and "k \<le> n" and "0 < n" and "n \<le> length (ps_threads S)"
    and "tp_num_workers (ps_pool S) = int n" and "tp_thread_func (ps_pool S) = Some f"
    and "\<forall>i < n. tp_args (ps_pool S) ! i = Some (as ! i)"
  shows "\<exists>S'. caller_step S = Inr S' \<and> in_round exec n f as (ps_mem S) 0 [] {} S' \<and> ps_threads S' = ps_threads S"
proof -
  let ?S' = "S\<lparr>ps_calls := [Wait], ps_pool := (ps_pool S)\<lparr>tp_num_workers_done := 0\<rparr>, ps_caller := Posting 0\<rparr>"
  have "caller_step S = Inr ?S'"
    using assms(1,2,4,6) by (simp add: caller_step_def tpool_begin_def pool_idle_def)
  moreover have "in_round exec n f as (ps_mem S) 0 [] {} ?S'"
  proof -
    have as: "asleep n t" if "t \<in> set (ps_threads S)" for t
      using I that assms(3) asleep_mono by (auto simp: pool_idle_def)
    have "token n t = 0" if "t \<in> set (ps_threads S)" for t
      using as [OF that] by (auto simp: asleep_def at_rest_def token_def)
    then have "sum_list (map (token n) (ps_threads S)) = 0" by simp
    then show ?thesis
      using assms as by (simp add: in_round_def stage_def pool_idle_def pool_ok_def Let_def)
  qed
  ultimately show ?thesis by auto
qed

text \<open>Every step from a state of a round is a step to one, and none faults.\<close>

lemma round_inv_thread:
  assumes "round_inv exec k n f as m S" and i: "i < length (ps_threads S)"
  shows "thread_step exec i S = Inl Would_block \<or> (\<exists>S'. thread_step exec i S = Inr S' \<and> round_inv exec k n f as m S')"
proof -
  have c: "k \<le> n" "0 < n" "n \<le> length as" "n \<le> length (ps_threads S)" using assms(1) by (auto simp: round_inv_def)
  let ?S' = "S\<lparr>ps_threads := (ps_threads S)[i := (ps_threads S ! i)\<lparr>th_pc := Wait_run\<rparr>]\<rparr>"
  consider (idle) "pool_idle k S"
      "ps_mem S = m \<and> ps_calls S = round_calls n f as \<or>
       ps_mem S = m \<and> ps_calls S = [Begin, Wait] \<and> tp_num_workers (ps_pool S) = int n \<and>
       tp_thread_func (ps_pool S) = Some f \<and> (\<forall>i < n. tp_args (ps_pool S) ! i = Some (as ! i))"
    | (run) posted ord cnt where "in_round exec n f as m posted ord cnt S"
    | (fin) "round_done exec n f as m S" using assms(1) by (auto simp: round_inv_def)
  then show ?thesis
  proof cases
    case idle
    then have "pool_idle k ?S' \<Longrightarrow> round_inv exec k n f as m ?S'" using c by (auto simp: round_inv_def)
    then show ?thesis using idle_thread_step [OF idle(1) i, of exec] by blast
  next
    case run
    show ?thesis
    proof (cases "thread_step exec i S")
      case (Inr S')
      then obtain ord' cnt' where "in_round exec n f as m posted ord' cnt' S'"
        using in_round_thread_step [OF run i] by auto
      moreover have "length (ps_threads S') = length (ps_threads S)" using thread_step_frame(1) [OF Inr] by auto
      ultimately show ?thesis using Inr c by (auto simp: round_inv_def)
    qed (use in_round_thread_step [OF run i] in auto)
  next
    case fin
    have "round_done exec n f as m ?S'" if "pool_idle n ?S'"
    proof -
      have "th_ret_val (ps_threads ?S' ! j) = th_ret_val (ps_threads S ! j)" for j
        by (cases "j = i") (simp_all add: i)
      then show ?thesis using fin that by (auto simp: round_done_def)
    qed
    then have "pool_idle n ?S' \<Longrightarrow> round_inv exec k n f as m ?S'" using c by (simp add: round_inv_def)
    then show ?thesis using idle_thread_step [of n S i exec] fin i by (auto simp: round_done_def)
  qed
qed

lemma round_inv_caller:
  assumes "round_inv exec k n f as m S"
  shows "caller_step S = Inl Would_block \<or> (\<exists>S'. caller_step S = Inr S' \<and> round_inv exec k n f as m S')"
proof -
  have c: "k \<le> n" "0 < n" "n \<le> length as" "n \<le> length (ps_threads S)" using assms by (auto simp: round_inv_def)
  have len: "n \<le> length (ps_threads S')" if "in_round exec n f as m p ord cnt S' \<or> round_done exec n f as m S'" for S' p ord cnt
    using that by (auto simp: in_round_def round_done_def)
  consider (set) "pool_idle k S" "ps_mem S = m" "ps_calls S = round_calls n f as"
    | (beg) "pool_idle k S" "ps_mem S = m" "ps_calls S = [Begin, Wait]" "tp_num_workers (ps_pool S) = int n"
       "tp_thread_func (ps_pool S) = Some f" "\<forall>i < n. tp_args (ps_pool S) ! i = Some (as ! i)"
    | (run) posted ord cnt where "in_round exec n f as m posted ord cnt S"
    | (fin) "round_done exec n f as m S" using assms by (auto simp: round_inv_def)
  then show ?thesis
  proof cases
    case set
    obtain S' where S': "caller_step S = Inr S'" and inv: "pool_idle k S'" "ps_mem S' = ps_mem S" "ps_calls S' = [Begin, Wait]"
      "tp_num_workers (ps_pool S') = int n" "tp_thread_func (ps_pool S') = Some f"
      "\<forall>i < n. tp_args (ps_pool S') ! i = Some (as ! i)" "ps_threads S' = ps_threads S"
      using set_step [OF set(1,3) c(3,4,1)] by blast
    have "round_inv exec k n f as m S'" using inv c set(2) by (simp add: round_inv_def)
    then show ?thesis using S' by blast
  next
    case beg
    obtain S' where S': "caller_step S = Inr S'" "in_round exec n f as m 0 [] {} S'" "ps_threads S' = ps_threads S"
      using begin_step [OF beg(1,3) c(1,2,4) beg(4-6), of exec] beg(2) by blast
    then have "round_inv exec k n f as m S'" using c by (auto simp: round_inv_def)
    then show ?thesis using S'(1) by blast
  next
    case run
    from in_roundD(16) [OF run] show ?thesis
    proof
      assume "ps_caller S = Posting posted"
      from post_step [OF run this] obtain S' posted' where S': "caller_step S = Inr S'" "in_round exec n f as m posted' ord cnt S'"
        by blast
      then have "round_inv exec k n f as m S'" using c len [of posted' ord cnt S'] by (auto simp: round_inv_def)
      then show ?thesis using S'(1) by blast
    next
      assume "ps_caller S = Idle \<and> posted = n"
      then have "round_inv exec k n f as m S'" if "round_done exec n f as m S'" for S'
        using c len [of posted ord cnt S'] that by (simp add: round_inv_def)
      then show ?thesis using wait_step [OF run] \<open>ps_caller S = Idle \<and> posted = n\<close> by blast
    qed
  next
    case fin
    then show ?thesis by (simp add: round_done_def pool_idle_def caller_step_def)
  qed
qed

lemma round_inv_step:
  assumes "pool_step exec S S'" and "round_inv exec k n f as m S"
  shows "round_inv exec k n f as m S'"
  using assms(1)
proof (cases rule: pool_step.cases)
  case caller
  then show ?thesis using round_inv_caller [OF assms(2)] by auto
next
  case (thread i)
  have "i < length (ps_threads S)" using thread_step_frame(1) [OF thread] by blast
  then show ?thesis using round_inv_thread [OF assms(2)] thread by force
qed

lemma round_inv_steps:
  assumes "(pool_step exec)\<^sup>*\<^sup>* S S'" and "round_inv exec k n f as m S"
  shows "round_inv exec k n f as m S'"
  using assms by (induction) (auto intro: round_inv_step)

lemma round_inv_over: "round_inv exec k n f as m S \<Longrightarrow> ps_calls S = [] \<Longrightarrow> round_done exec n f as m S"
  by (auto simp: round_inv_def round_calls_def in_round_def)

lemma round_inv_no_fault:
  assumes "round_inv exec k n f as m S"
  shows "caller_step S = Inl e \<Longrightarrow> e = Would_block"
    "i < length (ps_threads S) \<Longrightarrow> thread_step exec i S = Inl e \<Longrightarrow> e = Would_block"
  using round_inv_caller [OF assms] round_inv_thread [OF assms, of i] by auto

lemma busy_not_blocked:
  assumes "i < length (ps_threads S)" and "th_pc (ps_threads S ! i) \<in> {Compare False k, Post False}"
  shows "thread_step exec i S \<noteq> Inl Would_block"
  using assms by (auto simp: thread_step_def Let_def touch_def sem_post_def bindE_def CHECK_ERROR_def split: sum.splits option.splits if_splits)

text \<open>Nobody waits for ever: as long as the caller has not got its answer, somebody can go on.\<close>

lemma round_inv_progress:
  assumes I: "round_inv exec k n f as m S" and "ps_calls S \<noteq> []"
  shows "\<exists>S'. pool_step exec S S'"
proof (cases "caller_step S = Inl Would_block")
  case False
  then show ?thesis using round_inv_caller [OF I] pool_step.caller by blast
next
  case blocked: True
  have c: "0 < n" "k \<le> n" "n \<le> length as" "n \<le> length (ps_threads S)" using I by (auto simp: round_inv_def)
  have "\<not> (pool_idle k S \<and> ps_mem S = m \<and> ps_calls S = round_calls n f as)"
    using set_step [of k S n f as] c blocked by auto
  moreover have "\<not> (pool_idle k S \<and> ps_mem S = m \<and> ps_calls S = [Begin, Wait] \<and> tp_num_workers (ps_pool S) = int n \<and>
        tp_thread_func (ps_pool S) = Some f \<and> (\<forall>i < n. tp_args (ps_pool S) ! i = Some (as ! i)))"
    using begin_step [of k S n f as exec] c blocked by auto
  ultimately obtain posted ord cnt where R: "in_round exec n f as m posted ord cnt S"
    using I assms(2) by (auto simp: round_inv_def round_done_def)
  note D = in_roundD [OF R]
  have idle: "ps_caller S = Idle" "posted = n" using D(16) post_step [OF R] blocked by auto
  obtain s where s: "tp_sem_all_workers_done (ps_pool S) = Some s"
    "s + sum_list (map (token n) (ps_threads S)) = (if card cnt = n then 1 else 0)" using D(15) by blast
  have "s = 0" using blocked idle D(2,5,6) s(1) by (auto simp: caller_step_def tpool_wait_def sem_wait_def split: if_splits)
  have "\<exists>i < length (ps_threads S). thread_step exec i S \<noteq> Inl Would_block"
  proof (cases "card cnt = n")
    case True
    then have "sum_list (map (token n) (ps_threads S)) \<noteq> 0" using s(2) \<open>s = 0\<close> by simp
    then obtain t where "t \<in> set (ps_threads S)" "token n t \<noteq> 0" by auto
    then obtain i where "i < length (ps_threads S)" "th_pc (ps_threads S ! i) \<in> {Compare False (int n), Post False}"
      by (metis in_set_conv_nth token_def)
    then show ?thesis using busy_not_blocked by blast
  next
    case False
    have "cnt \<noteq> {..<n}" using False by auto
    moreover have "cnt \<subseteq> {..<n}" using D(4,10,11) by fastforce
    ultimately obtain i where i: "i < n" "i \<notin> cnt" by blast
    have il: "i < length (ps_threads S)" using i(1) D(3) by simp
    show ?thesis
    proof (cases "i \<in> set ord")
      case True
      then show ?thesis using ran_step [OF R il True i(2)] il by auto
    next
      case False
      then show ?thesis using woken_step [OF R il False] i(1) idle(2) il by auto
    qed
  qed
  then show ?thesis using round_inv_thread [OF I] pool_step.thread by blast
qed

text \<open>The pool at rest, at the start of a round.\<close>

lemma round_start:
  assumes "pool_idle k S" and "ps_calls S = round_calls n f as" and "k \<le> n" and "0 < n" and "n \<le> length as"
    and "n \<le> length (ps_threads S)"
  shows "round_inv exec k n f as (ps_mem S) S"
  using assms by (simp add: round_inv_def)

lemma round_result:
  assumes "pool_idle k S" and "ps_calls S = round_calls n f as" and "k \<le> n" and "0 < n" and "n \<le> length as"
    and "n \<le> length (ps_threads S)" and "(pool_step exec)\<^sup>*\<^sup>* S S'" and "ps_calls S' = []"
  shows "round_done exec n f as (ps_mem S) S'"
  using round_inv_over [OF round_inv_steps [OF assms(7) round_start [OF assms(1-6)]] assms(8)] .

lemma idle_fits: "pool_idle k S \<Longrightarrow> tp_num_workers (ps_pool S) \<le> int (length (ps_threads S)) \<Longrightarrow> pool_fits S"
  by (simp add: pool_idle_def pool_ok_def pool_fits_def Let_def)

section \<open>Creating a pool\<close>

text \<open>The state in which the caller has a new pool and the calls it is going to make.\<close>

definition new_state ::
  "('f, 'a) tpool_t \<times> ('f, 'a, 'r) tp_thread list \<Rightarrow> heap \<Rightarrow> 's \<Rightarrow> ('f, 'a) tp_call list \<Rightarrow> ('f, 'a, 'r, 's) tp_state" where
  "new_state c h m calls =
     \<lparr>ps_pool = fst c, ps_threads = snd c, ps_heap = h, ps_mem = m, ps_caller = Idle, ps_calls = calls,
      ps_ret = 0, ps_rets = []\<rparr>"

text \<open>The heap only grows: old objects stay, and what is taken lies above them.\<close>

definition heap_grows :: "heap \<Rightarrow> heap \<Rightarrow> bool" where
  "heap_grows h h' \<longleftrightarrow> heap_ok h' \<and> brk h \<le> brk h' \<and> mem_limit h' = mem_limit h \<and>
     (\<forall>p < brk h. objs h' p = objs h p) \<and> (\<forall>p. live h p \<longrightarrow> live h' p)"

lemma heap_grows_trans: "heap_grows h h1 \<Longrightarrow> heap_grows h1 h2 \<Longrightarrow> heap_grows h h2"
  by (auto simp: heap_grows_def)

lemma grows_malloc:
  assumes "heap_ok h" and "0 < n" and "brk h + n \<le> mem_limit h"
  shows "\<exists>h'. mem_malloc n h = Inr (brk h, h') \<and> heap_grows h h' \<and> brk h' = brk h + n \<and> live h' (brk h) \<and>
    objs h' (brk h) = Some n"
proof -
  obtain h' where h': "mem_malloc n h = Inr (brk h, h')" using mem_malloc_ok [OF assms(3,1)] by blast
  note M = heap_ok_malloc [OF assms(1) h' assms(2)]
  show ?thesis using h' M assms(2) by (auto simp: heap_grows_def cells_def)
qed

lemma create_threads_ok:
  assumes "heap_ok h" and "brk h + n \<le> mem_limit h" and "\<forall>j. i \<le> j \<and> j < i + n \<longrightarrow> create_ret j = 0"
    and "\<forall>t \<in> set ths. live h (th_ret t)"
  shows "\<exists>new h'. tpool_create_threads create_ret n i ths h = Inr (True, ths @ new, h') \<and> length new = n \<and>
    heap_grows h h' \<and> (\<forall>t \<in> set (ths @ new). live h' (th_ret t)) \<and>
    (\<forall>t \<in> set new. th_sem_run t = Some 0 \<and> th_pc t = Wait_run)"
  using assms
proof (induction n arbitrary: i ths h)
  case 0
  then show ?case by (auto simp: heap_grows_def)
next
  case (Suc n)
  obtain h1 where h1: "mem_malloc 1 h = Inr (brk h, h1)" "heap_grows h h1" "brk h1 = brk h + 1" "live h1 (brk h)"
    using grows_malloc [of h 1] Suc.prems(1,2) by auto
  let ?t = "\<lparr>th_sem_run = Some 0, th_ret = brk h, th_ret_val = None, th_pc = Wait_run\<rparr>"
  have "\<exists>new h'. tpool_create_threads create_ret n (Suc i) (ths @ [?t]) h1 = Inr (True, (ths @ [?t]) @ new, h') \<and> length new = n \<and>
    heap_grows h1 h' \<and> (\<forall>t \<in> set ((ths @ [?t]) @ new). live h' (th_ret t)) \<and>
    (\<forall>t \<in> set new. th_sem_run t = Some 0 \<and> th_pc t = Wait_run)"
    using Suc.prems h1 by (intro Suc.IH) (auto simp: heap_grows_def)
  then obtain new h' where new: "tpool_create_threads create_ret n (Suc i) (ths @ [?t]) h1 = Inr (True, (ths @ [?t]) @ new, h')"
    "length new = n" "heap_grows h1 h'" "\<forall>t \<in> set ((ths @ [?t]) @ new). live h' (th_ret t)"
    "\<forall>t \<in> set new. th_sem_run t = Some 0 \<and> th_pc t = Wait_run" by blast
  have "brk h \<noteq> 0" using heap_okD(1) [OF Suc.prems(1)] by simp
  then have "tpool_create_threads create_ret (Suc n) i ths h = Inr (True, ths @ ?t # new, h')"
    using h1(1) new(1) Suc.prems(3) by simp
  then show ?case
    using new h1(2) heap_grows_trans by (intro exI [of _ "?t # new"] exI [of _ h']) auto
qed

lemma create_threads_fail:
  assumes "heap_ok h" and "brk h + n \<le> mem_limit h" and "\<exists>j. i \<le> j \<and> j < i + n \<and> create_ret j \<noteq> 0"
  shows "\<exists>ths' h'. tpool_create_threads create_ret n i ths h = Inr (False, ths', h') \<and> heap_grows h h'"
  using assms
proof (induction n arbitrary: i ths h)
  case (Suc n)
  obtain h1 where h1: "mem_malloc 1 h = Inr (brk h, h1)" "heap_grows h h1" "brk h1 = brk h + 1"
    using grows_malloc [of h 1] Suc.prems(1,2) by auto
  have nz: "brk h \<noteq> 0" using heap_okD(1) [OF Suc.prems(1)] by simp
  show ?case
  proof (cases "create_ret i = 0")
    case False
    then show ?thesis using h1 nz by simp
  next
    case True
    have "\<exists>j. Suc i \<le> j \<and> j < Suc i + n \<and> create_ret j \<noteq> 0"
      using Suc.prems(3) True by (metis Suc_leI add_Suc_shift le_neq_implies_less)
    moreover have "heap_ok h1" "brk h1 + n \<le> mem_limit h1" using h1 Suc.prems(2) by (auto simp: heap_grows_def)
    ultimately obtain ths' h' where "tpool_create_threads create_ret n (Suc i)
        (ths @ [\<lparr>th_sem_run = Some 0, th_ret = brk h, th_ret_val = None, th_pc = Wait_run\<rparr>]) h1 = Inr (False, ths', h')"
      "heap_grows h1 h'" using Suc.IH [of h1 "Suc i"] by blast
    then show ?thesis using True h1(1,2) nz heap_grows_trans by auto
  qed
qed auto

definition create_room :: "nat \<Rightarrow> heap \<Rightarrow> bool" where
  "create_room n h \<longleftrightarrow> heap_ok h \<and> 0 < n \<and> brk h + TPOOL_SIZE + 3 * n + THREAD_ARG_SIZE * n \<le> mem_limit h"

lemma create_blocks:
  assumes "create_room n h"
  shows "\<exists>h1 h2 h3 h4. mem_calloc 1 TPOOL_SIZE h = Inr (brk h, h1) \<and> mem_malloc n h1 = Inr (brk h1, h2) \<and>
    mem_malloc n h2 = Inr (brk h2, h3) \<and> mem_malloc (THREAD_ARG_SIZE * n) h3 = Inr (brk h3, h4) \<and>
    heap_grows h h1 \<and> heap_grows h1 h2 \<and> heap_grows h2 h3 \<and> heap_grows h3 h4 \<and> brk h4 + n \<le> mem_limit h4 \<and>
    brk h < brk h1 \<and> brk h1 < brk h2 \<and> brk h2 < brk h3 \<and> brk h3 < brk h4 \<and>
    objs h1 (brk h) = Some TPOOL_SIZE \<and> objs h2 (brk h1) = Some n \<and> objs h3 (brk h2) = Some n \<and>
    objs h4 (brk h3) = Some (THREAD_ARG_SIZE * n) \<and>
    live h1 (brk h) \<and> live h2 (brk h1) \<and> live h4 (brk h3) \<and> 0 < brk h \<and> 0 < brk h1 \<and> 0 < brk h2 \<and> 0 < brk h3"
proof -
  have n: "0 < n" "0 < TPOOL_SIZE" "0 < THREAD_ARG_SIZE * n" using assms by (simp_all add: create_room_def TPOOL_SIZE_def THREAD_ARG_SIZE_def)
  have room: "brk h + TPOOL_SIZE + 3 * n + THREAD_ARG_SIZE * n \<le> mem_limit h" and ok: "heap_ok h"
    using assms by (simp_all add: create_room_def)
  obtain h1 where 1: "mem_malloc TPOOL_SIZE h = Inr (brk h, h1)" "heap_grows h h1" "brk h1 = brk h + TPOOL_SIZE" "live h1 (brk h)" "objs h1 (brk h) = Some TPOOL_SIZE"
    using grows_malloc [OF ok n(2)] room by auto
  obtain h2 where 2: "mem_malloc n h1 = Inr (brk h1, h2)" "heap_grows h1 h2" "brk h2 = brk h1 + n" "live h2 (brk h1)" "objs h2 (brk h1) = Some n"
    using grows_malloc [of h1 n] n(1) room 1(2,3) by (auto simp: heap_grows_def)
  obtain h3 where 3: "mem_malloc n h2 = Inr (brk h2, h3)" "heap_grows h2 h3" "brk h3 = brk h2 + n" "objs h3 (brk h2) = Some n"
    using grows_malloc [of h2 n] n(1) room 1(2,3) 2(2,3) by (auto simp: heap_grows_def)
  obtain h4 where 4: "mem_malloc (THREAD_ARG_SIZE * n) h3 = Inr (brk h3, h4)" "heap_grows h3 h4" "brk h4 = brk h3 + THREAD_ARG_SIZE * n"
    "live h4 (brk h3)" "objs h4 (brk h3) = Some (THREAD_ARG_SIZE * n)"
    using grows_malloc [of h3 "THREAD_ARG_SIZE * n"] n(3) room 1(2,3) 2(2,3) 3(2,3) by (auto simp: heap_grows_def)
  have "0 < brk h" by (rule heap_okD(1) [OF ok])
  moreover have "brk h4 + n \<le> mem_limit h4" using 1(2,3) 2(2,3) 3(2,3) 4(2,3) room by (simp add: heap_grows_def)
  ultimately show ?thesis
    using 1 2 3 4 n by (intro exI [of _ h1] exI [of _ h2] exI [of _ h3] exI [of _ h4]) (simp add: mem_calloc_def)
qed

text \<open>A new pool is at rest, and any number of workers it has threads for can start.\<close>

lemma tpool_create_idle:
  fixes f :: 'f and as :: "'a list"
  assumes "create_room n h" and "n < 2 ^ 31" and "\<forall>i < n. create_ret i = 0"
  shows "\<exists>(pool :: ('f, 'a) tpool_t) (ths :: ('f, 'a, 'r) tp_thread list) h'.
    tpool_create 0 create_ret (int n) h = Inr (Some (pool, ths), h') \<and> length ths = n \<and>
    pool_idle 0 (new_state (pool, ths) h' (m :: 's) calls) \<and> tp_num_workers pool = int n"
proof -
  obtain h1 h2 h3 h4 where B: "mem_calloc 1 TPOOL_SIZE h = Inr (brk h, h1)" "mem_malloc n h1 = Inr (brk h1, h2)"
    "mem_malloc n h2 = Inr (brk h2, h3)" "mem_malloc (THREAD_ARG_SIZE * n) h3 = Inr (brk h3, h4)"
    "heap_grows h1 h2" "heap_grows h2 h3" "heap_grows h3 h4" "brk h4 + n \<le> mem_limit h4"
    "live h1 (brk h)" "live h2 (brk h1)" "live h4 (brk h3)" "0 < brk h" "0 < brk h1" "0 < brk h2" "0 < brk h3"
    using create_blocks [OF assms(1)] by blast
  have "heap_ok h4" using B(7) by (simp add: heap_grows_def)
  with create_threads_ok [of h4 n 0 create_ret "[] :: ('f, 'a, 'r) tp_thread list"] B(8) assms(3)
  obtain ths :: "('f, 'a, 'r) tp_thread list" and h' where T: "tpool_create_threads create_ret n 0 [] h4 = Inr (True, ths, h')" "length ths = n"
    "heap_grows h4 h'" "\<forall>t \<in> set ths. live h' (th_ret t)" "\<forall>t \<in> set ths. th_sem_run t = Some 0 \<and> th_pc t = Wait_run"
    by auto
  have lv: "live h' (brk h)" "live h' (brk h1)" "live h' (brk h3)" using B(5-7,9-11) T(3) by (auto simp: heap_grows_def)
  show ?thesis
    using B(1-4,12-15) T lv assms(2)
    by (auto simp: tpool_create_def pool_idle_def pool_ok_def new_state_def asleep_def at_rest_def Let_def)
qed

text \<open>When a thread or the semaphore cannot be had, the block of the pool itself is not released.\<close>

lemma mem_free_objs: "mem_free p h = Inr h' \<Longrightarrow> q \<noteq> p \<Longrightarrow> objs h' q = objs h q"
  by (auto simp: mem_free_def split: if_splits option.splits)

lemma tpool_create_leaks:
  assumes "create_room n h" and "sem_init_ret \<noteq> 0 \<or> (\<exists>i < n. create_ret i \<noteq> 0)"
  shows "\<exists>h'. (tpool_create sem_init_ret create_ret (int n) h ::
      ((('f, 'a) tpool_t \<times> ('f, 'a, 'r) tp_thread list) option \<times> heap) res) = Inr (None, h') \<and>
    objs h (brk h) = None \<and> objs h' (brk h) = Some TPOOL_SIZE"
proof -
  obtain h1 h2 h3 h4 where B: "mem_calloc 1 TPOOL_SIZE h = Inr (brk h, h1)" "mem_malloc n h1 = Inr (brk h1, h2)"
    "mem_malloc n h2 = Inr (brk h2, h3)" "mem_malloc (THREAD_ARG_SIZE * n) h3 = Inr (brk h3, h4)"
    "heap_grows h1 h2" "heap_grows h2 h3" "heap_grows h3 h4" "brk h4 + n \<le> mem_limit h4"
    "0 < brk h" "0 < brk h1" "0 < brk h2" "0 < brk h3"
    "brk h < brk h1" "brk h1 < brk h2" "brk h2 < brk h3" "brk h3 < brk h4"
    "objs h1 (brk h) = Some TPOOL_SIZE" "objs h2 (brk h1) = Some n" "objs h3 (brk h2) = Some n"
    "objs h4 (brk h3) = Some (THREAD_ARG_SIZE * n)"
    using create_blocks [OF assms(1)] by blast
  have ok4: "heap_ok h4" using B(7) by (simp add: heap_grows_def)
  have old: "objs h (brk h) = None" using heap_ok_fresh [of h "brk h"] assms(1) by (simp add: create_room_def)
  obtain ths :: "('f, 'a, 'r) tp_thread list" and h5 where T: "(if sem_init_ret \<noteq> 0 then Inr (False, [], h4)
      else tpool_create_threads create_ret n 0 [] h4) = Inr (False, ths, h5)" "heap_grows h4 h5"
    using create_threads_fail [OF ok4 B(8), of 0 create_ret "[] :: ('f, 'a, 'r) tp_thread list"] assms(2) ok4
    by (cases "sem_init_ret = 0") (auto simp: heap_grows_def)
  have o5: "objs h5 (brk h) = Some TPOOL_SIZE" "objs h5 (brk h1) = Some n" "objs h5 (brk h2) = Some n"
    "objs h5 (brk h3) = Some (THREAD_ARG_SIZE * n)"
    using B(5-7,13-20) T(2) by (auto simp: heap_grows_def)
  have ok5: "heap_ok h5" using T(2) by (simp add: heap_grows_def)
  obtain h6 where 6: "mem_free (brk h3) h5 = Inr h6" "heap_ok h6" "objs h6 = (objs h5)(brk h3 := None)"
    using heap_ok_free [OF ok5 o5(4)] by blast
  obtain h7 where 7: "mem_free (brk h2) h6 = Inr h7" "heap_ok h7" "objs h7 = (objs h6)(brk h2 := None)"
    using heap_ok_free [OF 6(2), of "brk h2" n] 6(3) o5(3) B(15) by auto
  obtain h8 where 8: "mem_free (brk h1) h7 = Inr h8" "objs h8 = (objs h7)(brk h1 := None)"
    using heap_ok_free [OF 7(2), of "brk h1" n] 6(3) 7(3) o5(2) B(14,15) by auto
  have "objs h8 (brk h) = Some TPOOL_SIZE" using 6(3) 7(3) 8(2) o5(1) B(13-15) by auto
  then show ?thesis
    using B(1-4,9-12) T(1) 6(1) 7(1) 8(1) old by (auto simp: tpool_create_def)
qed

definition sample_small_heap :: heap where
  "sample_small_heap = \<lparr>objs = (\<lambda>_. None), live = (\<lambda>_. False), brk = 1, mem_limit = 100, li_next = (\<lambda>_. 0), li_prev = (\<lambda>_. 0)\<rparr>"

lemma sample_small_room: "create_room 2 sample_small_heap"
  by (simp add: create_room_def heap_ok_def sample_small_heap_def TPOOL_SIZE_def THREAD_ARG_SIZE_def)

section \<open>Where it goes wrong\<close>

text \<open>
  A pool of two threads, just created, whose thread function writes its argument to a log and
  returns it.
\<close>

definition log_exec :: "nat \<Rightarrow> nat \<Rightarrow> nat list \<Rightarrow> nat \<times> nat list" where
  "log_exec f a m = (a, m @ [a])"

definition two_threads :: "(nat, nat) tp_call list \<Rightarrow> (nat, nat, nat, nat list) tp_state" where
  "two_threads calls =
     new_state
       (\<lparr>tp_num_threads = 2, tp_num_workers = 2, tp_die = 0, tp_thread_func = None, tp_sem_all_workers_done = Some 0,
         tp_num_workers_done = 0, tp_args = [None, None], tp_self = 1, tp_args_arr = 13, tp_threads_arr = 15,
         tp_thread_args_arr = 17\<rparr>,
        [\<lparr>th_sem_run = Some 0, th_ret = 39, th_ret_val = None, th_pc = Wait_run\<rparr>,
         \<lparr>th_sem_run = Some 0, th_ret = 40, th_ret_val = None, th_pc = Wait_run\<rparr>])
       \<lparr>objs = [1 \<mapsto> 12, 13 \<mapsto> 2, 15 \<mapsto> 2, 17 \<mapsto> 22, 39 \<mapsto> 1, 40 \<mapsto> 1], live = (\<lambda>p. 1 \<le> p \<and> p < 41), brk = 41,
        mem_limit = 100, li_next = (\<lambda>_. 0), li_prev = (\<lambda>_. 0)\<rparr> [] calls"

lemma two_threads_idle [simp]: "pool_idle 0 (two_threads calls)"
  by (simp add: two_threads_def new_state_def pool_idle_def pool_ok_def asleep_def at_rest_def Let_def)

lemma two_threads_sel [simp]: "length (ps_threads (two_threads calls)) = 2" "ps_calls (two_threads calls) = calls"
  "ps_mem (two_threads calls) = []" "tp_num_workers (ps_pool (two_threads calls)) = 2"
  by (simp_all add: two_threads_def new_state_def)

lemma two_threads_fits: "pool_fits (two_threads calls)"
  by (simp add: two_threads_def new_state_def pool_fits_def)

lemma bindE_weak_cong: "m = m' \<Longrightarrow> bindE m f = bindE m' f"
  by simp

lemmas pool_run_eval = pool_run_def two_threads_def new_state_def round_calls_def caller_step_def thread_step_def
  tpool_set_def tpool_begin_def tpool_begin_post_def tpool_wait_def tpool_destroy_def tpool_destroy_kill_def
  tpool_destroy_join_def sem_wait_def sem_post_def SEM_VALUE_MAX_def touch_def fetch_and_inc_def arr_get_def arr_set_def
  log_exec_def upt_rec mem_free_def

text \<open>
  A round with two workers and then one with one worker. Thread 0 has counted itself as the first
  that is done, but not yet compared, when the second round begins: now its count is that of the
  last worker, and it posts the end of the second round, in which nothing has run.
\<close>

definition shrink_sched :: "nat option list" where
  "shrink_sched =
     [None, None, None, None, None, Some 0, Some 0, Some 0, Some 0, Some 0, Some 0,
      Some 1, Some 1, Some 1, Some 1, Some 1, Some 1, Some 1, Some 1,
      None, None, None, None, None, Some 0, Some 0, None]"

lemma shrink_run:
  "\<exists>S. pool_run log_exec shrink_sched (two_threads (round_calls 2 0 [10, 20] @ round_calls 1 0 [30])) = Inr S \<and>
     ps_caller S = Idle \<and> ps_calls S = [] \<and> ps_ret S = 0 \<and> ps_mem S = [10, 20] \<and>
     th_ret_val (ps_threads S ! 0) = Some 10"
  by (simp add: pool_run_eval shrink_sched_def Let_def cong: bindE_weak_cong)

text \<open>The first of the two rounds alone.\<close>

definition round_sched :: "nat option list" where
  "round_sched =
     [None, None, None, None, None, Some 0, Some 0, Some 0, Some 0, Some 0, Some 0,
      Some 1, Some 1, Some 1, Some 1, Some 1, Some 1, Some 1, Some 1, None]"

lemma round_run:
  "\<exists>S. pool_run log_exec round_sched (two_threads (round_calls 2 0 [10, 20])) = Inr S \<and> ps_calls S = []"
  by (simp add: pool_run_eval round_sched_def Let_def cong: bindE_weak_cong)

text \<open>
  \<open>tpool_destroy\<close>. Thread 0 has counted itself as gone, but not yet compared, when the last one posts
  and the caller releases the pool: what thread 0 is about to read is no longer there.
\<close>

definition destroy_sched :: "nat option list" where
  "destroy_sched =
     [None, None, None, None, Some 0, Some 0, Some 0, Some 0,
      Some 1, Some 1, Some 1, Some 1, Some 1, Some 1, None]"

lemma destroy_run:
  "\<exists>S. pool_run log_exec destroy_sched (two_threads [Destroy]) = Inr S \<and>
     ps_caller S = Idle \<and> ps_calls S = [] \<and> ps_ret S = 0 \<and> thread_step log_exec 0 S = Inl Bad_access"
  by (simp add: pool_run_eval destroy_sched_def Let_def cong: bindE_weak_cong)

end
