(* ===== verification/Mcs.thy ===== *)
theory Mcs
  imports Prelude
begin

text \<open>
  \<open>src/mcs.c\<close>, the queue lock that the build can select instead of \<open>pt_mutex.c\<close>, with the atomic
  operations of \<open>src/atomic.h\<close> it uses. Every thread has a node; the nodes of the threads that hold
  the lock or wait for it form a queue, of which only the last node and the links are in memory.
  Each step below is one access to shared memory; the steps of the threads interleave freely.
\<close>

type_synonym node = nat

section \<open>Atomic operations\<close>

text \<open>What each returns, and the cell after it.\<close>

definition atomic_xchg :: "node \<Rightarrow> node \<Rightarrow> node \<times> node" where
  "atomic_xchg n v = (v, n)"

definition cmp_and_swp :: "node \<Rightarrow> node \<Rightarrow> node \<Rightarrow> int \<times> node" where
  "cmp_and_swp v cmper matcher = (if cmper = matcher then (1, v) else (0, cmper))"

section \<open>The lock\<close>

record mcs_lock_priv =
  mp_next :: node
  mp_locked :: nat

text \<open>
  Where a thread is: outside, in \<open>mcs_acquire\<close> (before each access), inside, or in \<open>mcs_release\<close>.
\<close>

datatype mcs_pc = Outside | Acq_next | Acq_xchg | Acq_locked node | Acq_link node | Acq_spin
  | Inside | Rel_test | Rel_cas | Rel_spin | Rel_pass

text \<open>
  The last node of the queue (\<open>head\<close> in the code; 0 is NULL), the nodes, and where the threads are.
  A thread is named by its node.
\<close>

record mcs_state =
  mcs_head :: node
  mcs_priv :: "node \<Rightarrow> mcs_lock_priv"
  mcs_pc :: "node \<Rightarrow> mcs_pc"

definition mcs_alloc :: node where "mcs_alloc = 0"

definition mcs_alloc_per_thread :: mcs_lock_priv where
  "mcs_alloc_per_thread = \<lparr>mp_next = 0, mp_locked = 0\<rparr>"

definition mcs_init :: mcs_state where
  "mcs_init = \<lparr>mcs_head = mcs_alloc, mcs_priv = (\<lambda>_. mcs_alloc_per_thread), mcs_pc = (\<lambda>_. Outside)\<rparr>"

definition goto :: "node \<Rightarrow> mcs_pc \<Rightarrow> mcs_state \<Rightarrow> mcs_state" where
  "goto p pc S = S\<lparr>mcs_pc := (mcs_pc S)(p := pc)\<rparr>"

definition set_next :: "node \<Rightarrow> node \<Rightarrow> mcs_state \<Rightarrow> mcs_state" where
  "set_next p n S = S\<lparr>mcs_priv := (mcs_priv S)(p := (mcs_priv S p)\<lparr>mp_next := n\<rparr>)\<rparr>"

definition set_locked :: "node \<Rightarrow> nat \<Rightarrow> mcs_state \<Rightarrow> mcs_state" where
  "set_locked p v S = S\<lparr>mcs_priv := (mcs_priv S)(p := (mcs_priv S p)\<lparr>mp_locked := v\<rparr>)\<rparr>"

definition mcs_acquire :: "node \<Rightarrow> mcs_state \<Rightarrow> mcs_state res" where
  "mcs_acquire p S =
     (case mcs_pc S p of
        Outside \<Rightarrow> bindE (assertE (mp_locked (mcs_priv S p) = 0)) (\<lambda>_. Inr (goto p Acq_next S))
      | Acq_next \<Rightarrow> Inr (goto p Acq_xchg (set_next p 0 S))
      | Acq_xchg \<Rightarrow>
          (let (prev, head) = atomic_xchg p (mcs_head S) in
           Inr (goto p (if prev = 0 then Inside else Acq_locked prev) (S\<lparr>mcs_head := head\<rparr>)))
      | Acq_locked prev \<Rightarrow> Inr (goto p (Acq_link prev) (set_locked p 1 S))
      | Acq_link prev \<Rightarrow> Inr (goto p Acq_spin (set_next prev p S))
      | _ \<Rightarrow> if mp_locked (mcs_priv S p) \<noteq> 0 then Inl Would_block else Inr (goto p Inside S))"

definition mcs_release :: "node \<Rightarrow> mcs_state \<Rightarrow> mcs_state res" where
  "mcs_release p S =
     (case mcs_pc S p of
        Inside \<Rightarrow> Inr (goto p Rel_test S)
      | Rel_test \<Rightarrow> Inr (goto p (if mp_next (mcs_priv S p) = 0 then Rel_cas else Rel_pass) S)
      | Rel_cas \<Rightarrow>
          (let (swapped, head) = cmp_and_swp 0 (mcs_head S) p in
           Inr (goto p (if swapped \<noteq> 0 then Outside else Rel_spin) (S\<lparr>mcs_head := head\<rparr>)))
      | Rel_spin \<Rightarrow> if mp_next (mcs_priv S p) = 0 then Inl Would_block else Inr (goto p Rel_pass S)
      | _ \<Rightarrow>
          (let next = mp_next (mcs_priv S p) in
           if next = 0 then Inl Null_deref else Inr (goto p Outside (set_locked next 0 S))))"

text \<open>
  The next step of a thread. Outside it may begin to acquire, inside it may begin to release: what
  it does in between is the client's.
\<close>

definition mcs_step :: "node \<Rightarrow> mcs_state \<Rightarrow> mcs_state res" where
  "mcs_step p S =
     (if mcs_pc S p \<in> {Inside, Rel_test, Rel_cas, Rel_spin, Rel_pass} then mcs_release p S else mcs_acquire p S)"

inductive mcs_reach :: "mcs_state \<Rightarrow> bool" where
  init: "mcs_reach mcs_init"
| step: "mcs_reach S \<Longrightarrow> p \<noteq> 0 \<Longrightarrow> mcs_step p S = Inr S' \<Longrightarrow> mcs_reach S'"

section \<open>The queue behind it\<close>

text \<open>
  \<open>mcs_inv S q\<close>: the queue is \<open>q\<close>. Its first node is the one that owns the lock (or is about to see
  that it does), every other one is being linked to the node before it, or waits.
\<close>

definition link :: "mcs_state \<Rightarrow> node \<Rightarrow> node \<Rightarrow> bool" where
  "link S a b \<longleftrightarrow>
     (mcs_pc S b = Acq_locked a \<and> mp_locked (mcs_priv S b) = 0 \<and> mp_next (mcs_priv S a) = 0) \<or>
     (mcs_pc S b = Acq_link a \<and> mp_locked (mcs_priv S b) \<noteq> 0 \<and> mp_next (mcs_priv S a) = 0) \<or>
     (mcs_pc S b = Acq_spin \<and> mp_locked (mcs_priv S b) \<noteq> 0 \<and> mp_next (mcs_priv S a) = b)"

fun chain :: "mcs_state \<Rightarrow> node \<Rightarrow> node list \<Rightarrow> bool" where
  "chain S a [] = (mp_next (mcs_priv S a) = 0)"
| "chain S a (b # bs) = (link S a b \<and> chain S b bs)"

definition owner :: "mcs_state \<Rightarrow> node \<Rightarrow> node list \<Rightarrow> bool" where
  "owner S h t \<longleftrightarrow>
     mp_locked (mcs_priv S h) = 0 \<and>
     mcs_pc S h \<in> {Acq_spin, Inside, Rel_test, Rel_cas, Rel_spin, Rel_pass} \<and>
     (mcs_pc S h = Rel_spin \<longrightarrow> t \<noteq> []) \<and> (mcs_pc S h = Rel_pass \<longrightarrow> mp_next (mcs_priv S h) \<noteq> 0)"

definition outside :: "mcs_state \<Rightarrow> node \<Rightarrow> bool" where
  "outside S p \<longleftrightarrow> mcs_pc S p \<in> {Outside, Acq_next, Acq_xchg} \<and> mp_locked (mcs_priv S p) = 0 \<and>
     (mcs_pc S p = Acq_xchg \<longrightarrow> mp_next (mcs_priv S p) = 0)"

definition mcs_inv :: "mcs_state \<Rightarrow> node list \<Rightarrow> bool" where
  "mcs_inv S q \<longleftrightarrow>
     distinct q \<and> 0 \<notin> set q \<and> mcs_head S = (if q = [] then 0 else last q) \<and>
     (\<forall>p. p \<notin> set q \<longrightarrow> outside S p) \<and> (q \<noteq> [] \<longrightarrow> owner S (hd q) (tl q) \<and> chain S (hd q) (tl q))"

lemmas mcs_upd = goto_def set_next_def set_locked_def

lemma mcs_link_cong:
  assumes "mcs_pc S' b = mcs_pc S b" and "mp_locked (mcs_priv S' b) = mp_locked (mcs_priv S b)"
    and "mp_next (mcs_priv S' a) = mp_next (mcs_priv S a)"
  shows "link S' a b = link S a b"
  using assms by (simp add: link_def)

lemma mcs_chain_cong:
  assumes "\<And>b. b \<in> set bs \<Longrightarrow> mcs_pc S' b = mcs_pc S b \<and> mp_locked (mcs_priv S' b) = mp_locked (mcs_priv S b)"
    and "\<And>b. b \<in> insert a (set bs) \<Longrightarrow> mp_next (mcs_priv S' b) = mp_next (mcs_priv S b)"
  shows "chain S' a bs = chain S a bs"
  using assms
proof (induction bs arbitrary: a)
  case (Cons b bs)
  then have "link S' a b = link S a b" by (intro mcs_link_cong) auto
  then show ?case using Cons by simp
qed simp


text \<open>The link of a node that is not the first.\<close>

lemma chain_pred:
  assumes "chain S a bs" and "b \<in> set bs"
  shows "\<exists>c \<in> insert a (set bs). link S c b"
  using assms by (induction bs arbitrary: a) auto

text \<open>Linking: what the node \<open>b\<close> and its predecessor \<open>c\<close> do changes only their own link.\<close>

lemma chain_relink:
  assumes "chain S a bs" and "distinct (a # bs)" and "b \<in> set bs" and "mcs_pc S b \<in> {Acq_locked c, Acq_link c}"
    and "link S' c b"
    and "\<forall>d. d \<noteq> b \<longrightarrow> mcs_pc S' d = mcs_pc S d \<and> mp_locked (mcs_priv S' d) = mp_locked (mcs_priv S d)"
    and "\<forall>d. d \<noteq> c \<longrightarrow> mp_next (mcs_priv S' d) = mp_next (mcs_priv S d)"
  shows "chain S' a bs \<and> c \<in> insert a (set bs)"
  using assms(1-3)
proof (induction bs arbitrary: a)
  case (Cons x xs)
  show ?case
  proof (cases "x = b")
    case True
    then have c: "c = a" using Cons.prems(1) assms(4) by (auto simp: link_def)
    have "chain S' b xs = chain S b xs"
      by (rule mcs_chain_cong) (use Cons.prems(2) True c assms(6,7) in auto)
    then show ?thesis using True c Cons.prems(1) assms(5) by simp
  next
    case False
    then have b: "b \<in> set xs" using Cons.prems(3) by simp
    have IH: "chain S' x xs" "c \<in> insert x (set xs)" using Cons.IH [of x] Cons.prems b by auto
    have "c \<noteq> a" using IH(2) Cons.prems(2) by auto
    then have "link S' a x = link S a x" using False assms(6,7) by (intro mcs_link_cong) auto
    then show ?thesis using IH Cons.prems(1) by simp
  qed
qed simp

lemma chain_last: "chain S a bs \<Longrightarrow> mp_next (mcs_priv S (last (a # bs))) = 0"
  by (induction bs arbitrary: a) auto

lemma chain_append:
  assumes "chain S a bs" and "distinct (a # bs)" and "c \<notin> insert a (set bs)"
    and "mcs_pc S' c = Acq_locked (last (a # bs))" and "mp_locked (mcs_priv S' c) = 0" and "mp_next (mcs_priv S' c) = 0"
    and "\<And>d. d \<noteq> c \<Longrightarrow> mcs_pc S' d = mcs_pc S d" and "\<And>d. d \<noteq> c \<Longrightarrow> mcs_priv S' d = mcs_priv S d"
  shows "chain S' a (bs @ [c])"
  using assms
proof (induction bs arbitrary: a)
  case Nil
  then show ?case by (simp add: link_def)
next
  case (Cons b bs)
  have "link S' a b = link S a b" using Cons.prems by (intro mcs_link_cong) auto
  then show ?case using Cons by simp
qed

section \<open>Every step keeps the queue\<close>

lemma mcs_inv_init: "mcs_inv mcs_init []"
  by (simp add: mcs_inv_def mcs_init_def outside_def mcs_alloc_def mcs_alloc_per_thread_def)

text \<open>A thread that is not in the queue.\<close>

lemma outside_step:
  assumes I: "mcs_inv S q" and p: "p \<noteq> 0" "p \<notin> set q"
  shows "\<exists>S' q'. mcs_step p S = Inr S' \<and> mcs_inv S' q'"
proof -
  have out: "outside S p" using I p(2) by (simp add: mcs_inv_def)
  have quiet: "mcs_inv S' q" if "\<And>d. d \<noteq> p \<Longrightarrow> mcs_pc S' d = mcs_pc S d" "\<And>d. d \<noteq> p \<Longrightarrow> mcs_priv S' d = mcs_priv S d"
    "outside S' p" "mcs_head S' = mcs_head S" for S'
  proof -
    have same: "mcs_pc S' d = mcs_pc S d" "mcs_priv S' d = mcs_priv S d" if "d \<in> set q" for d
    proof -
      have "d \<noteq> p" using that p(2) by blast
      then show "mcs_pc S' d = mcs_pc S d" "mcs_priv S' d = mcs_priv S d"
        using \<open>\<And>d. d \<noteq> p \<Longrightarrow> mcs_pc S' d = mcs_pc S d\<close> \<open>\<And>d. d \<noteq> p \<Longrightarrow> mcs_priv S' d = mcs_priv S d\<close> by simp_all
    qed
    have "outside S' d" if "d \<notin> set q" for d
      using that \<open>outside S' p\<close> I \<open>\<And>d. d \<noteq> p \<Longrightarrow> mcs_pc S' d = mcs_pc S d\<close> \<open>\<And>d. d \<noteq> p \<Longrightarrow> mcs_priv S' d = mcs_priv S d\<close>
      by (cases "d = p") (auto simp: mcs_inv_def outside_def)
    moreover have "owner S' (hd q) (tl q) \<and> chain S' (hd q) (tl q)" if q: "q \<noteq> []"
    proof -
      have "chain S' (hd q) (tl q) = chain S (hd q) (tl q)"
        using q same list.set_sel(2) [OF q] by (intro mcs_chain_cong) auto
      then show ?thesis using I q same by (simp add: mcs_inv_def owner_def)
    qed
    ultimately show ?thesis using I \<open>mcs_head S' = mcs_head S\<close> by (simp add: mcs_inv_def)
  qed
  consider "mcs_pc S p = Outside" | "mcs_pc S p = Acq_next" | "mcs_pc S p = Acq_xchg" using out by (auto simp: outside_def)
  then show ?thesis
  proof cases
    case 1
    have "mcs_step p S = Inr (goto p Acq_next S)" using 1 out by (simp add: mcs_step_def mcs_acquire_def outside_def)
    moreover have "mcs_inv (goto p Acq_next S) q" by (rule quiet) (use out in \<open>auto simp: goto_def outside_def\<close>)
    ultimately show ?thesis by blast
  next
    case 2
    have "mcs_step p S = Inr (goto p Acq_xchg (set_next p 0 S))" using 2 by (simp add: mcs_step_def mcs_acquire_def)
    moreover have "mcs_inv (goto p Acq_xchg (set_next p 0 S)) q"
      by (rule quiet) (use out in \<open>auto simp: mcs_upd outside_def\<close>)
    ultimately show ?thesis by blast
  next
    case 3
    let ?S' = "goto p (if mcs_head S = 0 then Inside else Acq_locked (mcs_head S)) (S\<lparr>mcs_head := p\<rparr>)"
    have step: "mcs_step p S = Inr ?S'" using 3 by (simp add: mcs_step_def mcs_acquire_def atomic_xchg_def)
    have other: "mcs_pc ?S' d = mcs_pc S d" "mcs_priv ?S' e = mcs_priv S e" if "d \<noteq> p" for d e
      using that by (simp_all add: goto_def)
    have "mcs_inv ?S' (q @ [p])"
    proof (cases q)
      case Nil
      then have "mcs_head S = 0" using I by (simp add: mcs_inv_def)
      then show ?thesis using Nil I p out 3 by (auto simp: mcs_inv_def owner_def outside_def goto_def)
    next
      case (Cons h t)
      then have hd: "mcs_head S = last (h # t)" using I by (simp add: mcs_inv_def)
      moreover have "last (h # t) \<in> set q" using Cons last_in_set [of q] by simp
      ultimately have nz: "mcs_head S \<noteq> 0" using I by (metis mcs_inv_def)
      have "chain ?S' h (t @ [p])"
        by (rule chain_append [of S]) (use I Cons p out 3 hd nz in \<open>auto simp: mcs_inv_def outside_def goto_def\<close>)
      then show ?thesis using I Cons p by (auto simp: mcs_inv_def owner_def outside_def goto_def)
    qed
    then show ?thesis using step by blast
  qed
qed

text \<open>A thread that waits.\<close>

lemma waiting_thread_step:
  assumes I: "mcs_inv S (h # t)" and p: "p \<in> set t"
  shows "mcs_step p S = Inl Would_block \<or> (\<exists>S'. mcs_step p S = Inr S' \<and> mcs_inv S' (h # t))"
proof -
  have ch: "chain S h t" and d: "distinct (h # t)" and ow: "owner S h t" using I by (auto simp: mcs_inv_def)
  obtain c where c: "c \<in> insert h (set t)" "link S c p" using chain_pred [OF ch p] by blast
  have ph: "p \<noteq> h" using d p by auto
  have relink: "mcs_inv S' (h # t)"
    if "mcs_pc S p \<in> {Acq_locked c, Acq_link c}" "link S' c p" "owner S' h t" "mcs_head S' = mcs_head S"
      "\<forall>d. d \<noteq> p \<longrightarrow> mcs_pc S' d = mcs_pc S d \<and> mp_locked (mcs_priv S' d) = mp_locked (mcs_priv S d)"
      "\<forall>d. d \<noteq> c \<longrightarrow> mp_next (mcs_priv S' d) = mp_next (mcs_priv S d)" for S'
  proof -
    have "chain S' h t" using chain_relink [OF ch d p that(1,2,5,6)] by simp
    moreover have "outside S' e" if e: "e \<notin> set (h # t)" for e
    proof -
      have "e \<noteq> p" "e \<noteq> c" using e p c(1) by auto
      then show ?thesis using I e \<open>\<forall>d. d \<noteq> p \<longrightarrow> _ d\<close> \<open>\<forall>d. d \<noteq> c \<longrightarrow> _ d\<close> by (simp add: mcs_inv_def outside_def)
    qed
    ultimately show ?thesis using I that(3,4) by (simp add: mcs_inv_def)
  qed
  consider "mcs_pc S p = Acq_locked c" | "mcs_pc S p = Acq_link c" | "mcs_pc S p = Acq_spin" "mp_locked (mcs_priv S p) \<noteq> 0"
    using c(2) by (auto simp: link_def)
  then show ?thesis
  proof cases
    case 1
    let ?S' = "goto p (Acq_link c) (set_locked p 1 S)"
    have "mcs_step p S = Inr ?S'" using 1 by (simp add: mcs_step_def mcs_acquire_def)
    moreover have "mcs_inv ?S' (h # t)"
      by (rule relink) (use 1 c(2) ow ph in \<open>auto simp: link_def mcs_upd owner_def\<close>)
    ultimately show ?thesis by blast
  next
    case 2
    let ?S' = "goto p Acq_spin (set_next c p S)"
    have "p \<noteq> 0" using I p by (metis list.set_intros(2) mcs_inv_def)
    moreover have "mcs_step p S = Inr ?S'" using 2 by (simp add: mcs_step_def mcs_acquire_def)
    moreover have "mcs_inv ?S' (h # t)"
      by (rule relink) (use 2 c(2) ow ph \<open>p \<noteq> 0\<close> in \<open>auto simp: link_def mcs_upd owner_def\<close>)
    ultimately show ?thesis by blast
  next
    case 3
    then show ?thesis by (simp add: mcs_step_def mcs_acquire_def)
  qed
qed

text \<open>The owner.\<close>

lemma owner_step:
  assumes I: "mcs_inv S (h # t)"
  shows "mcs_step h S = Inl Would_block \<and> mcs_pc S h = Rel_spin \<or> (\<exists>S' q'. mcs_step h S = Inr S' \<and> mcs_inv S' q')"
proof -
  have ch: "chain S h t" and d: "distinct (h # t)" and ow: "owner S h t" and nz: "0 \<notin> set (h # t)"
    using I by (auto simp: mcs_inv_def)
  have move: "mcs_inv (goto h pc S) (h # t)" if "owner (goto h pc S) h t" for pc
  proof -
    have "chain (goto h pc S) h t = chain S h t" using d by (intro mcs_chain_cong) (auto simp: goto_def)
    then show ?thesis using I that by (auto simp: mcs_inv_def outside_def goto_def)
  qed
  consider "mcs_pc S h = Acq_spin" | "mcs_pc S h = Inside" | "mcs_pc S h = Rel_test" | "mcs_pc S h = Rel_cas"
    | "mcs_pc S h = Rel_spin" | "mcs_pc S h = Rel_pass" using ow by (auto simp: owner_def)
  then show ?thesis
  proof cases
    case 1
    then have "mcs_step h S = Inr (goto h Inside S)" using ow by (simp add: mcs_step_def mcs_acquire_def owner_def)
    moreover have "mcs_inv (goto h Inside S) (h # t)" by (rule move) (use ow in \<open>simp add: owner_def goto_def\<close>)
    ultimately show ?thesis by blast
  next
    case 2
    then have "mcs_step h S = Inr (goto h Rel_test S)" by (simp add: mcs_step_def mcs_release_def)
    moreover have "mcs_inv (goto h Rel_test S) (h # t)" by (rule move) (use ow in \<open>simp add: owner_def goto_def\<close>)
    ultimately show ?thesis by blast
  next
    case 3
    let ?pc = "if mp_next (mcs_priv S h) = 0 then Rel_cas else Rel_pass"
    have "mcs_step h S = Inr (goto h ?pc S)" using 3 by (simp add: mcs_step_def mcs_release_def)
    moreover have "mcs_inv (goto h ?pc S) (h # t)" by (rule move) (use ow in \<open>simp add: owner_def goto_def\<close>)
    ultimately show ?thesis by blast
  next
    case 4
    have head: "mcs_head S = last (h # t)" using I by (simp add: mcs_inv_def)
    show ?thesis
    proof (cases t)
      case Nil
      then have "mcs_step h S = Inr (goto h Outside (S\<lparr>mcs_head := 0\<rparr>))"
        using 4 head by (simp add: mcs_step_def mcs_release_def cmp_and_swp_def)
      moreover have "mcs_inv (goto h Outside (S\<lparr>mcs_head := 0\<rparr>)) []"
        using I Nil ow by (auto simp: mcs_inv_def outside_def goto_def owner_def)
      ultimately show ?thesis by blast
    next
      case (Cons b bs)
      then have "mcs_head S \<noteq> h" using head d last_in_set [of t] by auto
      then have "mcs_step h S = Inr (goto h Rel_spin S)"
        using 4 by (simp add: mcs_step_def mcs_release_def cmp_and_swp_def)
      moreover have "mcs_inv (goto h Rel_spin S) (h # t)" by (rule move) (use ow Cons in \<open>simp add: owner_def goto_def\<close>)
      ultimately show ?thesis by blast
    qed
  next
    case 5
    show ?thesis
    proof (cases "mp_next (mcs_priv S h) = 0")
      case True
      then show ?thesis using 5 by (simp add: mcs_step_def mcs_release_def)
    next
      case False
      then have "mcs_step h S = Inr (goto h Rel_pass S)" using 5 by (simp add: mcs_step_def mcs_release_def)
      moreover have "mcs_inv (goto h Rel_pass S) (h # t)" by (rule move) (use ow False in \<open>simp add: owner_def goto_def\<close>)
      ultimately show ?thesis by blast
    qed
  next
    case 6
    then have next': "mp_next (mcs_priv S h) \<noteq> 0" using ow by (simp add: owner_def)
    then obtain b bs where t: "t = b # bs" using ch by (cases t) auto
    then have b: "mp_next (mcs_priv S h) = b" "mcs_pc S b = Acq_spin" using ch next' by (auto simp: link_def)
    let ?S' = "goto h Outside (set_locked b 0 S)"
    have "mcs_step h S = Inr ?S'" using 6 b(1) next' by (simp add: mcs_step_def mcs_release_def)
    moreover have "mcs_inv ?S' (b # bs)"
    proof -
      have "chain ?S' b bs = chain S b bs" using d t by (intro mcs_chain_cong) (auto simp: mcs_upd)
      moreover have "outside ?S' e" if "e \<notin> set (b # bs)" for e
        using that I t ow d by (cases "e = h") (auto simp: mcs_inv_def outside_def mcs_upd owner_def)
      moreover have "owner ?S' b bs" using b(2) d t by (auto simp: owner_def mcs_upd)
      moreover have "mcs_head ?S' = mcs_head S" by (simp add: mcs_upd)
      ultimately show ?thesis using I ch t by (auto simp: mcs_inv_def)
    qed
    ultimately show ?thesis by blast
  qed
qed

text \<open>
  No step faults: in particular the assertion of \<open>mcs_acquire\<close> holds, and \<open>mcs_release\<close> never follows
  a null link.
\<close>

lemma mcs_step_inv:
  assumes I: "mcs_inv S q" and p: "p \<noteq> 0"
  shows "mcs_step p S = Inl Would_block \<or> (\<exists>S' q'. mcs_step p S = Inr S' \<and> mcs_inv S' q')"
proof (cases "p \<in> set q")
  case False
  then show ?thesis using outside_step [OF I p] by blast
next
  case True
  then obtain h t where q: "q = h # t" by (cases q) auto
  show ?thesis
  proof (cases "p = h")
    case True
    then show ?thesis using owner_step [of S h t] I q by blast
  next
    case False
    then show ?thesis using waiting_thread_step [of S h t p] I q True by auto
  qed
qed

lemma mcs_reach_inv: "mcs_reach S \<Longrightarrow> \<exists>q. mcs_inv S q"
proof (induction rule: mcs_reach.induct)
  case init
  then show ?case using mcs_inv_init by blast
next
  case (step S p S')
  then show ?case using mcs_step_inv [of S _ p] by fastforce
qed

section \<open>What the lock promises\<close>

lemma chain_not_inside: "chain S a bs \<Longrightarrow> b \<in> set bs \<Longrightarrow> mcs_pc S b \<notin> {Inside, Rel_test, Rel_cas, Rel_spin, Rel_pass}"
  using chain_pred [of S a bs b] by (auto simp: link_def)

lemma mcs_inv_exclusive:
  assumes "mcs_inv S q" and "mcs_pc S p = Inside" and "mcs_pc S p' = Inside"
  shows "p = p'"
proof -
  have eq: "x = hd q" if "mcs_pc S x = Inside" for x
  proof -
    have "x \<in> set q" using assms(1) that by (force simp: mcs_inv_def outside_def)
    then obtain h t where q: "q = h # t" by (cases q) auto
    then have "x \<notin> set t" using assms(1) chain_not_inside [of S h t x] that by (auto simp: mcs_inv_def)
    then show ?thesis using \<open>x \<in> set q\<close> q by auto
  qed
  show ?thesis using eq [OF assms(2)] eq [OF assms(3)] by simp
qed

lemma mcs_inv_no_fault: "mcs_inv S q \<Longrightarrow> p \<noteq> 0 \<Longrightarrow> mcs_step p S = Inl e \<Longrightarrow> e = Would_block"
  using mcs_step_inv [of S q p] by auto

text \<open>A thread that holds the lock or waits for it.\<close>

definition in_queue :: "mcs_state \<Rightarrow> node \<Rightarrow> bool" where
  "in_queue S p \<longleftrightarrow> mcs_pc S p \<notin> {Outside, Acq_next, Acq_xchg}"

lemma in_queue_iff:
  assumes "mcs_inv S q"
  shows "in_queue S p \<longleftrightarrow> p \<in> set q"
proof
  show "in_queue S p \<Longrightarrow> p \<in> set q" using assms by (auto simp: mcs_inv_def outside_def in_queue_def)
  assume "p \<in> set q"
  then obtain h t where q: "q = h # t" by (cases q) auto
  show "in_queue S p"
  proof (cases "p = h")
    case True
    then show ?thesis using assms(1) q by (auto simp: mcs_inv_def owner_def in_queue_def)
  next
    case False
    then have "p \<in> set t" "chain S h t" using assms q \<open>p \<in> set q\<close> by (auto simp: mcs_inv_def)
    then show ?thesis using chain_pred [of S h t p] by (auto simp: link_def in_queue_def)
  qed
qed

text \<open>While somebody is in the queue, somebody in the queue can go on.\<close>

lemma queue_head_progress:
  assumes I: "mcs_inv S (h # t)"
  shows "\<exists>p \<in> set (h # t). mcs_step p S \<noteq> Inl Would_block"
proof (cases "mcs_step h S = Inl Would_block")
  case False
  then show ?thesis by auto
next
  case True
  then have pc: "mcs_pc S h = Rel_spin" using owner_step [OF I] by auto
  then have n: "mp_next (mcs_priv S h) = 0" using True by (auto simp: mcs_step_def mcs_release_def split: if_splits)
  have "t \<noteq> []" "chain S h t" using I pc by (auto simp: mcs_inv_def owner_def)
  then obtain b bs where t: "t = b # bs" "link S h b" by (cases t) auto
  have "b \<noteq> 0" using I t by (simp add: mcs_inv_def)
  then have "mcs_pc S b = Acq_locked h \<or> mcs_pc S b = Acq_link h" using t(2) n by (auto simp: link_def)
  then have "mcs_step b S \<noteq> Inl Would_block" by (auto simp: mcs_step_def mcs_acquire_def)
  then show ?thesis using t(1) by auto
qed

lemma mcs_inv_progress:
  assumes I: "mcs_inv S q" and "in_queue S p"
  shows "\<exists>p' S'. in_queue S p' \<and> mcs_step p' S = Inr S'"
proof -
  have "p \<in> set q" using in_queue_iff [OF I] assms(2) by simp
  then obtain h t where q: "q = h # t" by (cases q) auto
  then obtain p' where p': "p' \<in> set q" "mcs_step p' S \<noteq> Inl Would_block" using queue_head_progress [of S h t] I by blast
  have "p' \<noteq> 0" using I p'(1) by (metis mcs_inv_def)
  then obtain S' where "mcs_step p' S = Inr S'" using mcs_step_inv [OF I, of p'] p'(2) by blast
  then show ?thesis using in_queue_iff [OF I] p'(1) by blast
qed

text \<open>Node 1 takes the free lock.\<close>

definition mcs_taken :: mcs_state where
  "mcs_taken = goto 1 Inside (mcs_init\<lparr>mcs_head := 1, mcs_pc := (\<lambda>_. Outside)(1 := Acq_xchg)\<rparr>)"

lemma mcs_taken_reach: "mcs_reach mcs_taken"
proof -
  let ?S1 = "goto 1 Acq_next mcs_init"
  let ?S2 = "goto 1 Acq_xchg (set_next 1 0 ?S1)"
  have "mcs_step 1 mcs_init = Inr ?S1" "mcs_step 1 ?S1 = Inr ?S2"
    by (simp_all add: mcs_step_def mcs_acquire_def mcs_init_def mcs_alloc_per_thread_def goto_def)
  then have 2: "mcs_reach ?S2" by (metis mcs_reach.init mcs_reach.step one_neq_zero)
  have "mcs_step 1 ?S2 = Inr (goto 1 Inside (?S2\<lparr>mcs_head := 1\<rparr>))"
    by (simp add: mcs_step_def mcs_acquire_def mcs_init_def mcs_alloc_def atomic_xchg_def mcs_upd)
  then have "mcs_reach (goto 1 Inside (?S2\<lparr>mcs_head := 1\<rparr>))" by (rule mcs_reach.step [OF 2 one_neq_zero])
  moreover have "goto 1 Inside (?S2\<lparr>mcs_head := 1\<rparr>) = mcs_taken"
    by (simp add: mcs_taken_def mcs_upd mcs_init_def mcs_alloc_per_thread_def fun_upd_idem)
  ultimately show ?thesis by simp
qed

end
