(* ===== verification/PPHashTable.thy ===== *)
theory PPHashTable
  imports Prelude
begin

text \<open>
  The class \<open>hash_table\<close> of \<open>src/sop1_parallelism/phoenix++/include/container.h\<close>: open addressing with
  linear probing, in which the threads of Phoenix++ collect what they emit. The vectors \<open>table\<close> and
  \<open>occupied\<close> are one list of slots, None where \<open>occupied\<close> is false: the code reads an entry only
  where it is true. \<open>K()\<close> and the comparison of keys are those of HOL; the hash function \<open>kh\<close> is a
  parameter. Sizes, hashes and indices are 64 bits wide.
\<close>

section \<open>Bits and positions\<close>

unbundle bit_operations_syntax

record ('k, 'c) hash_table =
  ht_slots :: "('k \<times> 'c) option list"
  ht_size :: "64 word"
  ht_load :: "64 word"

definition ht_home :: "('k \<Rightarrow> 64 word) \<Rightarrow> 64 word \<Rightarrow> 'k \<Rightarrow> 64 word" where
  "ht_home kh sz key = kh key AND (sz - 1)"

definition ht_step :: "64 word \<Rightarrow> 64 word \<Rightarrow> 64 word" where
  "ht_step sz index = (index + 1) AND (sz - 1)"

text \<open>
  The probing loop: from \<open>index\<close> on, the first slot that is free or holds a key at which to \<open>stop\<close>.
  After as many rounds as there are slots it has seen them all and would go on for ever.
\<close>

fun ht_probe :: "nat \<Rightarrow> ('k \<Rightarrow> bool) \<Rightarrow> ('k \<times> 'c) option list \<Rightarrow> 64 word \<Rightarrow> 64 word \<Rightarrow> 64 word res" where
  "ht_probe 0 stop slots sz index = Inl No_fuel"
| "ht_probe (Suc fuel) stop slots sz index =
     bindE (arr_get slots (uint index)) (\<lambda>s.
     case s of
       None \<Rightarrow> Inr index
     | Some (key, _) \<Rightarrow> if stop key then Inr index else ht_probe fuel stop slots sz (ht_step sz index))"

section \<open>Operations\<close>

text \<open>\<open>rehash\<close>: the entries in the order of the old table, each into the first free slot from its home.\<close>

definition ht_reinsert ::
  "('k \<Rightarrow> 64 word) \<Rightarrow> 64 word \<Rightarrow> ('k \<times> 'c) option list \<Rightarrow> ('k \<times> 'c) option list \<Rightarrow> nat \<Rightarrow> ('k \<times> 'c) option list res" where
  "ht_reinsert kh newsize slots newslots i =
     bindE (arr_get slots (int i)) (\<lambda>s.
     case s of
       None \<Rightarrow> Inr newslots
     | Some (key, c) \<Rightarrow>
         bindE (ht_probe (length newslots) (\<lambda>_. False) newslots newsize (ht_home kh newsize key)) (\<lambda>index.
         arr_set newslots (uint index) (Some (key, c))))"

definition ht_rehash :: "('k \<Rightarrow> 64 word) \<Rightarrow> 64 word \<Rightarrow> ('k, 'c) hash_table \<Rightarrow> ('k, 'c) hash_table res" where
  "ht_rehash kh newsize t =
     bindE (foldE (ht_reinsert kh newsize (ht_slots t)) (replicate (unat newsize) None) [0..<unat (ht_size t)]) (\<lambda>newslots.
     Inr (t\<lparr>ht_slots := newslots, ht_size := newsize\<rparr>))"

definition ht_new :: "('k \<Rightarrow> 64 word) \<Rightarrow> ('k, 'c) hash_table res" where
  "ht_new kh = ht_rehash kh 256 \<lparr>ht_slots = [], ht_size = 0, ht_load = 0\<rparr>"

text \<open>
  \<open>operator[]\<close>: the slot to whose value it returns a reference, and the table, with a slot for the key
  now, whose value is \<open>V()\<close> (\<open>new\<close>) if there was none.
\<close>

definition ht_find :: "('k \<Rightarrow> 64 word) \<Rightarrow> 'k \<Rightarrow> ('k, 'c) hash_table \<Rightarrow> 64 word res" where
  "ht_find kh key t =
     ht_probe (length (ht_slots t)) (\<lambda>k. k = key) (ht_slots t) (ht_size t) (ht_home kh (ht_size t) key)"

definition ht_at :: "('k \<Rightarrow> 64 word) \<Rightarrow> 'c \<Rightarrow> 'k \<Rightarrow> ('k, 'c) hash_table \<Rightarrow> (64 word \<times> ('k, 'c) hash_table) res" where
  "ht_at kh new key t =
     bindE (ht_find kh key t) (\<lambda>index.
     bindE (arr_get (ht_slots t) (uint index)) (\<lambda>s.
     if s \<noteq> None then Inr (index, t)
     else
       (let t = t\<lparr>ht_load := ht_load t + 1\<rparr> in
        bindE (if ht_load t \<ge> drop_bit 1 (ht_size t) then
                 bindE (ht_rehash kh (push_bit 1 (ht_size t)) t) (\<lambda>t.
                 bindE (ht_find kh key t) (\<lambda>index. Inr (index, t)))
               else Inr (index, t)) (\<lambda>(index, t).
        bindE (arr_set (ht_slots t) (uint index) (Some (key, new))) (\<lambda>slots.
        Inr (index, t\<lparr>ht_slots := slots\<rparr>))))))"

text \<open>An update through the reference: \<open>i[k].add (v)\<close> with \<open>f\<close> for \<open>add\<close>.\<close>

definition ht_update :: "('k \<Rightarrow> 64 word) \<Rightarrow> 'c \<Rightarrow> 'k \<Rightarrow> ('c \<Rightarrow> 'c) \<Rightarrow> ('k, 'c) hash_table \<Rightarrow> ('k, 'c) hash_table res" where
  "ht_update kh new key f t =
     bindE (ht_at kh new key t) (\<lambda>(index, t).
     bindE (arr_get (ht_slots t) (uint index)) (\<lambda>s.
     case s of
       None \<Rightarrow> Inl Bad_access
     | Some (k, c) \<Rightarrow>
         bindE (arr_set (ht_slots t) (uint index) (Some (k, f c))) (\<lambda>slots.
         Inr (t\<lparr>ht_slots := slots\<rparr>))))"

section \<open>Iteration\<close>

text \<open>
  \<open>const_iterator\<close>: the constructor and \<open>operator++\<close> skip the free slots. The constructor takes its
  index as an \<open>int\<close>.
\<close>

function it_skip :: "('k, 'c) hash_table \<Rightarrow> 64 word \<Rightarrow> 64 word res" where
  "it_skip t index =
     (if index < ht_size t then
        bindE (arr_get (ht_slots t) (uint index)) (\<lambda>s.
        if s = None then it_skip t (index + 1) else Inr index)
      else Inr index)"
  by pat_completeness auto
termination
proof (relation "measure (\<lambda>(t, i). unat (ht_size t) - unat i)")
  fix t :: "('k, 'c) hash_table" and i :: "64 word"
  assume i: "i < ht_size t"
  have "unat (ht_size t) < 2 ^ LENGTH(64)" by (rule unsigned_less)
  with i have "unat i + 1 < 2 ^ 64" by (simp add: word_less_nat_alt)
  then have "unat (i + 1) = unat i + 1" by (simp add: unat_word_ariths)
  then show "((t, i + 1), t, i) \<in> measure (\<lambda>(t, i). unat (ht_size t) - unat i)"
    using i by (simp add: word_less_nat_alt)
qed simp

definition it_make :: "('k, 'c) hash_table \<Rightarrow> 64 word \<Rightarrow> 64 word res" where
  "it_make t index = it_skip t (word_of_int (to_int32 (uint index)))"

definition ht_begin :: "('k, 'c) hash_table \<Rightarrow> 64 word res" where
  "ht_begin t = it_make t 0"

definition ht_end :: "('k, 'c) hash_table \<Rightarrow> 64 word res" where
  "ht_end t = it_make t (ht_size t)"

definition it_incr :: "('k, 'c) hash_table \<Rightarrow> 64 word \<Rightarrow> 64 word res" where
  "it_incr t index = (if index < ht_size t then it_skip t (index + 1) else Inr index)"

definition it_deref :: "('k, 'c) hash_table \<Rightarrow> 64 word \<Rightarrow> ('k \<times> 'c) res" where
  "it_deref t index =
     bindE (arr_get (ht_slots t) (uint index)) (\<lambda>s. case s of None \<Rightarrow> Inl Bad_access | Some e \<Rightarrow> Inr e)"

text \<open>\<open>for (i = j.begin (); i != j.end (); ++i) body\<close>, with a bound on its rounds.\<close>

fun ht_for :: "nat \<Rightarrow> ('k, 'c) hash_table \<Rightarrow> ('s \<Rightarrow> 'k \<times> 'c \<Rightarrow> 's res) \<Rightarrow> 's \<Rightarrow> 64 word \<Rightarrow> 's res" where
  "ht_for 0 t body s index = Inl No_fuel"
| "ht_for (Suc fuel) t body s index =
     bindE (ht_end t) (\<lambda>e.
     if index \<noteq> e then
       bindE (it_deref t index) (\<lambda>x.
       bindE (body s x) (\<lambda>s.
       bindE (it_incr t index) (\<lambda>index.
       ht_for fuel t body s index)))
     else Inr s)"

definition ht_iterate :: "('k, 'c) hash_table \<Rightarrow> ('s \<Rightarrow> 'k \<times> 'c \<Rightarrow> 's res) \<Rightarrow> 's \<Rightarrow> 's res" where
  "ht_iterate t body s = bindE (ht_begin t) (ht_for (Suc (unat (ht_size t))) t body s)"

section \<open>Positions as numbers\<close>

lemma and_mask:
  assumes "m < 64"
  shows "unat ((x :: 64 word) AND (2 ^ m - 1)) = unat x mod 2 ^ m"
  by (metis mask_eq_exp_minus_1 take_bit_eq_mask take_bit_eq_mod unsigned_take_bit_eq and.commute)

lemma ht_home_nat: "m < 64 \<Longrightarrow> sz = 2 ^ m \<Longrightarrow> unat (ht_home kh sz key) = unat (kh key) mod 2 ^ m"
  by (simp add: ht_home_def and_mask)

lemma unat_pow2:
  assumes "m < 64"
  shows "unat (2 ^ m :: 64 word) = 2 ^ m"
proof -
  have "(2 :: nat) ^ m < 2 ^ 64" using assms by (intro power_strict_increasing) auto
  then show ?thesis using unat_of_nat [of "2 ^ m", where ?'a = 64] by simp
qed

lemma ht_step_nat:
  assumes "m < 64" and "sz = 2 ^ m" and "unat index < 2 ^ m"
  shows "unat (ht_step sz index) = (unat index + 1) mod 2 ^ m"
proof -
  have "unat (index + 1) mod 2 ^ m = (unat index + 1) mod 2 ^ m"
  proof (cases "unat index + 1 < 2 ^ 64")
    case True
    then show ?thesis by (simp add: unat_word_ariths)
  next
    case False
    have "unat index + 1 \<le> 2 ^ m" using assms(3) by simp
    moreover have "(2 :: nat) ^ m < 2 ^ 64" using assms(1) by (intro power_strict_increasing) auto
    ultimately show ?thesis using False by linarith
  qed
  then show ?thesis using assms(1,2) by (simp add: ht_step_def and_mask)
qed

section \<open>Probing\<close>

text \<open>
  What the slots hold, and the invariant: no key twice, and every key can be reached from its home
  over slots that are taken.
\<close>

definition slot_entries :: "('k \<times> 'c) option \<Rightarrow> ('k \<times> 'c) list" where
  "slot_entries s = (case s of None \<Rightarrow> [] | Some e \<Rightarrow> [e])"

definition ht_list :: "('k \<times> 'c) option list \<Rightarrow> ('k \<times> 'c) list" where
  "ht_list slots = concat (map slot_entries slots)"

definition reaches :: "('k \<Rightarrow> 64 word) \<Rightarrow> ('k \<times> 'c) option list \<Rightarrow> 'k \<Rightarrow> nat \<Rightarrow> bool" where
  "reaches kh slots key d \<longleftrightarrow> (\<forall>e < d. slots ! ((unat (kh key) + e) mod length slots) \<noteq> None)"

definition slots_ok :: "('k \<Rightarrow> 64 word) \<Rightarrow> ('k \<times> 'c) option list \<Rightarrow> bool" where
  "slots_ok kh slots \<longleftrightarrow>
     distinct (map fst (ht_list slots)) \<and>
     (\<forall>j < length slots. \<forall>key c. slots ! j = Some (key, c) \<longrightarrow>
        (\<exists>d. j = (unat (kh key) + d) mod length slots \<and> reaches kh slots key d))"

lemma ht_list_simps [simp]: "ht_list [] = []" "ht_list (s # slots) = slot_entries s @ ht_list slots"
  by (simp_all add: ht_list_def)

lemma slot_entries_simps [simp]: "slot_entries None = []" "slot_entries (Some e) = [e]"
  by (simp_all add: slot_entries_def)

lemma ht_list_append [simp]: "ht_list (xs @ ys) = ht_list xs @ ht_list ys"
  by (simp add: ht_list_def)

lemma ht_list_replicate [simp]: "ht_list (replicate n None) = []"
  by (induction n) simp_all

lemma in_ht_list: "e \<in> set (ht_list slots) \<longleftrightarrow> Some e \<in> set slots"
  by (cases e, induction slots) (auto simp: slot_entries_def split: option.splits)

lemma length_ht_list: "length (ht_list slots) \<le> length slots"
  by (induction slots) (auto simp: slot_entries_def split: option.splits)

lemma ht_list_full: "length (ht_list slots) < length slots \<Longrightarrow> \<exists>j < length slots. slots ! j = None"
proof (induction slots)
  case (Cons s slots)
  show ?case
  proof (cases s)
    case None
    then show ?thesis by (intro exI [of _ 0]) simp
  next
    case (Some e)
    then have "\<exists>j < length slots. slots ! j = None" using Cons by simp
    then show ?thesis by auto
  qed
qed simp

lemma mset_ht_list_update:
  "i < length slots \<Longrightarrow> mset (ht_list (slots[i := s])) + mset (slot_entries (slots ! i)) = mset (ht_list slots) + mset (slot_entries s)"
  using concat_update_mset [of i "map slot_entries slots" "slot_entries s"] by (simp add: ht_list_def map_update)

lemma arr_get_word: "unat i < length xs \<Longrightarrow> arr_get xs (uint (i :: 64 word)) = Inr (xs ! unat i)"
  using arr_get_nth [of "unat i" xs] by simp

lemma arr_set_word: "unat i < length xs \<Longrightarrow> arr_set xs (uint (i :: 64 word)) x = Inr (xs[unat i := x])"
  using arr_set_nth [of "unat i" xs x] by simp

lemma probe_from:
  assumes m: "m < 63" "sz = 2 ^ m" "length slots = 2 ^ m"
    and d: "\<And>e. e < d \<Longrightarrow> \<exists>k c. slots ! ((h + e) mod 2 ^ m) = Some (k, c) \<and> \<not> stop k"
    and at: "case slots ! ((h + d) mod 2 ^ m) of None \<Rightarrow> True | Some (k, c) \<Rightarrow> stop k"
    and "e0 \<le> d" and "unat index = (h + e0) mod 2 ^ m" and "d - e0 < fuel"
  shows "\<exists>i. ht_probe fuel stop slots sz index = Inr i \<and> unat i = (h + d) mod 2 ^ m"
  using assms(6-8)
proof (induction fuel arbitrary: e0 index)
  case (Suc fuel)
  have less: "unat index < length slots" using Suc.prems(2) m(3) by simp
  then have get: "arr_get slots (uint index) = Inr (slots ! ((h + e0) mod 2 ^ m))"
    using Suc.prems(2) by (simp add: arr_get_def uint_nat flip: of_nat_less_iff)
  show ?case
  proof (cases "e0 = d")
    case True
    then show ?thesis using get at Suc.prems(2) by (auto split: option.splits)
  next
    case False
    then have e0: "e0 < d" using Suc.prems(1) by simp
    obtain k c where kc: "slots ! ((h + e0) mod 2 ^ m) = Some (k, c)" "\<not> stop k" using d [OF e0] by blast
    have "unat (ht_step sz index) = (h + Suc e0) mod 2 ^ m"
      using ht_step_nat [of m sz index] m less Suc.prems(2) by (simp add: mod_Suc_eq)
    then have "\<exists>i. ht_probe fuel stop slots sz (ht_step sz index) = Inr i \<and> unat i = (h + d) mod 2 ^ m"
      using Suc.IH [of "Suc e0"] e0 Suc.prems(3) by simp
    then show ?thesis using get kc by simp
  qed
qed simp

text \<open>With a free slot the loop ends, at the first slot where it may.\<close>

lemma probe_finds:
  assumes m: "m < 63" "sz = 2 ^ m" "length slots = 2 ^ m" and free: "\<exists>j < length slots. slots ! j = None"
  shows "\<exists>i d. ht_probe (length slots) stop slots sz (ht_home kh sz key) = Inr i \<and>
    unat i = (unat (kh key) + d) mod length slots \<and>
    (\<forall>e < d. \<exists>k c. slots ! ((unat (kh key) + e) mod length slots) = Some (k, c) \<and> \<not> stop k) \<and>
    (case slots ! unat i of None \<Rightarrow> True | Some (k, c) \<Rightarrow> stop k)"
proof -
  let ?h = "unat (kh key)" and ?n = "length slots"
  let ?P = "\<lambda>d. case slots ! ((?h + d) mod ?n) of None \<Rightarrow> True | Some (k, c) \<Rightarrow> stop k"
  obtain j where j: "j < ?n" "slots ! j = None" using free by blast
  obtain d0 where d0: "d0 < ?n" "(?h + d0) mod ?n = j" using ex_offset [OF j(1)] by blast
  have P0: "?P d0" using d0(2) j(2) by simp
  define d where "d = (LEAST d. ?P d)"
  have d: "?P d" "d \<le> d0" unfolding d_def using LeastI [of ?P, OF P0] Least_le [of ?P, OF P0] by auto
  have before: "\<exists>k c. slots ! ((?h + e) mod ?n) = Some (k, c) \<and> \<not> stop k" if "e < d" for e
    using not_less_Least [of e ?P] that unfolding d_def by (cases "slots ! ((?h + e) mod ?n)") auto
  have "\<exists>i. ht_probe ?n stop slots sz (ht_home kh sz key) = Inr i \<and> unat i = (?h + d) mod 2 ^ m"
    by (rule probe_from [OF m, where ?e0.0 = 0]) (use before d d0(1) m in \<open>auto simp: ht_home_nat\<close>)
  then obtain i where i: "ht_probe ?n stop slots sz (ht_home kh sz key) = Inr i" "unat i = (?h + d) mod ?n" using m(3) by auto
  show ?thesis using i d(1) before by (intro exI [of _ i] exI [of _ d]) simp
qed

section \<open>The invariant of a table\<close>

text \<open>
  The size is a power of two, at least 256; less than half of the slots are taken, and after
  growing at least a quarter.
\<close>

definition ht_ok :: "('k \<Rightarrow> 64 word) \<Rightarrow> ('k, 'c) hash_table \<Rightarrow> bool" where
  "ht_ok kh t \<longleftrightarrow>
     (\<exists>m. 8 \<le> m \<and> m < 62 \<and> ht_size t = 2 ^ m \<and> length (ht_slots t) = 2 ^ m \<and> slots_ok kh (ht_slots t) \<and>
       unat (ht_load t) = length (ht_list (ht_slots t)) \<and> 2 * length (ht_list (ht_slots t)) < 2 ^ m \<and>
       (m = 8 \<or> 2 ^ m \<le> 4 * length (ht_list (ht_slots t))))"

definition ht_map :: "('k, 'c) hash_table \<Rightarrow> 'k \<rightharpoonup> 'c" where
  "ht_map t = map_of (ht_list (ht_slots t))"

definition ht_count :: "('k, 'c) hash_table \<Rightarrow> nat" where
  "ht_count t = length (ht_list (ht_slots t))"

lemma taken_update: "slots ! p \<noteq> None \<Longrightarrow> slots[i := Some e] ! p \<noteq> None"
  by (cases "i = p"; cases "i < length slots") (auto simp: not_less list_update_beyond)

lemma reaches_update: "reaches kh slots k d \<Longrightarrow> reaches kh (slots[i := Some e]) k d"
  unfolding reaches_def length_list_update by (intro allI impI taken_update) simp

lemma slots_ok_put:
  assumes ok: "slots_ok kh slots" and i: "i < length slots" "i = (unat (kh key) + d) mod length slots" and r: "reaches kh slots key d"
    and dist: "distinct (map fst (ht_list (slots[i := Some (key, c)])))"
  shows "slots_ok kh (slots[i := Some (key, c)])"
  unfolding slots_ok_def
proof (intro conjI allI impI)
  fix j k c' assume j: "j < length (slots[i := Some (key, c)])" "slots[i := Some (key, c)] ! j = Some (k, c')"
  show "\<exists>d. j = (unat (kh k) + d) mod length (slots[i := Some (key, c)]) \<and> reaches kh (slots[i := Some (key, c)]) k d"
  proof (cases "j = i")
    case True
    then have "k = key" using j i(1) by simp
    then show ?thesis using True i(2) r reaches_update by (intro exI [of _ d]) simp
  next
    case False
    then have "slots ! j = Some (k, c')" "j < length slots" using j by simp_all
    then obtain d' where "j = (unat (kh k) + d') mod length slots" "reaches kh slots k d'" using ok by (auto simp: slots_ok_def)
    then show ?thesis using reaches_update by (intro exI [of _ d']) simp
  qed
qed (rule dist)

lemma mset_put_free: "i < length slots \<Longrightarrow> slots ! i = None \<Longrightarrow> mset (ht_list (slots[i := Some e])) = add_mset e (mset (ht_list slots))"
  using mset_ht_list_update [of i slots "Some e"] by simp

lemma distinct_put_free:
  assumes "i < length slots" and "slots ! i = None" and "distinct (map fst (ht_list slots))" and "key \<notin> fst ` set (ht_list slots)"
  shows "distinct (map fst (ht_list (slots[i := Some (key, c)])))"
proof -
  have "mset (map fst (ht_list (slots[i := Some (key, c)]))) = mset (key # map fst (ht_list slots))"
    using mset_put_free [OF assms(1,2)] by simp
  then show ?thesis using assms(3,4) mset_eq_imp_distinct_iff by fastforce
qed

lemma distinct_put_same:
  assumes "i < length slots" and "slots ! i = Some (key, c0)" and "distinct (map fst (ht_list slots))"
  shows "distinct (map fst (ht_list (slots[i := Some (key, c)])))"
proof -
  have "mset (ht_list (slots[i := Some (key, c)])) + {#(key, c0)#} = mset (ht_list slots) + {#(key, c)#}"
    using mset_ht_list_update [of i slots "Some (key, c)"] assms(1,2) by simp
  then have "image_mset fst (mset (ht_list (slots[i := Some (key, c)])) + {#(key, c0)#}) = image_mset fst (mset (ht_list slots) + {#(key, c)#})"
    by (rule arg_cong)
  then have "mset (map fst (ht_list (slots[i := Some (key, c)]))) = mset (map fst (ht_list slots))" by simp
  then show ?thesis using assms(3) mset_eq_imp_distinct_iff by blast
qed

lemma map_of_mset:
  assumes "mset xs = mset ys" and "distinct (map fst ys)"
  shows "map_of xs = map_of ys"
proof -
  have "distinct (map fst xs)"
    using assms mset_eq_imp_distinct_iff [of "map fst xs" "map fst ys"] by (metis mset_map)
  moreover have "set xs = set ys" using assms(1) by (rule mset_eq_setD)
  ultimately show ?thesis using assms(2) map_of_inject_set by blast
qed

text \<open>One entry of \<open>rehash\<close>, and all of them.\<close>

lemma ht_reinsert_ok:
  assumes m: "m < 63" "newsize = 2 ^ m" "length news = 2 ^ m" and ok: "slots_ok kh news"
    and i: "i < length slots" and room: "length (ht_list news) < 2 ^ m"
    and new: "\<forall>key c. slots ! i = Some (key, c) \<longrightarrow> key \<notin> fst ` set (ht_list news)"
  shows "\<exists>news'. ht_reinsert kh newsize slots news i = Inr news' \<and> length news' = 2 ^ m \<and> slots_ok kh news' \<and>
    mset (ht_list news') = mset (ht_list news) + mset (slot_entries (slots ! i))"
proof (cases "slots ! i")
  case None
  then show ?thesis using assms by (simp add: ht_reinsert_def)
next
  case (Some e)
  obtain key c where e: "slots ! i = Some (key, c)" using Some by (cases e) auto
  have "\<exists>j < length news. news ! j = None" using ht_list_full [of news] room m(3) by simp
  from probe_finds [OF m this, of "\<lambda>_. False" kh key] obtain index d where
    p: "ht_probe (length news) (\<lambda>_. False) news newsize (ht_home kh newsize key) = Inr index"
      "unat index = (unat (kh key) + d) mod length news"
      "\<forall>e < d. \<exists>k c. news ! ((unat (kh key) + e) mod length news) = Some (k, c)"
      "case news ! unat index of None \<Rightarrow> True | Some (k, c) \<Rightarrow> False" by auto
  have free: "news ! unat index = None" using p(4) by (simp split: option.splits)
  have less: "unat index < length news" using p(2) m(3) by simp
  let ?news = "news[unat index := Some (key, c)]"
  have "arr_set news (uint index) (Some (key, c)) = Inr ?news" using less by (rule arr_set_word)
  then have "ht_reinsert kh newsize slots news i = Inr ?news" using i e p(1) by (simp add: ht_reinsert_def)
  moreover have "distinct (map fst (ht_list ?news))"
    using distinct_put_free [OF less free] ok new e by (simp add: slots_ok_def)
  then have "slots_ok kh ?news"
    using p(3) by (intro slots_ok_put [OF ok less p(2)]) (auto simp: reaches_def)
  ultimately show ?thesis using mset_put_free [OF less free] m(3) e by simp
qed

lemma ht_rehash_ok:
  assumes m: "m < 63" "newsize = 2 ^ m" and len: "length (ht_slots t) = unat (ht_size t)"
    and dist: "distinct (map fst (ht_list (ht_slots t)))" and room: "length (ht_list (ht_slots t)) < 2 ^ m"
  shows "\<exists>t'. ht_rehash kh newsize t = Inr t' \<and> slots_ok kh (ht_slots t') \<and> length (ht_slots t') = 2 ^ m \<and>
    ht_size t' = newsize \<and> ht_load t' = ht_load t \<and> mset (ht_list (ht_slots t')) = mset (ht_list (ht_slots t))"
proof -
  let ?slots = "ht_slots t"
  let ?P = "\<lambda>i news. slots_ok kh news \<and> length news = 2 ^ m \<and> mset (ht_list news) = mset (ht_list (take i ?slots))"
  have "\<exists>news. foldE (ht_reinsert kh newsize ?slots) (replicate (unat newsize) None) [0..<unat (ht_size t)] = Inr news \<and> ?P (unat (ht_size t)) news"
  proof (rule foldE_upt)
    show "?P 0 (replicate (unat newsize) None)" using m unat_pow2 by (simp add: slots_ok_def)
  next
    fix i news assume i: "i < unat (ht_size t)" and P: "?P i news"
    have il: "i < length ?slots" using i len by simp
    have split: "?slots = take i ?slots @ ?slots ! i # drop (Suc i) ?slots" using il by (simp add: id_take_nth_drop)
    have list: "ht_list ?slots = ht_list (take i ?slots) @ slot_entries (?slots ! i) @ ht_list (drop (Suc i) ?slots)"
      by (subst split) simp
    have "length (ht_list news) = length (ht_list (take i ?slots))" using P by (metis size_mset)
    also have "\<dots> \<le> length (ht_list ?slots)" by (subst list) simp
    finally have "length (ht_list news) < 2 ^ m" using room by simp
    moreover have "key \<notin> fst ` set (ht_list news)" if "?slots ! i = Some (key, c)" for key c
    proof -
      have "set (ht_list news) = set (ht_list (take i ?slots))" using P mset_eq_setD by blast
      then show ?thesis using dist that by (auto simp: list)
    qed
    ultimately obtain news' where "ht_reinsert kh newsize ?slots news i = Inr news'" "length news' = 2 ^ m" "slots_ok kh news'"
      "mset (ht_list news') = mset (ht_list news) + mset (slot_entries (?slots ! i))"
      using ht_reinsert_ok [of m newsize news kh i ?slots] m il P by blast
    then show "\<exists>news'. ht_reinsert kh newsize ?slots news i = Inr news' \<and> ?P (Suc i) news'"
      using P il by (simp add: take_Suc_conv_app_nth)
  qed
  then show ?thesis using len by (auto simp: ht_rehash_def)
qed

lemma ht_new_ok:
  "\<exists>t :: ('k, 'c) hash_table. ht_new kh = Inr t \<and> ht_ok kh t \<and> ht_map t = Map.empty \<and> ht_count t = 0"
proof -
  have "\<exists>t' :: ('k, 'c) hash_table. ht_rehash kh 256 \<lparr>ht_slots = [], ht_size = 0, ht_load = 0\<rparr> = Inr t' \<and> slots_ok kh (ht_slots t') \<and>
    length (ht_slots t') = 2 ^ 8 \<and> ht_size t' = 256 \<and> ht_load t' = 0 \<and> mset (ht_list (ht_slots t')) = {#}"
    using ht_rehash_ok [of 8 256 "\<lparr>ht_slots = [], ht_size = 0, ht_load = 0\<rparr>" kh] by simp
  then obtain t :: "('k, 'c) hash_table" where t: "ht_new kh = Inr t" "slots_ok kh (ht_slots t)" "length (ht_slots t) = 2 ^ 8" "ht_size t = 256"
    "ht_load t = 0" "ht_list (ht_slots t) = []" by (auto simp: ht_new_def)
  have "ht_ok kh t" using t by (simp add: ht_ok_def exI [of _ 8])
  then show ?thesis using t by (intro exI [of _ t]) (simp add: ht_map_def ht_count_def)
qed

lemma ht_find_ok:
  assumes m: "m < 63" "ht_size t = 2 ^ m" "length (ht_slots t) = 2 ^ m" and ok: "slots_ok kh (ht_slots t)"
    and room: "length (ht_list (ht_slots t)) < 2 ^ m"
  shows "\<exists>i d. ht_find kh key t = Inr i \<and> unat i < length (ht_slots t) \<and>
    unat i = (unat (kh key) + d) mod length (ht_slots t) \<and> reaches kh (ht_slots t) key d \<and>
    (case ht_slots t ! unat i of None \<Rightarrow> key \<notin> fst ` set (ht_list (ht_slots t)) | Some (k, c) \<Rightarrow> k = key)"
proof -
  let ?s = "ht_slots t" and ?h = "unat (kh key)"
  have "\<exists>j < length ?s. ?s ! j = None" using ht_list_full [of ?s] room m(3) by simp
  from probe_finds [OF m this, of "\<lambda>k. k = key" kh key] obtain i d where
    p: "ht_probe (length ?s) (\<lambda>k. k = key) ?s (ht_size t) (ht_home kh (ht_size t) key) = Inr i"
      "unat i = (?h + d) mod length ?s"
      "\<forall>e < d. \<exists>k c. ?s ! ((?h + e) mod length ?s) = Some (k, c) \<and> k \<noteq> key"
      "case ?s ! unat i of None \<Rightarrow> True | Some (k, c) \<Rightarrow> k = key" by auto
  have less: "unat i < length ?s" using p(2) m(3) by simp
  have r: "reaches kh ?s key d" using p(3) by (auto simp: reaches_def)
  have "key \<notin> fst ` set (ht_list ?s)" if none: "?s ! unat i = None"
  proof
    assume "key \<in> fst ` set (ht_list ?s)"
    then obtain c where "Some (key, c) \<in> set ?s" by (auto simp: in_ht_list)
    then obtain j where j: "j < length ?s" "?s ! j = Some (key, c)" by (metis in_set_conv_nth)
    then obtain d' where d': "j = (?h + d') mod length ?s" "reaches kh ?s key d'" using ok by (auto simp: slots_ok_def)
    consider "d' < d" | "d' = d" | "d < d'" by linarith
    then show False
    proof cases
      case 1
      then show False using p(3) d'(1) j(2) by force
    next
      case 2
      then show False using none p(2) d'(1) j(2) by simp
    next
      case 3
      then have "?s ! ((?h + d) mod length ?s) \<noteq> None" using d'(2) unfolding reaches_def by blast
      then show False using none p(2) by simp
    qed
  qed
  then show ?thesis
    using p(1,2,4) less r by (intro exI [of _ i] exI [of _ d]) (auto simp: ht_find_def split: option.splits)
qed

lemma ht_map_Some:
  assumes "slots_ok kh (ht_slots t)" and "i < length (ht_slots t)" and "ht_slots t ! i = Some (key, c)"
  shows "ht_map t key = Some c"
proof -
  have "(key, c) \<in> set (ht_list (ht_slots t))" using assms(2,3) by (metis in_ht_list nth_mem)
  then show ?thesis using assms(1) by (simp add: ht_map_def slots_ok_def)
qed

lemma ht_map_None: "key \<notin> fst ` set (ht_list (ht_slots t)) \<Longrightarrow> ht_map t key = None"
  by (simp add: ht_map_def map_of_eq_None_iff)

text \<open>Filling the free slot that was found: the last step of \<open>operator[]\<close>.\<close>

lemma ht_fill_ok:
  assumes "slots_ok kh (ht_slots t)" and i: "unat i < length (ht_slots t)" "ht_slots t ! unat i = None"
    and d: "unat i = (unat (kh key) + d) mod length (ht_slots t)" "reaches kh (ht_slots t) key d"
    and new: "key \<notin> fst ` set (ht_list (ht_slots t))"
  shows "slots_ok kh ((ht_slots t)[unat i := Some (key, c)])"
    "ht_map (t\<lparr>ht_slots := (ht_slots t)[unat i := Some (key, c)]\<rparr>) = (ht_map t)(key \<mapsto> c)"
    "length (ht_list ((ht_slots t)[unat i := Some (key, c)])) = Suc (length (ht_list (ht_slots t)))"
proof -
  have dist: "distinct (map fst (ht_list ((ht_slots t)[unat i := Some (key, c)])))"
    using distinct_put_free [OF i] assms(1) new by (simp add: slots_ok_def)
  show "slots_ok kh ((ht_slots t)[unat i := Some (key, c)])" by (rule slots_ok_put [OF assms(1) i(1) d dist])
  have ms: "mset (ht_list ((ht_slots t)[unat i := Some (key, c)])) = mset ((key, c) # ht_list (ht_slots t))"
    using mset_put_free [OF i] by simp
  have "distinct (map fst ((key, c) # ht_list (ht_slots t)))" using assms(1) new by (simp add: slots_ok_def)
  from map_of_mset [OF ms this] show "ht_map (t\<lparr>ht_slots := (ht_slots t)[unat i := Some (key, c)]\<rparr>) = (ht_map t)(key \<mapsto> c)"
    by (simp add: ht_map_def)
  show "length (ht_list ((ht_slots t)[unat i := Some (key, c)])) = Suc (length (ht_list (ht_slots t)))"
    using arg_cong [OF ms, of size] by simp
qed

text \<open>\<open>operator[]\<close> gives the slot of the key, new or old, and changes nothing else.\<close>

lemma ht_at_ok:
  assumes ok: "ht_ok kh t" and room: "ht_count t < 2 ^ 58"
  shows "\<exists>i t' c. ht_at kh new key t = Inr (i, t') \<and> ht_ok kh t' \<and> unat i < length (ht_slots t') \<and>
    ht_slots t' ! unat i = Some (key, c) \<and> c = (case ht_map t key of None \<Rightarrow> new | Some c \<Rightarrow> c) \<and>
    ht_map t' = (ht_map t)(key \<mapsto> c) \<and> ht_count t' = ht_count t + (if ht_map t key = None then 1 else 0)"
proof -
  let ?s = "ht_slots t" and ?l = "length (ht_list (ht_slots t))"
  obtain m where m: "8 \<le> m" "m < 62" "ht_size t = 2 ^ m" "length ?s = 2 ^ m" "slots_ok kh ?s" "unat (ht_load t) = ?l" "2 * ?l < 2 ^ m"
    "m = 8 \<or> 2 ^ m \<le> 4 * ?l" using ok by (auto simp: ht_ok_def)
  obtain i d where f: "ht_find kh key t = Inr i" "unat i < length ?s" "unat i = (unat (kh key) + d) mod length ?s" "reaches kh ?s key d"
    "case ?s ! unat i of None \<Rightarrow> key \<notin> fst ` set (ht_list ?s) | Some (k, c) \<Rightarrow> k = key"
    using ht_find_ok [of m t kh key] m by auto
  show ?thesis
  proof (cases "?s ! unat i")
    case (Some e)
    then obtain c where e: "?s ! unat i = Some (key, c)" using f(5) by (cases e) auto
    have mp: "ht_map t key = Some c" by (rule ht_map_Some [OF m(5) f(2) e])
    have "ht_at kh new key t = Inr (i, t)" using f(1,2) e by (simp add: ht_at_def arr_get_word)
    then show ?thesis using ok f(2) e mp by (intro exI [of _ i] exI [of _ t] exI [of _ c]) (auto simp: fun_upd_idem)
  next
    case None
    then have new: "key \<notin> fst ` set (ht_list ?s)" using f(5) by simp
    have none: "ht_map t key = None" by (rule ht_map_None [OF new])
    let ?t = "t\<lparr>ht_load := ht_load t + 1\<rparr>"
    have l: "?l < 2 ^ 58" using room by (simp add: ht_count_def)
    have load: "unat (ht_load t + 1) = Suc ?l" using m(6) l by (simp add: unat_word_ariths)
    have "unat (drop_bit 1 (ht_size t)) = drop_bit 1 (unat (ht_size t))" by (rule unat_drop_bit_eq)
    also have "\<dots> = drop_bit 1 (2 ^ m)" using unat_pow2 [of m] m(2,3) by (simp only:)
    finally have half: "unat (drop_bit 1 (ht_size t)) = 2 ^ (m - 1)"
      using m(1) by (cases m) (simp_all add: drop_bit_Suc)
    have pm: "(2 :: nat) ^ m = 2 * 2 ^ (m - 1)" using m(1) by (cases m) simp_all
    show ?thesis
    proof (cases "Suc ?l < 2 ^ (m - 1)")
      case True
      let ?t' = "?t\<lparr>ht_slots := ?s[unat i := Some (key, new)]\<rparr>"
      have "\<not> drop_bit 1 (ht_size t) \<le> ht_load t + 1" using True load half by (simp add: word_le_nat_alt)
      then have at: "ht_at kh new key t = Inr (i, ?t')"
        using f(1,2) None by (simp add: ht_at_def arr_get_word arr_set_word Let_def)
      note F = ht_fill_ok [OF m(5) f(2) None f(3,4) new, of new]
      have "ht_ok kh ?t'"
        unfolding ht_ok_def by (rule exI [of _ m]) (use m F load True pm in auto)
      then show ?thesis using at f(2) none F(2,3)
        by (intro exI [of _ i] exI [of _ ?t'] exI [of _ new]) (simp add: ht_map_def ht_count_def)
    next
      case False
      then have l1: "Suc ?l = 2 ^ (m - 1)" using m(7) pm by simp
      have "(2 :: nat) ^ (m - 1) \<le> 2 ^ 58" using l l1 by simp
      then have "m - 1 \<le> 58" by (rule power_le_imp_le_exp [rotated]) simp
      then have m60: "Suc m \<le> 60" using m(1) by simp
      have grow: "drop_bit 1 (ht_size t) \<le> ht_load t + 1" using l1 load half by (simp add: word_le_nat_alt)
      have big: "push_bit 1 (ht_size t) = (2 :: 64 word) ^ Suc m" using m(3) by (simp add: push_bit_eq_mult)
      have pm': "(2 :: nat) ^ Suc m = 4 * 2 ^ (m - 1)" using pm by simp
      obtain t1 where t1: "ht_rehash kh (push_bit 1 (ht_size t)) ?t = Inr t1" "slots_ok kh (ht_slots t1)"
        "length (ht_slots t1) = 2 ^ Suc m" "ht_size t1 = 2 ^ Suc m" "ht_load t1 = ht_load t + 1"
        "mset (ht_list (ht_slots t1)) = mset (ht_list ?s)"
        using ht_rehash_ok [of "Suc m" "push_bit 1 (ht_size t)" ?t kh] m big m60 unat_pow2 [of m] by (auto simp: slots_ok_def)
      have len1: "length (ht_list (ht_slots t1)) = ?l" using t1(6) by (metis size_mset)
      have new1: "key \<notin> fst ` set (ht_list (ht_slots t1))" using new t1(6) mset_eq_setD by metis
      have map1: "ht_map t1 = ht_map t" using map_of_mset [OF t1(6)] m(5) by (simp add: ht_map_def slots_ok_def)
      obtain i1 d1 where f1: "ht_find kh key t1 = Inr i1" "unat i1 < length (ht_slots t1)"
        "unat i1 = (unat (kh key) + d1) mod length (ht_slots t1)" "reaches kh (ht_slots t1) key d1"
        "case ht_slots t1 ! unat i1 of None \<Rightarrow> key \<notin> fst ` set (ht_list (ht_slots t1)) | Some (k, c) \<Rightarrow> k = key"
        using ht_find_ok [of "Suc m" t1 kh key] t1 m60 len1 m(7) by auto
      have free1: "ht_slots t1 ! unat i1 = None"
      proof (cases "ht_slots t1 ! unat i1")
        case (Some e)
        then have "(key, snd e) \<in> set (ht_list (ht_slots t1))"
          using f1(2,5) nth_mem [OF f1(2)] by (cases e) (auto simp: in_ht_list)
        then show ?thesis using new1 by force
      qed
      let ?t' = "t1\<lparr>ht_slots := (ht_slots t1)[unat i1 := Some (key, new)]\<rparr>"
      have at: "ht_at kh new key t = Inr (i1, ?t')"
        using f(1,2) None grow t1(1) f1(1,2) by (simp add: ht_at_def arr_get_word arr_set_word Let_def)
      note F = ht_fill_ok [OF t1(2) f1(2) free1 f1(3,4) new1, of new]
      have "ht_ok kh ?t'"
        unfolding ht_ok_def by (rule exI [of _ "Suc m"]) (use m m60 t1 F load len1 l1 pm' in auto)
      then show ?thesis using at f1(2) none F(2,3) map1 len1
        by (intro exI [of _ i1] exI [of _ ?t'] exI [of _ new]) (simp add: ht_count_def)
    qed
  qed
qed

text \<open>So a table is a map, and an update through \<open>operator[]\<close> updates it at one key.\<close>

lemma ht_update_ok:
  assumes ok: "ht_ok kh t" and room: "ht_count t < 2 ^ 58"
  shows "\<exists>t'. ht_update kh new key f t = Inr t' \<and> ht_ok kh t' \<and>
    ht_map t' = (ht_map t)(key \<mapsto> f (case ht_map t key of None \<Rightarrow> new | Some c \<Rightarrow> c)) \<and>
    ht_count t' = ht_count t + (if ht_map t key = None then 1 else 0)"
proof -
  obtain i t1 c where at: "ht_at kh new key t = Inr (i, t1)" "ht_ok kh t1" "unat i < length (ht_slots t1)"
    "ht_slots t1 ! unat i = Some (key, c)" "c = (case ht_map t key of None \<Rightarrow> new | Some c \<Rightarrow> c)"
    "ht_map t1 = (ht_map t)(key \<mapsto> c)" "ht_count t1 = ht_count t + (if ht_map t key = None then 1 else 0)"
    using ht_at_ok [OF ok room, of new key] by blast
  let ?s = "ht_slots t1"
  let ?s' = "?s[unat i := Some (key, f c)]"
  obtain m where m: "8 \<le> m" "m < 62" "ht_size t1 = 2 ^ m" "length ?s = 2 ^ m" "slots_ok kh ?s" "unat (ht_load t1) = length (ht_list ?s)"
    "2 * length (ht_list ?s) < 2 ^ m" "m = 8 \<or> 2 ^ m \<le> 4 * length (ht_list ?s)" using at(2) by (auto simp: ht_ok_def)
  have dist: "distinct (map fst (ht_list ?s'))" using distinct_put_same [OF at(3,4)] m(5) by (simp add: slots_ok_def)
  obtain d where d: "unat i = (unat (kh key) + d) mod length ?s" "reaches kh ?s key d"
    using m(5) at(3,4) by (auto simp: slots_ok_def)
  have ok': "slots_ok kh ?s'" by (rule slots_ok_put [OF m(5) at(3) d dist])
  have ms: "mset (ht_list ?s') + {#(key, c)#} = mset (ht_list ?s) + {#(key, f c)#}"
    using mset_ht_list_update [OF at(3), of "Some (key, f c)"] at(4) by simp
  have len: "length (ht_list ?s') = length (ht_list ?s)" using arg_cong [OF ms, of size] by simp
  have step: "ht_update kh new key f t = Inr (t1\<lparr>ht_slots := ?s'\<rparr>)"
    using at(1,3,4) by (simp add: ht_update_def arr_get_word arr_set_word)
  have "ht_map (t1\<lparr>ht_slots := ?s'\<rparr>) = (ht_map t1)(key \<mapsto> f c)"
  proof
    fix k
    have in': "(k, v) \<in> set (ht_list ?s') \<longleftrightarrow> (k, v) \<in> set (ht_list ?s)" if "k \<noteq> key" for v
      using that arg_cong [OF ms, of "\<lambda>M. (k, v) \<in># M"] by simp
    have iff: "map_of (ht_list ?s') k = Some v \<longleftrightarrow> map_of (ht_list ?s) k = Some v" if "k \<noteq> key" for v
      using in' [OF that] dist m(5) by (simp add: slots_ok_def)
    have eq: "map_of (ht_list ?s') k = map_of (ht_list ?s) k" if "k \<noteq> key"
      using iff [OF that] by (metis option.exhaust)
    have "ht_map (t1\<lparr>ht_slots := ?s'\<rparr>) key = Some (f c)"
      by (rule ht_map_Some [of kh _ "unat i"]) (use ok' at(3) in simp_all)
    then show "ht_map (t1\<lparr>ht_slots := ?s'\<rparr>) k = ((ht_map t1)(key \<mapsto> f c)) k"
      using eq by (cases "k = key") (simp_all add: ht_map_def)
  qed
  moreover have "ht_ok kh (t1\<lparr>ht_slots := ?s'\<rparr>)" unfolding ht_ok_def by (rule exI [of _ m]) (use m ok' len in auto)
  ultimately show ?thesis using step at(5-7) len by (intro exI [of _ "t1\<lparr>ht_slots := ?s'\<rparr>"]) (simp add: ht_count_def)
qed

section \<open>Visiting the entries\<close>

declare it_skip.simps [simp del]

lemma word_next:
  assumes "unat (i :: 64 word) < n" and "n \<le> unat (k :: 64 word)"
  shows "unat (i + 1) = Suc (unat i)"
proof -
  have "unat k < 2 ^ LENGTH(64)" by (rule unsigned_less)
  with assms have "unat i + 1 < 2 ^ 64" by simp
  then show ?thesis by (simp add: unat_word_ariths)
qed

lemma it_skip_ok:
  assumes "length (ht_slots t) = unat (ht_size t)" and "unat index \<le> length (ht_slots t)"
  shows "\<exists>i. it_skip t index = Inr i \<and> unat index \<le> unat i \<and> unat i \<le> length (ht_slots t) \<and>
    ht_list (drop (unat i) (ht_slots t)) = ht_list (drop (unat index) (ht_slots t)) \<and>
    (unat i < length (ht_slots t) \<longrightarrow> ht_slots t ! unat i \<noteq> None)"
  using assms
proof (induction t index rule: it_skip.induct)
  case (1 t index)
  let ?s = "ht_slots t"
  show ?case
  proof (cases "index < ht_size t")
    case False
    then show ?thesis using 1(2,3) by (simp add: it_skip.simps [of t index] word_less_nat_alt)
  next
    case True
    then have less: "unat index < length ?s" using 1(2) by (simp add: word_less_nat_alt)
    show ?thesis
    proof (cases "?s ! unat index")
      case (Some e)
      then have "it_skip t index = Inr index" using True less by (simp add: it_skip.simps [of t index] arr_get_word)
      then show ?thesis using Some less by simp
    next
      case None
      have suc: "unat (index + 1) = Suc (unat index)" by (rule word_next [OF less, of "ht_size t"]) (simp add: 1(2))
      have list: "ht_list (drop (unat index) ?s) = ht_list (drop (Suc (unat index)) ?s)"
        using less None by (simp flip: Cons_nth_drop_Suc)
      have "it_skip t index = it_skip t (index + 1)"
        using True less None by (simp add: it_skip.simps [of t index] arr_get_word)
      then show ?thesis using 1(1) [OF True, of None] 1(2) less None suc list by (auto simp: arr_get_word Suc_le_eq)
    qed
  qed
qed

lemma ht_for_ok:
  assumes len: "length (ht_slots t) = unat (ht_size t)" and e: "ht_end t = Inr (ht_size t)"
    and "unat index \<le> length (ht_slots t)" and "unat index < length (ht_slots t) \<longrightarrow> ht_slots t ! unat index \<noteq> None"
    and "length (ht_slots t) - unat index < fuel"
  shows "ht_for fuel t body s index = foldE body s (ht_list (drop (unat index) (ht_slots t)))"
  using assms(3-5)
proof (induction fuel arbitrary: s index)
  case (Suc fuel)
  let ?s = "ht_slots t"
  show ?case
  proof (cases "unat index < length ?s")
    case False
    then have "unat index = unat (ht_size t)" using Suc.prems(1) len by simp
    then have "index = ht_size t" by (simp add: word_unat_eq_iff)
    then show ?thesis using e len by simp
  next
    case True
    then obtain x where x: "?s ! unat index = Some x" using Suc.prems(2) by blast
    have ne: "index \<noteq> ht_size t" using True len by auto
    have lt: "index < ht_size t" using True len by (simp add: word_less_nat_alt)
    have suc: "unat (index + 1) = Suc (unat index)" by (rule word_next [OF True, of "ht_size t"]) (simp add: len)
    have list: "ht_list (drop (unat index) ?s) = x # ht_list (drop (Suc (unat index)) ?s)"
      using True x by (simp flip: Cons_nth_drop_Suc)
    obtain i where i: "it_skip t (index + 1) = Inr i" "Suc (unat index) \<le> unat i" "unat i \<le> length ?s"
      "ht_list (drop (unat i) ?s) = ht_list (drop (Suc (unat index)) ?s)" "unat i < length ?s \<longrightarrow> ?s ! unat i \<noteq> None"
      using it_skip_ok [OF len, of "index + 1"] suc True by auto
    have "ht_for fuel t body s' i = foldE body s' (ht_list (drop (Suc (unat index)) ?s))" for s'
      using Suc.IH [of i s'] i Suc.prems(3) by simp
    then show ?thesis using e ne lt x True list i(1) by (simp add: it_deref_def it_incr_def arr_get_word)
  qed
qed simp

text \<open>
  The loop runs its body on every entry once, in the order of the slots. The bound keeps the size
  below what the constructor of the iterator can take as an \<open>int\<close>.
\<close>

lemma ht_iterate_ok:
  assumes ok: "ht_ok kh t" and room: "ht_count t < 2 ^ 29"
  shows "ht_iterate t body s = foldE body s (ht_list (ht_slots t))"
proof -
  let ?s = "ht_slots t" and ?l = "length (ht_list (ht_slots t))"
  obtain m where m: "8 \<le> m" "m < 62" "ht_size t = 2 ^ m" "length ?s = 2 ^ m" "m = 8 \<or> 2 ^ m \<le> 4 * ?l"
    using ok by (auto simp: ht_ok_def)
  have len: "length ?s = unat (ht_size t)" using m unat_pow2 [of m] by simp
  have "(2 :: nat) ^ m < 2 ^ 31" using m(5) room by (auto simp: ht_count_def)
  then have "unat (ht_size t) < 2 ^ 31" using len m(4) by simp
  then have "nat (uint (ht_size t)) < nat (2 ^ 31)" by (simp only: unat_eq_nat_uint) simp
  then have "uint (ht_size t) < 2 ^ 31" by (subst (asm) nat_less_eq_zless) simp_all
  then have "to_int32 (uint (ht_size t)) = uint (ht_size t)" by (intro to_int32_id) (rule order_trans [OF _ uint_ge_0], simp_all)
  then have e: "ht_end t = Inr (ht_size t)" by (simp add: ht_end_def it_make_def it_skip.simps)
  obtain i where i: "it_skip t 0 = Inr i" "unat i \<le> length ?s" "ht_list (drop (unat i) ?s) = ht_list ?s"
    "unat i < length ?s \<longrightarrow> ?s ! unat i \<noteq> None"
    using it_skip_ok [OF len, of 0] by auto
  have "to_int32 0 = 0" by (simp add: to_int32_def)
  then have "ht_begin t = Inr i" using i(1) by (simp add: ht_begin_def it_make_def)
  then show ?thesis using ht_for_ok [OF len e i(2,4), of "Suc (unat (ht_size t))" body s] i(3) len by (simp add: ht_iterate_def)
qed

end
