(* ===== verification/PPCombiner.thy ===== *)
theory PPCombiner
  imports Prelude
begin

text \<open>
  The combiners of \<open>src/sop1_parallelism/phoenix++/include/combiner.h\<close>. A combiner collects the values
  that a thread emits under a key; its class \<open>combined\<close> puts the combiners of the threads together
  and hands out what the reduce function sees. A template argument \<open>Combiner\<close> is a record of the
  operations of the two classes. The code passes pointers to the vectors of a buffer; here they are
  copied, which is the same because no value is added to a combiner after it has been put into a
  \<open>combined\<close>.
\<close>

section \<open>The interface\<close>

text \<open>\<open>next\<close> returns the value, or None for false; the object that is iterated over changes.\<close>

record ('v, 'c, 'd) combiner =
  cb_new :: 'c
  cb_add :: "'c \<Rightarrow> 'v \<Rightarrow> 'c"
  cb_empty :: "'c \<Rightarrow> bool"
  cd_new :: 'd
  cd_add :: "'d \<Rightarrow> 'c \<Rightarrow> 'd"
  cd_next :: "'d \<Rightarrow> 'v option \<times> 'd"
  cd_reset :: "'d \<Rightarrow> 'd"
  cd_size :: "'d \<Rightarrow> int"
  cd_clear :: "'d \<Rightarrow> 'd"

text \<open>\<open>while (values.next (val)) out.push_back (val)\<close>, with a bound on its rounds.\<close>

fun cd_values :: "nat \<Rightarrow> ('v, 'c, 'd) combiner \<Rightarrow> 'd \<Rightarrow> 'v list \<Rightarrow> 'v list res" where
  "cd_values 0 cb d out = Inl No_fuel"
| "cd_values (Suc fuel) cb d out =
     (case cd_next cb d of
        (None, d) \<Rightarrow> Inr out
      | (Some v, d) \<Rightarrow> cd_values fuel cb d (out @ [v]))"

section \<open>\<open>buffer_combiner\<close>\<close>

record 'v buffer_combined =
  bc_items :: "'v list list"
  bc_list :: "32 word"
  bc_index :: "32 word"

definition bc_new :: "'v buffer_combined" where
  "bc_new = \<lparr>bc_items = [], bc_list = 0, bc_index = 0\<rparr>"

definition bc_in_list :: "'v buffer_combined \<Rightarrow> bool" where
  "bc_in_list d \<longleftrightarrow> unat (bc_list d) < length (bc_items d)"

definition bc_current :: "'v buffer_combined \<Rightarrow> 'v list" where
  "bc_current d = bc_items d ! unat (bc_list d)"

definition bc_next :: "'v buffer_combined \<Rightarrow> 'v option \<times> 'v buffer_combined" where
  "bc_next d =
     (let d = (if bc_in_list d \<and> unat (bc_index d) \<ge> length (bc_current d)
               then d\<lparr>bc_index := 0, bc_list := bc_list d + 1\<rparr> else d)
      in if bc_in_list d \<and> unat (bc_index d) < length (bc_current d)
         then (Some (bc_current d ! unat (bc_index d)), d\<lparr>bc_index := bc_index d + 1\<rparr>)
         else (None, d))"

definition bc_reset :: "'v buffer_combined \<Rightarrow> 'v buffer_combined" where
  "bc_reset d = d\<lparr>bc_list := 0, bc_index := 0\<rparr>"

definition bc_size :: "'v buffer_combined \<Rightarrow> int" where
  "bc_size d = to_int32 (int (length (bc_items d)))"

definition bc_clear :: "'v buffer_combined \<Rightarrow> 'v buffer_combined" where
  "bc_clear d = d\<lparr>bc_list := 0, bc_index := 0, bc_items := []\<rparr>"

definition buffer_combiner :: "('v, 'v list, 'v buffer_combined) combiner" where
  "buffer_combiner =
     \<lparr>cb_new = [], cb_add = (\<lambda>data v. data @ [v]), cb_empty = (\<lambda>data. length data = 0),
      cd_new = bc_new, cd_add = (\<lambda>d data. d\<lparr>bc_items := bc_items d @ [data]\<rparr>),
      cd_next = bc_next, cd_reset = bc_reset, cd_size = bc_size, cd_clear = bc_clear\<rparr>"

section \<open>\<open>associative_combiner\<close>\<close>

text \<open>
  \<open>F\<close> and \<open>Init\<close> are those of the class \<open>Impl\<close>; \<open>junk\<close> is what a member holds that nothing has
  initialised yet.
\<close>

record 'v assoc =
  ac_data :: 'v
  ac_empty :: bool

record 'v assoc_combined =
  am_m :: 'v
  am_i :: int
  am_empty :: bool

definition ac_add :: "('v \<Rightarrow> 'v \<Rightarrow> 'v) \<Rightarrow> 'v assoc \<Rightarrow> 'v \<Rightarrow> 'v assoc" where
  "ac_add F c v = \<lparr>ac_data = F (ac_data c) v, ac_empty = False\<rparr>"

definition am_add :: "('v \<Rightarrow> 'v \<Rightarrow> 'v) \<Rightarrow> 'v assoc_combined \<Rightarrow> 'v assoc \<Rightarrow> 'v assoc_combined" where
  "am_add F d c = (if \<not> ac_empty c then d\<lparr>am_m := F (am_m d) (ac_data c), am_empty := False\<rparr> else d)"

definition am_next :: "'v assoc_combined \<Rightarrow> 'v option \<times> 'v assoc_combined" where
  "am_next d = (if 0 = am_i d then Some (am_m d) else None, d\<lparr>am_i := am_i d + 1\<rparr>)"

definition am_size :: "'v assoc_combined \<Rightarrow> int" where
  "am_size d = (if am_empty d then 0 else 1)"

definition am_clear :: "('v \<Rightarrow> 'v) \<Rightarrow> 'v assoc_combined \<Rightarrow> 'v assoc_combined" where
  "am_clear Init d = \<lparr>am_m = Init (am_m d), am_i = 0, am_empty = True\<rparr>"

definition associative_combiner ::
  "('v \<Rightarrow> 'v \<Rightarrow> 'v) \<Rightarrow> ('v \<Rightarrow> 'v) \<Rightarrow> 'v \<Rightarrow> ('v, 'v assoc, 'v assoc_combined) combiner" where
  "associative_combiner F Init junk =
     \<lparr>cb_new = \<lparr>ac_data = Init junk, ac_empty = True\<rparr>, cb_add = ac_add F, cb_empty = ac_empty,
      cd_new = \<lparr>am_m = Init junk, am_i = 0, am_empty = True\<rparr>, cd_add = am_add F, cd_next = am_next,
      cd_reset = (\<lambda>d. d\<lparr>am_i := 0\<rparr>), cd_size = am_size, cd_clear = am_clear Init\<rparr>"

text \<open>
  The variant that a build with \<open>MUST_REDUCE\<close> takes instead: it buffers the values and combines
  them only when the reduce function asks.
\<close>

record 'v must_combined =
  mc_items :: "'v list list"
  mc_done :: bool

definition mc_next :: "('v \<Rightarrow> 'v \<Rightarrow> 'v) \<Rightarrow> ('v \<Rightarrow> 'v) \<Rightarrow> 'v \<Rightarrow> 'v must_combined \<Rightarrow> 'v option \<times> 'v must_combined" where
  "mc_next F Init junk d =
     (if mc_done d then (None, d)
      else (Some (foldl (foldl F) (Init junk) (mc_items d)), d\<lparr>mc_done := True\<rparr>))"

definition must_reduce_combiner ::
  "('v \<Rightarrow> 'v \<Rightarrow> 'v) \<Rightarrow> ('v \<Rightarrow> 'v) \<Rightarrow> 'v \<Rightarrow> ('v, 'v list, 'v must_combined) combiner" where
  "must_reduce_combiner F Init junk =
     \<lparr>cb_new = [], cb_add = (\<lambda>data v. data @ [v]), cb_empty = (\<lambda>data. length data = 0),
      cd_new = \<lparr>mc_items = [], mc_done = False\<rparr>, cd_add = (\<lambda>d data. d\<lparr>mc_items := mc_items d @ [data]\<rparr>),
      cd_next = mc_next F Init junk, cd_reset = (\<lambda>d. d\<lparr>mc_done := False\<rparr>),
      cd_size = (\<lambda>d. to_int32 (int (length (mc_items d)))), cd_clear = (\<lambda>d. \<lparr>mc_items = [], mc_done = False\<rparr>)\<rparr>"

text \<open>\<open>sum_combiner\<close> and \<open>one_combiner\<close>: the latter's \<open>Init\<close> leaves the member as it is.\<close>

definition sum_F :: "'v :: comm_monoid_add \<Rightarrow> 'v \<Rightarrow> 'v" where
  "sum_F a b = a + b"

definition sum_Init :: "'v :: comm_monoid_add \<Rightarrow> 'v" where
  "sum_Init a = 0"

definition sum_combiner :: "'v \<Rightarrow> ('v :: comm_monoid_add, 'v assoc, 'v assoc_combined) combiner" where
  "sum_combiner junk = associative_combiner sum_F sum_Init junk"

definition one_F :: "'v \<Rightarrow> 'v \<Rightarrow> 'v" where
  "one_F a b = b"

definition one_Init :: "'v \<Rightarrow> 'v" where
  "one_Init a = a"

definition one_combiner :: "'v \<Rightarrow> ('v, 'v assoc, 'v assoc_combined) combiner" where
  "one_combiner junk = associative_combiner one_F one_Init junk"

section \<open>The contract of a combiner\<close>

text \<open>
  \<open>holds c vs\<close>: the combiner \<open>c\<close> has had the values \<open>vs\<close> added. \<open>collects d vss\<close>: \<open>d\<close> has had one
  combiner per element of \<open>vss\<close> added, with those values. The reduce function then sees
  \<open>out (concat vss)\<close>. The bounds are those of the \<open>int\<close> and \<open>unsigned int\<close> that count lists and
  positions.
\<close>

definition vss_ok :: "'v list list \<Rightarrow> bool" where
  "vss_ok vss \<longleftrightarrow> [] \<notin> set vss \<and> length vss < 2 ^ 31 \<and> list_all (\<lambda>vs. length vs < 2 ^ 32) vss"

locale pp_combiner =
  fixes cb :: "('v, 'c, 'd) combiner"
    and holds :: "'c \<Rightarrow> 'v list \<Rightarrow> bool"
    and collects :: "'d \<Rightarrow> 'v list list \<Rightarrow> bool"
    and out :: "'v list \<Rightarrow> 'v list"
  assumes holds_new: "holds (cb_new cb) []"
    and holds_add: "holds c vs \<Longrightarrow> holds (cb_add cb c v) (vs @ [v])"
    and holds_empty: "holds c vs \<Longrightarrow> cb_empty cb c \<longleftrightarrow> vs = []"
    and collects_new: "collects (cd_new cb) []"
    and collects_clear: "collects (cd_clear cb d) []"
    and collects_add: "collects d vss \<Longrightarrow> holds c vs \<Longrightarrow> vs \<noteq> [] \<Longrightarrow> collects (cd_add cb d c) (vss @ [vs])"
    and collects_size: "collects d vss \<Longrightarrow> vss_ok vss \<Longrightarrow> 0 < cd_size cb d \<longleftrightarrow> vss \<noteq> []"
    and collects_values: "collects d vss \<Longrightarrow> vss_ok vss \<Longrightarrow> vss \<noteq> [] \<Longrightarrow> length (concat vss) < fuel \<Longrightarrow>
      cd_values fuel cb d acc = Inr (acc @ out (concat vss))"
begin

text \<open>A loop that adds the values one by one.\<close>

lemma holds_adds: "holds c vs \<Longrightarrow> holds (foldl (cb_add cb) c ws) (vs @ ws)"
proof (induction ws arbitrary: c vs)
  case (Cons w ws)
  then show ?case using holds_add [of c vs w] by (metis append_Cons append_Nil append_assoc foldl_Cons)
qed simp

end

section \<open>The buffer hands out every value\<close>

lemma bc_size_pos: "length (bc_items d) < 2 ^ 31 \<Longrightarrow> 0 < bc_size d \<longleftrightarrow> bc_items d \<noteq> []"
  by (simp add: bc_size_def to_int32_id)

lemma unat_add_1: "unat (i :: 32 word) < n \<Longrightarrow> n < 2 ^ 32 \<Longrightarrow> unat (i + 1) = Suc (unat i)"
  by (simp add: unat_word_ariths)

text \<open>From position \<open>j\<close> of list \<open>i\<close> on: the rest of the list and the lists after it.\<close>

lemma bc_next_here:
  assumes "unat (bc_list d) < length (bc_items d)" and "unat (bc_index d) < length (bc_items d ! unat (bc_list d))"
  shows "bc_next d = (Some (bc_items d ! unat (bc_list d) ! unat (bc_index d)), d\<lparr>bc_index := bc_index d + 1\<rparr>)"
  using assms by (simp add: bc_next_def bc_in_list_def bc_current_def)

lemma bc_next_over:
  assumes "unat (bc_list d) < length (bc_items d)" and "length (bc_items d ! unat (bc_list d)) \<le> unat (bc_index d)"
    and "unat (bc_list d + 1) = Suc (unat (bc_list d))" and "Suc (unat (bc_list d)) < length (bc_items d)"
    and "bc_items d ! Suc (unat (bc_list d)) \<noteq> []"
  shows "bc_next d = (Some (hd (bc_items d ! Suc (unat (bc_list d)))), d\<lparr>bc_list := bc_list d + 1, bc_index := 1\<rparr>)"
  using assms by (simp add: bc_next_def bc_in_list_def bc_current_def hd_conv_nth)

lemma bc_next_end:
  assumes "unat (bc_list d) < length (bc_items d)" and "length (bc_items d ! unat (bc_list d)) \<le> unat (bc_index d)"
    and "unat (bc_list d + 1) = Suc (unat (bc_list d))" and "Suc (unat (bc_list d)) = length (bc_items d)"
  shows "fst (bc_next d) = None"
  using assms by (simp add: bc_next_def bc_in_list_def bc_current_def)

lemma bc_values:
  assumes "vss_ok (bc_items d)" and "unat (bc_list d) < length (bc_items d)"
    and "unat (bc_index d) \<le> length (bc_items d ! unat (bc_list d))"
    and "length (drop (unat (bc_index d)) (bc_items d ! unat (bc_list d)) @ concat (drop (Suc (unat (bc_list d))) (bc_items d))) < fuel"
  shows "cd_values fuel buffer_combiner d acc =
    Inr (acc @ drop (unat (bc_index d)) (bc_items d ! unat (bc_list d)) @ concat (drop (Suc (unat (bc_list d))) (bc_items d)))"
  using assms
proof (induction fuel arbitrary: d acc)
  case (Suc fuel)
  let ?I = "bc_items d" and ?i = "unat (bc_list d)" and ?j = "unat (bc_index d)"
  have short: "length (?I ! i) < 2 ^ 32" if "i < length ?I" for i
    using Suc.prems(1) that by (simp add: vss_ok_def list_all_length)
  have nx: "cd_next buffer_combiner = bc_next" by (simp add: buffer_combiner_def)
  have si: "unat (bc_list d + 1) = Suc ?i"
    by (rule unat_add_1 [OF Suc.prems(2)]) (use Suc.prems(1) in \<open>simp add: vss_ok_def\<close>)
  show ?case
  proof (cases "?j < length (?I ! ?i)")
    case True
    have sj: "unat (bc_index d + 1) = Suc ?j" by (rule unat_add_1 [OF True short [OF Suc.prems(2)]])
    have rest: "drop ?j (?I ! ?i) = ?I ! ?i ! ?j # drop (Suc ?j) (?I ! ?i)" using True by (simp add: Cons_nth_drop_Suc)
    have "cd_values fuel buffer_combiner (d\<lparr>bc_index := bc_index d + 1\<rparr>) (acc @ [?I ! ?i ! ?j]) =
      Inr ((acc @ [?I ! ?i ! ?j]) @ drop (Suc ?j) (?I ! ?i) @ concat (drop (Suc ?i) ?I))"
      using Suc.IH [of "d\<lparr>bc_index := bc_index d + 1\<rparr>" "acc @ [?I ! ?i ! ?j]"] Suc.prems True sj rest by simp
    then show ?thesis using bc_next_here [OF Suc.prems(2) True] rest by (simp add: nx)
  next
    case False
    then have over: "length (?I ! ?i) \<le> ?j" by simp
    show ?thesis
    proof (cases "Suc ?i < length ?I")
      case False
      then have "Suc ?i = length ?I" using Suc.prems(2) by simp
      from bc_next_end [OF Suc.prems(2) over si this] show ?thesis
        using over False by (cases "bc_next d") (simp add: nx)
    next
      case True
      have ne: "?I ! Suc ?i \<noteq> []" using Suc.prems(1) True nth_mem [OF True] by (metis vss_ok_def)
      obtain w ws where w: "?I ! Suc ?i = w # ws" using ne by (cases "?I ! Suc ?i") blast+
      let ?d = "d\<lparr>bc_list := bc_list d + 1, bc_index := 1\<rparr>"
      have rest: "concat (drop (Suc ?i) ?I) = hd (?I ! Suc ?i) # tl (?I ! Suc ?i) @ concat (drop (Suc (Suc ?i)) ?I)"
        using True ne by (simp flip: Cons_nth_drop_Suc)
      have "cd_values fuel buffer_combiner ?d (acc @ [hd (?I ! Suc ?i)]) =
        Inr ((acc @ [hd (?I ! Suc ?i)]) @ tl (?I ! Suc ?i) @ concat (drop (Suc (Suc ?i)) ?I))"
        using Suc.IH [of ?d "acc @ [hd (?I ! Suc ?i)]"] Suc.prems True si rest over w by (simp add: Suc_le_eq)
      then show ?thesis using bc_next_over [OF Suc.prems(2) over si True ne] rest over by (simp add: nx)
    qed
  qed
qed simp

definition bc_collects :: "'v buffer_combined \<Rightarrow> 'v list list \<Rightarrow> bool" where
  "bc_collects d vss \<longleftrightarrow> bc_items d = vss \<and> bc_list d = 0 \<and> bc_index d = 0"

lemma bc_values_all:
  assumes "bc_collects d vss" and "vss_ok vss" and "vss \<noteq> []" and "length (concat vss) < fuel"
  shows "cd_values fuel buffer_combiner d acc = Inr (acc @ concat vss)"
  using assms bc_values [of d fuel acc] by (cases vss) (simp_all add: bc_collects_def)

interpretation bufc: pp_combiner buffer_combiner "(=)" bc_collects "\<lambda>vs. vs"
proof (unfold_locales, goal_cases)
  case (7 d vss)
  then show ?case using bc_size_pos [of d] by (auto simp: bc_collects_def vss_ok_def buffer_combiner_def)
next
  case (8 d vss fuel acc)
  then show ?case using bc_values_all [of d vss fuel acc] by simp
qed (simp_all add: buffer_combiner_def bc_collects_def bc_new_def bc_clear_def)

section \<open>The associative combiners\<close>

text \<open>
  A combiner that folds values at once gives the fold over all of them when folding a partial
  result is folding its values.
\<close>

definition ac_holds :: "('v \<Rightarrow> 'v \<Rightarrow> 'v) \<Rightarrow> 'v \<Rightarrow> 'v assoc \<Rightarrow> 'v list \<Rightarrow> bool" where
  "ac_holds F z c vs \<longleftrightarrow> c = \<lparr>ac_data = foldl F z vs, ac_empty = (vs = [])\<rparr>"

definition am_collects :: "('v \<Rightarrow> 'v \<Rightarrow> 'v) \<Rightarrow> 'v set \<Rightarrow> 'v assoc_combined \<Rightarrow> 'v list list \<Rightarrow> bool" where
  "am_collects F Z d vss \<longleftrightarrow> am_i d = 0 \<and> am_empty d = (vss = []) \<and> (\<exists>z \<in> Z. am_m d = foldl F z (concat vss))"

locale associative =
  fixes F :: "'v \<Rightarrow> 'v \<Rightarrow> 'v" and Init :: "'v \<Rightarrow> 'v" and junk :: 'v and out :: "'v list \<Rightarrow> 'v list"
  assumes F_assoc: "vs \<noteq> [] \<Longrightarrow> F a (foldl F (Init junk) vs) = foldl F a vs"
    and F_out: "vs \<noteq> [] \<Longrightarrow> out vs = [foldl F (Init a) vs]"
begin

lemma am_values:
  assumes "am_collects F (range Init) d vss" and "vss_ok vss" and "vss \<noteq> []" and "length (concat vss) < fuel"
  shows "cd_values fuel (associative_combiner F Init junk) d acc = Inr (acc @ out (concat vss))"
proof -
  obtain a where a: "am_i d = 0" "am_m d = foldl F (Init a) (concat vss)" using assms(1) by (auto simp: am_collects_def)
  have ne: "concat vss \<noteq> []" using assms(2,3) by (cases vss) (auto simp: vss_ok_def)
  then have "0 < length (concat vss)" by blast
  then obtain n where "fuel = Suc (Suc n)" using assms(4) by (metis Suc_lessE less_trans_Suc not0_implies_Suc not_less_zero)
  then show ?thesis using a F_out [OF ne, of a] by (simp add: associative_combiner_def am_next_def)
qed

lemma am_add_collects:
  assumes "am_collects F (range Init) d vss" and "ac_holds F (Init junk) c vs" and "vs \<noteq> []"
  shows "am_collects F (range Init) (am_add F d c) (vss @ [vs])"
  using assms F_assoc [OF assms(3)] by (auto simp: am_collects_def ac_holds_def am_add_def)

end

sublocale associative \<subseteq> asc: pp_combiner "associative_combiner F Init junk" "ac_holds F (Init junk)" "am_collects F (range Init)" out
proof (unfold_locales, goal_cases)
  case (8 d vss fuel acc)
  then show ?case by (rule am_values)
next
  case (6 d vss c vs)
  then show ?case using am_add_collects by (simp add: associative_combiner_def)
qed (auto simp: associative_combiner_def ac_holds_def ac_add_def am_collects_def am_clear_def am_size_def)

lemma foldl_sum: "foldl sum_F a vs = a + sum_list vs"
  by (induction vs arbitrary: a) (simp_all add: sum_F_def add.assoc)

lemma foldl_one: "vs \<noteq> [] \<Longrightarrow> foldl one_F a vs = last vs"
  by (induction vs arbitrary: a) (auto simp: one_F_def)

interpretation sumc: associative sum_F sum_Init junk "\<lambda>vs. [sum_list vs]" for junk :: "'v :: comm_monoid_add"
  by unfold_locales (simp_all add: foldl_sum sum_Init_def sum_F_def)

interpretation onec: associative one_F one_Init junk "\<lambda>vs. [last vs]" for junk :: 'v
  by unfold_locales (simp_all add: foldl_one one_F_def)

text \<open>The variant for \<open>MUST_REDUCE\<close> gives the same for every \<open>F\<close>.\<close>

definition mc_collects :: "'v must_combined \<Rightarrow> 'v list list \<Rightarrow> bool" where
  "mc_collects d vss \<longleftrightarrow> d = \<lparr>mc_items = vss, mc_done = False\<rparr>"

lemma foldl_foldl: "foldl (foldl F) a vss = foldl F a (concat vss)"
  by (induction vss arbitrary: a) simp_all

lemma mc_values:
  assumes "mc_collects d vss" and "vss_ok vss" and "vss \<noteq> []" and "length (concat vss) < fuel"
  shows "cd_values fuel (must_reduce_combiner F Init junk) d acc = Inr (acc @ [foldl F (Init junk) (concat vss)])"
proof -
  have "concat vss \<noteq> []" using assms(2,3) by (cases vss) (auto simp: vss_ok_def)
  then have "0 < length (concat vss)" by blast
  then obtain n where "fuel = Suc (Suc n)" using assms(4) by (metis Suc_lessE less_trans_Suc not0_implies_Suc not_less_zero)
  then show ?thesis using assms(1) by (simp add: must_reduce_combiner_def mc_next_def mc_collects_def foldl_foldl)
qed

interpretation mustc: pp_combiner "must_reduce_combiner F Init junk" "(=)" mc_collects "\<lambda>vs. [foldl F (Init junk) vs]"
  for F :: "'v \<Rightarrow> 'v \<Rightarrow> 'v" and Init junk
proof (unfold_locales, goal_cases)
  case (8 d vss fuel acc)
  then show ?case by (rule mc_values)
qed (auto simp: must_reduce_combiner_def mc_collects_def vss_ok_def to_int32_id)

end
