(* ===== verification/PPContainer.thy ===== *)
theory PPContainer
  imports PPHashTable PPCombiner
begin

text \<open>
  The containers of \<open>src/sop1_parallelism/phoenix++/include/container.h\<close>, in which the threads of a map
  phase leave what they have emitted, and from which the reduce tasks fetch it. A template argument
  \<open>Container\<close> is a record of its operations. \<open>'p\<close> is the state of the container, \<open>'t\<close> its
  \<open>input_type\<close>, \<open>'it\<close> its \<open>iterator\<close> and \<open>'d\<close> its \<open>output_type\<close>.
\<close>

section \<open>The interface\<close>

text \<open>
  \<open>c_emit\<close> is \<open>i[k].add (v)\<close> on an input \<open>i\<close>. \<open>c_next\<close> takes what \<open>values\<close> holds and gives what
  \<open>next\<close> sets \<open>key\<close> and \<open>values\<close> to, or None where it returns false. \<open>c_close\<close> is the destructor of
  the iterator.
\<close>

record ('k, 'v, 'p, 't, 'it, 'd) container =
  c_init :: "'p \<Rightarrow> nat \<Rightarrow> nat \<Rightarrow> 'p"
  c_get :: "'p \<Rightarrow> nat \<Rightarrow> 't res"
  c_emit :: "'p \<Rightarrow> 't \<Rightarrow> 'k \<Rightarrow> 'v \<Rightarrow> ('p \<times> 't) res"
  c_add :: "'p \<Rightarrow> nat \<Rightarrow> 't \<Rightarrow> 'p res"
  c_begin :: "'p \<Rightarrow> nat \<Rightarrow> 'it res"
  c_next :: "'p \<Rightarrow> 'it \<Rightarrow> 'd \<Rightarrow> (('k \<times> 'd) option \<times> 'it) res"
  c_close :: "'p \<Rightarrow> 'it \<Rightarrow> 'p res"

text \<open>\<open>while (i.next (key, values)) body\<close>, with a bound on its rounds.\<close>

fun c_for ::
  "nat \<Rightarrow> ('k, 'v, 'p, 't, 'it, 'd) container \<Rightarrow> 'p \<Rightarrow> ('s \<Rightarrow> 'k \<times> 'd \<Rightarrow> 's res) \<Rightarrow> 'd \<Rightarrow> 's \<Rightarrow> 'it \<Rightarrow> ('it \<times> 's) res" where
  "c_for 0 C p body values s it = Inl No_fuel"
| "c_for (Suc fuel) C p body values s it =
     bindE (c_next C p it values) (\<lambda>(r, it).
     case r of
       None \<Rightarrow> Inr (it, s)
     | Some (key, values) \<Rightarrow> bindE (body s (key, values)) (\<lambda>s. c_for fuel C p body values s it))"

section \<open>\<open>unordered_map\<close>\<close>

text \<open>
  The entries of a \<open>std::tr1::unordered_map\<close>, the newest last: the iterators use it to combine by
  key. \<open>um_at\<close> updates the value \<open>combined[key]\<close>, which is there, newly made, if it was not before.
  The order in which the map is iterated over is the library's: \<open>pick\<close> chooses the next of the keys
  that are left.
\<close>

fun um_at :: "'d \<Rightarrow> 'k \<Rightarrow> ('d \<Rightarrow> 'd) \<Rightarrow> ('k \<times> 'd) list \<Rightarrow> ('k \<times> 'd) list" where
  "um_at new key f [] = [(key, f new)]"
| "um_at new key f ((k, d) # es) = (if k = key then (k, f d) # es else (k, d) # um_at new key f es)"

function um_order :: "('k list \<Rightarrow> nat) \<Rightarrow> ('k \<times> 'd) list \<Rightarrow> ('k \<times> 'd) list" where
  "um_order pick es =
     (if es = [] then []
      else (let i = pick (map fst es) mod length es
            in es ! i # um_order pick (take i es @ drop (Suc i) es)))"
  by pat_completeness auto
termination
proof (relation "measure (\<lambda>(pick, es). length es)")
  fix pick :: "'k list \<Rightarrow> nat" and es :: "('k \<times> 'd) list" and i
  assume "es \<noteq> []" and "i = pick (map fst es) mod length es"
  then have "i < length es" by simp
  then show "((pick, take i es @ drop (Suc i) es), pick, es) \<in> measure (\<lambda>(pick, es). length es)" by simp
qed simp

declare um_order.simps [simp del]

section \<open>\<open>hash_container\<close>\<close>

record ('k, 'c) hash_container_t =
  hc_vals :: "('k \<times> 'c) list list"
  hc_in_size :: nat
  hc_out_size :: nat

definition hc_init :: "('k, 'c) hash_container_t \<Rightarrow> nat \<Rightarrow> nat \<Rightarrow> ('k, 'c) hash_container_t" where
  "hc_init p in_size out_size =
     \<lparr>hc_vals = replicate (in_size * out_size) [], hc_in_size = in_size, hc_out_size = out_size\<rparr>"

definition hc_push ::
  "('k \<Rightarrow> 64 word) \<Rightarrow> ('v, 'c, 'd) combiner \<Rightarrow> nat \<Rightarrow> nat \<Rightarrow> nat \<Rightarrow> ('k \<times> 'c) list list \<Rightarrow> 'k \<times> 'c \<Rightarrow> ('k \<times> 'c) list list res" where
  "hc_push kh cb in_size out_size in_index vals e =
     (if cb_empty cb (snd e) then Inr vals
      else if out_size = 0 then Inl Div_by_zero
      else (let i = int (unat (kh (fst e)) mod out_size * in_size + in_index)
            in bindE (arr_get vals i) (\<lambda>row. arr_set vals i (row @ [e]))))"

definition hc_add ::
  "('k \<Rightarrow> 64 word) \<Rightarrow> ('v, 'c, 'd) combiner \<Rightarrow> ('k, 'c) hash_container_t \<Rightarrow> nat \<Rightarrow> ('k, 'c) hash_table \<Rightarrow>
   ('k, 'c) hash_container_t res" where
  "hc_add kh cb p in_index j =
     bindE (ht_iterate j (hc_push kh cb (hc_in_size p) (hc_out_size p) in_index) (hc_vals p)) (\<lambda>vals.
     Inr (p\<lparr>hc_vals := vals\<rparr>))"

definition um_combine :: "('v, 'c, 'd) combiner \<Rightarrow> ('k \<times> 'd) list \<Rightarrow> 'k \<times> 'c \<Rightarrow> ('k \<times> 'd) list" where
  "um_combine cb combined e = um_at (cd_new cb) (fst e) (\<lambda>d. cd_add cb d (snd e)) combined"

definition hc_begin ::
  "('v, 'c, 'd) combiner \<Rightarrow> ('k list \<Rightarrow> nat) \<Rightarrow> ('k, 'c) hash_container_t \<Rightarrow> nat \<Rightarrow> ('k \<times> 'd) list res" where
  "hc_begin cb pick p index =
     bindE (foldE (\<lambda>combined i.
              bindE (arr_get (hc_vals p) (int (index * hc_in_size p + i))) (\<lambda>iv.
              Inr (foldl (um_combine cb) combined iv))) [] [0..<hc_in_size p]) (\<lambda>combined.
     Inr (um_order pick combined))"

definition um_next :: "('k \<times> 'd) list \<Rightarrow> ('k \<times> 'd) option \<times> ('k \<times> 'd) list" where
  "um_next it = (case it of [] \<Rightarrow> (None, []) | e # it \<Rightarrow> (Some e, it))"

definition hash_container ::
  "('k \<Rightarrow> 64 word) \<Rightarrow> ('v, 'c, 'd) combiner \<Rightarrow> ('k list \<Rightarrow> nat) \<Rightarrow>
   ('k, 'v, ('k, 'c) hash_container_t, ('k, 'c) hash_table, ('k \<times> 'd) list, 'd) container" where
  "hash_container kh cb pick =
     \<lparr>c_init = hc_init,
      c_get = (\<lambda>p in_index. ht_new kh),
      c_emit = (\<lambda>p i k v. bindE (ht_update kh (cb_new cb) k (\<lambda>c. cb_add cb c v) i) (\<lambda>i. Inr (p, i))),
      c_add = hc_add kh cb,
      c_begin = hc_begin cb pick,
      c_next = (\<lambda>p it values. Inr (um_next it)),
      c_close = (\<lambda>p it. Inr p)\<rparr>"

section \<open>\<open>array_container\<close> and \<open>common_array_container\<close>\<close>

text \<open>Keys are indices below \<open>N\<close>; \<open>i[k]\<close> on a pointer is an array access.\<close>

record 'c array_container_t =
  ar_vals :: "'c list"
  ar_in_size :: nat
  ar_out_size :: nat

definition arr_modify :: "'a list \<Rightarrow> int \<Rightarrow> ('a \<Rightarrow> 'a) \<Rightarrow> 'a list res" where
  "arr_modify xs i f = bindE (arr_get xs i) (\<lambda>x. arr_set xs i (f x))"

definition ar_add :: "nat \<Rightarrow> 'c array_container_t \<Rightarrow> nat \<Rightarrow> 'c list \<Rightarrow> 'c array_container_t res" where
  "ar_add N p in_index j =
     bindE (foldE (\<lambda>vals i.
              bindE (arr_get j (int i)) (\<lambda>c. arr_set vals (int (i * ar_in_size p + in_index)) c)) (ar_vals p) [0..<N]) (\<lambda>vals.
     Inr (p\<lparr>ar_vals := vals\<rparr>))"

definition ar_next ::
  "nat \<Rightarrow> ('v, 'c, 'd) combiner \<Rightarrow> 'c array_container_t \<Rightarrow> nat \<Rightarrow> 'd \<Rightarrow> ((int \<times> 'd) option \<times> nat) res" where
  "ar_next N cb p i values =
     (if i \<ge> N then Inr (None, i)
      else bindE (foldE (\<lambda>values j.
             bindE (arr_get (ar_vals p) (int (i * ar_in_size p + j))) (\<lambda>c.
             Inr (if \<not> cb_empty cb c then cd_add cb values c else values))) (cd_clear cb values) [0..<ar_in_size p]) (\<lambda>values.
           Inr (Some (int i, values), i + ar_in_size p)))"

definition array_container ::
  "nat \<Rightarrow> ('v, 'c, 'd) combiner \<Rightarrow> (int, 'v, 'c array_container_t, 'c list, nat, 'd) container" where
  "array_container N cb =
     \<lparr>c_init = (\<lambda>p in_size out_size.
        \<lparr>ar_vals = replicate (in_size * N) (cb_new cb), ar_in_size = in_size, ar_out_size = out_size\<rparr>),
      c_get = (\<lambda>p in_index. Inr (replicate N (cb_new cb))),
      c_emit = (\<lambda>p i k v. bindE (arr_modify i k (\<lambda>c. cb_add cb c v)) (\<lambda>i. Inr (p, i))),
      c_add = ar_add N,
      c_begin = (\<lambda>p out_index. Inr out_index),
      c_next = ar_next N cb,
      c_close = (\<lambda>p it. Inr p)\<rparr>"

text \<open>All threads write to the array of the container.\<close>

definition ca_next ::
  "nat \<Rightarrow> ('v, 'c, 'd) combiner \<Rightarrow> 'c array_container_t \<Rightarrow> nat \<Rightarrow> 'd \<Rightarrow> ((int \<times> 'd) option \<times> nat) res" where
  "ca_next N cb p i values =
     (if i \<ge> N then Inr (None, i)
      else bindE (arr_get (ar_vals p) (int i)) (\<lambda>c.
           Inr (Some (int i, cd_add cb (cd_clear cb values) c), i + ar_in_size p)))"

definition common_array_container ::
  "nat \<Rightarrow> ('v, 'c, 'd) combiner \<Rightarrow> (int, 'v, 'c array_container_t, unit, nat, 'd) container" where
  "common_array_container N cb =
     \<lparr>c_init = (\<lambda>p in_size out_size.
        \<lparr>ar_vals = replicate N (cb_new cb), ar_in_size = in_size, ar_out_size = out_size\<rparr>),
      c_get = (\<lambda>p in_index. Inr ()),
      c_emit = (\<lambda>p i k v. bindE (arr_modify (ar_vals p) k (\<lambda>c. cb_add cb c v)) (\<lambda>vals. Inr (p\<lparr>ar_vals := vals\<rparr>, i))),
      c_add = (\<lambda>p in_index j. Inr p),
      c_begin = (\<lambda>p out_index. Inr out_index),
      c_next = ca_next N cb,
      c_close = (\<lambda>p it. Inr p)\<rparr>"

section \<open>\<open>fixed_hash_container\<close>\<close>

text \<open>A table is \<open>N\<close> buckets; a bucket that has been freed is None.\<close>

type_synonym ('k, 'c) fixed_table = "('k \<times> 'c) list option list"

record ('k, 'c) fixed_hash_container_t =
  fc_tables :: "('k, 'c) fixed_table list"
  fc_in_size :: nat
  fc_out_size :: nat

definition fixed_table_new :: "nat \<Rightarrow> ('k, 'c) fixed_table" where
  "fixed_table_new N = replicate N (Some [])"

definition get_bucket :: "('k, 'c) fixed_table \<Rightarrow> nat \<Rightarrow> ('k \<times> 'c) list res" where
  "get_bucket t i = bindE (arr_get t (int i)) (\<lambda>b. case b of None \<Rightarrow> Inl Bad_access | Some b \<Rightarrow> Inr b)"

definition fixed_at :: "nat \<Rightarrow> ('k \<Rightarrow> 64 word) \<Rightarrow> 'c \<Rightarrow> 'k \<Rightarrow> ('c \<Rightarrow> 'c) \<Rightarrow> ('k, 'c) fixed_table \<Rightarrow> ('k, 'c) fixed_table res" where
  "fixed_at N kh new key f t =
     (if N = 0 then Inl Div_by_zero
      else (let i = unat (kh key) mod N
            in bindE (get_bucket t i) (\<lambda>b. arr_set t (int i) (Some (um_at new key f b)))))"

definition fc_add :: "nat \<Rightarrow> ('k, 'c) fixed_hash_container_t \<Rightarrow> nat \<Rightarrow> ('k, 'c) fixed_table \<Rightarrow> ('k, 'c) fixed_hash_container_t res" where
  "fc_add N p in_index j =
     bindE (arr_get (fc_tables p) (int in_index)) (\<lambda>table.
     bindE (foldE (\<lambda>table i. bindE (arr_get j (int i)) (arr_set table (int i))) table [0..<N]) (\<lambda>table.
     bindE (arr_set (fc_tables p) (int in_index) table) (\<lambda>tables.
     Inr (p\<lparr>fc_tables := tables\<rparr>))))"

text \<open>The buckets of a reduce task, from \<open>begin_idx\<close> to before \<open>end_idx\<close>.\<close>

definition bucket_range :: "nat \<Rightarrow> nat \<Rightarrow> nat \<Rightarrow> (nat \<times> nat) res" where
  "bucket_range N out_size index =
     (if out_size = 0 then Inl Div_by_zero
      else (let per_task = (if N div out_size = 0 then 1 else N div out_size);
                remainder = N mod out_size;
                begin_idx = per_task * index + (if index < remainder then index else remainder)
            in Inr (begin_idx, begin_idx + per_task + (if index < remainder then 1 else 0))))"

record ('k, 'd) fixed_iterator =
  fi_range :: "(nat \<times> nat) option"
  fi_left :: "('k \<times> 'd) list"

definition fc_begin ::
  "nat \<Rightarrow> ('v, 'c, 'd) combiner \<Rightarrow> ('k list \<Rightarrow> nat) \<Rightarrow> ('k, 'c) fixed_hash_container_t \<Rightarrow> nat \<Rightarrow> ('k, 'd) fixed_iterator res" where
  "fc_begin N cb pick p index =
     (if index < N then
        bindE (bucket_range N (fc_out_size p) index) (\<lambda>(begin_idx, end_idx).
        bindE (foldE (\<lambda>combined bucket_idx.
                 foldE (\<lambda>combined i.
                   bindE (arr_get (fc_tables p) (int i)) (\<lambda>table.
                   bindE (get_bucket table bucket_idx) (\<lambda>b.
                   Inr (foldl (um_combine cb) combined b)))) combined [0..<fc_in_size p]) [] [begin_idx..<end_idx]) (\<lambda>combined.
        Inr \<lparr>fi_range = Some (begin_idx, end_idx), fi_left = um_order pick combined\<rparr>))
      else Inr \<lparr>fi_range = None, fi_left = []\<rparr>)"

text \<open>The destructor frees the buckets; without a range its bounds have never been set.\<close>

definition fc_close :: "('k, 'c) fixed_hash_container_t \<Rightarrow> ('k, 'd) fixed_iterator \<Rightarrow> ('k, 'c) fixed_hash_container_t res" where
  "fc_close p it =
     (case fi_range it of
        None \<Rightarrow> Inl Bad_access
      | Some (begin_idx, end_idx) \<Rightarrow>
          bindE (foldE (\<lambda>tables bucket_idx.
                   foldE (\<lambda>tables i.
                     bindE (arr_get tables (int i)) (\<lambda>table.
                     bindE (arr_get table (int bucket_idx)) (\<lambda>b.
                     if b = None then Inl Bad_free
                     else bindE (arr_set table (int bucket_idx) None) (\<lambda>table. arr_set tables (int i) table)))) tables [0..<fc_in_size p])
                   (fc_tables p) [begin_idx..<end_idx]) (\<lambda>tables.
          Inr (p\<lparr>fc_tables := tables\<rparr>)))"

definition fixed_hash_container ::
  "nat \<Rightarrow> ('k \<Rightarrow> 64 word) \<Rightarrow> ('v, 'c, 'd) combiner \<Rightarrow> ('k list \<Rightarrow> nat) \<Rightarrow>
   ('k, 'v, ('k, 'c) fixed_hash_container_t, ('k, 'c) fixed_table, ('k, 'd) fixed_iterator, 'd) container" where
  "fixed_hash_container N kh cb pick =
     \<lparr>c_init = (\<lambda>p in_size out_size.
        \<lparr>fc_tables = replicate in_size (fixed_table_new N), fc_in_size = in_size, fc_out_size = out_size\<rparr>),
      c_get = (\<lambda>p in_index. Inr (fixed_table_new N)),
      c_emit = (\<lambda>p i k v. bindE (fixed_at N kh (cb_new cb) k (\<lambda>c. cb_add cb c v) i) (\<lambda>i. Inr (p, i))),
      c_add = fc_add N,
      c_begin = fc_begin N cb pick,
      c_next = (\<lambda>p it values. case um_next (fi_left it) of (r, l) \<Rightarrow> Inr (r, it\<lparr>fi_left := l\<rparr>)),
      c_close = fc_close\<rparr>"

end
