(* ===== verification/PPTaskQueue.thy ===== *)
theory PPTaskQueue
  imports Processor
begin

text \<open>
  Where the threads of Phoenix++ run and how they share tasks: \<open>processor.h\<close>, \<open>locality.h\<close> and
  \<open>scheduler.h\<close> (the Linux variants, with and without NUMA support), \<open>struct thread_loc\<close>, and
  \<open>task_queue.cpp\<close>, all under \<open>src/sop1_parallelism/phoenix++\<close>. A method of the task queue holds a lock
  whenever it looks at a queue. During a phase tasks are only taken out, so that a queue that was
  seen empty stays empty, and a call of \<open>dequeue\<close> has the effect it would have if it happened at
  once when it takes its task, or, if it takes none, at its end: it is one step here.
\<close>

section \<open>Processors and localities\<close>

record numa_os = os_t +
  numa_max_node :: int
  get_mempolicy :: "64 word \<Rightarrow> int"

definition pp_num_cpus :: "'a os_t_scheme \<Rightarrow> int" where
  "pp_num_cpus os =
     (let num_cpus = nprocessors_onln os in
      case mapred_nprocessors os of
        None \<Rightarrow> num_cpus
      | Some temp \<Rightarrow> if temp < 1 \<or> temp > num_cpus then 0 else temp)"

definition pp_bind_thread :: "'a os_t_scheme \<Rightarrow> int \<Rightarrow> int" where
  "pp_bind_thread os cpu_id = setaffinity os (CPU_SET cpu_id {})"

definition pp_cpuid :: "'a os_t_scheme \<Rightarrow> int" where
  "pp_cpuid os = (case getaffinity os of None \<Rightarrow> -1 | Some cs \<Rightarrow> int (first_cpu cs 0 CPU_SETSIZE))"

definition pp_num_lgrps :: int where
  "pp_num_lgrps = 1"

definition pp_num_lgrps_numa :: "'a numa_os_scheme \<Rightarrow> int" where
  "pp_num_lgrps_numa os = numa_max_node os + 1"

definition pp_lgrp :: int where
  "pp_lgrp = -1"

definition pp_lgrp_numa :: "'a numa_os_scheme \<Rightarrow> int res" where
  "pp_lgrp_numa os =
     bindE (c_div (pp_num_cpus os) (pp_num_lgrps_numa os)) (\<lambda>per_lgrp. c_div (pp_cpuid os) per_lgrp)"

definition pp_mem_to_lgrp :: "64 word \<Rightarrow> int" where
  "pp_mem_to_lgrp addr = -1"

definition pp_mem_to_lgrp_numa :: "'a numa_os_scheme \<Rightarrow> 64 word \<Rightarrow> int" where
  "pp_mem_to_lgrp_numa os addr = get_mempolicy os addr"

section \<open>Scheduling policies\<close>

datatype pp_policy_class = Strand_fill | Core_fill | Chip_fill

record pp_policy =
  pol_class :: pp_policy_class
  pol_num_cpus :: int
  pol_num_chips_per_sys :: int
  pol_offset :: int

definition pp_policy_new :: "'a os_t_scheme \<Rightarrow> pp_policy_class \<Rightarrow> int \<Rightarrow> pp_policy" where
  "pp_policy_new os cls offset =
     \<lparr>pol_class = cls, pol_num_cpus = pp_num_cpus os, pol_num_chips_per_sys = pp_num_lgrps, pol_offset = offset\<rparr>"

definition pp_thr_to_cpu :: "pp_policy \<Rightarrow> int \<Rightarrow> int res" where
  "pp_thr_to_cpu pol thr =
     (case pol_class pol of
        Strand_fill \<Rightarrow> c_rem (thr + pol_offset pol) (pol_num_cpus pol)
      | Core_fill \<Rightarrow> c_rem (thr + pol_offset pol) (pol_num_cpus pol)
      | Chip_fill \<Rightarrow> c_rem (thr + pol_offset pol) (pol_num_cpus pol))"

section \<open>The task queue\<close>

record thread_loc =
  tl_thread :: int
  tl_cpu :: int
  tl_lgrp :: int
  tl_seed :: "32 word"

record pp_task =
  pt_id :: "64 word"
  pt_len :: "64 word"
  pt_data :: "64 word"
  pt_pad :: "64 word"

record pp_task_queue =
  pq_num_queues :: int
  pq_num_threads :: int
  pq_queues :: "pp_task list list"

definition pq_new :: "int \<Rightarrow> int \<Rightarrow> pp_task_queue res" where
  "pq_new sub_queues num_threads =
     (if sub_queues < 0 then Inl Bad_alloc
      else Inr \<lparr>pq_num_queues = sub_queues, pq_num_threads = num_threads, pq_queues = replicate (nat sub_queues) []\<rparr>)"

text \<open>
  The queue for a task. The branches of the conditional have the type \<open>uint64_t\<close> of \<open>task.id\<close>;
  \<open>rnd\<close> is what \<open>rand\<close> returns.
\<close>

definition pq_index :: "pp_task_queue \<Rightarrow> int \<Rightarrow> pp_task \<Rightarrow> int \<Rightarrow> int \<Rightarrow> int res" where
  "pq_index q rnd task total_tasks lgrp =
     c_rem (to_int32 (uint (
       if lgrp < 0 then
         (if total_tasks > 0 then pt_id task * word_of_int (pq_num_queues q) div word_of_int total_tasks
          else word_of_int rnd)
       else (word_of_int lgrp :: 64 word)))) (pq_num_queues q)"

definition pq_push :: "pp_task_queue \<Rightarrow> int \<Rightarrow> pp_task \<Rightarrow> pp_task_queue res" where
  "pq_push q index task =
     bindE (arr_get (pq_queues q) index) (\<lambda>l.
     bindE (arr_set (pq_queues q) index (l @ [task])) (\<lambda>queues.
     Inr (q\<lparr>pq_queues := queues\<rparr>)))"

definition pq_enqueue_seq :: "int \<Rightarrow> pp_task_queue \<Rightarrow> pp_task \<Rightarrow> int \<Rightarrow> int \<Rightarrow> pp_task_queue res" where
  "pq_enqueue_seq rnd q task total_tasks lgrp =
     bindE (pq_index q rnd task total_tasks lgrp) (\<lambda>index. pq_push q index task)"

text \<open>\<open>rand_r\<close> gives a number and the new seed; it is called only where its result is used.\<close>

definition pq_enqueue ::
  "(32 word \<Rightarrow> int \<times> 32 word) \<Rightarrow> pp_task_queue \<Rightarrow> pp_task \<Rightarrow> thread_loc \<Rightarrow> int \<Rightarrow> int \<Rightarrow> (thread_loc \<times> pp_task_queue) res" where
  "pq_enqueue rand_r q task loc total_tasks lgrp =
     (case (if lgrp < 0 \<and> \<not> total_tasks > 0 then rand_r (tl_seed loc) else (0, tl_seed loc)) of
        (rnd, seed) \<Rightarrow>
          bindE (pq_index q rnd task total_tasks lgrp) (\<lambda>index.
          bindE (pq_push q index task) (\<lambda>q.
          Inr (loc\<lparr>tl_seed := seed\<rparr>, q))))"

text \<open>
  \<open>dequeue\<close> looks at the queues from that of the thread's locality on. It takes the oldest task of
  its own queue and the newest of another.
\<close>

definition pq_take :: "pp_task_queue \<Rightarrow> int \<Rightarrow> bool \<Rightarrow> (pp_task option \<times> pp_task_queue) res" where
  "pq_take q idx own =
     bindE (arr_get (pq_queues q) idx) (\<lambda>l.
     if l = [] then Inr (None, q)
     else bindE (arr_set (pq_queues q) idx (if own then tl l else butlast l)) (\<lambda>queues.
          Inr (Some (if own then hd l else last l), q\<lparr>pq_queues := queues\<rparr>)))"

fun pq_scan :: "nat \<Rightarrow> pp_task_queue \<Rightarrow> int \<Rightarrow> int \<Rightarrow> (pp_task option \<times> pp_task_queue) res" where
  "pq_scan 0 q index i = Inr (None, q)"
| "pq_scan (Suc n) q index i =
     bindE (c_rem i (pq_num_queues q)) (\<lambda>idx.
     bindE (pq_take q idx (idx = index)) (\<lambda>(r, q).
     case r of Some task \<Rightarrow> Inr (Some task, q) | None \<Rightarrow> pq_scan n q index (i + 1)))"

definition pq_dequeue :: "pp_task_queue \<Rightarrow> thread_loc \<Rightarrow> (pp_task option \<times> pp_task_queue) res" where
  "pq_dequeue q loc =
     (let index = (if tl_lgrp loc < 0 then tl_cpu loc else tl_lgrp loc)
      in pq_scan (nat (pq_num_queues q)) q index index)"

section \<open>Properties\<close>

definition pq_ok :: "pp_task_queue \<Rightarrow> bool" where
  "pq_ok q \<longleftrightarrow> pq_queues q \<noteq> [] \<and> length (pq_queues q) < 2 ^ 31 \<and> pq_num_queues q = int (length (pq_queues q))"

definition pq_tasks :: "pp_task_queue \<Rightarrow> pp_task list" where
  "pq_tasks q = concat (pq_queues q)"

definition loc_index :: "thread_loc \<Rightarrow> int" where
  "loc_index loc = (if tl_lgrp loc < 0 then tl_cpu loc else tl_lgrp loc)"

lemma pq_new_ok: "0 < n \<Longrightarrow> n < 2 ^ 31 \<Longrightarrow> \<exists>q. pq_new n m = Inr q \<and> pq_ok q \<and> pq_tasks q = [] \<and> pq_num_queues q = n"
  by (simp add: pq_new_def pq_ok_def pq_tasks_def)

text \<open>A task goes into one of the queues, which one by its number if its locality is not known.\<close>

lemma c_rem_less: "0 \<le> a \<Longrightarrow> 0 < b \<Longrightarrow> \<exists>i. c_rem a b = Inr (int i) \<and> int i < b"
  by (intro exI [of _ "nat (a mod b)"]) (simp add: c_rem_pos)

lemma pq_push_ok:
  assumes "pq_ok q" and "int i < pq_num_queues q"
  shows "\<exists>q'. pq_push q (int i) task = Inr q' \<and> pq_ok q' \<and> pq_num_queues q' = pq_num_queues q \<and>
    mset (pq_tasks q') = add_mset task (mset (pq_tasks q))"
proof -
  have i: "i < length (pq_queues q)" using assms by (simp add: pq_ok_def)
  have "mset (concat ((pq_queues q)[i := pq_queues q ! i @ [task]])) + mset (pq_queues q ! i) =
    mset (concat (pq_queues q)) + mset (pq_queues q ! i @ [task])" by (rule concat_update_mset [OF i])
  then show ?thesis using i assms by (simp add: pq_push_def pq_ok_def pq_tasks_def)
qed

lemma pq_index_ok:
  assumes q: "pq_ok q" and lgrp: "lgrp < 2 ^ 31" and tot: "tot < 2 ^ 31" and id: "unat (pt_id task) < tot"
  shows "\<exists>i. pq_index q rnd task (int tot) lgrp = Inr (int i) \<and> int i < pq_num_queues q"
proof -
  have nq: "0 < pq_num_queues q" "pq_num_queues q < 2 ^ 31" using q by (simp_all add: pq_ok_def)
  show ?thesis
  proof (cases "lgrp < 0")
    case False
    then have "uint (word_of_int lgrp :: 64 word) = lgrp" using lgrp by (simp add: uint_word_of_int take_bit_int_eq_self_iff)
    moreover have "to_int32 lgrp = lgrp" using False lgrp by (intro to_int32_id) simp_all
    ultimately show ?thesis using c_rem_less [of lgrp "pq_num_queues q"] False nq by (simp add: pq_index_def)
  next
    case True
    define a where "a = nat (pq_num_queues q)"
    define k where "k = unat (pt_id task)"
    have ab: "pq_num_queues q = int a" "0 < a" "a < 2 ^ 31" "0 < tot" "tot < 2 ^ 31" "k < tot"
      using nq tot id by (simp_all add: a_def k_def)
    have "k * a < 2 ^ 31 * 2 ^ 31" by (rule mult_strict_mono) (use ab in simp_all)
    then have ka: "k * a < 2 ^ 64" by simp
    have ua: "unat (word_of_int (int a) :: 64 word) = a" using ab(3) by (simp add: unat_of_nat take_bit_nat_eq_self_iff)
    have ub: "unat (word_of_int (int tot) :: 64 word) = tot" using ab(5) by (simp add: unat_of_nat take_bit_nat_eq_self_iff)
    have "unat (pt_id task * word_of_int (int a)) = k * a"
      using ka ua by (simp add: unat_word_ariths k_def)
    then have w: "unat (pt_id task * word_of_int (int a) div word_of_int (int tot)) = k * a div tot"
      using ub by (simp add: unat_div)
    have "k * a < tot * a" using ab(2,6) by simp
    then have r: "k * a div tot < a" using ab(4) by (simp add: div_less_iff_less_mult mult.commute)
    have "uint (pt_id task * word_of_int (int a) div word_of_int (int tot)) = int (k * a div tot)"
      unfolding w [symmetric] by simp
    moreover have "to_int32 (int (k * a div tot)) = int (k * a div tot)"
    proof (rule to_int32_id)
      show "int (k * a div tot) < 2 ^ 31" using r ab(3) by simp
    qed simp
    ultimately have "pq_index q rnd task (int tot) lgrp = c_rem (int (k * a div tot)) (int a)"
      using True ab(4) by (simp add: pq_index_def ab(1))
    then show ?thesis using c_rem_less [of "int (k * a div tot)" "int a"] ab(1,2) r by simp
  qed
qed

lemma pq_enqueue_seq_ok:
  assumes "pq_ok q" and "lgrp < 2 ^ 31" and "tot < 2 ^ 31" and "unat (pt_id task) < tot"
  shows "\<exists>q'. pq_enqueue_seq rnd q task (int tot) lgrp = Inr q' \<and> pq_ok q' \<and> pq_num_queues q' = pq_num_queues q \<and>
    mset (pq_tasks q') = add_mset task (mset (pq_tasks q))"
proof -
  obtain i where i: "pq_index q rnd task (int tot) lgrp = Inr (int i)" "int i < pq_num_queues q"
    using pq_index_ok [OF assms] by blast
  then show ?thesis using pq_push_ok [OF assms(1) i(2), of task] by (simp add: pq_enqueue_seq_def)
qed

text \<open>A scan takes a task if there is any and otherwise changes nothing.\<close>

lemma pq_take_ok:
  assumes q: "pq_ok q" and i: "int i < pq_num_queues q"
  shows "(\<exists>task q'. pq_take q (int i) own = Inr (Some task, q') \<and> pq_ok q' \<and> pq_num_queues q' = pq_num_queues q \<and>
      mset (pq_tasks q) = add_mset task (mset (pq_tasks q'))) \<or>
    (pq_take q (int i) own = Inr (None, q) \<and> pq_queues q ! i = [])"
proof (cases "pq_queues q ! i = []")
  case True
  then show ?thesis using assms by (simp add: pq_take_def pq_ok_def)
next
  case False
  let ?l = "pq_queues q ! i"
  let ?l' = "if own then tl ?l else butlast ?l" and ?x = "if own then hd ?l else last ?l"
  have il: "i < length (pq_queues q)" using assms by (simp add: pq_ok_def)
  have l: "mset ?l = add_mset ?x (mset ?l')"
  proof (cases own)
    case True
    then show ?thesis using False by (cases ?l) simp_all
  next
    case False
    have "mset (butlast ?l @ [last ?l]) = mset ?l" using \<open>?l \<noteq> []\<close> by simp
    then show ?thesis using False by simp
  qed
  have "mset (concat ((pq_queues q)[i := ?l'])) + mset ?l = mset (concat (pq_queues q)) + mset ?l'"
    by (rule concat_update_mset [OF il])
  then have "mset (concat (pq_queues q)) = add_mset ?x (mset (concat ((pq_queues q)[i := ?l'])))" using l by simp
  then show ?thesis using il False q by (simp add: pq_take_def pq_ok_def pq_tasks_def)
qed

lemma pq_scan_ok:
  assumes "pq_ok q" and "0 \<le> i"
  shows "(\<exists>task q'. pq_scan n q index i = Inr (Some task, q') \<and> pq_ok q' \<and> pq_num_queues q' = pq_num_queues q \<and>
      mset (pq_tasks q) = add_mset task (mset (pq_tasks q'))) \<or>
    (pq_scan n q index i = Inr (None, q) \<and> (\<forall>m < n. pq_queues q ! (nat (i + int m) mod length (pq_queues q)) = []))"
  using assms
proof (induction n arbitrary: i)
  case (Suc n)
  have nq: "0 < pq_num_queues q" "pq_num_queues q = int (length (pq_queues q))" using Suc.prems(1) by (simp_all add: pq_ok_def)
  define j where "j = nat i mod length (pq_queues q)"
  have j: "c_rem i (pq_num_queues q) = Inr (int j)"
    using Suc.prems(2) nq by (simp add: c_rem_pos j_def zmod_int)
  have jq: "int j < pq_num_queues q" using nq by (simp add: j_def)
  from pq_take_ok [OF Suc.prems(1) jq, of "int j = index"] show ?case
  proof
    assume "\<exists>task q'. pq_take q (int j) (int j = index) = Inr (Some task, q') \<and> pq_ok q' \<and> pq_num_queues q' = pq_num_queues q \<and>
      mset (pq_tasks q) = add_mset task (mset (pq_tasks q'))"
    then show ?thesis using j by auto
  next
    assume e: "pq_take q (int j) (int j = index) = Inr (None, q) \<and> pq_queues q ! j = []"
    have step: "pq_scan (Suc n) q index i = pq_scan n q index (i + 1)" using j e by simp
    have IH: "(\<exists>task q'. pq_scan n q index (i + 1) = Inr (Some task, q') \<and> pq_ok q' \<and> pq_num_queues q' = pq_num_queues q \<and>
        mset (pq_tasks q) = add_mset task (mset (pq_tasks q'))) \<or>
      (pq_scan n q index (i + 1) = Inr (None, q) \<and> (\<forall>m < n. pq_queues q ! (nat (i + 1 + int m) mod length (pq_queues q)) = []))"
      using Suc.IH [of "i + 1"] Suc.prems by simp
    have "pq_queues q ! (nat (i + int m) mod length (pq_queues q)) = []"
      if "\<forall>m < n. pq_queues q ! (nat (i + 1 + int m) mod length (pq_queues q)) = []" "m < Suc n" for m
      using that e by (cases m) (auto simp: j_def add.assoc)
    then show ?thesis using IH unfolding step by blast
  qed
qed simp

theorem pq_dequeue_ok:
  assumes "pq_ok q" and "0 \<le> loc_index loc"
  shows "(\<exists>task q'. pq_dequeue q loc = Inr (Some task, q') \<and> pq_ok q' \<and> pq_num_queues q' = pq_num_queues q \<and>
      mset (pq_tasks q) = add_mset task (mset (pq_tasks q'))) \<or>
    (pq_dequeue q loc = Inr (None, q) \<and> pq_tasks q = [])"
proof -
  let ?i = "loc_index loc" and ?n = "length (pq_queues q)"
  have n: "nat (pq_num_queues q) = ?n" using assms(1) by (simp add: pq_ok_def)
  have d: "pq_dequeue q loc = pq_scan ?n q ?i ?i" by (simp add: pq_dequeue_def loc_index_def Let_def n)
  have "pq_tasks q = []" if e: "\<forall>m < ?n. pq_queues q ! (nat (?i + int m) mod ?n) = []"
  proof -
    have "pq_queues q ! j = []" if j: "j < ?n" for j
    proof -
      obtain m where "m < ?n" "(nat ?i + m) mod ?n = j" using ex_offset [OF j, of "nat ?i"] by blast
      then show ?thesis using e assms(2) by (auto simp: nat_add_distrib)
    qed
    then show ?thesis by (auto simp: pq_tasks_def in_set_conv_nth)
  qed
  then show ?thesis using pq_scan_ok [OF assms, of ?n ?i] unfolding d by blast
qed

lemma pp_thr_to_cpu_ok:
  "0 \<le> thr \<Longrightarrow> 0 \<le> pol_offset pol \<Longrightarrow> 0 < pol_num_cpus pol \<Longrightarrow> pp_thr_to_cpu pol thr = Inr ((thr + pol_offset pol) mod pol_num_cpus pol)"
  by (cases "pol_class pol") (simp_all add: pp_thr_to_cpu_def c_rem_pos)

text \<open>
  A thread whose index is not below the number of queues never takes the oldest task: its own queue
  is compared with the index before the remainder is taken.
\<close>

lemma pq_scan_steals:
  assumes "pq_ok q" and "pq_num_queues q \<le> index"
  shows "pq_scan n q index i = Inr (Some task, q') \<Longrightarrow> 0 \<le> i \<Longrightarrow> \<exists>l \<in> set (pq_queues q). l \<noteq> [] \<and> task = last l"
proof (induction n arbitrary: i)
  case (Suc n)
  have nq: "0 < pq_num_queues q" "pq_num_queues q = int (length (pq_queues q))" using assms(1) by (simp_all add: pq_ok_def)
  obtain j where j: "c_rem i (pq_num_queues q) = Inr (int j)" "int j < pq_num_queues q"
    using c_rem_less [OF Suc.prems(2) nq(1)] by blast
  have jl: "j < length (pq_queues q)" using j(2) nq(2) by simp
  have own: "int j \<noteq> index" using j(2) assms(2) by simp
  show ?case
  proof (cases "pq_queues q ! j = []")
    case True
    then show ?thesis using Suc j(1) jl by (simp add: pq_take_def)
  next
    case False
    then have "task = last (pq_queues q ! j)" using Suc.prems j(1) jl own by (auto simp: pq_take_def)
    then show ?thesis using False jl nth_mem by blast
  qed
qed simp

end
