(* ===== verification/PPMapReduce.thy ===== *)
theory PPMapReduce
  imports PPContainer PPTaskQueue Workers
begin

text \<open>
  The class \<open>MapReduce\<close> of \<open>src/sop1_parallelism/phoenix++/include/map_reduce.h\<close>. Its template
  arguments and what an application overrides are a record of functions. Time stamps and debug
  output are left out.
\<close>

section \<open>State\<close>

text \<open>
  \<open>cl_map x\<close> lists the pairs that \<open>map\<close> emits on the element \<open>x\<close>; \<open>cl_reduce\<close> takes and gives the
  vector \<open>out\<close>; \<open>cl_lgrp i\<close> is the locality of the memory that \<open>locate\<close> names for the piece from
  element \<open>i\<close> on; \<open>cl_rounds\<close> bounds the loops over an iterator.
\<close>

record ('x, 'k, 'v, 'c, 'd, 'p, 't, 'it) mr_class =
  cl_container :: "('k, 'v, 'p, 't, 'it, 'd) container"
  cl_combiner :: "('v, 'c, 'd) combiner"
  cl_map :: "'x \<Rightarrow> ('k \<times> 'v) list"
  cl_reduce :: "'k \<Rightarrow> 'd \<Rightarrow> ('k \<times> 'v) list \<Rightarrow> ('k \<times> 'v) list res"
  cl_lgrp :: "nat \<Rightarrow> int"
  cl_rounds :: nat

text \<open>
  \<open>mr_locs\<close> are the locations of the threads of the pool; \<open>mr_inputs\<close> has the local variable \<open>t\<close> of
  each thread inside \<open>map_worker\<close>; \<open>mr_merge_vals\<close> are the arrays that a merge reads.
\<close>

record ('k, 'v, 'p, 't) pp_state =
  mr_num_threads :: nat
  mr_first :: bool
  mr_locs :: "thread_loc list"
  mr_queue :: pp_task_queue
  mr_container :: 'p
  mr_final_vals :: "('k \<times> 'v) list list"
  mr_merge_vals :: "('k \<times> 'v) list list"
  mr_num_map_tasks :: nat
  mr_num_reduce_tasks :: nat
  mr_inputs :: "'t option list"

text \<open>The default \<open>reduce\<close>.\<close>

definition default_reduce :: "nat \<Rightarrow> ('v, 'c, 'd) combiner \<Rightarrow> 'k \<Rightarrow> 'd \<Rightarrow> ('k \<times> 'v) list \<Rightarrow> ('k \<times> 'v) list res" where
  "default_reduce rounds cb key values out =
     bindE (cd_values rounds cb values []) (\<lambda>vals. Inr (out @ map (Pair key) vals))"

section \<open>Threads\<close>

text \<open>The thread pool's constructor: where its threads run.\<close>

definition pool_locs :: "pp_policy \<Rightarrow> int \<Rightarrow> (nat \<Rightarrow> int) \<Rightarrow> thread_loc list res" where
  "pool_locs policy num_threads lgrp =
     (if num_threads < 0 then Inl Bad_alloc
      else mapE (\<lambda>i. bindE (pp_thr_to_cpu policy (int i)) (\<lambda>cpu.
                     Inr \<lparr>tl_thread = int i, tl_cpu = cpu, tl_lgrp = lgrp i, tl_seed = word_of_nat i\<rparr>)) [0..<nat num_threads])"

definition set_threads ::
  "pp_policy \<Rightarrow> (nat \<Rightarrow> int) \<Rightarrow> int \<Rightarrow> ('k, 'v, 'p, 't) pp_state \<Rightarrow> ('k, 'v, 'p, 't) pp_state res" where
  "set_threads policy lgrp num_threads st =
     (let st = st\<lparr>mr_num_threads := (if num_threads > 0 then nat num_threads else mr_num_threads st)\<rparr>
      in bindE (pool_locs policy num_threads lgrp) (\<lambda>locs.
         bindE (pq_new num_threads num_threads) (\<lambda>q.
         Inr (st\<lparr>mr_locs := locs, mr_queue := q, mr_inputs := replicate (nat num_threads) None\<rparr>))))"

text \<open>The constructor; \<open>env\<close> is \<open>atoi\<close> of \<open>MR_NUMTHREADS\<close>, which is 0 when it is not set.\<close>

definition mr_new :: "'a os_t_scheme \<Rightarrow> (nat \<Rightarrow> int) \<Rightarrow> int \<Rightarrow> ('k, 'v, 'p, 't) pp_state \<Rightarrow> ('k, 'v, 'p, 't) pp_state res" where
  "mr_new os lgrp env st =
     set_threads (pp_policy_new os Strand_fill 0) lgrp (if env > 0 then env else pp_num_cpus os) st"

text \<open>
  \<open>thread_pool::set\<close>, \<open>begin\<close> and \<open>wait\<close>: worker \<open>i\<close> of \<open>num_workers\<close> is thread
  \<open>i * num_threads / num_workers\<close> of the pool, and all have returned when \<open>wait\<close> does.
\<close>

definition worker_thread :: "nat \<Rightarrow> nat \<Rightarrow> nat \<Rightarrow> nat" where
  "worker_thread num_threads num_workers i = i * num_threads div num_workers"

definition pp_start_workers ::
  "(nat \<Rightarrow> 's \<Rightarrow> 's res) \<Rightarrow> (nat \<Rightarrow> 's \<Rightarrow> (bool \<times> 's) res) \<Rightarrow> (nat \<Rightarrow> 's \<Rightarrow> 's res) \<Rightarrow>
   nat \<Rightarrow> nat \<Rightarrow> nat list \<Rightarrow> 's \<Rightarrow> 's res" where
  "pp_start_workers enter do_next leave pool_threads num_workers sched st =
     bindE (assertE (num_workers \<le> pool_threads)) (\<lambda>_.
     let thread = worker_thread pool_threads num_workers
     in run_workers (worker_step (\<lambda>i. enter (thread i)) (\<lambda>i. do_next (thread i)) (\<lambda>i. leave (thread i))) num_workers sched st)"

definition take_task :: "nat \<Rightarrow> ('k, 'v, 'p, 't) pp_state \<Rightarrow> (pp_task option \<times> ('k, 'v, 'p, 't) pp_state) res" where
  "take_task thread st =
     bindE (arr_get (mr_locs st) (int thread)) (\<lambda>loc.
     bindE (pq_dequeue (mr_queue st) loc) (\<lambda>(r, q).
     Inr (r, st\<lparr>mr_queue := q\<rparr>)))"

section \<open>Map\<close>

definition map_enter ::
  "('x, 'k, 'v, 'c, 'd, 'p, 't, 'it) mr_class \<Rightarrow> nat \<Rightarrow> ('k, 'v, 'p, 't) pp_state \<Rightarrow> ('k, 'v, 'p, 't) pp_state res" where
  "map_enter cl thread st =
     bindE (c_get (cl_container cl) (mr_container st) thread) (\<lambda>t.
     bindE (arr_set (mr_inputs st) (int thread) (Some t)) (\<lambda>inputs.
     Inr (st\<lparr>mr_inputs := inputs\<rparr>)))"

definition get_input :: "nat \<Rightarrow> ('k, 'v, 'p, 't) pp_state \<Rightarrow> 't res" where
  "get_input thread st =
     bindE (arr_get (mr_inputs st) (int thread)) (\<lambda>t. case t of None \<Rightarrow> Inl Bad_access | Some t \<Rightarrow> Inr t)"

definition map_elements ::
  "('x, 'k, 'v, 'c, 'd, 'p, 't, 'it) mr_class \<Rightarrow> 'x list \<Rightarrow> pp_task \<Rightarrow> 'p \<times> 't \<Rightarrow> ('p \<times> 't) res" where
  "map_elements cl data task pt =
     foldE (\<lambda>pt i.
       bindE (arr_get data (int (unat (pt_data task) + i))) (\<lambda>x.
       foldE (\<lambda>(p, t) e. c_emit (cl_container cl) p t (fst e) (snd e)) pt (cl_map cl x))) pt [0..<unat (pt_len task)]"

definition map_next ::
  "('x, 'k, 'v, 'c, 'd, 'p, 't, 'it) mr_class \<Rightarrow> 'x list \<Rightarrow> nat \<Rightarrow> ('k, 'v, 'p, 't) pp_state \<Rightarrow> (bool \<times> ('k, 'v, 'p, 't) pp_state) res" where
  "map_next cl data thread st =
     bindE (take_task thread st) (\<lambda>(r, st).
     case r of
       None \<Rightarrow> Inr (False, st)
     | Some task \<Rightarrow>
         bindE (get_input thread st) (\<lambda>t.
         bindE (map_elements cl data task (mr_container st, t)) (\<lambda>(p, t).
         bindE (arr_set (mr_inputs st) (int thread) (Some t)) (\<lambda>inputs.
         Inr (True, st\<lparr>mr_container := p, mr_inputs := inputs\<rparr>)))))"

definition map_leave ::
  "('x, 'k, 'v, 'c, 'd, 'p, 't, 'it) mr_class \<Rightarrow> nat \<Rightarrow> ('k, 'v, 'p, 't) pp_state \<Rightarrow> ('k, 'v, 'p, 't) pp_state res" where
  "map_leave cl thread st =
     bindE (get_input thread st) (\<lambda>t.
     bindE (c_add (cl_container cl) (mr_container st) thread t) (\<lambda>p.
     bindE (arr_set (mr_inputs st) (int thread) None) (\<lambda>inputs.
     Inr (st\<lparr>mr_container := p, mr_inputs := inputs\<rparr>))))"

text \<open>
  \<open>max (1, (int) ceil ((double) count / num_map_tasks))\<close>: the quotient is exact enough for its
  ceiling to be right when the numbers are below \<open>2 ^ 53\<close>. Division by 0 gives no number, and the
  conversion of what an \<open>int\<close> cannot hold is undefined.
\<close>

definition map_chunk_size :: "nat \<Rightarrow> nat \<Rightarrow> nat res" where
  "map_chunk_size data_count num_map_tasks =
     (if num_map_tasks = 0 \<or> (data_count + num_map_tasks - 1) div num_map_tasks \<ge> 2 ^ 31 then Inl Undefined
      else Inr (max 1 ((data_count + num_map_tasks - 1) div num_map_tasks)))"

definition map_task :: "nat \<Rightarrow> nat \<Rightarrow> nat \<Rightarrow> int \<Rightarrow> pp_task" where
  "map_task i start len lgrp =
     \<lparr>pt_id = word_of_nat i, pt_len = word_of_nat len, pt_data = word_of_nat start, pt_pad = word_of_int lgrp\<rparr>"

definition enqueue_map_task ::
  "('x, 'k, 'v, 'c, 'd, 'p, 't, 'it) mr_class \<Rightarrow> (nat \<Rightarrow> int) \<Rightarrow> nat \<Rightarrow> nat \<Rightarrow> nat \<Rightarrow> pp_task_queue \<Rightarrow> nat \<Rightarrow> pp_task_queue res" where
  "enqueue_map_task cl rnd data_count chunk_size num_map_tasks q i =
     (let start = chunk_size * i
      in if start < data_count
         then pq_enqueue_seq (rnd i) q (map_task i start (min chunk_size (data_count - start)) (cl_lgrp cl start))
                (to_int32 (int num_map_tasks)) (cl_lgrp cl start)
         else Inr q)"

definition run_map ::
  "('x, 'k, 'v, 'c, 'd, 'p, 't, 'it) mr_class \<Rightarrow> (nat \<Rightarrow> int) \<Rightarrow> nat list \<Rightarrow> 'x list \<Rightarrow>
   ('k, 'v, 'p, 't) pp_state \<Rightarrow> ('k, 'v, 'p, 't) pp_state res" where
  "run_map cl rnd sched data st =
     bindE (map_chunk_size (length data) (mr_num_map_tasks st)) (\<lambda>chunk_size.
     bindE (foldE (enqueue_map_task cl rnd (length data) chunk_size (mr_num_map_tasks st)) (mr_queue st) [0..<mr_num_map_tasks st]) (\<lambda>q.
     pp_start_workers (map_enter cl) (map_next cl data) (map_leave cl) (length (mr_locs st))
       (min (mr_num_map_tasks st) (mr_num_threads st)) sched (st\<lparr>mr_queue := q\<rparr>)))"

section \<open>Reduce\<close>

definition reduce_entry ::
  "('x, 'k, 'v, 'c, 'd, 'p, 't, 'it) mr_class \<Rightarrow> ('k \<times> 'v) list \<Rightarrow> 'k \<times> 'd \<Rightarrow> ('k \<times> 'v) list res" where
  "reduce_entry cl out e =
     (if cd_size (cl_combiner cl) (snd e) > 0 then cl_reduce cl (fst e) (snd e) out else Inr out)"

definition reduce_partition ::
  "('x, 'k, 'v, 'c, 'd, 'p, 't, 'it) mr_class \<Rightarrow> nat \<Rightarrow> 'p \<Rightarrow> ('k \<times> 'v) list \<Rightarrow> ('p \<times> ('k \<times> 'v) list) res" where
  "reduce_partition cl index p out =
     bindE (c_begin (cl_container cl) p index) (\<lambda>it.
     bindE (c_for (cl_rounds cl) (cl_container cl) p (reduce_entry cl) (cd_new (cl_combiner cl)) out it) (\<lambda>(it, out).
     bindE (c_close (cl_container cl) p it) (\<lambda>p. Inr (p, out))))"

definition reduce_next ::
  "('x, 'k, 'v, 'c, 'd, 'p, 't, 'it) mr_class \<Rightarrow> nat \<Rightarrow> ('k, 'v, 'p, 't) pp_state \<Rightarrow> (bool \<times> ('k, 'v, 'p, 't) pp_state) res" where
  "reduce_next cl thread st =
     bindE (take_task thread st) (\<lambda>(r, st).
     case r of
       None \<Rightarrow> Inr (False, st)
     | Some task \<Rightarrow>
         bindE (arr_get (mr_final_vals st) (int thread)) (\<lambda>out.
         bindE (reduce_partition cl (unat (pt_data task)) (mr_container st) out) (\<lambda>(p, out).
         bindE (arr_set (mr_final_vals st) (int thread) out) (\<lambda>final_vals.
         Inr (True, st\<lparr>mr_container := p, mr_final_vals := final_vals\<rparr>)))))"

definition reduce_task_of :: "nat \<Rightarrow> pp_task" where
  "reduce_task_of i = \<lparr>pt_id = word_of_nat i, pt_len = 0, pt_data = word_of_nat i, pt_pad = 0\<rparr>"

definition run_reduce ::
  "('x, 'k, 'v, 'c, 'd, 'p, 't, 'it) mr_class \<Rightarrow> (nat \<Rightarrow> int) \<Rightarrow> nat list \<Rightarrow> ('k, 'v, 'p, 't) pp_state \<Rightarrow> ('k, 'v, 'p, 't) pp_state res" where
  "run_reduce cl rnd sched st =
     bindE (foldE (\<lambda>q i. pq_enqueue_seq (rnd i) q (reduce_task_of i) (to_int32 (int (mr_num_reduce_tasks st))) (-1))
              (mr_queue st) [0..<mr_num_reduce_tasks st]) (\<lambda>q.
     pp_start_workers (\<lambda>_. Inr) (reduce_next cl) (\<lambda>_. Inr) (length (mr_locs st))
       (min (mr_num_reduce_tasks st) (mr_num_threads st)) sched (st\<lparr>mr_queue := q\<rparr>))"

section \<open>Merge and run\<close>

text \<open>\<open>MapReduce::run_merge\<close>: the vectors of the threads one after the other.\<close>

definition run_merge :: "('k, 'v, 'p, 't) pp_state \<Rightarrow> ('k, 'v, 'p, 't) pp_state res" where
  "run_merge st =
     bindE (foldE (\<lambda>final i. bindE (arr_get (mr_final_vals st) (int i)) (\<lambda>vals. Inr (final @ vals))) [] [0..<mr_num_threads st]) (\<lambda>final.
     Inr (st\<lparr>mr_final_vals := [final]\<rparr>))"

text \<open>The task counts and the storage that \<open>run\<close> and the first \<open>run_mappers\<close> set up.\<close>

definition library_init ::
  "('x, 'k, 'v, 'c, 'd, 'p, 't, 'it) mr_class \<Rightarrow> nat \<Rightarrow> ('k, 'v, 'p, 't) pp_state \<Rightarrow> ('k, 'v, 'p, 't) pp_state" where
  "library_init cl data_count st =
     st\<lparr>mr_num_map_tasks := min data_count (mr_num_threads st) * 16, mr_num_reduce_tasks := mr_num_threads st,
        mr_container := c_init (cl_container cl) (mr_container st) (mr_num_threads st) (mr_num_threads st),
        mr_final_vals := replicate (mr_num_threads st) []\<rparr>"

text \<open>\<open>run_merge\<close> is virtual; \<open>result\<close> receives the first vector.\<close>

definition finish_run ::
  "(('k, 'v, 'p, 't) pp_state \<Rightarrow> ('k, 'v, 'p, 't) pp_state res) \<Rightarrow> ('k, 'v, 'p, 't) pp_state \<Rightarrow>
   (('k \<times> 'v) list \<times> ('k, 'v, 'p, 't) pp_state) res" where
  "finish_run merge st =
     bindE (merge st) (\<lambda>st.
     bindE (arr_get (mr_final_vals st) 0) (\<lambda>result. Inr (result, st\<lparr>mr_final_vals := []\<rparr>)))"

text \<open>The schedules are those of the threads in the map and the reduce phase.\<close>

definition pp_run ::
  "(('k, 'v, 'p, 't) pp_state \<Rightarrow> ('k, 'v, 'p, 't) pp_state res) \<Rightarrow> ('x, 'k, 'v, 'c, 'd, 'p, 't, 'it) mr_class \<Rightarrow> (nat \<Rightarrow> int) \<Rightarrow>
   nat list \<Rightarrow> nat list \<Rightarrow> 'x list \<Rightarrow> ('k, 'v, 'p, 't) pp_state \<Rightarrow> (int \<times> ('k \<times> 'v) list \<times> ('k, 'v, 'p, 't) pp_state) res" where
  "pp_run merge cl rnd map_sched reduce_sched data st =
     bindE (run_map cl rnd map_sched data (library_init cl (length data) st)) (\<lambda>st.
     bindE (run_reduce cl rnd reduce_sched st) (\<lambda>st.
     bindE (finish_run merge st) (\<lambda>(result, st).
     Inr (0, result, st))))"

text \<open>\<open>while (split (chunk)) data.push_back (chunk)\<close>, with a bound on its rounds.\<close>

fun split_all :: "nat \<Rightarrow> ('u \<Rightarrow> ('x option \<times> 'u) res) \<Rightarrow> 'u \<Rightarrow> ('x list \<times> 'u) res" where
  "split_all 0 split u = Inl No_fuel"
| "split_all (Suc fuel) split u =
     bindE (split u) (\<lambda>(r, u).
     case r of
       None \<Rightarrow> Inr ([], u)
     | Some x \<Rightarrow> bindE (split_all fuel split u) (\<lambda>(xs, u). Inr (x # xs, u)))"

definition pp_run_split ::
  "(('k, 'v, 'p, 't) pp_state \<Rightarrow> ('k, 'v, 'p, 't) pp_state res) \<Rightarrow> ('x, 'k, 'v, 'c, 'd, 'p, 't, 'it) mr_class \<Rightarrow> (nat \<Rightarrow> int) \<Rightarrow>
   nat list \<Rightarrow> nat list \<Rightarrow> nat \<Rightarrow> ('u \<Rightarrow> ('x option \<times> 'u) res) \<Rightarrow> 'u \<Rightarrow> ('k, 'v, 'p, 't) pp_state \<Rightarrow>
   (int \<times> ('k \<times> 'v) list \<times> ('k, 'v, 'p, 't) pp_state) res" where
  "pp_run_split merge cl rnd map_sched reduce_sched rounds split u st =
     bindE (split_all rounds split u) (\<lambda>(data, u). pp_run merge cl rnd map_sched reduce_sched data st)"

section \<open>In several steps\<close>

text \<open>\<open>run_mappers\<close> on the pieces \<open>data\<close> of the current chunk, and \<open>run_reducers\<close>.\<close>

definition run_mappers ::
  "('x, 'k, 'v, 'c, 'd, 'p, 't, 'it) mr_class \<Rightarrow> (nat \<Rightarrow> int) \<Rightarrow> nat list \<Rightarrow> 'x list \<Rightarrow> ('k, 'v, 'p, 't) pp_state \<Rightarrow>
   ('k, 'v, 'p, 't) pp_state res" where
  "run_mappers cl rnd sched data st =
     run_map cl rnd sched data (if mr_first st then (library_init cl (length data) st)\<lparr>mr_first := False\<rparr> else st)"

definition run_reducers ::
  "(('k, 'v, 'p, 't) pp_state \<Rightarrow> ('k, 'v, 'p, 't) pp_state res) \<Rightarrow> ('x, 'k, 'v, 'c, 'd, 'p, 't, 'it) mr_class \<Rightarrow> (nat \<Rightarrow> int) \<Rightarrow>
   nat list \<Rightarrow> ('k, 'v, 'p, 't) pp_state \<Rightarrow> (('k \<times> 'v) list \<times> ('k, 'v, 'p, 't) pp_state) res" where
  "run_reducers merge cl rnd sched st =
     bindE (run_reduce cl rnd sched st) (finish_run merge)"

section \<open>\<open>MapReduceSort\<close>\<close>

text \<open>
  \<open>std::stable_sort\<close> and \<open>std::merge\<close> with a comparison \<open>lt\<close>: of two elements neither of which
  is less, the one from the left, or from the first range, comes first.
\<close>

fun std_insert :: "('e \<Rightarrow> 'e \<Rightarrow> bool) \<Rightarrow> 'e \<Rightarrow> 'e list \<Rightarrow> 'e list" where
  "std_insert lt x [] = [x]"
| "std_insert lt x (y # ys) = (if lt y x then y # std_insert lt x ys else x # y # ys)"

definition std_stable_sort :: "('e \<Rightarrow> 'e \<Rightarrow> bool) \<Rightarrow> 'e list \<Rightarrow> 'e list" where
  "std_stable_sort lt xs = foldr (std_insert lt) xs []"

fun std_merge :: "('e \<Rightarrow> 'e \<Rightarrow> bool) \<Rightarrow> 'e list \<Rightarrow> 'e list \<Rightarrow> 'e list" where
  "std_merge lt [] ys = ys"
| "std_merge lt (x # xs) [] = x # xs"
| "std_merge lt (x # xs) (y # ys) =
     (if lt y x then y # std_merge lt (x # xs) ys else x # std_merge lt xs (y # ys))"

definition sort_merge_task ::
  "('e \<Rightarrow> 'e \<Rightarrow> bool) \<Rightarrow> pp_task \<Rightarrow> 'e list list \<times> 'e list list \<Rightarrow> ('e list list \<times> 'e list list) res" where
  "sort_merge_task lt task fm =
     (case fm of (final_vals, merge_vals) \<Rightarrow>
        let vals = uint (pt_data task); len = pt_len task; out_index = uint (pt_id task)
        in if len = 0 then
             bindE (arr_get final_vals vals) (\<lambda>l.
             bindE (arr_set final_vals vals (std_stable_sort lt l)) (\<lambda>final_vals.
             Inr (final_vals, merge_vals)))
           else if len = 1 then
             bindE (arr_get merge_vals vals) (\<lambda>l.
             bindE (arr_get final_vals out_index) (\<lambda>out.
             bindE (arr_set final_vals out_index l) (\<lambda>final_vals.
             bindE (arr_set merge_vals vals out) (\<lambda>merge_vals.
             Inr (final_vals, merge_vals)))))
           else if len = 2 then
             bindE (arr_get merge_vals vals) (\<lambda>l1.
             bindE (arr_get merge_vals (vals + 1)) (\<lambda>l2.
             bindE (arr_set final_vals out_index (std_merge lt l1 l2)) (\<lambda>final_vals.
             Inr (final_vals, merge_vals))))
           else Inl Assert_failed)"

definition sort_merge_next ::
  "('k \<times> 'v \<Rightarrow> 'k \<times> 'v \<Rightarrow> bool) \<Rightarrow> nat \<Rightarrow> ('k, 'v, 'p, 't) pp_state \<Rightarrow> (bool \<times> ('k, 'v, 'p, 't) pp_state) res" where
  "sort_merge_next lt thread st =
     bindE (take_task thread st) (\<lambda>(r, st).
     case r of
       None \<Rightarrow> Inr (False, st)
     | Some task \<Rightarrow>
         bindE (sort_merge_task lt task (mr_final_vals st, mr_merge_vals st)) (\<lambda>(final_vals, merge_vals).
         Inr (True, st\<lparr>mr_final_vals := final_vals, mr_merge_vals := merge_vals\<rparr>)))"

definition sort_task :: "nat \<Rightarrow> pp_task" where
  "sort_task i = \<lparr>pt_id = word_of_nat i, pt_len = 0, pt_data = word_of_nat i, pt_pad = 0\<rparr>"

definition sort_queues ::
  "('k \<times> 'v \<Rightarrow> 'k \<times> 'v \<Rightarrow> bool) \<Rightarrow> (nat \<Rightarrow> int) \<Rightarrow> nat list \<Rightarrow> ('k, 'v, 'p, 't) pp_state \<Rightarrow> ('k, 'v, 'p, 't) pp_state res" where
  "sort_queues lt rnd sched st =
     bindE (foldE (\<lambda>q i. pq_enqueue_seq (rnd i) q (sort_task i) (int (mr_num_threads st)) (-1)) (mr_queue st) [0..<mr_num_threads st]) (\<lambda>q.
     pp_start_workers (\<lambda>_. Inr) (sort_merge_next lt) (\<lambda>_. Inr) (length (mr_locs st)) (mr_num_threads st) sched (st\<lparr>mr_queue := q\<rparr>))"

text \<open>
  One round: each task merges two of the \<open>merge_queues\<close> lists, or takes over a single one. \<open>lgrp\<close> is
  where the first list of a task lies.
\<close>

definition merge_task :: "nat \<Rightarrow> nat \<Rightarrow> nat \<Rightarrow> int \<Rightarrow> pp_task" where
  "merge_task i actual queue_index lgrp =
     \<lparr>pt_id = word_of_nat i, pt_len = word_of_nat actual, pt_data = word_of_nat queue_index, pt_pad = word_of_int lgrp\<rparr>"

definition enqueue_merge_task ::
  "(nat \<Rightarrow> int) \<Rightarrow> (nat \<Rightarrow> int) \<Rightarrow> nat \<Rightarrow> nat \<Rightarrow> pp_task_queue \<times> nat \<Rightarrow> nat \<Rightarrow> (pp_task_queue \<times> nat) res" where
  "enqueue_merge_task lgrp rnd merge_queues resulting_queues q i =
     (case q of (q, queue_index) \<Rightarrow>
        let actual = min 2 (merge_queues - queue_index)
        in bindE (pq_enqueue_seq (rnd i) q (merge_task i actual queue_index (lgrp queue_index))
                   (int resulting_queues) (lgrp queue_index)) (\<lambda>q.
           Inr (q, queue_index + actual)))"

definition merge_round ::
  "('k \<times> 'v \<Rightarrow> 'k \<times> 'v \<Rightarrow> bool) \<Rightarrow> (nat \<Rightarrow> int) \<Rightarrow> (nat \<Rightarrow> int) \<Rightarrow> nat list \<Rightarrow> nat \<Rightarrow> ('k, 'v, 'p, 't) pp_state \<Rightarrow> ('k, 'v, 'p, 't) pp_state res" where
  "merge_round lt lgrp rnd sched merge_queues st =
     (let resulting_queues = (merge_queues + 1) div 2;
          st = st\<lparr>mr_merge_vals := mr_final_vals st, mr_final_vals := replicate resulting_queues []\<rparr>
      in bindE (foldE (enqueue_merge_task lgrp rnd merge_queues resulting_queues) (mr_queue st, 0) [0..<resulting_queues]) (\<lambda>(q, queue_index).
         pp_start_workers (\<lambda>_. Inr) (sort_merge_next lt) (\<lambda>_. Inr) (length (mr_locs st))
           (min resulting_queues (mr_num_threads st)) sched (st\<lparr>mr_queue := q\<rparr>)))"

text \<open>The rounds; \<open>sched r\<close> is the schedule of round \<open>r\<close>.\<close>

function merge_until_one ::
  "('k \<times> 'v \<Rightarrow> 'k \<times> 'v \<Rightarrow> bool) \<Rightarrow> (nat \<Rightarrow> int) \<Rightarrow> (nat \<Rightarrow> int) \<Rightarrow> (nat \<Rightarrow> nat list) \<Rightarrow> nat \<Rightarrow> nat \<Rightarrow>
   ('k, 'v, 'p, 't) pp_state \<Rightarrow> ('k, 'v, 'p, 't) pp_state res" where
  "merge_until_one lt lgrp rnd sched r merge_queues st =
     (if merge_queues > 1 then
        bindE (merge_round lt lgrp rnd (sched r) merge_queues st) (\<lambda>st.
        merge_until_one lt lgrp rnd sched (Suc r) ((merge_queues + 1) div 2) st)
      else bindE (assertE (merge_queues = 1)) (\<lambda>_. Inr st))"
  by pat_completeness auto
termination by (relation "measure (\<lambda>(lt, lgrp, rnd, sched, r, merge_queues, st). merge_queues)") auto

declare merge_until_one.simps [simp del]

definition run_sort_merge ::
  "('k \<times> 'v \<Rightarrow> 'k \<times> 'v \<Rightarrow> bool) \<Rightarrow> (nat \<Rightarrow> int) \<Rightarrow> (nat \<Rightarrow> int) \<Rightarrow> (nat \<Rightarrow> nat list) \<Rightarrow> ('k, 'v, 'p, 't) pp_state \<Rightarrow> ('k, 'v, 'p, 't) pp_state res" where
  "run_sort_merge lt lgrp rnd sched st =
     bindE (sort_queues lt rnd (sched 0) st) (merge_until_one lt lgrp rnd sched 1 (mr_num_threads st))"

end
