(* ===== verification/PPContainer_Correct.thy ===== *)
theory PPContainer_Correct
  imports PPContainer
begin

text \<open>
  What the engine may expect of a container, as a locale, and that \<open>hash_container\<close> and
  \<open>array_container\<close> provide it with every combiner.
\<close>

section \<open>Values of a key\<close>

definition sel :: "'k \<Rightarrow> ('k \<times> 'a) list \<Rightarrow> 'a list" where
  "sel key es = map snd (filter (\<lambda>e. fst e = key) es)"

lemma sel_simps [simp]:
  "sel key [] = []"
  "sel key (e # es) = (if fst e = key then snd e # sel key es else sel key es)"
  "sel key (es @ fs) = sel key es @ sel key fs"
  by (simp_all add: sel_def)

lemma sel_empty: "sel key es = [] \<longleftrightarrow> key \<notin> fst ` set es"
  by (induction es) auto

lemma length_sel: "length (sel key es) \<le> length es"
  by (simp add: sel_def)

lemma set_sel: "x \<in> set (sel key es) \<longleftrightarrow> (key, x) \<in> set es"
  by (induction es) auto

lemma mset_sel: "mset es = mset fs \<Longrightarrow> mset (sel key es) = mset (sel key fs)"
  by (simp add: sel_def)

section \<open>\<open>unordered_map\<close>\<close>

lemma um_at_keys: "fst ` set (um_at new key f es) = insert key (fst ` set es)"
  by (induction new key f es rule: um_at.induct) (simp_all add: insert_commute)

lemma um_at_distinct: "distinct (map fst es) \<Longrightarrow> distinct (map fst (um_at new key f es))"
proof (induction es)
  case (Cons e es)
  have "fst e \<notin> fst ` set (um_at new key f es)" if "fst e \<noteq> key"
    using Cons.prems that by (simp add: um_at_keys)
  then show ?case using Cons by (cases e) auto
qed simp

lemma um_at_map:
  assumes "distinct (map fst es)"
  shows "map_of (um_at new key f es) = (map_of es)(key \<mapsto> f (case map_of es key of None \<Rightarrow> new | Some d \<Rightarrow> d))"
  using assms by (induction es) (auto simp: fun_eq_iff)

lemma um_at_length: "length (um_at new key f es) \<le> Suc (length es)"
  by (induction es) auto

lemma mset_um_order [simp]: "mset (um_order pick es) = mset es"
proof (induction pick es rule: um_order.induct)
  case (1 pick es)
  show ?case
  proof (cases "es = []")
    case False
    define i where "i = pick (map fst es) mod length es"
    have i: "i < length es" using False by (simp add: i_def)
    have "mset (um_order pick es) = add_mset (es ! i) (mset (take i es @ drop (Suc i) es))"
      using 1 False by (simp add: um_order.simps [of pick es] Let_def i_def)
    also have "\<dots> = mset (take i es @ es ! i # drop (Suc i) es)" by simp
    also have "take i es @ es ! i # drop (Suc i) es = es" using i by (simp add: id_take_nth_drop [symmetric])
    finally show ?thesis .
  qed (simp add: um_order.simps)
qed

lemma set_um_order [simp]: "set (um_order pick es) = set es"
  by (rule mset_eq_setD) simp

lemma length_um_order [simp]: "length (um_order pick es) = length es"
  using mset_um_order by (metis size_mset)

lemma distinct_um_order: "distinct (map fst (um_order pick es)) \<longleftrightarrow> distinct (map fst es)"
  by (rule mset_eq_imp_distinct_iff) simp

section \<open>The contract\<close>

text \<open>
  \<open>table t kvs\<close>: a thread has emitted \<open>kvs\<close> into its input \<open>t\<close>. \<open>holder p n log\<close>: the container was
  initialised for \<open>n\<close> threads and reduce tasks, and the inputs of \<open>log\<close>, pairs of a thread and what
  it emitted, have been added. \<open>part n key\<close> is the reduce task of a key. A container that does not
  take a second input of the same thread has \<open>once\<close>.

  The reduce task \<open>r\<close> sees the entries \<open>es\<close>: each key of its part once, with the collected values,
  which are those of all inputs in some order.
\<close>

definition log_all :: "(nat \<times> ('k \<times> 'v) list) list \<Rightarrow> ('k \<times> 'v) list" where
  "log_all log = concat (map snd log)"

definition part_ok :: "('d \<Rightarrow> 'v list list \<Rightarrow> bool) \<Rightarrow> ('k \<times> 'd) list \<Rightarrow> ('k \<Rightarrow> bool) \<Rightarrow> ('k \<times> 'v) list \<Rightarrow> bool" where
  "part_ok collects es here kvs \<longleftrightarrow>
     distinct (map fst es) \<and> (\<forall>e \<in> set kvs. here (fst e) \<longrightarrow> fst e \<in> fst ` set es) \<and>
     (\<forall>e \<in> set es. here (fst e) \<and>
        (\<exists>vss. collects (snd e) vss \<and> [] \<notin> set vss \<and> mset (concat vss) = mset (sel (fst e) kvs)))"

text \<open>The loop over an iterator runs its body on the entries \<open>es\<close>; then the iterator is destroyed.\<close>

definition c_visits :: "('k, 'v, 'p, 't, 'it, 'd) container \<Rightarrow> 'p \<Rightarrow> 'd \<Rightarrow> 'it \<Rightarrow> ('k \<times> 'd) list \<Rightarrow> bool" where
  "c_visits C p d it es \<longleftrightarrow>
     (\<forall>(body :: ('k \<times> 'v) list \<Rightarrow> 'k \<times> 'd \<Rightarrow> ('k \<times> 'v) list res) s s' fuel. length es < fuel \<longrightarrow> foldE body s es = Inr s' \<longrightarrow>
        (\<exists>it'. c_for fuel C p body d s it = Inr (it', s') \<and> c_close C p it' = Inr p))"

lemma c_visits_end: "c_next C p it d = Inr (None, it') \<Longrightarrow> c_close C p it' = Inr p \<Longrightarrow> c_visits C p d it []"
  unfolding c_visits_def by (intro allI impI, case_tac fuel) simp_all

lemma c_visits_step:
  fixes C :: "('k, 'v, 'p, 't, 'it, 'd) container"
  assumes "c_next C p it d = Inr (Some (key, d'), it1)" and "c_visits C p d' it1 es"
  shows "c_visits C p d it ((key, d') # es)"
  unfolding c_visits_def
proof (intro allI impI)
  fix body :: "('k \<times> 'v) list \<Rightarrow> 'k \<times> 'd \<Rightarrow> ('k \<times> 'v) list res" and s s' fuel
  assume run: "length ((key, d') # es) < fuel" "foldE body s ((key, d') # es) = Inr s'"
  obtain f where f: "fuel = Suc f" "length es < f" using run(1) by (cases fuel) auto
  obtain s1 where s1: "body s (key, d') = Inr s1" "foldE body s1 es = Inr s'" using run(2) by (auto simp: bindE_Inr_conv)
  obtain it' where "c_for f C p body d' s1 it1 = Inr (it', s')" "c_close C p it' = Inr p"
    using assms(2) f(2) s1(2) unfolding c_visits_def by blast
  then show "\<exists>it'. c_for fuel C p body d s it = Inr (it', s') \<and> c_close C p it' = Inr p"
    using assms(1) s1(1) f(1) by simp
qed

locale pp_container =
  fixes C :: "('k, 'v, 'p, 't, 'it, 'd) container"
    and collects :: "'d \<Rightarrow> 'v list list \<Rightarrow> bool"
    and table :: "'t \<Rightarrow> ('k \<times> 'v) list \<Rightarrow> bool"
    and holder :: "'p \<Rightarrow> nat \<Rightarrow> (nat \<times> ('k \<times> 'v) list) list \<Rightarrow> bool"
    and part :: "nat \<Rightarrow> 'k \<Rightarrow> nat"
    and key_ok :: "'k \<Rightarrow> bool"
    and once :: bool
    and cap :: nat
  assumes init_ok: "0 < n \<Longrightarrow> holder (c_init C p n n) n []"
    and get_ok: "holder p n log \<Longrightarrow> \<exists>t. c_get C p i = Inr t \<and> table t []"
    and emit_ok: "table t kvs \<Longrightarrow> key_ok key \<Longrightarrow> length kvs < 2 ^ 28 \<Longrightarrow>
      \<exists>t'. c_emit C p t key v = Inr (p, t') \<and> table t' (kvs @ [(key, v)])"
    and add_ok: "holder p n log \<Longrightarrow> table t kvs \<Longrightarrow> length kvs \<le> 2 ^ 28 \<Longrightarrow> i < n \<Longrightarrow> (once \<longrightarrow> i \<notin> fst ` set log) \<Longrightarrow>
      \<exists>p'. c_add C p i t = Inr p' \<and> holder p' n (log @ [(i, kvs)])"
    and part_less: "0 < n \<Longrightarrow> key_ok key \<Longrightarrow> part n key < n"
    and entries_ok: "holder p n log \<Longrightarrow> r < n \<Longrightarrow> (\<forall>e \<in> set (log_all log). key_ok (fst e)) \<Longrightarrow>
      \<exists>it. c_begin C p r = Inr it \<and> (\<forall>d. \<exists>es.
        part_ok collects es (\<lambda>key. part n key = r) (log_all log) \<and> length es \<le> cap + length (log_all log) \<and> c_visits C p d it es)"
begin

text \<open>A thread that emits a list of pairs.\<close>

lemma emits_ok:
  assumes "table t kvs" and "\<forall>e \<in> set ws. key_ok (fst e)" and "length (kvs @ ws) \<le> 2 ^ 28"
  shows "\<exists>t'. foldE (\<lambda>(p, t) e. c_emit C p t (fst e) (snd e)) (p, t) ws = Inr (p, t') \<and> table t' (kvs @ ws)"
  using assms
proof (induction ws arbitrary: t kvs)
  case (Cons e ws)
  obtain key v where e: "e = (key, v)" by (cases e)
  obtain t1 where t1: "c_emit C p t key v = Inr (p, t1)" "table t1 (kvs @ [(key, v)])"
    using emit_ok [OF Cons.prems(1), of key p v] Cons.prems(2,3) e by auto
  show ?case using Cons.IH [OF t1(2)] Cons.prems(2,3) t1(1) e by simp
qed simp

end

section \<open>\<open>hash_container\<close>\<close>

text \<open>Combining by key.\<close>

lemma um_at_entries:
  "(key, d) \<in> set (um_at new k f es) \<Longrightarrow> distinct (map fst es) \<Longrightarrow>
    if key = k then d = f (case map_of es k of None \<Rightarrow> new | Some d \<Rightarrow> d) else (key, d) \<in> set es"
  using um_at_map [of es new k f] um_at_distinct [of es new k f] map_of_is_SomeI [of "um_at new k f es" key d]
  by (auto split: if_splits dest: map_of_SomeD)

definition same_entries :: "('c \<Rightarrow> 'v list \<Rightarrow> bool) \<Rightarrow> ('k \<times> 'c) list \<Rightarrow> ('k \<times> 'v list) list \<Rightarrow> bool" where
  "same_entries holds es W \<longleftrightarrow> list_all2 (\<lambda>e w. fst e = fst w \<and> holds (snd e) (snd w) \<and> snd w \<noteq> []) es W"

context pp_combiner
begin

lemma um_combine_ok:
  assumes "distinct (map fst es)" and "fst ` set es = fst ` set W" and "\<forall>e \<in> set es. collects (snd e) (sel (fst e) W)"
    and "holds c vs" and "vs \<noteq> []"
  shows "distinct (map fst (um_combine cb es (key, c))) \<and> fst ` set (um_combine cb es (key, c)) = fst ` set (W @ [(key, vs)]) \<and>
    (\<forall>e \<in> set (um_combine cb es (key, c)). collects (snd e) (sel (fst e) (W @ [(key, vs)])))"
proof (intro conjI ballI)
  fix e assume e: "e \<in> set (um_combine cb es (key, c))"
  obtain k d where kd: "e = (k, d)" by (cases e)
  have E: "if k = key then d = cd_add cb (case map_of es key of None \<Rightarrow> cd_new cb | Some d \<Rightarrow> d) c else (k, d) \<in> set es"
    using um_at_entries [of k d "cd_new cb" key "\<lambda>d. cd_add cb d c" es] e kd assms(1) by (simp add: um_combine_def)
  show "collects (snd e) (sel (fst e) (W @ [(key, vs)]))"
  proof (cases "k = key")
    case False
    then show ?thesis using E kd assms(3) by force
  next
    case True
    have "collects (case map_of es key of None \<Rightarrow> cd_new cb | Some d \<Rightarrow> d) (sel key W)"
    proof (cases "map_of es key")
      case None
      then have "sel key W = []" using assms(2) by (simp add: sel_empty map_of_eq_None_iff)
      then show ?thesis using None collects_new by simp
    next
      case (Some d')
      then have "(key, d') \<in> set es" by (rule map_of_SomeD)
      then show ?thesis using Some assms(3) by fastforce
    qed
    then show ?thesis using collects_add [OF _ assms(4,5)] E True kd by simp
  qed
qed (use assms(1,2) in \<open>simp_all add: um_combine_def um_at_distinct um_at_keys\<close>)

lemma um_fold_ok:
  assumes "same_entries holds xs W"
  shows "distinct (map fst (foldl (um_combine cb) [] xs)) \<and> fst ` set (foldl (um_combine cb) [] xs) = fst ` set W \<and>
    (\<forall>e \<in> set (foldl (um_combine cb) [] xs). collects (snd e) (sel (fst e) W))"
  using assms
proof (induction xs arbitrary: W rule: rev_induct)
  case (snoc x xs)
  from snoc.prems obtain W0 key c vs where W: "W = W0 @ [(key, vs)]" "same_entries holds xs W0" "x = (key, c)" "holds c vs" "vs \<noteq> []"
    by (cases x) (auto simp: same_entries_def list_all2_append1 list_all2_Cons1)
  have IH: "distinct (map fst (foldl (um_combine cb) [] xs))" "fst ` set (foldl (um_combine cb) [] xs) = fst ` set W0"
    "\<forall>e \<in> set (foldl (um_combine cb) [] xs). collects (snd e) (sel (fst e) W0)"
    using snoc.IH [OF W(2)] by blast+
  show ?case using um_combine_ok [OF IH W(4,5), of key] unfolding W(1,3) foldl_append foldl_Cons foldl_Nil .
qed (simp add: same_entries_def)

end

lemma c_visits_um:
  assumes "\<And>p it d. c_next C p it d = Inr (um_next it)" and "c_close C p [] = Inr p"
  shows "c_visits C p d es es"
proof (induction es arbitrary: d)
  case Nil
  then show ?case using assms by (intro c_visits_end [of _ _ _ _ "[]"]) (simp_all add: um_next_def)
next
  case (Cons e es)
  then show ?case using assms by (cases e) (simp add: um_next_def c_visits_step)
qed

text \<open>
  What a thread's table holds, and the container: slot \<open>r * n + i\<close> has the entries of thread \<open>i\<close> for
  reduce task \<open>r\<close>.
\<close>

definition hc_table :: "('k \<Rightarrow> 64 word) \<Rightarrow> ('c \<Rightarrow> 'v list \<Rightarrow> bool) \<Rightarrow> ('k, 'c) hash_table \<Rightarrow> ('k \<times> 'v) list \<Rightarrow> bool" where
  "hc_table kh holds t kvs \<longleftrightarrow>
     ht_ok kh t \<and> ht_count t \<le> length kvs \<and>
     (\<forall>key. case ht_map t key of None \<Rightarrow> sel key kvs = [] | Some c \<Rightarrow> sel key kvs \<noteq> [] \<and> holds c (sel key kvs))"

definition row_part :: "nat \<Rightarrow> (nat \<Rightarrow> ('k \<times> 'a) list) \<Rightarrow> nat \<Rightarrow> ('k \<times> 'a) list" where
  "row_part n W r = concat (map (\<lambda>i. W (r * n + i)) [0..<n])"

definition hc_holder ::
  "('k \<Rightarrow> 64 word) \<Rightarrow> ('c \<Rightarrow> 'v list \<Rightarrow> bool) \<Rightarrow> ('k, 'c) hash_container_t \<Rightarrow> nat \<Rightarrow> (nat \<times> ('k \<times> 'v) list) list \<Rightarrow> bool" where
  "hc_holder kh holds p n log \<longleftrightarrow>
     hc_in_size p = n \<and> hc_out_size p = n \<and> length (hc_vals p) = n * n \<and>
     (\<exists>W. (\<forall>j < n * n. same_entries holds (hc_vals p ! j) (W j)) \<and>
       (\<forall>r < n. \<forall>key. mset (concat (sel key (row_part n W r))) =
          (if unat (kh key) mod n = r then mset (sel key (log_all log)) else {#})))"

lemma hc_holderI:
  assumes "hc_in_size p = n" and "hc_out_size p = n" and "length (hc_vals p) = n * n"
    and "\<And>j. j < n * n \<Longrightarrow> same_entries holds (hc_vals p ! j) (W j)"
    and "\<And>r key. r < n \<Longrightarrow> mset (concat (sel key (row_part n W r))) =
      (if unat (kh key) mod n = r then mset (sel key (log_all log)) else {#})"
  shows "hc_holder kh holds p n log"
  unfolding hc_holder_def by (intro conjI exI [of _ W] allI impI assms)

lemma row_part_empty [simp]: "row_part n (\<lambda>_. []) r = []"
  by (simp add: row_part_def)

lemma mset_concat_eq: "mset xss = mset yss \<Longrightarrow> mset (concat xss) = mset (concat yss)"
  unfolding mset_concat by (metis mset_map sum_mset_sum_list)

lemma row_part_add:
  assumes "i < n" and "\<And>i'. i' < n \<Longrightarrow> i' \<noteq> i \<Longrightarrow> D (r * n + i') = []"
  shows "mset (row_part n (\<lambda>j. W j @ D j) r) = mset (row_part n W r) + mset (D (r * n + i))"
proof -
  have "mset (concat (map (\<lambda>i'. W (r * n + i') @ D (r * n + i')) [0..<m])) =
    mset (concat (map (\<lambda>i'. W (r * n + i')) [0..<m])) + (if i < m then mset (D (r * n + i)) else {#})" if "m \<le> n" for m
    using that
  proof (induction m)
    case (Suc m)
    then show ?case using assms(2) [of m] by (cases "m = i") auto
  qed simp
  from this [of n] show ?thesis using assms(1) by (simp add: row_part_def)
qed

lemma sel_map_filter:
  "distinct (map fst es) \<Longrightarrow>
    sel key (map (\<lambda>e. (fst e, f (fst e))) (filter (\<lambda>e. P (fst e)) es)) = (if key \<in> fst ` set es \<and> P key then [f key] else [])"
proof (induction es)
  case (Cons e es)
  have "sel key (map (\<lambda>e. (fst e, f (fst e))) (filter (\<lambda>e. P (fst e)) es)) = []" if "key = fst e"
    using Cons that by simp
  then show ?case using Cons by auto
qed simp

lemma same_entries_ne: "same_entries holds es W \<Longrightarrow> [] \<notin> snd ` set W"
  unfolding same_entries_def by (induction rule: list_all2_induct) auto

lemma same_entries_append:
  "same_entries holds es W \<Longrightarrow> same_entries holds fs V \<Longrightarrow> same_entries holds (es @ fs) (W @ V)"
  unfolding same_entries_def by (rule list_all2_appendI)

lemma same_entries_map:
  "(\<And>e. e \<in> set es \<Longrightarrow> holds (snd e) (f (fst e)) \<and> f (fst e) \<noteq> []) \<Longrightarrow> same_entries holds es (map (\<lambda>e. (fst e, f (fst e))) es)"
  by (induction es) (simp_all add: same_entries_def)

lemma same_entries_concat:
  "(\<And>i. i \<in> set is \<Longrightarrow> same_entries holds (f i) (W i)) \<Longrightarrow> same_entries holds (concat (map f is)) (concat (map W is))"
  by (induction "is") (simp_all add: same_entries_append, simp add: same_entries_def)

text \<open>The slot of a pushed entry.\<close>

definition hc_slot :: "('k \<Rightarrow> 64 word) \<Rightarrow> nat \<Rightarrow> nat \<Rightarrow> 'k \<Rightarrow> nat" where
  "hc_slot kh n i key = unat (kh key) mod n * n + i"

lemma square_less: "r < n \<Longrightarrow> i < (n :: nat) \<Longrightarrow> r * n + i < n * n"
proof -
  assume "r < n" "i < n"
  then have "Suc r * n \<le> n * n" by (intro mult_le_mono1) simp
  then show ?thesis using \<open>i < n\<close> by simp
qed

lemma hc_push_ok:
  assumes "\<not> cb_empty cb (snd e)" and "length vals = n * n" and "i < n"
  shows "hc_push kh cb n n i vals e = Inr (vals[hc_slot kh n i (fst e) := vals ! hc_slot kh n i (fst e) @ [e]])"
proof -
  have "hc_slot kh n i (fst e) < n * n" unfolding hc_slot_def by (rule square_less) (use assms(3) in simp_all)
  then show ?thesis using assms unfolding hc_push_def by (simp add: Let_def hc_slot_def flip: of_nat_mult of_nat_add)
qed

lemma hc_pushes_ok:
  assumes "\<forall>e \<in> set es. \<not> cb_empty cb (snd e)" and "length vals = n * n" and "i < n"
  shows "\<exists>vals'. foldE (hc_push kh cb n n i) vals es = Inr vals' \<and> length vals' = n * n \<and>
    (\<forall>j < n * n. vals' ! j = vals ! j @ filter (\<lambda>e. hc_slot kh n i (fst e) = j) es)"
  using assms
proof (induction es arbitrary: vals)
  case (Cons e es)
  let ?s = "hc_slot kh n i (fst e)"
  have s: "?s < n * n" unfolding hc_slot_def by (rule square_less) (use assms(3) in simp_all)
  have p: "hc_push kh cb n n i vals e = Inr (vals[?s := vals ! ?s @ [e]])"
    using hc_push_ok [of cb e vals n i kh] Cons.prems by simp
  have "\<exists>vals'. foldE (hc_push kh cb n n i) (vals[?s := vals ! ?s @ [e]]) es = Inr vals' \<and> length vals' = n * n \<and>
    (\<forall>j < n * n. vals' ! j = vals[?s := vals ! ?s @ [e]] ! j @ filter (\<lambda>e. hc_slot kh n i (fst e) = j) es)"
    using Cons.IH [of "vals[?s := vals ! ?s @ [e]]"] Cons.prems by simp
  then show ?case using p s Cons.prems(2) by (auto simp: nth_list_update_if)
qed simp

lemma hc_slot_eq:
  assumes "i < n" and "i' < n"
  shows "hc_slot kh n i key = r * n + i' \<longleftrightarrow> unat (kh key) mod n = r \<and> i' = i"
proof
  assume e: "hc_slot kh n i key = r * n + i'"
  have "(unat (kh key) mod n * n + i) div n = unat (kh key) mod n" "(unat (kh key) mod n * n + i) mod n = i"
    "(r * n + i') div n = r" "(r * n + i') mod n = i'"
    using assms by simp_all
  then show "unat (kh key) mod n = r \<and> i' = i" using e unfolding hc_slot_def by metis
qed (simp add: hc_slot_def)

lemma hash_iterates:
  assumes "hc_table kh holds t kvs" and "length kvs \<le> 2 ^ 28"
  shows "ht_iterate t body s = foldE body s (ht_list (ht_slots t))" "distinct (map fst (ht_list (ht_slots t)))"
    "e \<in> set (ht_list (ht_slots t)) \<Longrightarrow> sel (fst e) kvs \<noteq> [] \<and> holds (snd e) (sel (fst e) kvs)"
    "key \<notin> fst ` set (ht_list (ht_slots t)) \<Longrightarrow> sel key kvs = []"
proof -
  have t: "ht_ok kh t" "ht_count t < 2 ^ 29" using assms by (auto simp: hc_table_def)
  show "ht_iterate t body s = foldE body s (ht_list (ht_slots t))" by (rule ht_iterate_ok [OF t])
  show d: "distinct (map fst (ht_list (ht_slots t)))" using t(1) by (auto simp: ht_ok_def slots_ok_def)
  show "sel (fst e) kvs \<noteq> [] \<and> holds (snd e) (sel (fst e) kvs)" if "e \<in> set (ht_list (ht_slots t))"
  proof -
    have "ht_map t (fst e) = Some (snd e)" using that d by (simp add: ht_map_def)
    then show ?thesis using assms(1) by (auto simp: hc_table_def dest!: spec [of _ "fst e"])
  qed
  show "sel key kvs = []" if "key \<notin> fst ` set (ht_list (ht_slots t))"
    using that assms(1) ht_map_None [of key t] by (auto simp: hc_table_def dest!: spec [of _ key])
qed

locale hash_job = pp_combiner cb holds collects out
  for cb :: "('v, 'c, 'd) combiner" and holds :: "'c \<Rightarrow> 'v list \<Rightarrow> bool" and collects :: "'d \<Rightarrow> 'v list list \<Rightarrow> bool"
    and out :: "'v list \<Rightarrow> 'v list" +
  fixes kh :: "'k \<Rightarrow> 64 word" and pick :: "'k list \<Rightarrow> nat"
begin

lemma hash_get: "\<exists>t. ht_new kh = Inr t \<and> hc_table kh holds t ([] :: ('k \<times> 'v) list)"
proof -
  obtain t :: "('k, 'c) hash_table" where "ht_new kh = Inr t" "ht_ok kh t" "ht_map t = Map.empty" "ht_count t = 0"
    using ht_new_ok by blast
  then show ?thesis by (intro exI [of _ t]) (simp add: hc_table_def)
qed

lemma hash_emit:
  assumes "hc_table kh holds t kvs" and "length kvs < 2 ^ 28"
  shows "\<exists>t'. ht_update kh (cb_new cb) key (\<lambda>c. cb_add cb c v) t = Inr t' \<and> hc_table kh holds t' (kvs @ [(key, v)])"
proof -
  have t: "ht_ok kh t" "ht_count t \<le> length kvs"
    and m: "\<And>k. case ht_map t k of None \<Rightarrow> sel k kvs = [] | Some c \<Rightarrow> sel k kvs \<noteq> [] \<and> holds c (sel k kvs)"
    using assms(1) by (auto simp: hc_table_def)
  have "ht_count t < 2 ^ 58" using t(2) assms(2) by simp
  from ht_update_ok [OF t(1) this, of "cb_new cb" key "\<lambda>c. cb_add cb c v"] obtain t' where
    t': "ht_update kh (cb_new cb) key (\<lambda>c. cb_add cb c v) t = Inr t'" "ht_ok kh t'"
      "ht_map t' = (ht_map t)(key \<mapsto> cb_add cb (case ht_map t key of None \<Rightarrow> cb_new cb | Some c \<Rightarrow> c) v)"
      "ht_count t' = ht_count t + (if ht_map t key = None then 1 else 0)" by blast
  have "holds (case ht_map t key of None \<Rightarrow> cb_new cb | Some c \<Rightarrow> c) (sel key kvs)"
    using m [of key] holds_new by (auto split: option.splits)
  then have "holds (cb_add cb (case ht_map t key of None \<Rightarrow> cb_new cb | Some c \<Rightarrow> c) v) (sel key kvs @ [v])" by (rule holds_add)
  then have "case ht_map t' k of None \<Rightarrow> sel k (kvs @ [(key, v)]) = [] |
      Some c \<Rightarrow> sel k (kvs @ [(key, v)]) \<noteq> [] \<and> holds c (sel k (kvs @ [(key, v)]))" for k
    using m [of k] t'(3) by (cases "k = key") (auto split: option.splits)
  then have "hc_table kh holds t' (kvs @ [(key, v)])" unfolding hc_table_def using t' t(2) by auto
  then show ?thesis using t'(1) by blast
qed

lemma hash_add:
  assumes p: "hc_holder kh holds p n log" and t: "hc_table kh holds t kvs" "length kvs \<le> 2 ^ 28" and i: "i < n"
  shows "\<exists>p'. hc_add kh cb p i t = Inr p' \<and> hc_holder kh holds p' n (log @ [(i, kvs)])"
proof -
  let ?es = "ht_list (ht_slots t)"
  obtain W where W: "hc_in_size p = n" "hc_out_size p = n" "length (hc_vals p) = n * n"
    "\<And>j. j < n * n \<Longrightarrow> same_entries holds (hc_vals p ! j) (W j)"
    "\<And>r key. r < n \<Longrightarrow> mset (concat (sel key (row_part n W r))) = (if unat (kh key) mod n = r then mset (sel key (log_all log)) else {#})"
    using p by (auto simp: hc_holder_def)
  note it = hash_iterates [OF t]
  have "\<forall>e \<in> set ?es. \<not> cb_empty cb (snd e)" using it(3) holds_empty by blast
  from hc_pushes_ok [OF this W(3) i] obtain vals where vals: "foldE (hc_push kh cb n n i) (hc_vals p) ?es = Inr vals"
    "length vals = n * n" "\<And>j. j < n * n \<Longrightarrow> vals ! j = hc_vals p ! j @ filter (\<lambda>e. hc_slot kh n i (fst e) = j) ?es" by blast
  let ?D = "\<lambda>j. map (\<lambda>e. (fst e, sel (fst e) kvs)) (filter (\<lambda>e. hc_slot kh n i (fst e) = j) ?es)"
  have rows: "same_entries holds (vals ! j) (W j @ ?D j)" if "j < n * n" for j
    unfolding vals(3) [OF that] by (intro same_entries_append W(4) that same_entries_map) (use it(3) in auto)
  have "mset (concat (sel key (row_part n (\<lambda>j. W j @ ?D j) r))) =
    (if unat (kh key) mod n = r then mset (sel key (log_all (log @ [(i, kvs)]))) else {#})" if r: "r < n" for r key
  proof -
    have "mset (row_part n (\<lambda>j. W j @ ?D j) r) = mset (row_part n W r) + mset (?D (r * n + i))"
      by (rule row_part_add [OF i]) (use i in \<open>simp add: hc_slot_eq\<close>)
    then have "mset (sel key (row_part n (\<lambda>j. W j @ ?D j) r)) = mset (sel key (row_part n W r @ ?D (r * n + i)))"
      by (intro mset_sel) simp
    then have "mset (concat (sel key (row_part n (\<lambda>j. W j @ ?D j) r))) = mset (concat (sel key (row_part n W r @ ?D (r * n + i))))"
      by (rule mset_concat_eq)
    moreover have "sel key (?D (r * n + i)) = (if key \<in> fst ` set ?es \<and> unat (kh key) mod n = r then [sel key kvs] else [])"
      using sel_map_filter [OF it(2), of key "\<lambda>k. sel k kvs" "\<lambda>k. unat (kh k) mod n = r"] i by (simp add: hc_slot_eq)
    ultimately show ?thesis using W(5) [OF r, of key] it(4) [of key] by (auto simp: log_all_def)
  qed
  then have "hc_holder kh holds (p\<lparr>hc_vals := vals\<rparr>) n (log @ [(i, kvs)])"
    by (intro hc_holderI [of _ _ _ "\<lambda>j. W j @ ?D j"]) (use W(1,2) vals(2) rows in simp_all)
  then show ?thesis using vals(1) W(1,2) by (simp add: hc_add_def hash_iterates(1) [OF t])
qed

lemma hash_rows:
  assumes "length (hc_vals p) = n * n" and "hc_in_size p = n" and "r < n"
  shows "hc_begin cb pick p r = Inr (um_order pick (foldl (um_combine cb) [] (row_part n ((!) (hc_vals p)) r)))"
proof -
  have "foldE (\<lambda>combined i. bindE (arr_get (hc_vals p) (int (r * n + i))) (\<lambda>iv. Inr (foldl (um_combine cb) combined iv))) [] [0..<m] =
    Inr (foldl (um_combine cb) [] (concat (map (\<lambda>i. hc_vals p ! (r * n + i)) [0..<m])))" if "m \<le> n" for m
    using that
  proof (induction m)
    case (Suc m)
    have "r * n + m < length (hc_vals p)" using square_less [OF assms(3), of m] Suc.prems assms(1) by simp
    then show ?case using Suc by (simp add: foldE_append flip: of_nat_mult of_nat_add)
  qed simp
  from this [of n] show ?thesis using assms(2) by (simp add: hc_begin_def row_part_def)
qed

lemma hash_entries:
  assumes p: "hc_holder kh holds p n log" and r: "r < n"
  shows "\<exists>es. hc_begin cb pick p r = Inr es \<and> part_ok collects es (\<lambda>key. unat (kh key) mod n = r) (log_all log) \<and>
    length es \<le> length (log_all log)"
proof -
  obtain W where W: "hc_in_size p = n" "length (hc_vals p) = n * n"
    "\<And>j. j < n * n \<Longrightarrow> same_entries holds (hc_vals p ! j) (W j)"
    "\<And>r key. r < n \<Longrightarrow> mset (concat (sel key (row_part n W r))) = (if unat (kh key) mod n = r then mset (sel key (log_all log)) else {#})"
    using p by (auto simp: hc_holder_def)
  let ?w = "row_part n W r" and ?u = "foldl (um_combine cb) [] (row_part n ((!) (hc_vals p)) r)"
  have same: "same_entries holds (row_part n ((!) (hc_vals p)) r) ?w"
    unfolding row_part_def by (rule same_entries_concat) (use W(3) square_less [OF r] in simp)
  have ne: "[] \<notin> set (sel key ?w)" for key
    using same_entries_ne [OF same] by (force simp: set_sel)
  note U = um_fold_ok [OF same]
  have keys: "key \<in> fst ` set ?w \<longleftrightarrow> key \<in> fst ` set (log_all log) \<and> unat (kh key) mod n = r" for key
  proof -
    have "key \<in> fst ` set ?w \<longleftrightarrow> concat (sel key ?w) \<noteq> []"
      using ne [of key] sel_empty [of key ?w] by (cases "sel key ?w") auto
    also have "\<dots> \<longleftrightarrow> mset (concat (sel key ?w)) \<noteq> {#}" by simp
    also have "\<dots> \<longleftrightarrow> key \<in> fst ` set (log_all log) \<and> unat (kh key) mod n = r"
      using W(4) [OF r, of key] sel_empty [of key "log_all log"] by auto
    finally show ?thesis .
  qed
  have "part_ok collects (um_order pick ?u) (\<lambda>key. unat (kh key) mod n = r) (log_all log)"
    unfolding part_ok_def
  proof (intro conjI ballI impI)
    show "distinct (map fst (um_order pick ?u))" using U by (simp add: distinct_um_order)
    show "fst e \<in> fst ` set (um_order pick ?u)" if "e \<in> set (log_all log)" "unat (kh (fst e)) mod n = r" for e
      using U keys [of "fst e"] that by simp
    fix e assume "e \<in> set (um_order pick ?u)"
    then have e: "e \<in> set ?u" by simp
    then have "fst e \<in> fst ` set ?w" using U by blast
    then show part: "unat (kh (fst e)) mod n = r" using keys by blast
    show "\<exists>vss. collects (snd e) vss \<and> [] \<notin> set vss \<and> mset (concat vss) = mset (sel (fst e) (log_all log))"
      using U e ne [of "fst e"] W(4) [OF r, of "fst e"] part by (intro exI [of _ "sel (fst e) ?w"]) simp
  qed
  moreover have "length (um_order pick ?u) \<le> length (log_all log)"
  proof -
    have "length ?u = card (fst ` set ?u)" using U by (metis distinct_card length_map set_map)
    also have "fst ` set ?u \<subseteq> fst ` set (log_all log)" using U keys by auto
    then have "card (fst ` set ?u) \<le> card (fst ` set (log_all log))" by (intro card_mono) simp_all
    also have "\<dots> \<le> length (log_all log)" using card_length [of "map fst (log_all log)"] by simp
    finally show ?thesis by simp
  qed
  ultimately show ?thesis using hash_rows [OF W(2,1) r] by blast
qed

lemma hash_loop:
  assumes p: "hc_holder kh holds p n log" and r: "r < n"
  shows "\<exists>it. c_begin (hash_container kh cb pick) p r = Inr it \<and> (\<forall>d. \<exists>es.
    part_ok collects es (\<lambda>key. unat (kh key) mod n = r) (log_all log) \<and> length es \<le> length (log_all log) \<and>
    c_visits (hash_container kh cb pick) p d it es)"
proof -
  obtain es where es: "hc_begin cb pick p r = Inr es" "part_ok collects es (\<lambda>key. unat (kh key) mod n = r) (log_all log)"
    "length es \<le> length (log_all log)" using hash_entries [OF assms] by blast
  have "c_visits (hash_container kh cb pick) p d es es" for d
    by (rule c_visits_um) (simp_all add: hash_container_def)
  moreover have "c_begin (hash_container kh cb pick) p r = Inr es" using es(1) by (simp add: hash_container_def)
  ultimately show ?thesis using es(2,3) by blast
qed

end

sublocale hash_job \<subseteq> hash: pp_container "hash_container kh cb pick" collects "hc_table kh holds" "hc_holder kh holds"
  "\<lambda>n key. unat (kh key) mod n" "\<lambda>_. True" False 0
proof (unfold_locales, goal_cases)
  case (1 n p)
  show ?case
    by (rule hc_holderI [where W = "\<lambda>_. []"]) (simp_all add: hash_container_def hc_init_def same_entries_def log_all_def)
next
  case (2 p n log i)
  then show ?case using hash_get by (simp add: hash_container_def)
next
  case (3 t kvs key p v)
  then show ?case using hash_emit [OF 3(1,3), of key v] by (auto simp: hash_container_def)
next
  case (4 p n log t kvs i)
  then show ?case using hash_add by (simp add: hash_container_def)
next
  case (6 p n log r)
  then show ?case using hash_loop by simp
qed simp

interpretation hash_buffer: hash_job buffer_combiner "(=)" bc_collects "\<lambda>vs. vs" kh pick for kh :: "'k \<Rightarrow> 64 word" and pick
  by (rule hash_job.intro) (rule bufc.pp_combiner_axioms)

interpretation hash_sum: hash_job "sum_combiner junk" "ac_holds sum_F (sum_Init junk)" "am_collects sum_F (range sum_Init)"
  "\<lambda>vs. [sum_list vs]" kh pick for junk :: "'v :: comm_monoid_add" and kh :: "'k \<Rightarrow> 64 word" and pick
  unfolding sum_combiner_def by (rule hash_job.intro) (rule sumc.asc.pp_combiner_axioms)

section \<open>\<open>array_container\<close>\<close>

text \<open>Element \<open>k * n + i\<close> is the combiner of thread \<open>i\<close> for the key \<open>k\<close>.\<close>

definition ar_table :: "nat \<Rightarrow> ('c \<Rightarrow> 'v list \<Rightarrow> bool) \<Rightarrow> 'c list \<Rightarrow> (int \<times> 'v) list \<Rightarrow> bool" where
  "ar_table N holds t kvs \<longleftrightarrow> length t = N \<and> (\<forall>k < N. holds (t ! k) (sel (int k) kvs))"

definition of_thread :: "(nat \<times> ('k \<times> 'v) list) list \<Rightarrow> 'k \<Rightarrow> nat \<Rightarrow> 'v list" where
  "of_thread log key i = sel key (concat (sel i log))"

definition ar_holder ::
  "nat \<Rightarrow> ('c \<Rightarrow> 'v list \<Rightarrow> bool) \<Rightarrow> 'c array_container_t \<Rightarrow> nat \<Rightarrow> (nat \<times> (int \<times> 'v) list) list \<Rightarrow> bool" where
  "ar_holder N holds p n log \<longleftrightarrow>
     ar_in_size p = n \<and> length (ar_vals p) = N * n \<and> (\<forall>l \<in> set log. fst l < n) \<and>
     (\<forall>k < N. \<forall>i < n. holds (ar_vals p ! (k * n + i)) (of_thread log (int k) i))"

lemma of_thread_all:
  assumes "\<forall>l \<in> set log. fst l < n"
  shows "mset (concat (map (of_thread log key) [0..<n])) = mset (sel key (log_all log))"
  using assms
proof (induction log rule: rev_induct)
  case Nil
  have "concat (map (of_thread [] key) [0..<n]) = []" by (simp add: of_thread_def)
  then show ?case by (simp add: log_all_def)
next
  case (snoc l log)
  have eq: "of_thread (log @ [l]) key = (\<lambda>j. of_thread log key j @ (if j = fst l then sel key (snd l) else []))"
    by (rule ext) (simp add: of_thread_def)
  have "mset (concat (map (of_thread (log @ [l]) key) [0..<m])) =
    mset (concat (map (of_thread log key) [0..<m])) + (if fst l < m then mset (sel key (snd l)) else {#})" for m
    by (induction m) (auto simp: eq)
  from this [of n] show ?case using snoc by (simp add: log_all_def)
qed

lemma concat_filter_ne: "concat (filter (\<lambda>xs. xs \<noteq> []) xss) = concat xss"
  by (induction xss) simp_all

lemma slot_less2: "r < N \<Longrightarrow> i < (n :: nat) \<Longrightarrow> r * n + i < N * n"
proof -
  assume "r < N" "i < n"
  then have "Suc r * n \<le> N * n" by (intro mult_le_mono1) simp
  then show ?thesis using \<open>i < n\<close> by simp
qed

lemma slot_inj: "i < (n :: nat) \<Longrightarrow> i' < n \<Longrightarrow> r * n + i = r' * n + i' \<longleftrightarrow> r = r' \<and> i = i'"
proof
  assume less: "i < n" "i' < n" and e: "r * n + i = r' * n + i'"
  have "(r * n + i) div n = r" "(r * n + i) mod n = i" "(r' * n + i') div n = r'" "(r' * n + i') mod n = i'"
    using less by simp_all
  then show "r = r' \<and> i = i'" using e by metis
qed simp

lemma arr_modify_ok: "i < length xs \<Longrightarrow> arr_modify xs (int i) f = Inr (xs[i := f (xs ! i)])"
  by (simp add: arr_modify_def)

text \<open>\<open>add\<close> writes the column of its thread and nothing else.\<close>

lemma ar_add_writes:
  assumes P: "ar_in_size p = n" "length (ar_vals p) = N * n" and i: "i < n" and T: "length t = N"
  shows "\<exists>vals. ar_add N p i t = Inr (p\<lparr>ar_vals := vals\<rparr>) \<and> length vals = N * n \<and>
    (\<forall>k < N. \<forall>j < n. vals ! (k * n + j) = (if j = i then t ! k else ar_vals p ! (k * n + j)))"
proof -
  let ?step = "\<lambda>vals k. bindE (arr_get t (int k)) (\<lambda>c. arr_set vals (int (k * ar_in_size p + i)) c)"
  let ?Q = "\<lambda>m vals. length vals = N * n \<and>
    (\<forall>k < N. \<forall>j < n. vals ! (k * n + j) = (if k < m \<and> j = i then t ! k else ar_vals p ! (k * n + j)))"
  have "\<exists>vals. foldE ?step (ar_vals p) [0..<N] = Inr vals \<and> ?Q N vals"
  proof (rule foldE_upt [where P = ?Q])
    show "?Q 0 (ar_vals p)" using P(2) by simp
  next
    fix m vals assume m: "m < N" and Q: "?Q m vals"
    have less: "m * n + i < length vals" using slot_less2 [OF m i] Q by simp
    then have "arr_set vals (int (m * ar_in_size p + i)) (t ! m) = Inr (vals[m * n + i := t ! m])"
      unfolding P(1) by (rule arr_set_nth)
    then have "?step vals m = Inr (vals[m * n + i := t ! m])" using m T by simp
    moreover have "?Q (Suc m) (vals[m * n + i := t ! m])"
    proof (intro conjI allI impI)
      fix k j assume kj: "k < N" "j < n"
      show "vals[m * n + i := t ! m] ! (k * n + j) = (if k < Suc m \<and> j = i then t ! k else ar_vals p ! (k * n + j))"
        using Q kj less slot_inj [OF i kj(2), of m k] by (auto simp: nth_list_update_if less_Suc_eq)
    qed (use Q in simp)
    ultimately show "\<exists>vals'. ?step vals m = Inr vals' \<and> ?Q (Suc m) vals'" by blast
  qed
  then show ?thesis by (auto simp: ar_add_def)
qed

text \<open>Hence a second \<open>add\<close> of the same thread replaces what the first one wrote.\<close>

lemma ar_add_twice:
  assumes P: "ar_in_size p = n" "length (ar_vals p) = N * n" and i: "i < n" and T: "length t = N" "length t' = N"
  shows "\<exists>p'. bindE (ar_add N p i t) (\<lambda>p. ar_add N p i t') = Inr p' \<and> ar_add N p i t' = Inr p'"
proof -
  obtain v1 where v1: "ar_add N p i t = Inr (p\<lparr>ar_vals := v1\<rparr>)" "length v1 = N * n"
    "\<forall>k < N. \<forall>j < n. v1 ! (k * n + j) = (if j = i then t ! k else ar_vals p ! (k * n + j))"
    using ar_add_writes [OF P i T(1)] by blast
  obtain v2 where v2: "ar_add N (p\<lparr>ar_vals := v1\<rparr>) i t' = Inr (p\<lparr>ar_vals := v2\<rparr>)" "length v2 = N * n"
    "\<forall>k < N. \<forall>j < n. v2 ! (k * n + j) = (if j = i then t' ! k else v1 ! (k * n + j))"
    using ar_add_writes [of "p\<lparr>ar_vals := v1\<rparr>", OF _ _ i T(2)] P(1) v1(2) by auto
  obtain v where v: "ar_add N p i t' = Inr (p\<lparr>ar_vals := v\<rparr>)" "length v = N * n"
    "\<forall>k < N. \<forall>j < n. v ! (k * n + j) = (if j = i then t' ! k else ar_vals p ! (k * n + j))"
    using ar_add_writes [OF P i T(2)] by blast
  have "v2 = v"
  proof (rule nth_equalityI)
    fix q assume "q < length v2"
    then have q: "q < N * n" using v2(2) by simp
    have "0 < n" using i by simp
    then have "q div n < N" "q mod n < n" "q = q div n * n + q mod n" using q by (simp_all add: less_mult_imp_div_less)
    then show "v2 ! q = v ! q" using v1(3) v2(3) v(3) by metis
  qed (use v2(2) v(2) in simp)
  then show ?thesis using v1(1) v2(1) v(1) by simp
qed

locale array_job = pp_combiner cb holds collects out
  for cb :: "('v, 'c, 'd) combiner" and holds :: "'c \<Rightarrow> 'v list \<Rightarrow> bool" and collects :: "'d \<Rightarrow> 'v list list \<Rightarrow> bool"
    and out :: "'v list \<Rightarrow> 'v list" +
  fixes N :: nat
begin

lemma array_emit:
  assumes "ar_table N holds t kvs" and "0 \<le> key" and "key < int N"
  shows "\<exists>t'. arr_modify t key (\<lambda>c. cb_add cb c v) = Inr t' \<and> ar_table N holds t' (kvs @ [(key, v)])"
proof -
  obtain k where k: "key = int k" using assms(2) by (metis nat_0_le)
  then have kN: "k < N" using assms(3) by simp
  let ?t = "t[k := cb_add cb (t ! k) v]"
  have t: "length t = N" "\<And>k. k < N \<Longrightarrow> holds (t ! k) (sel (int k) kvs)" using assms(1) by (auto simp: ar_table_def)
  have "holds (?t ! j) (sel (int j) (kvs @ [(key, v)]))" if "j < N" for j
    using t holds_add [OF t(2) [OF kN], of v] that kN k by (cases "j = k") auto
  then have "ar_table N holds ?t (kvs @ [(key, v)])" using t(1) by (simp add: ar_table_def)
  then show ?thesis using arr_modify_ok [of k t] kN k t(1) by simp
qed

lemma array_add:
  assumes p: "ar_holder N holds p n log" and t: "ar_table N holds t kvs" and i: "i < n" "i \<notin> fst ` set log"
  shows "\<exists>p'. ar_add N p i t = Inr p' \<and> ar_holder N holds p' n (log @ [(i, kvs)])"
proof -
  have P: "ar_in_size p = n" "length (ar_vals p) = N * n" "\<And>l. l \<in> set log \<Longrightarrow> fst l < n"
    "\<And>k j. k < N \<Longrightarrow> j < n \<Longrightarrow> holds (ar_vals p ! (k * n + j)) (of_thread log (int k) j)"
    using p by (auto simp: ar_holder_def)
  have T: "length t = N" "\<And>k. k < N \<Longrightarrow> holds (t ! k) (sel (int k) kvs)" using t by (auto simp: ar_table_def)
  obtain vals where vals: "ar_add N p i t = Inr (p\<lparr>ar_vals := vals\<rparr>)" "length vals = N * n"
    "\<And>k j. k < N \<Longrightarrow> j < n \<Longrightarrow> vals ! (k * n + j) = (if j = i then t ! k else ar_vals p ! (k * n + j))"
    using ar_add_writes [OF P(1,2) i(1) T(1)] by blast
  have "sel i log = []" using i(2) by (simp add: sel_empty)
  then have "holds (vals ! (k * n + j)) (of_thread (log @ [(i, kvs)]) (int k) j)" if "k < N" "j < n" for k j
    using vals(3) [OF that] P(4) [OF that] T(2) [OF that(1)] by (auto simp: of_thread_def)
  then have "ar_holder N holds (p\<lparr>ar_vals := vals\<rparr>) n (log @ [(i, kvs)])"
    using P(1,3) i(1) vals(2) by (auto simp: ar_holder_def)
  then show ?thesis using vals(1) by simp
qed

text \<open>The values of one key.\<close>

lemma array_values:
  assumes p: "ar_holder N holds p n log" and k: "k < N"
  shows "\<exists>d'. ar_next N cb p k d = Inr (Some (int k, d'), k + n) \<and>
    collects d' (filter (\<lambda>vs. vs \<noteq> []) (map (of_thread log (int k)) [0..<n]))"
proof -
  have P: "ar_in_size p = n" "length (ar_vals p) = N * n"
    "\<And>k j. k < N \<Longrightarrow> j < n \<Longrightarrow> holds (ar_vals p ! (k * n + j)) (of_thread log (int k) j)"
    using p by (auto simp: ar_holder_def)
  let ?step = "\<lambda>values j. bindE (arr_get (ar_vals p) (int (k * ar_in_size p + j))) (\<lambda>c.
    Inr (if \<not> cb_empty cb c then cd_add cb values c else values))"
  have "\<exists>d'. foldE ?step (cd_clear cb d) [0..<n] = Inr d' \<and> collects d' (filter (\<lambda>vs. vs \<noteq> []) (map (of_thread log (int k)) [0..<n]))"
  proof (rule foldE_upt)
    show "collects (cd_clear cb d) (filter (\<lambda>vs. vs \<noteq> []) (map (of_thread log (int k)) [0..<0]))" using collects_clear by simp
  next
    fix j d' assume j: "j < n" and d': "collects d' (filter (\<lambda>vs. vs \<noteq> []) (map (of_thread log (int k)) [0..<j]))"
    have "k * n + j < length (ar_vals p)" using slot_less2 [OF k j] P(2) by simp
    then have get: "arr_get (ar_vals p) (int (k * ar_in_size p + j)) = Inr (ar_vals p ! (k * n + j))"
      unfolding P(1) by (rule arr_get_nth)
    note h = P(3) [OF k j]
    show "\<exists>d''. ?step d' j = Inr d'' \<and> collects d'' (filter (\<lambda>vs. vs \<noteq> []) (map (of_thread log (int k)) [0..<Suc j]))"
      using get d' holds_empty [OF h] collects_add [OF d' h] by auto
  qed
  then obtain d' where d': "foldE ?step (cd_clear cb d) [0..<n] = Inr d'"
    "collects d' (filter (\<lambda>vs. vs \<noteq> []) (map (of_thread log (int k)) [0..<n]))" by blast
  then show ?thesis using k P(1) by (intro exI [of _ d']) (simp add: ar_next_def)
qed

text \<open>The loop from key \<open>k\<close> on, in steps of \<open>n\<close>.\<close>

lemma mod_step:
  assumes "(k :: nat) < j" and "j mod n = k mod n"
  shows "k + n \<le> j"
proof -
  have "n dvd j - k" using assms by (simp add: mod_eq_dvd_iff_nat)
  then show ?thesis using assms(1) dvd_imp_le [of n "j - k"] by simp
qed

lemma array_loop:
  assumes p: "ar_holder N holds p n log" and n: "0 < n"
  shows "\<exists>es. distinct (map fst es) \<and> (\<forall>key. key \<in> fst ` set es \<longleftrightarrow> (\<exists>j. key = int j \<and> k \<le> j \<and> j < N \<and> j mod n = k mod n)) \<and>
    (\<forall>e \<in> set es. collects (snd e) (filter (\<lambda>vs. vs \<noteq> []) (map (of_thread log (fst e)) [0..<n]))) \<and> length es \<le> N - k \<and>
    c_visits (array_container N cb) p d k es"
proof (induction "N - k" arbitrary: k d rule: less_induct)
  case less
  have nx: "c_next (array_container N cb) = ar_next N cb" by (simp add: array_container_def)
  show ?case
  proof (cases "k < N")
    case False
    have "c_visits (array_container N cb) p d k []"
      by (rule c_visits_end [of _ _ _ _ k]) (use False in \<open>simp_all add: array_container_def ar_next_def\<close>)
    then show ?thesis using False by (intro exI [of _ "[]"]) auto
  next
    case True
    obtain d' where d': "ar_next N cb p k d = Inr (Some (int k, d'), k + n)"
      "collects d' (filter (\<lambda>vs. vs \<noteq> []) (map (of_thread log (int k)) [0..<n]))" using array_values [OF p True] by blast
    have "N - (k + n) < N - k" using True n by simp
    from less [OF this, of d'] obtain es where es: "distinct (map fst es)"
      "\<And>key. key \<in> fst ` set es \<longleftrightarrow> (\<exists>j. key = int j \<and> k + n \<le> j \<and> j < N \<and> j mod n = k mod n)"
      "\<And>e. e \<in> set es \<Longrightarrow> collects (snd e) (filter (\<lambda>vs. vs \<noteq> []) (map (of_thread log (fst e)) [0..<n]))"
      "length es \<le> N - (k + n)" "c_visits (array_container N cb) p d' (k + n) es"
      by (simp only: mod_add_self2) blast
    let ?es = "(int k, d') # es"
    have "key \<in> fst ` set ?es \<longleftrightarrow> (\<exists>j. key = int j \<and> k \<le> j \<and> j < N \<and> j mod n = k mod n)" for key
    proof
      assume "key \<in> fst ` set ?es"
      then consider "key = int k" | "key \<in> fst ` set es" by auto
      then show "\<exists>j. key = int j \<and> k \<le> j \<and> j < N \<and> j mod n = k mod n"
      proof cases
        case 1
        then show ?thesis using True by (intro exI [of _ k]) simp
      next
        case 2
        then show ?thesis unfolding es(2) by (elim exE) (intro exI, auto)
      qed
    next
      assume "\<exists>j. key = int j \<and> k \<le> j \<and> j < N \<and> j mod n = k mod n"
      then obtain j where j: "key = int j" "k \<le> j" "j < N" "j mod n = k mod n" by blast
      then show "key \<in> fst ` set ?es" using mod_step [of k j n] es(2) [of key] by (cases "j = k") auto
    qed
    moreover have "int k \<notin> fst ` set es" using n by (simp only: es(2)) auto
    moreover have "c_visits (array_container N cb) p d k ?es" by (rule c_visits_step [OF _ es(5)]) (simp add: nx d'(1))
    moreover have "length ?es \<le> N - k" using es(4) True n by simp
    ultimately show ?thesis using es(1,3) d'(2) by (intro exI [of _ ?es]) auto
  qed
qed

lemma array_entries:
  assumes p: "ar_holder N holds p n log" and r: "r < n" and keys: "\<forall>e \<in> set (log_all log). 0 \<le> fst e \<and> fst e < int N"
  shows "\<exists>es. part_ok collects es (\<lambda>key. nat key mod n = r) (log_all log) \<and> length es \<le> N + length (log_all log) \<and>
    c_visits (array_container N cb) p d r es"
proof -
  have n: "0 < n" using r by simp
  from array_loop [OF p n, of r d] obtain es where es: "distinct (map fst es)"
    "\<And>key. key \<in> fst ` set es \<longleftrightarrow> (\<exists>j. key = int j \<and> r \<le> j \<and> j < N \<and> j mod n = r mod n)"
    "\<And>e. e \<in> set es \<Longrightarrow> collects (snd e) (filter (\<lambda>vs. vs \<noteq> []) (map (of_thread log (fst e)) [0..<n]))"
    "length es \<le> N - r" "c_visits (array_container N cb) p d r es"
    by blast
  have log: "\<forall>l \<in> set log. fst l < n" using p by (simp add: ar_holder_def)
  have key: "key \<in> fst ` set es" if k: "0 \<le> key" "key < int N" "nat key mod n = r" for key
  proof -
    have "r \<le> nat key" using k(3) mod_less_eq_dividend [of "nat key" n] by simp
    then show ?thesis unfolding es(2) using k r by (intro exI [of _ "nat key"]) auto
  qed
  have "part_ok collects es (\<lambda>key. nat key mod n = r) (log_all log)"
    unfolding part_ok_def
  proof (intro conjI ballI impI)
    show "distinct (map fst es)" by (rule es(1))
    show "fst e \<in> fst ` set es" if "e \<in> set (log_all log)" "nat (fst e) mod n = r" for e
      using key [of "fst e"] keys that by blast
    fix e assume e: "e \<in> set es"
    then have "fst e \<in> fst ` set es" by simp
    then show "nat (fst e) mod n = r" unfolding es(2) using r by auto
    show "\<exists>vss. collects (snd e) vss \<and> [] \<notin> set vss \<and> mset (concat vss) = mset (sel (fst e) (log_all log))"
      using es(3) [OF e] of_thread_all [OF log, of "fst e"]
      by (intro exI [of _ "filter (\<lambda>vs. vs \<noteq> []) (map (of_thread log (fst e)) [0..<n])"]) (simp add: concat_filter_ne)
  qed
  then show ?thesis using es(4,5) by (intro exI [of _ es]) simp
qed

end

sublocale array_job \<subseteq> arr: pp_container "array_container N cb" collects "ar_table N holds" "ar_holder N holds"
  "\<lambda>n key. nat key mod n" "\<lambda>key. 0 \<le> key \<and> key < int N" True N
proof (unfold_locales, goal_cases)
  case (1 n p)
  have "holds (replicate (n * N) (cb_new cb) ! (k * n + i)) []" if "k < N" "i < n" for k i
    using slot_less2 [OF that] holds_new by (simp add: mult.commute)
  then show ?case by (simp add: ar_holder_def array_container_def of_thread_def mult.commute)
next
  case (2 p n log i)
  then show ?case using holds_new by (simp add: array_container_def ar_table_def)
next
  case (3 t kvs key p v)
  then show ?case using array_emit [of t kvs key v] by (auto simp: array_container_def)
next
  case (4 p n log t kvs i)
  then show ?case using array_add by (simp add: array_container_def)
next
  case (6 p n log r)
  then show ?case using array_entries [of p n log r] by (intro exI [of _ r]) (simp add: array_container_def)
qed simp

interpretation array_sum: array_job "sum_combiner junk" "ac_holds sum_F (sum_Init junk)" "am_collects sum_F (range sum_Init)"
  "\<lambda>vs. [sum_list vs]" N for junk :: "'v :: comm_monoid_add" and N
  unfolding sum_combiner_def by (rule array_job.intro) (rule sumc.asc.pp_combiner_axioms)

end
