(* ===== verification/PPMapReduce_Correct.thy ===== *)
theory PPMapReduce_Correct
  imports PPMapReduce PPContainer_Correct
begin

text \<open>
  The map and the reduce phase of \<open>MapReduce\<close> with any container that keeps the contract
  \<open>pp_container\<close>: whatever the schedule of the threads, every element is mapped once and every key
  that was emitted is reduced once with all its values.
\<close>

section \<open>Sums of multisets\<close>

lemma mset_concat_map: "mset (concat (map f xs)) = (\<Sum>x \<in># mset xs. mset (f x))"
  by (induction xs) simp_all

lemma mset_concat_upd:
  assumes "i < n"
  shows "mset (concat (map (f(i := f i @ ws)) [0..<n])) = mset (concat (map f [0..<n])) + mset ws"
proof -
  have "mset (concat (map (f(i := f i @ ws)) [0..<m])) = mset (concat (map f [0..<m])) + (if i < m then mset ws else {#})" for m
    by (induction m) (auto simp: less_Suc_eq)
  from this [of n] show ?thesis using assms by simp
qed

lemma length_le_concat: "i < n \<Longrightarrow> length (f i) \<le> length (concat (map f [0..<n]))"
  by (induction n) (auto simp: less_Suc_eq)

lemma length_in_concat: "x \<in> set xs \<Longrightarrow> length (f x) \<le> length (concat (map f xs))"
  by (induction xs) auto

lemma filter_finish:
  assumes "i < n" and "length pcs = n" and "pcs ! i \<noteq> p"
  shows "mset (filter (\<lambda>j. pcs[i := p] ! j = p) [0..<n]) = add_mset i (mset (filter (\<lambda>j. pcs ! j = p) [0..<n]))"
proof -
  have "mset (filter (\<lambda>j. pcs[i := p] ! j = p) [0..<m]) =
    mset (filter (\<lambda>j. pcs ! j = p) [0..<m]) + (if i < m then {#i#} else {#})" if "m \<le> n" for m
    using that
  proof (induction m)
    case (Suc m)
    then show ?case using assms by (cases "m = i") (auto simp: nth_list_update_if)
  qed simp
  from this [of n] show ?thesis using assms(1) by simp
qed

lemma filter_keep:
  assumes "length pcs = n" and "pcs ! i \<noteq> p" and "q \<noteq> p"
  shows "filter (\<lambda>j. pcs[i := q] ! j = p) [0..<n] = filter (\<lambda>j. pcs ! j = p) [0..<n]"
proof (rule filter_cong [OF refl])
  fix j assume "j \<in> set [0..<n]"
  then show "(pcs[i := q] ! j = p) = (pcs ! j = p)" using assms by (cases "j = i") auto
qed

section \<open>The threads of a phase\<close>

lemma worker_thread_less:
  assumes "i < n" and "n \<le> N" and "0 < N"
  shows "worker_thread N n i < N"
proof -
  have "i * N < N * n" using assms by simp
  then show ?thesis unfolding worker_thread_def by (rule less_mult_imp_div_less)
qed

lemma worker_thread_mono:
  assumes "i < j" and "n \<le> N" and "0 < n"
  shows "worker_thread N n i < worker_thread N n j"
proof -
  have "Suc i * N \<le> j * N" using assms(1) by (intro mult_le_mono1) simp
  then have "i * N + n \<le> j * N" using assms(2) by simp
  then have "(i * N + n) div n \<le> j * N div n" by (rule div_le_mono)
  moreover have "(i * N + n) div n = Suc (i * N div n)" using div_add_self2 [of n "i * N"] assms(3) by simp
  ultimately show ?thesis unfolding worker_thread_def by simp
qed

lemma worker_thread_inj: "n \<le> N \<Longrightarrow> 0 < n \<Longrightarrow> worker_thread N n i = worker_thread N n j \<longleftrightarrow> i = j"
  by (metis linorder_less_linear worker_thread_mono less_irrefl)

text \<open>A schedule that is long enough for \<open>n\<close> workers and so many tasks.\<close>

definition turns :: "nat list \<Rightarrow> nat \<Rightarrow> nat \<Rightarrow> bool" where
  "turns sched n tasks \<longleftrightarrow> (\<forall>t < n. tasks + 2 \<le> count_list sched t)"

definition mr_ok :: "nat \<Rightarrow> ('k, 'v, 'p, 't) pp_state \<Rightarrow> bool" where
  "mr_ok N st \<longleftrightarrow> 0 < N \<and> N < 2 ^ 26 \<and> mr_num_threads st = N \<and> length (mr_locs st) = N \<and>
     list_all (\<lambda>loc. 0 \<le> loc_index loc) (mr_locs st) \<and> pq_ok (mr_queue st) \<and> pq_tasks (mr_queue st) = [] \<and>
     length (mr_inputs st) = N"

lemma take_task_ok:
  assumes "length (mr_locs st) = N" and "list_all (\<lambda>loc. 0 \<le> loc_index loc) (mr_locs st)" and "i < N" and "pq_ok (mr_queue st)"
  shows "(\<exists>task q'. take_task i st = Inr (Some task, st\<lparr>mr_queue := q'\<rparr>) \<and> pq_ok q' \<and>
      mset (pq_tasks (mr_queue st)) = add_mset task (mset (pq_tasks q'))) \<or>
    (take_task i st = Inr (None, st) \<and> pq_tasks (mr_queue st) = [])"
proof -
  have "0 \<le> loc_index (mr_locs st ! i)" using assms by (simp add: list_all_length)
  then show ?thesis using pq_dequeue_ok [OF assms(4), of "mr_locs st ! i"] assms(1,3) by (auto simp: take_task_def)
qed

section \<open>Map tasks\<close>

definition task_emits :: "('x, 'k, 'v, 'c, 'd, 'p, 't, 'it) mr_class \<Rightarrow> 'x list \<Rightarrow> pp_task \<Rightarrow> ('k \<times> 'v) list" where
  "task_emits cl xs task = concat (map (cl_map cl) (take (unat (pt_len task)) (drop (unat (pt_data task)) xs)))"

definition task_inside :: "'x list \<Rightarrow> pp_task \<Rightarrow> bool" where
  "task_inside xs task \<longleftrightarrow> unat (pt_data task) + unat (pt_len task) \<le> length xs"

definition map_tasks :: "('x, 'k, 'v, 'c, 'd, 'p, 't, 'it) mr_class \<Rightarrow> nat \<Rightarrow> nat \<Rightarrow> nat \<Rightarrow> pp_task list" where
  "map_tasks cl n chunk T =
     map (\<lambda>i. map_task i (chunk * i) (min chunk (n - chunk * i)) (cl_lgrp cl (chunk * i))) (filter (\<lambda>i. chunk * i < n) [0..<T])"

lemma unat_nat64: "n < 2 ^ 64 \<Longrightarrow> unat (word_of_nat n :: 64 word) = n"
  by (simp add: unat_of_nat take_bit_nat_eq_self_iff)

lemma enqueue_map_tasks:
  assumes q: "pq_ok q" and T: "T < 2 ^ 31" and lgrp: "\<And>i. cl_lgrp cl i < 2 ^ 31"
  shows "\<exists>q'. foldE (enqueue_map_task cl rnd n chunk T) q [0..<T] = Inr q' \<and> pq_ok q' \<and>
    mset (pq_tasks q') = mset (pq_tasks q) + mset (map_tasks cl n chunk T)"
proof -
  let ?P = "\<lambda>m q'. pq_ok q' \<and> mset (pq_tasks q') = mset (pq_tasks q) + mset (map_tasks cl n chunk m)"
  have "\<exists>q'. foldE (enqueue_map_task cl rnd n chunk T) q [0..<T] = Inr q' \<and> ?P T q'"
  proof (rule foldE_upt [where P = ?P])
    show "?P 0 q" using q by (simp add: map_tasks_def)
  next
    fix i q' assume i: "i < T" and P: "?P i q'"
    show "\<exists>q''. enqueue_map_task cl rnd n chunk T q' i = Inr q'' \<and> ?P (Suc i) q''"
    proof (cases "chunk * i < n")
      case False
      then show ?thesis using P by (simp add: enqueue_map_task_def Let_def map_tasks_def)
    next
      case True
      let ?task = "map_task i (chunk * i) (min chunk (n - chunk * i)) (cl_lgrp cl (chunk * i))"
      have "unat (pt_id ?task) < T" using i T by (simp add: map_task_def unat_nat64)
      from pq_enqueue_seq_ok [OF _ lgrp T this, of q' "rnd i" "chunk * i"] P obtain q'' where
        q'': "pq_enqueue_seq (rnd i) q' ?task (int T) (cl_lgrp cl (chunk * i)) = Inr q''" "pq_ok q''"
          "mset (pq_tasks q'') = add_mset ?task (mset (pq_tasks q'))" by blast
      have "to_int32 (int T) = int T" using T by (intro to_int32_id) simp_all
      then show ?thesis using q'' P True by (simp add: enqueue_map_task_def Let_def map_tasks_def)
    qed
  qed
  then show ?thesis by blast
qed

text \<open>The pieces of the tasks join to the data.\<close>

lemma concat_pieces: "concat (map (\<lambda>i. take c (drop (c * i) xs)) [0..<T]) = take (c * T) xs"
proof (induction T)
  case (Suc T)
  then show ?case by (simp add: take_add add.commute [of c])
qed simp

lemma concat_map_filter: "(\<And>i. i \<in> set is \<Longrightarrow> \<not> P i \<Longrightarrow> f i = []) \<Longrightarrow> concat (map f (filter P is)) = concat (map f is)"
  by (induction "is") auto

lemma map_tasks_emit:
  assumes "length xs < 2 ^ 31" and "chunk < 2 ^ 31" and "length xs \<le> chunk * T"
  shows "concat (map (task_emits cl xs) (map_tasks cl (length xs) chunk T)) = concat (map (cl_map cl) xs)"
    "\<forall>task \<in> set (map_tasks cl (length xs) chunk T). task_inside xs task"
proof -
  let ?f = "\<lambda>i. take chunk (drop (chunk * i) xs)"
  have emit: "task_emits cl xs (map_task i (chunk * i) (min chunk (length xs - chunk * i)) l) = concat (map (cl_map cl) (?f i))"
    if "chunk * i < length xs" for i l
    using that assms(1,2) by (simp add: task_emits_def map_task_def unat_nat64 del: of_nat_mult) (simp add: min_def)
  have "concat (map (task_emits cl xs) (map_tasks cl (length xs) chunk T)) =
    concat (map (\<lambda>i. concat (map (cl_map cl) (?f i))) (filter (\<lambda>i. chunk * i < length xs) [0..<T]))"
    unfolding map_tasks_def map_map o_def by (intro arg_cong [of _ _ concat] map_cong) (simp_all add: emit)
  also have "\<dots> = concat (map (\<lambda>i. concat (map (cl_map cl) (?f i))) [0..<T])" by (rule concat_map_filter) simp
  also have "\<dots> = concat (map (cl_map cl) (concat (map ?f [0..<T])))"
    by (simp add: map_concat concat_concat_map o_def)
  also have "\<dots> = concat (map (cl_map cl) xs)" using assms(3) by (simp add: concat_pieces)
  finally show "concat (map (task_emits cl xs) (map_tasks cl (length xs) chunk T)) = concat (map (cl_map cl) xs)" .
  show "\<forall>task \<in> set (map_tasks cl (length xs) chunk T). task_inside xs task"
    using assms(1,2) by (auto simp: map_tasks_def task_inside_def map_task_def unat_nat64 simp del: of_nat_mult)
qed

lemma map_chunk_size_ok:
  assumes "0 < T" and "n < 2 ^ 31"
  shows "\<exists>chunk. map_chunk_size n T = Inr chunk \<and> chunk < 2 ^ 31 \<and> n \<le> chunk * T"
proof -
  have "n + T - 1 < Suc n * T" using assms(1) by (cases T) auto
  then have "(n + T - 1) div T < Suc n" by (rule less_mult_imp_div_less)
  moreover have "n \<le> (n + T - 1) div T * T"
    using div_mult_mod_eq [of "n + T - 1" T] mod_less_divisor [OF assms(1), of "n + T - 1"] by linarith
  ultimately show ?thesis using assms by (cases "(n + T - 1) div T = 0") (auto simp: map_chunk_size_def max_def)
qed

section \<open>A job\<close>

text \<open>
  A class whose container keeps its contract, and whose reduce function gives, up to order, a
  function \<open>R\<close> of the key and of its values in any order.
\<close>

locale pp_job = pp_container C collects tab holder part key_ok once cap
  for C :: "('k, 'v, 'p, 't, 'it, 'd) container" and collects :: "'d \<Rightarrow> 'v list list \<Rightarrow> bool"
    and tab :: "'t \<Rightarrow> ('k \<times> 'v) list \<Rightarrow> bool" and holder :: "'p \<Rightarrow> nat \<Rightarrow> (nat \<times> ('k \<times> 'v) list) list \<Rightarrow> bool"
    and part :: "nat \<Rightarrow> 'k \<Rightarrow> nat" and key_ok :: "'k \<Rightarrow> bool" and once :: bool and cap :: nat +
  fixes cl :: "('x, 'k, 'v, 'c, 'd, 'p, 't, 'it) mr_class" and R :: "'k \<Rightarrow> 'v multiset \<Rightarrow> ('k \<times> 'v) multiset"
  assumes class_container: "cl_container cl = C"
    and size_ok: "collects d vss \<Longrightarrow> vss_ok vss \<Longrightarrow> 0 < cd_size (cl_combiner cl) d \<longleftrightarrow> vss \<noteq> []"
    and reduce_ok: "collects d vss \<Longrightarrow> vss_ok vss \<Longrightarrow> vss \<noteq> [] \<Longrightarrow> length (concat vss) \<le> 2 ^ 28 \<Longrightarrow>
      \<exists>new. cl_reduce cl key d out = Inr (out @ new) \<and> mset new = R key (mset (concat vss))"
    and rounds_ok: "cap + 2 ^ 28 < cl_rounds cl"
    and lgrp_ok: "cl_lgrp cl i < 2 ^ 31"
begin

definition emits :: "'x list \<Rightarrow> ('k \<times> 'v) list" where
  "emits xs = concat (map (cl_map cl) xs)"

lemma set_task_emits: "set (task_emits cl xs task) \<subseteq> set (emits xs)"
  unfolding task_emits_def emits_def by (auto dest: in_set_takeD in_set_dropD)

lemma map_elements_ok:
  assumes "task_inside xs task" and "\<forall>e \<in> set (emits xs). key_ok (fst e)" and "tab t kvs"
    and "length (kvs @ task_emits cl xs task) \<le> 2 ^ 28"
  shows "\<exists>t'. map_elements cl xs task (p, t) = Inr (p, t') \<and> tab t' (kvs @ task_emits cl xs task)"
proof -
  let ?d = "unat (pt_data task)" and ?l = "unat (pt_len task)"
  let ?e = "\<lambda>m. concat (map (cl_map cl) (take m (drop ?d xs)))"
  let ?step = "\<lambda>pt i. bindE (arr_get xs (int (?d + i))) (\<lambda>x.
    foldE (\<lambda>(p, t) e. c_emit (cl_container cl) p t (fst e) (snd e)) pt (cl_map cl x))"
  let ?P = "\<lambda>m (pt :: 'p \<times> 't). fst pt = p \<and> tab (snd pt) (kvs @ ?e m)"
  have "\<exists>pt. foldE ?step (p, t) [0..<?l] = Inr pt \<and> ?P ?l pt"
  proof (rule foldE_upt [where P = ?P])
    show "?P 0 (p, t)" using assms(3) by simp
  next
    fix i pt assume i: "i < ?l" and P: "?P i pt"
    have il: "?d + i < length xs" using i assms(1) by (simp add: task_inside_def)
    have next_e: "?e (Suc i) = ?e i @ cl_map cl (xs ! (?d + i))" using il by (simp add: take_Suc_conv_app_nth)
    have pre: "\<exists>rest. task_emits cl xs task = ?e (Suc i) @ rest"
    proof -
      have "take ?l (drop ?d xs) = take (Suc i) (take ?l (drop ?d xs)) @ drop (Suc i) (take ?l (drop ?d xs))"
        by (rule append_take_drop_id [symmetric])
      moreover have "take (Suc i) (take ?l (drop ?d xs)) = take (Suc i) (drop ?d xs)" using i by (simp add: min_def)
      ultimately show ?thesis unfolding task_emits_def by (metis concat_append map_append)
    qed
    then have "length ((kvs @ ?e i) @ cl_map cl (xs ! (?d + i))) \<le> 2 ^ 28" using assms(4) next_e by auto
    moreover have "\<forall>e \<in> set (cl_map cl (xs ! (?d + i))). key_ok (fst e)"
      using assms(2) il nth_mem [OF il] by (auto simp: emits_def)
    ultimately obtain t' where "foldE (\<lambda>(p, t) e. c_emit C p t (fst e) (snd e)) (p, snd pt) (cl_map cl (xs ! (?d + i))) = Inr (p, t')"
      "tab t' ((kvs @ ?e i) @ cl_map cl (xs ! (?d + i)))" using emits_ok P by blast
    moreover have "pt = (p, snd pt)" using P by (cases pt) simp
    ultimately have "?step pt i = Inr (p, t')" "?P (Suc i) (p, t')"
      using il next_e by (simp_all add: class_container arr_get_int nat_add_distrib del: of_nat_add)
    then show "\<exists>pt'. ?step pt i = Inr pt' \<and> ?P (Suc i) pt'" by blast
  qed
  then obtain pt where "foldE ?step (p, t) [0..<?l] = Inr pt" "?P ?l pt" by blast
  then show ?thesis by (cases pt) (auto simp: map_elements_def task_emits_def)
qed

text \<open>
  The invariant of the map phase: \<open>dn i\<close> is what worker \<open>i\<close> has emitted so far. That and what the
  tasks in the queues will emit make up what the data emit. \<open>log0\<close> is what was in the container
  before.
\<close>

definition dn_ok :: "nat \<Rightarrow> nat \<Rightarrow> worker_pc \<Rightarrow> 't option list \<Rightarrow> ('k \<times> 'v) list \<Rightarrow> nat \<Rightarrow> bool" where
  "dn_ok N nw pc ins kvs i \<longleftrightarrow>
     (case pc of
        Ready \<Rightarrow> kvs = []
      | Working \<Rightarrow> (\<exists>t. ins ! worker_thread N nw i = Some t \<and> tab t kvs)
      | Finished \<Rightarrow> True)"

definition finished_log :: "nat \<Rightarrow> nat \<Rightarrow> worker_pc list \<Rightarrow> (nat \<Rightarrow> ('k \<times> 'v) list) \<Rightarrow> (nat \<times> ('k \<times> 'v) list) multiset" where
  "finished_log N nw pcs dn = image_mset (\<lambda>i. (worker_thread N nw i, dn i)) (mset (filter (\<lambda>i. pcs ! i = Finished) [0..<nw]))"

definition map_state ::
  "nat \<Rightarrow> nat \<Rightarrow> 'x list \<Rightarrow> (nat \<times> ('k \<times> 'v) list) list \<Rightarrow> worker_pc list \<Rightarrow>
   pp_task_queue \<Rightarrow> 'p \<Rightarrow> 't option list \<Rightarrow> (nat \<Rightarrow> ('k \<times> 'v) list) \<Rightarrow> (nat \<times> ('k \<times> 'v) list) list \<Rightarrow> bool" where
  "map_state N nw xs log0 pcs q p ins dn log \<longleftrightarrow>
     pq_ok q \<and> (\<forall>task \<in> set (pq_tasks q). task_inside xs task) \<and> holder p N log \<and> length ins = N \<and>
     (\<forall>i < nw. dn_ok N nw (pcs ! i) ins (dn i) i) \<and> mset log = mset log0 + finished_log N nw pcs dn \<and>
     mset (concat (map dn [0..<nw])) + mset (concat (map (task_emits cl xs) (pq_tasks q))) = mset (emits xs)"

definition map_inv ::
  "nat \<Rightarrow> nat \<Rightarrow> 'x list \<Rightarrow> (nat \<times> ('k \<times> 'v) list) list \<Rightarrow> ('k, 'v, 'p, 't) pp_state \<Rightarrow>
   nat \<Rightarrow> worker_pc list \<Rightarrow> ('k, 'v, 'p, 't) pp_state \<Rightarrow> bool" where
  "map_inv N nw xs log0 s0 n pcs s \<longleftrightarrow>
     (\<exists>q p ins dn log. s = s0\<lparr>mr_queue := q, mr_container := p, mr_inputs := ins\<rparr> \<and> n = length (pq_tasks q) \<and>
        map_state N nw xs log0 pcs q p ins dn log)"

definition phase_ok :: "nat \<Rightarrow> nat \<Rightarrow> ('k, 'v, 'p, 't) pp_state \<Rightarrow> bool" where
  "phase_ok N nw s0 \<longleftrightarrow> 0 < nw \<and> nw \<le> N \<and> length (mr_locs s0) = N \<and> list_all (\<lambda>loc. 0 \<le> loc_index loc) (mr_locs s0)"

lemma phase_thread: "phase_ok N nw s0 \<Longrightarrow> i < nw \<Longrightarrow> worker_thread N nw i < N"
  by (rule worker_thread_less) (auto simp: phase_ok_def)

lemma dn_ok_other:
  assumes "phase_ok N nw s0" and "i < nw" and "j < nw" and "j \<noteq> i" and "length ins = N"
  shows "dn_ok N nw pc (ins[worker_thread N nw i := t]) kvs j = dn_ok N nw pc ins kvs j"
proof -
  have "worker_thread N nw j \<noteq> worker_thread N nw i" using assms worker_thread_inj [of nw N j i] by (auto simp: phase_ok_def)
  then show ?thesis by (simp add: dn_ok_def split: worker_pc.split)
qed

lemma pp_enter_ok:
  assumes ph: "phase_ok N nw s0" and inv: "map_inv N nw xs log0 s0 n pcs s" and i: "length pcs = nw" "i < nw" "pcs ! i = Ready"
  shows "\<exists>s'. map_enter cl (worker_thread N nw i) s = Inr s' \<and> map_inv N nw xs log0 s0 n (pcs[i := Working]) s'"
proof -
  let ?w = "worker_thread N nw i"
  obtain q p ins dn log where s: "s = s0\<lparr>mr_queue := q, mr_container := p, mr_inputs := ins\<rparr>" "n = length (pq_tasks q)"
    and st: "map_state N nw xs log0 pcs q p ins dn log" using inv by (auto simp: map_inv_def)
  have h: "holder p N log" "length ins = N" "\<And>j. j < nw \<Longrightarrow> dn_ok N nw (pcs ! j) ins (dn j) j" using st by (auto simp: map_state_def)
  obtain t where t: "c_get C p ?w = Inr t" "tab t []" using get_ok [OF h(1)] by blast
  have w: "?w < N" by (rule phase_thread [OF ph i(2)])
  have enter: "map_enter cl ?w s = Inr (s0\<lparr>mr_queue := q, mr_container := p, mr_inputs := ins[?w := Some t]\<rparr>)"
    using s(1) t(1) w h(2) by (simp add: map_enter_def class_container)
  have "dn_ok N nw (pcs[i := Working] ! j) (ins[?w := Some t]) (dn j) j" if "j < nw" for j
  proof (cases "j = i")
    case True
    then show ?thesis using h(3) [OF i(2)] i t(2) w h(2) by (simp add: dn_ok_def)
  next
    case False
    then show ?thesis using dn_ok_other [OF ph i(2) that False h(2)] h(3) [OF that] by simp
  qed
  moreover have "finished_log N nw (pcs[i := Working]) dn = finished_log N nw pcs dn"
    unfolding finished_log_def by (subst filter_keep) (use i in simp_all)
  ultimately have "map_state N nw xs log0 (pcs[i := Working]) q p (ins[?w := Some t]) dn log"
    using st by (simp add: map_state_def)
  then show ?thesis using enter s(2) unfolding map_inv_def by blast
qed

lemma map_state_size:
  assumes "map_state N nw xs log0 pcs q p ins dn log" and "i < nw"
  shows "length (dn i) \<le> length (emits xs)"
proof -
  have "mset (concat (map dn [0..<nw])) + mset (concat (map (task_emits cl xs) (pq_tasks q))) = mset (emits xs)"
    using assms(1) by (simp add: map_state_def)
  from arg_cong [OF this, of size] have "length (concat (map dn [0..<nw])) \<le> length (emits xs)" by simp
  then show ?thesis using length_le_concat [OF assms(2), of dn] by simp
qed

lemma map_state_task:
  assumes ph: "phase_ok N nw s0" and i: "i < nw" "pcs ! i = Working"
    and st: "map_state N nw xs log0 pcs q p ins dn log" and q': "pq_ok q'" "mset (pq_tasks q) = add_mset task (mset (pq_tasks q'))"
    and t': "tab t' (dn i @ task_emits cl xs task)"
  shows "map_state N nw xs log0 pcs q' p (ins[worker_thread N nw i := Some t']) (dn(i := dn i @ task_emits cl xs task)) log"
proof -
  let ?w = "worker_thread N nw i" and ?dn = "dn(i := dn i @ task_emits cl xs task)"
  have h: "length ins = N" "\<And>j. j < nw \<Longrightarrow> dn_ok N nw (pcs ! j) ins (dn j) j"
    "\<And>u. u \<in> set (pq_tasks q) \<Longrightarrow> task_inside xs u" "mset log = mset log0 + finished_log N nw pcs dn"
    "mset (concat (map dn [0..<nw])) + mset (concat (map (task_emits cl xs) (pq_tasks q))) = mset (emits xs)"
    using st by (auto simp: map_state_def)
  have w: "?w < N" by (rule phase_thread [OF ph i(1)])
  have "dn_ok N nw (pcs ! j) (ins[?w := Some t']) (?dn j) j" if "j < nw" for j
  proof (cases "j = i")
    case True
    then show ?thesis using i(2) t' w h(1) by (simp add: dn_ok_def)
  next
    case False
    then show ?thesis using dn_ok_other [OF ph i(1) that False h(1)] h(2) [OF that] by simp
  qed
  moreover have "finished_log N nw pcs ?dn = finished_log N nw pcs dn"
    unfolding finished_log_def using i by (intro image_mset_cong) auto
  moreover have "set (pq_tasks q') \<subseteq> set (pq_tasks q)"
    using q'(2) by (metis insert_subset set_mset_add_mset_insert set_mset_mset subset_refl)
  moreover have "mset (concat (map ?dn [0..<nw])) + mset (concat (map (task_emits cl xs) (pq_tasks q'))) = mset (emits xs)"
    using h(5) q'(2) mset_concat_upd [OF i(1), of dn "task_emits cl xs task"] by (simp add: mset_concat_map ac_simps)
  ultimately show ?thesis using st q'(1) h(3,4) by (auto simp: map_state_def)
qed

lemma map_state_finish:
  assumes i: "length pcs = nw" "i < nw" "pcs ! i \<noteq> Finished" and st: "map_state N nw xs log0 pcs q p ins dn log"
    and p': "holder p' N (log @ [(worker_thread N nw i, dn i)])" and ph: "phase_ok N nw s0"
  shows "map_state N nw xs log0 (pcs[i := Finished]) q p' (ins[worker_thread N nw i := None]) dn (log @ [(worker_thread N nw i, dn i)])"
proof -
  let ?w = "worker_thread N nw i"
  have h: "length ins = N" "\<And>j. j < nw \<Longrightarrow> dn_ok N nw (pcs ! j) ins (dn j) j" using st by (auto simp: map_state_def)
  have "dn_ok N nw (pcs[i := Finished] ! j) (ins[?w := None]) (dn j) j" if "j < nw" for j
  proof (cases "j = i")
    case True
    then show ?thesis using i by (simp add: dn_ok_def)
  next
    case False
    then show ?thesis using dn_ok_other [OF ph i(2) that False h(1)] h(2) [OF that] by simp
  qed
  moreover have "finished_log N nw (pcs[i := Finished]) dn = add_mset (?w, dn i) (finished_log N nw pcs dn)"
    unfolding finished_log_def using filter_finish [OF i(2,1,3)] by simp
  ultimately show ?thesis using st p' by (simp add: map_state_def)
qed

lemma pp_next_ok:
  assumes ph: "phase_ok N nw s0" and keys: "\<forall>e \<in> set (emits xs). key_ok (fst e)" and size: "length (emits xs) \<le> 2 ^ 28"
    and fresh: "once \<longrightarrow> log0 = []"
    and inv: "map_inv N nw xs log0 s0 n pcs s" and i: "length pcs = nw" "i < nw" "pcs ! i = Working"
  shows "(\<exists>m s'. map_next cl xs (worker_thread N nw i) s = Inr (True, s') \<and> m < n \<and> map_inv N nw xs log0 s0 m pcs s') \<or>
    (n = 0 \<and> (\<exists>s1 s'. map_next cl xs (worker_thread N nw i) s = Inr (False, s1) \<and> map_leave cl (worker_thread N nw i) s1 = Inr s' \<and>
      map_inv N nw xs log0 s0 0 (pcs[i := Finished]) s'))"
proof -
  let ?w = "worker_thread N nw i"
  obtain q p ins dn log where s: "s = s0\<lparr>mr_queue := q, mr_container := p, mr_inputs := ins\<rparr>" "n = length (pq_tasks q)"
    and st: "map_state N nw xs log0 pcs q p ins dn log" using inv by (auto simp: map_inv_def)
  have h: "pq_ok q" "holder p N log" "length ins = N" "\<And>u. u \<in> set (pq_tasks q) \<Longrightarrow> task_inside xs u"
    "mset log = mset log0 + finished_log N nw pcs dn" using st by (auto simp: map_state_def)
  have w: "?w < N" by (rule phase_thread [OF ph i(2)])
  have "dn_ok N nw Working ins (dn i) i" using st i by (auto simp: map_state_def)
  then obtain t where t: "ins ! ?w = Some t" "tab t (dn i)" by (auto simp: dn_ok_def)
  have "length (mr_locs s) = N" "list_all (\<lambda>loc. 0 \<le> loc_index loc) (mr_locs s)" "pq_ok (mr_queue s)"
    using ph s(1) h(1) by (simp_all add: phase_ok_def)
  from take_task_ok [OF this(1,2) w this(3)] show ?thesis
  proof
    assume "\<exists>task q'. take_task ?w s = Inr (Some task, s\<lparr>mr_queue := q'\<rparr>) \<and> pq_ok q' \<and>
      mset (pq_tasks (mr_queue s)) = add_mset task (mset (pq_tasks q'))"
    then obtain task q' where q': "take_task ?w s = Inr (Some task, s\<lparr>mr_queue := q'\<rparr>)" "pq_ok q'"
      "mset (pq_tasks q) = add_mset task (mset (pq_tasks q'))" using s(1) by auto
    have task: "task \<in> set (pq_tasks q)" using q'(3) by (metis set_mset_mset union_single_eq_member)
    have big: "length (dn i @ task_emits cl xs task) \<le> length (emits xs)"
    proof -
      have "mset (concat (map dn [0..<nw])) + mset (concat (map (task_emits cl xs) (pq_tasks q))) = mset (emits xs)"
        using st by (simp add: map_state_def)
      from arg_cong [OF this, of size] have "length (concat (map dn [0..<nw])) + length (concat (map (task_emits cl xs) (pq_tasks q))) = length (emits xs)"
        by simp
      moreover have "length (task_emits cl xs task) \<le> length (concat (map (task_emits cl xs) (pq_tasks q)))"
        using task by (rule length_in_concat)
      ultimately show ?thesis using length_le_concat [OF i(2), of dn] by simp
    qed
    then have small: "length (dn i @ task_emits cl xs task) \<le> 2 ^ 28" using size by linarith
    obtain t' where t': "map_elements cl xs task (p, t) = Inr (p, t')" "tab t' (dn i @ task_emits cl xs task)"
      using map_elements_ok [OF h(4) [OF task] keys t(2) small] by blast
    let ?s' = "s0\<lparr>mr_queue := q', mr_container := p, mr_inputs := ins[?w := Some t']\<rparr>"
    have "map_next cl xs ?w s = Inr (True, ?s')"
      using q'(1) s(1) t t'(1) w h(3) by (simp add: map_next_def get_input_def)
    moreover have "map_inv N nw xs log0 s0 (length (pq_tasks q')) pcs ?s'"
      using map_state_task [OF ph i(2,3) st q'(2,3) t'(2)] unfolding map_inv_def by blast
    moreover have "length (pq_tasks q') < n" using s(2) arg_cong [OF q'(3), of size] by simp
    ultimately show ?thesis by blast
  next
    assume e: "take_task ?w s = Inr (None, s) \<and> pq_tasks (mr_queue s) = []"
    have "?w \<notin> fst ` set log" if once
    proof
      assume "?w \<in> fst ` set log"
      moreover have "set_mset (mset log) = set_mset (finished_log N nw pcs dn)" using h(5) fresh that by simp
      ultimately have "?w \<in> fst ` set_mset (finished_log N nw pcs dn)" by simp
      then obtain j where "j < nw" "pcs ! j = Finished" "worker_thread N nw j = ?w" by (auto simp: finished_log_def)
      then show False using worker_thread_inj [of nw N j i] ph i by (auto simp: phase_ok_def)
    qed
    moreover have "length (dn i) \<le> 2 ^ 28" using map_state_size [OF st i(2)] size by simp
    ultimately obtain p' where p': "c_add C p ?w t = Inr p'" "holder p' N (log @ [(?w, dn i)])"
      using add_ok [OF h(2) t(2) _ w] by blast
    let ?s' = "s0\<lparr>mr_queue := q, mr_container := p', mr_inputs := ins[?w := None]\<rparr>"
    have "map_next cl xs ?w s = Inr (False, s)" using e by (simp add: map_next_def)
    moreover have "map_leave cl ?w s = Inr ?s'"
      using s(1) t(1) p'(1) w h(3) by (simp add: map_leave_def get_input_def class_container)
    moreover have n0: "n = 0" using e s by simp
    moreover have "map_inv N nw xs log0 s0 0 (pcs[i := Finished]) ?s'"
      using map_state_finish [OF i(1,2) _ st p'(2) ph] i(3) n0 s(2) unfolding map_inv_def by fastforce
    ultimately show ?thesis by blast
  qed
qed

lemma log_all_mset:
  assumes "mset log = mset log0 + finished_log N nw (replicate nw Finished) dn"
  shows "mset (log_all log) = mset (log_all log0) + mset (concat (map dn [0..<nw]))"
proof -
  have "filter (\<lambda>i. replicate nw Finished ! i = Finished) [0..<nw] = [0..<nw]" by (simp add: filter_id_conv)
  then have "finished_log N nw (replicate nw Finished) dn = image_mset (\<lambda>i. (worker_thread N nw i, dn i)) (mset [0..<nw])"
    by (simp only: finished_log_def)
  then have "(\<Sum>l \<in># mset log. mset (snd l)) = (\<Sum>l \<in># mset log0. mset (snd l)) + (\<Sum>i \<in># mset [0..<nw]. mset (dn i))"
    unfolding assms by (simp add: image_mset.compositionality o_def del: mset_upt)
  then show ?thesis by (simp only: log_all_def mset_concat_map)
qed

text \<open>The map phase: afterwards the container has what the data emit in addition.\<close>

theorem run_map_ok:
  assumes ok: "mr_ok N st" and T: "0 < mr_num_map_tasks st" "mr_num_map_tasks st < 2 ^ 31" and xs: "length xs < 2 ^ 31"
    and h: "holder (mr_container st) N log0" and fresh: "once \<longrightarrow> log0 = []"
    and keys: "\<forall>e \<in> set (emits xs). key_ok (fst e)" and size: "length (emits xs) \<le> 2 ^ 28"
    and sched: "turns sched (min (mr_num_map_tasks st) N) (mr_num_map_tasks st)"
  shows "\<exists>q p ins log. run_map cl rnd sched xs st = Inr (st\<lparr>mr_queue := q, mr_container := p, mr_inputs := ins\<rparr>) \<and>
    mr_ok N (st\<lparr>mr_queue := q, mr_container := p, mr_inputs := ins\<rparr>) \<and> holder p N log \<and>
    mset (log_all log) = mset (log_all log0) + mset (emits xs)"
proof -
  let ?T = "mr_num_map_tasks st" and ?nw = "min (mr_num_map_tasks st) (mr_num_threads st)"
  have N: "0 < N" "mr_num_threads st = N" "length (mr_locs st) = N" "list_all (\<lambda>loc. 0 \<le> loc_index loc) (mr_locs st)"
    "pq_ok (mr_queue st)" "pq_tasks (mr_queue st) = []" "length (mr_inputs st) = N" using ok by (auto simp: mr_ok_def)
  obtain chunk where chunk: "map_chunk_size (length xs) ?T = Inr chunk" "chunk < 2 ^ 31" "length xs \<le> chunk * ?T"
    using map_chunk_size_ok [OF T(1) xs] by blast
  obtain q where q: "foldE (enqueue_map_task cl rnd (length xs) chunk ?T) (mr_queue st) [0..<?T] = Inr q" "pq_ok q"
    "mset (pq_tasks q) = mset (map_tasks cl (length xs) chunk ?T)"
    using enqueue_map_tasks [OF N(5) T(2) lgrp_ok, of rnd "length xs" chunk] N(6) by auto
  note mt = map_tasks_emit [OF xs chunk(2,3), of cl]
  let ?s0 = "st\<lparr>mr_queue := q\<rparr>"
  have ph: "phase_ok N ?nw ?s0" using N T(1) by (simp add: phase_ok_def)
  let ?enter = "\<lambda>i. map_enter cl (worker_thread N ?nw i)" and ?next = "\<lambda>i. map_next cl xs (worker_thread N ?nw i)"
    and ?leave = "\<lambda>i. map_leave cl (worker_thread N ?nw i)"
  have wp: "worker_phase ?enter ?next ?leave ?nw (map_inv N ?nw xs log0 ?s0)"
    by unfold_locales (rule pp_enter_ok [OF ph], assumption+, rule pp_next_ok [OF ph keys size fresh], assumption+)
  have len: "length (pq_tasks q) \<le> ?T"
  proof -
    have "length (pq_tasks q) = length (map_tasks cl (length xs) chunk ?T)" using q(3) by (metis size_mset)
    then show ?thesis by (simp add: map_tasks_def) (metis length_filter_le length_upt minus_nat.diff_0)
  qed
  have ready: "finished_log N ?nw (replicate ?nw Ready) (\<lambda>_. []) = {#}"
  proof -
    have "filter (\<lambda>i. replicate ?nw Ready ! i = Finished) [0..<?nw] = []" by (simp add: filter_empty_conv)
    then show ?thesis by (simp add: finished_log_def)
  qed
  have "mset (concat (map (task_emits cl xs) (pq_tasks q))) = mset (emits xs)"
    using q(3) mt(1) unfolding emits_def by (metis mset_concat_map)
  moreover have "\<forall>task \<in> set (pq_tasks q). task_inside xs task" using mt(2) q(3) mset_eq_setD by blast
  moreover have "concat (map (\<lambda>_. []) [0..<?nw]) = ([] :: ('k \<times> 'v) list)" by simp
  ultimately have "map_state N ?nw xs log0 (replicate ?nw Ready) q (mr_container st) (mr_inputs st) (\<lambda>_. []) log0"
    using q(2) h N(7) ready by (simp add: map_state_def dn_ok_def)
  then have start: "map_inv N ?nw xs log0 ?s0 (length (pq_tasks q)) (replicate ?nw Ready) ?s0"
    unfolding map_inv_def by (intro exI [of _ q] exI [of _ "mr_container st"] exI [of _ "mr_inputs st"] exI conjI) auto
  have "\<forall>t < ?nw. length (pq_tasks q) + 2 \<le> count_list sched t"
    using sched len N(2) by (fastforce simp: turns_def)
  from worker_phase.run_workers_ok [OF wp _ start this] N(1,2) T(1) obtain s' where
    s': "run_workers (worker_step ?enter ?next ?leave) ?nw sched ?s0 = Inr s'"
      "map_inv N ?nw xs log0 ?s0 0 (replicate ?nw Finished) s'" by auto
  obtain q' p ins dn log where f: "s' = ?s0\<lparr>mr_queue := q', mr_container := p, mr_inputs := ins\<rparr>" "pq_tasks q' = []"
    "map_state N ?nw xs log0 (replicate ?nw Finished) q' p ins dn log" using s'(2) by (auto simp: map_inv_def)
  have "run_map cl rnd sched xs st = Inr s'"
    using chunk(1) q(1) s'(1) N by (simp add: run_map_def pp_start_workers_def Let_def)
  moreover have "mset (log_all log) = mset (log_all log0) + mset (emits xs)"
    using log_all_mset [of log log0 N ?nw dn] f(2,3) by (simp add: map_state_def)
  moreover have "mr_ok N s'" using ok f by (auto simp: mr_ok_def map_state_def)
  ultimately show ?thesis using f unfolding map_state_def
    by (intro exI [of _ q'] exI [of _ p] exI [of _ ins] exI [of _ log]) simp
qed

section \<open>Reduce tasks\<close>

text \<open>What the reduce functions of a part emit together.\<close>

definition contrib :: "nat \<Rightarrow> ('k \<times> 'v) list \<Rightarrow> nat \<Rightarrow> ('k \<times> 'v) multiset" where
  "contrib N kvs r = (\<Sum>key \<in> {key \<in> fst ` set kvs. part N key = r}. R key (mset (sel key kvs)))"

lemma vss_ok_small:
  assumes "[] \<notin> set vss" and "length (concat vss) \<le> 2 ^ 28"
  shows "vss_ok vss"
proof -
  have "length vss \<le> length (concat vss)" using assms(1)
  proof (induction vss)
    case (Cons vs vss)
    then show ?case by (cases vs) auto
  qed simp
  moreover have "length vs \<le> length (concat vss)" if "vs \<in> set vss" for vs
    using length_in_concat [OF that, of "\<lambda>x. x"] by simp
  ultimately show ?thesis using assms unfolding vss_ok_def list_all_iff by fastforce
qed

lemma reduce_entries:
  assumes "\<forall>e \<in> set es. \<exists>vss. collects (snd e) vss \<and> [] \<notin> set vss \<and> mset (concat vss) = mset (sel (fst e) kvs)"
    and "length kvs \<le> 2 ^ 28"
  shows "\<exists>new. foldE (reduce_entry cl) out es = Inr (out @ new) \<and>
    mset new = (\<Sum>e \<leftarrow> es. if sel (fst e) kvs = [] then {#} else R (fst e) (mset (sel (fst e) kvs)))"
  using assms(1)
proof (induction es arbitrary: out)
  case (Cons e es)
  obtain key d where e: "e = (key, d)" by (cases e)
  obtain vss where v: "collects d vss" "[] \<notin> set vss" "mset (concat vss) = mset (sel key kvs)" using Cons.prems e by auto
  have "length (concat vss) = length (sel key kvs)" using v(3) by (metis size_mset)
  then have small: "length (concat vss) \<le> 2 ^ 28" using length_sel [of key kvs] assms(2) by simp
  note vok = vss_ok_small [OF v(2) small]
  have empty: "vss = [] \<longleftrightarrow> sel key kvs = []"
  proof -
    have "vss = [] \<longleftrightarrow> concat vss = []" using v(2) by (cases vss) auto
    then show ?thesis using v(3) by (metis mset_zero_iff)
  qed
  have "\<exists>new. reduce_entry cl out e = Inr (out @ new) \<and>
    mset new = (if sel key kvs = [] then {#} else R key (mset (sel key kvs)))"
  proof (cases "vss = []")
    case True
    then show ?thesis using size_ok [OF v(1) vok] empty e by (simp add: reduce_entry_def)
  next
    case False
    then show ?thesis using size_ok [OF v(1) vok] reduce_ok [OF v(1) vok False small, of key out] empty e v(3)
      by (simp add: reduce_entry_def)
  qed
  then obtain new where new: "reduce_entry cl out e = Inr (out @ new)"
    "mset new = (if sel key kvs = [] then {#} else R key (mset (sel key kvs)))" by blast
  obtain news where "foldE (reduce_entry cl) (out @ new) es = Inr ((out @ new) @ news)"
    "mset news = (\<Sum>e \<leftarrow> es. if sel (fst e) kvs = [] then {#} else R (fst e) (mset (sel (fst e) kvs)))"
    using Cons.IH [of "out @ new"] Cons.prems by auto
  then show ?case using new e by (intro exI [of _ "new @ news"]) simp
qed simp

lemma reduce_partition_ok:
  assumes h: "holder p N log" and r: "r < N" and keys: "\<forall>e \<in> set (log_all log). key_ok (fst e)"
    and size: "length (log_all log) \<le> 2 ^ 28"
  shows "\<exists>new. reduce_partition cl r p out = Inr (p, out @ new) \<and> mset new = contrib N (log_all log) r"
proof -
  let ?kvs = "log_all log" and ?d = "cd_new (cl_combiner cl)"
  obtain it es where it: "c_begin C p r = Inr it" "part_ok collects es (\<lambda>key. part N key = r) ?kvs" "length es \<le> cap + length ?kvs"
    "c_visits C p ?d it es" using entries_ok [OF h r keys] by metis
  have P: "distinct (map fst es)" "\<And>e. e \<in> set ?kvs \<Longrightarrow> part N (fst e) = r \<Longrightarrow> fst e \<in> fst ` set es"
    "\<And>e. e \<in> set es \<Longrightarrow> part N (fst e) = r"
    "\<forall>e \<in> set es. \<exists>vss. collects (snd e) vss \<and> [] \<notin> set vss \<and> mset (concat vss) = mset (sel (fst e) ?kvs)"
    using it(2) by (auto simp: part_ok_def)
  let ?g = "\<lambda>key. if sel key ?kvs = [] then {#} else R key (mset (sel key ?kvs))"
  obtain new where new: "foldE (reduce_entry cl) out es = Inr (out @ new)" "mset new = (\<Sum>e \<leftarrow> es. ?g (fst e))"
    using reduce_entries [OF P(4) size] by blast
  have "length es < cl_rounds cl" using it(3) size rounds_ok by simp
  then obtain it' where "c_for (cl_rounds cl) C p (reduce_entry cl) ?d out it = Inr (it', out @ new)" "c_close C p it' = Inr p"
    using it(4) new(1) unfolding c_visits_def by blast
  then have run: "reduce_partition cl r p out = Inr (p, out @ new)" using it(1) by (simp add: reduce_partition_def class_container)
  have "(\<Sum>e \<leftarrow> es. ?g (fst e)) = (\<Sum>key \<leftarrow> map fst es. ?g key)" by (simp add: o_def)
  also have "\<dots> = (\<Sum>key \<in> set (map fst es). ?g key)" by (rule sum_list_distinct_conv_sum_set [OF P(1)])
  also have "\<dots> = (\<Sum>key \<in> {key \<in> fst ` set ?kvs. part N key = r}. ?g key)"
  proof (rule sum.mono_neutral_right)
    show "{key \<in> fst ` set ?kvs. part N key = r} \<subseteq> set (map fst es)" using P(2) by auto
    show "\<forall>key \<in> set (map fst es) - {key \<in> fst ` set ?kvs. part N key = r}. ?g key = {#}"
      using P(3) by (auto simp: sel_empty)
  qed simp
  also have "\<dots> = contrib N ?kvs r"
    unfolding contrib_def by (rule sum.cong) (auto simp: sel_empty)
  finally show ?thesis using run new(2) by auto
qed

text \<open>
  The invariant of the reduce phase: what has been emitted and what the tasks in the queues will
  emit make up the contributions of all parts.
\<close>

definition red_inv :: "nat \<Rightarrow> ('k \<times> 'v) list \<Rightarrow> ('k, 'v, 'p, 't) pp_state \<Rightarrow> nat \<Rightarrow> worker_pc list \<Rightarrow> ('k, 'v, 'p, 't) pp_state \<Rightarrow> bool" where
  "red_inv N kvs s0 n pcs s \<longleftrightarrow>
     (\<exists>q fv. s = s0\<lparr>mr_queue := q, mr_final_vals := fv\<rparr> \<and> n = length (pq_tasks q) \<and> pq_ok q \<and> length fv = N \<and>
        (\<forall>task \<in> set (pq_tasks q). unat (pt_data task) < N) \<and>
        mset (concat fv) + (\<Sum>task \<in># mset (pq_tasks q). contrib N kvs (unat (pt_data task))) = (\<Sum>r < N. contrib N kvs r))"

lemma reduce_next_ok:
  assumes ph: "phase_ok N nw s0" and h: "holder (mr_container s0) N log" and keys: "\<forall>e \<in> set (log_all log). key_ok (fst e)"
    and size: "length (log_all log) \<le> 2 ^ 28"
    and inv: "red_inv N (log_all log) s0 n pcs s" and i: "i < nw"
  shows "(\<exists>m s'. reduce_next cl (worker_thread N nw i) s = Inr (True, s') \<and> m < n \<and> red_inv N (log_all log) s0 m pcs s') \<or>
    (n = 0 \<and> reduce_next cl (worker_thread N nw i) s = Inr (False, s) \<and> red_inv N (log_all log) s0 0 (pcs[i := Finished]) s)"
proof -
  let ?w = "worker_thread N nw i" and ?c = "contrib N (log_all log)"
  obtain q fv where s: "s = s0\<lparr>mr_queue := q, mr_final_vals := fv\<rparr>" "n = length (pq_tasks q)" "pq_ok q" "length fv = N"
    "\<And>task. task \<in> set (pq_tasks q) \<Longrightarrow> unat (pt_data task) < N"
    "mset (concat fv) + (\<Sum>task \<in># mset (pq_tasks q). ?c (unat (pt_data task))) = (\<Sum>r < N. ?c r)"
    using inv by (auto simp: red_inv_def)
  have w: "?w < N" by (rule phase_thread [OF ph i])
  have "length (mr_locs s) = N" "list_all (\<lambda>loc. 0 \<le> loc_index loc) (mr_locs s)" "pq_ok (mr_queue s)"
    using ph s(1,3) by (simp_all add: phase_ok_def)
  from take_task_ok [OF this(1,2) w this(3)] show ?thesis
  proof
    assume "\<exists>task q'. take_task ?w s = Inr (Some task, s\<lparr>mr_queue := q'\<rparr>) \<and> pq_ok q' \<and>
      mset (pq_tasks (mr_queue s)) = add_mset task (mset (pq_tasks q'))"
    then obtain task q' where q': "take_task ?w s = Inr (Some task, s\<lparr>mr_queue := q'\<rparr>)" "pq_ok q'"
      "mset (pq_tasks q) = add_mset task (mset (pq_tasks q'))" using s(1) by auto
    have task: "task \<in> set (pq_tasks q)" using q'(3) by (metis set_mset_mset union_single_eq_member)
    obtain new where new: "reduce_partition cl (unat (pt_data task)) (mr_container s0) (fv ! ?w) = Inr (mr_container s0, fv ! ?w @ new)"
      "mset new = ?c (unat (pt_data task))" using reduce_partition_ok [OF h s(5) [OF task] keys size] by blast
    let ?fv = "fv[?w := fv ! ?w @ new]"
    let ?s' = "s0\<lparr>mr_queue := q', mr_final_vals := ?fv\<rparr>"
    have "reduce_next cl ?w s = Inr (True, ?s')"
      using q'(1) s(1,4) w new(1) by (simp add: reduce_next_def)
    moreover have "mset (concat ?fv) = mset (concat fv) + mset new"
      using concat_update_mset [of ?w fv "fv ! ?w @ new"] w s(4) by simp
    then have "mset (concat ?fv) + (\<Sum>task \<in># mset (pq_tasks q'). ?c (unat (pt_data task))) = (\<Sum>r < N. ?c r)"
      using s(6) q'(3) new(2) by (simp add: ac_simps)
    moreover have "set (pq_tasks q') \<subseteq> set (pq_tasks q)"
      using q'(3) by (metis insert_subset set_mset_add_mset_insert set_mset_mset subset_refl)
    ultimately have "reduce_next cl ?w s = Inr (True, ?s') \<and> red_inv N (log_all log) s0 (length (pq_tasks q')) pcs ?s'"
      unfolding red_inv_def using q'(2) s(4,5) by (auto intro!: exI [of _ q'] exI [of _ ?fv])
    moreover have "length (pq_tasks q') < n" using s(2) arg_cong [OF q'(3), of size] by simp
    ultimately show ?thesis by blast
  next
    assume e: "take_task ?w s = Inr (None, s) \<and> pq_tasks (mr_queue s) = []"
    then have "n = 0" using s(1,2) by simp
    moreover have "reduce_next cl ?w s = Inr (False, s)" using e by (simp add: reduce_next_def)
    moreover have "red_inv N (log_all log) s0 0 (pcs[i := Finished]) s" using inv by (simp only: red_inv_def \<open>n = 0\<close>)
    ultimately show ?thesis by blast
  qed
qed

lemma enqueue_reduce_tasks:
  assumes q: "pq_ok q" and T: "T < 2 ^ 31"
  shows "\<exists>q'. foldE (\<lambda>q i. pq_enqueue_seq (rnd i) q (reduce_task_of i) (int T) (-1)) q [0..<T] = Inr q' \<and> pq_ok q' \<and>
    mset (pq_tasks q') = mset (pq_tasks q) + mset (map reduce_task_of [0..<T])"
proof -
  let ?P = "\<lambda>m q'. pq_ok q' \<and> mset (pq_tasks q') = mset (pq_tasks q) + mset (map reduce_task_of [0..<m])"
  have "\<exists>q'. foldE (\<lambda>q i. pq_enqueue_seq (rnd i) q (reduce_task_of i) (int T) (-1)) q [0..<T] = Inr q' \<and> ?P T q'"
  proof (rule foldE_upt [where P = ?P])
    show "?P 0 q" using q by simp
  next
    fix i q' assume i: "i < T" and P: "?P i q'"
    have "unat (pt_id (reduce_task_of i)) < T" using i T by (simp add: reduce_task_of_def unat_nat64)
    from pq_enqueue_seq_ok [OF _ _ T this, of q' "-1" "rnd i"] P
    show "\<exists>q''. pq_enqueue_seq (rnd i) q' (reduce_task_of i) (int T) (-1) = Inr q'' \<and> ?P (Suc i) q''" by auto
  qed
  then show ?thesis by blast
qed

lemma contrib_sum:
  assumes "0 < N" and "\<forall>e \<in> set kvs. key_ok (fst e)"
  shows "(\<Sum>r < N. contrib N kvs r) = (\<Sum>key \<in> fst ` set kvs. R key (mset (sel key kvs)))"
proof -
  have "part N ` fst ` set kvs \<subseteq> {..<N}" using part_less [OF assms(1)] assms(2) by auto
  from sum.group [OF _ _ this, of "\<lambda>key. R key (mset (sel key kvs))"] show ?thesis unfolding contrib_def by simp
qed

theorem run_reduce_ok:
  assumes ok: "mr_ok N st" and T: "mr_num_reduce_tasks st = N" and fv: "mr_final_vals st = replicate N []"
    and h: "holder (mr_container st) N log" and keys: "\<forall>e \<in> set (log_all log). key_ok (fst e)"
    and size: "length (log_all log) \<le> 2 ^ 28" and sched: "turns sched N N"
  shows "\<exists>q fv. run_reduce cl rnd sched st = Inr (st\<lparr>mr_queue := q, mr_final_vals := fv\<rparr>) \<and>
    mr_ok N (st\<lparr>mr_queue := q, mr_final_vals := fv\<rparr>) \<and> length fv = N \<and>
    mset (concat fv) = (\<Sum>key \<in> fst ` set (log_all log). R key (mset (sel key (log_all log))))"
proof -
  have N: "0 < N" "N < 2 ^ 31" "mr_num_threads st = N" "length (mr_locs st) = N" "list_all (\<lambda>loc. 0 \<le> loc_index loc) (mr_locs st)"
    "pq_ok (mr_queue st)" "pq_tasks (mr_queue st) = []" using ok by (auto simp: mr_ok_def)
  obtain q where q: "foldE (\<lambda>q i. pq_enqueue_seq (rnd i) q (reduce_task_of i) (int N) (-1)) (mr_queue st) [0..<N] = Inr q" "pq_ok q"
    "mset (pq_tasks q) = mset (map reduce_task_of [0..<N])"
    using enqueue_reduce_tasks [OF N(6,2), of rnd] N(7) by auto
  let ?s0 = "st\<lparr>mr_queue := q\<rparr>"
  have ph: "phase_ok N N ?s0" using N by (simp add: phase_ok_def)
  have h0: "holder (mr_container ?s0) N log" using h by simp
  let ?next = "\<lambda>i. reduce_next cl (worker_thread N N i)"
  have wp: "worker_phase (\<lambda>_. Inr) ?next (\<lambda>_. Inr) N (red_inv N (log_all log) ?s0)"
  proof (unfold_locales, goal_cases)
    case (1 n pcs s t)
    then show ?case by (auto simp: red_inv_def)
  next
    case (2 n pcs s t)
    then show ?case using reduce_next_ok [OF ph h0 keys size 2(1,3)] by blast
  qed
  have data: "unat (pt_data (reduce_task_of r)) = r" if "r < N" for r using that N(2) by (simp add: reduce_task_of_def unat_nat64)
  have set_q: "set (pq_tasks q) = reduce_task_of ` {..<N}" using q(3) mset_eq_setD by fastforce
  have "(\<Sum>task \<in># mset (pq_tasks q). contrib N (log_all log) (unat (pt_data task))) = (\<Sum>r \<leftarrow> [0..<N]. contrib N (log_all log) r)"
  proof -
    have "(\<Sum>task \<in># mset (pq_tasks q). contrib N (log_all log) (unat (pt_data task))) =
      (\<Sum>r \<leftarrow> [0..<N]. contrib N (log_all log) (unat (pt_data (reduce_task_of r))))"
      unfolding q(3) by (simp only: mset_map [symmetric] sum_mset_sum_list map_map o_def)
    also have "\<dots> = (\<Sum>r \<leftarrow> [0..<N]. contrib N (log_all log) r)" by (intro arg_cong [of _ _ sum_list] map_cong) (simp_all add: data)
    finally show ?thesis .
  qed
  also have "\<dots> = (\<Sum>r < N. contrib N (log_all log) r)" by (simp add: interv_sum_list_conv_sum_set_nat atLeast0LessThan)
  finally have tot: "(\<Sum>task \<in># mset (pq_tasks q). contrib N (log_all log) (unat (pt_data task))) = (\<Sum>r < N. contrib N (log_all log) r)" .
  have "concat (replicate N ([] :: ('k \<times> 'v) list)) = []" by (induction N) simp_all
  then have start: "red_inv N (log_all log) ?s0 (length (pq_tasks q)) (replicate N Ready) ?s0"
    unfolding red_inv_def using q(2) fv tot set_q data by (intro exI [of _ q] exI [of _ "replicate N []"]) auto
  have "length (pq_tasks q) = N" using q(3) by (metis length_map length_upt minus_nat.diff_0 size_mset)
  then have "\<forall>t < N. length (pq_tasks q) + 2 \<le> count_list sched t" using sched by (simp add: turns_def)
  from worker_phase.run_workers_ok [OF wp N(1) start this] obtain s' where
    s': "run_workers (worker_step (\<lambda>_. Inr) ?next (\<lambda>_. Inr)) N sched ?s0 = Inr s'"
      "red_inv N (log_all log) ?s0 0 (replicate N Finished) s'" by blast
  have "to_int32 (int N) = int N" using N(2) by (intro to_int32_id) simp_all
  then have run: "run_reduce cl rnd sched st = Inr s'"
    using q(1) s'(1) N T by (simp add: run_reduce_def pp_start_workers_def Let_def)
  obtain q' fv' where f: "s' = st\<lparr>mr_queue := q', mr_final_vals := fv'\<rparr>" "pq_tasks q' = []" "pq_ok q'" "length fv' = N"
    "mset (concat fv') = (\<Sum>r < N. contrib N (log_all log) r)" using s'(2) by (auto simp: red_inv_def)
  have "mr_ok N s'" using ok f(1-3) by (auto simp: mr_ok_def)
  then show ?thesis using run f contrib_sum [OF N(1) keys] by (intro exI [of _ q'] exI [of _ fv']) simp
qed

end

section \<open>Merge\<close>

lemma run_merge_ok:
  assumes "length (mr_final_vals st) = mr_num_threads st"
  shows "run_merge st = Inr (st\<lparr>mr_final_vals := [concat (mr_final_vals st)]\<rparr>)"
proof -
  let ?fv = "mr_final_vals st"
  have "\<exists>final. foldE (\<lambda>final i. bindE (arr_get ?fv (int i)) (\<lambda>vals. Inr (final @ vals))) [] [0..<length ?fv] = Inr final \<and>
    final = concat (take (length ?fv) ?fv)"
    by (rule foldE_upt [where P = "\<lambda>m final. final = concat (take m ?fv)"]) (simp_all add: take_Suc_conv_app_nth)
  then show ?thesis using assms by (simp add: run_merge_def)
qed

section \<open>A run\<close>

text \<open>What a merge has to do: put the vectors of the threads together, in some order that has \<open>P\<close>.\<close>

definition merges :: "nat \<Rightarrow> (('k, 'v, 'p, 't) pp_state \<Rightarrow> ('k, 'v, 'p, 't) pp_state res) \<Rightarrow> (('k \<times> 'v) list \<Rightarrow> bool) \<Rightarrow> bool" where
  "merges N merge P \<longleftrightarrow>
     (\<forall>s. mr_ok N s \<longrightarrow> length (mr_final_vals s) = N \<longrightarrow>
        (\<exists>s' out. merge s = Inr s' \<and> mr_final_vals s' = [out] \<and> mset out = mset (concat (mr_final_vals s)) \<and> P out))"

lemma run_merge_merges: "merges N run_merge (\<lambda>_. True)"
  unfolding merges_def
proof (intro allI impI)
  fix s :: "('k, 'v, 'p, 't) pp_state" assume "mr_ok N s" and "length (mr_final_vals s) = N"
  then have "length (mr_final_vals s) = mr_num_threads s" by (simp add: mr_ok_def)
  from run_merge_ok [OF this]
  show "\<exists>s' out. run_merge s = Inr s' \<and> mr_final_vals s' = [out] \<and> mset out = mset (concat (mr_final_vals s)) \<and> True"
    by simp
qed

context pp_job
begin

text \<open>The result: for every key that was emitted what its reduce function makes of all its values.\<close>

definition results :: "('k \<times> 'v) list \<Rightarrow> ('k \<times> 'v) multiset" where
  "results kvs = (\<Sum>key \<in> fst ` set kvs. R key (mset (sel key kvs)))"

lemma results_cong:
  assumes "mset kvs = mset kvs'"
  shows "results kvs = results kvs'"
proof -
  have "set kvs = set kvs'" using assms by (rule mset_eq_setD)
  moreover have "mset (sel key kvs) = mset (sel key kvs')" for key using assms by (rule mset_sel)
  ultimately show ?thesis by (simp add: results_def)
qed

lemma reduce_and_merge:
  assumes ok: "mr_ok N st" and T: "mr_num_reduce_tasks st = N" and fv: "mr_final_vals st = replicate N []"
    and h: "holder (mr_container st) N log" and log: "mset (log_all log) = mset kvs"
    and keys: "\<forall>e \<in> set kvs. key_ok (fst e)" and size: "length kvs \<le> 2 ^ 28" and sched: "turns sched N N"
    and merge: "merges N merge P"
  shows "\<exists>result st'. run_reducers merge cl rnd sched st = Inr (result, st') \<and> mset result = results kvs \<and> P result"
proof -
  have "\<forall>e \<in> set (log_all log). key_ok (fst e)" using keys log by (metis mset_eq_setD)
  moreover have "length (log_all log) \<le> 2 ^ 28" using size log by (metis size_mset)
  ultimately obtain q fv' where r: "run_reduce cl rnd sched st = Inr (st\<lparr>mr_queue := q, mr_final_vals := fv'\<rparr>)"
    "mr_ok N (st\<lparr>mr_queue := q, mr_final_vals := fv'\<rparr>)" "length fv' = N" "mset (concat fv') = results (log_all log)"
    using run_reduce_ok [OF ok T fv h _ _ sched, of rnd] by (auto simp: results_def)
  obtain s' out where s': "merge (st\<lparr>mr_queue := q, mr_final_vals := fv'\<rparr>) = Inr s'" "mr_final_vals s' = [out]"
    "mset out = mset (concat fv')" "P out" using merge r(2,3) by (fastforce simp: merges_def)
  have "arr_get [out] 0 = Inr out" by (simp add: arr_get_def)
  then have "finish_run merge (st\<lparr>mr_queue := q, mr_final_vals := fv'\<rparr>) = Inr (out, s'\<lparr>mr_final_vals := []\<rparr>)"
    using s'(1,2) by (simp add: finish_run_def)
  then show ?thesis using r(1,4) s'(3,4) results_cong [OF log] by (simp add: run_reducers_def)
qed

lemma library_init_ok:
  assumes "mr_ok N st"
  shows "mr_ok N (library_init cl n st)" "holder (mr_container (library_init cl n st)) N []"
    "mr_num_reduce_tasks (library_init cl n st) = N" "mr_final_vals (library_init cl n st) = replicate N []"
    "mr_num_map_tasks (library_init cl n st) = min n N * 16"
  using assms init_ok [of N] by (auto simp: library_init_def mr_ok_def class_container)

theorem run_ok:
  assumes ok: "mr_ok N st" and xs: "xs \<noteq> []" "length xs < 2 ^ 31"
    and keys: "\<forall>e \<in> set (emits xs). key_ok (fst e)" and size: "length (emits xs) \<le> 2 ^ 28"
    and sched: "turns map_sched N (N * 16)" "turns reduce_sched N N" and merge: "merges N merge P"
  shows "\<exists>result st'. pp_run merge cl rnd map_sched reduce_sched xs st = Inr (0, result, st') \<and>
    mset result = results (emits xs) \<and> P result"
proof -
  let ?st = "library_init cl (length xs) st"
  note L = library_init_ok [OF ok, of "length xs"]
  have N: "0 < N" "N < 2 ^ 26" using ok by (auto simp: mr_ok_def)
  have T: "0 < mr_num_map_tasks ?st" "mr_num_map_tasks ?st < 2 ^ 31" "mr_num_map_tasks ?st \<le> N * 16" using N xs(1) L(5) by auto
  have "turns map_sched (min (mr_num_map_tasks ?st) N) (mr_num_map_tasks ?st)" using sched(1) T(3) by (fastforce simp: turns_def)
  from run_map_ok [OF L(1) T(1,2) xs(2) L(2) _ keys size this, of rnd] obtain q p ins log where
    m: "run_map cl rnd map_sched xs ?st = Inr (?st\<lparr>mr_queue := q, mr_container := p, mr_inputs := ins\<rparr>)"
      "mr_ok N (?st\<lparr>mr_queue := q, mr_container := p, mr_inputs := ins\<rparr>)" "holder p N log" "mset (log_all log) = mset (emits xs)"
    by (auto simp: log_all_def)
  let ?st1 = "?st\<lparr>mr_queue := q, mr_container := p, mr_inputs := ins\<rparr>"
  obtain result st' where r: "run_reducers merge cl rnd reduce_sched ?st1 = Inr (result, st')" "mset result = results (emits xs)" "P result"
    using reduce_and_merge [OF m(2) _ _ _ m(4) keys size sched(2) merge, of rnd] L(3,4) m(3) by auto
  then show ?thesis using m(1) by (auto simp: pp_run_def run_reducers_def bindE_assoc [symmetric])
qed

text \<open>
  The mappers on one chunk after the other, then the reducers: the same results as for all data at
  once, if the container takes several inputs of a thread.
\<close>

lemma run_mappers_ok:
  assumes ok: "mr_ok N st" and multi: "\<not> once" and h: "holder (mr_container st) N log" and first: "\<not> mr_first st"
    and T: "0 < mr_num_map_tasks st" "mr_num_map_tasks st \<le> N * 16" and xs: "length xs < 2 ^ 31"
    and keys: "\<forall>e \<in> set (emits xs). key_ok (fst e)" and size: "length (emits xs) \<le> 2 ^ 28"
    and sched: "turns sched N (N * 16)"
  shows "\<exists>st' log'. run_mappers cl rnd sched xs st = Inr st' \<and> mr_ok N st' \<and> holder (mr_container st') N log' \<and>
    mset (log_all log') = mset (log_all log) + mset (emits xs) \<and> \<not> mr_first st' \<and> mr_num_map_tasks st' = mr_num_map_tasks st \<and>
    mr_num_reduce_tasks st' = mr_num_reduce_tasks st \<and> mr_final_vals st' = mr_final_vals st"
proof -
  have N: "N < 2 ^ 26" using ok by (auto simp: mr_ok_def)
  then have T31: "mr_num_map_tasks st < 2 ^ 31" using T(2) by simp
  have "turns sched (min (mr_num_map_tasks st) N) (mr_num_map_tasks st)" using sched T(2) by (fastforce simp: turns_def)
  from run_map_ok [OF ok T(1) T31 xs h _ keys size this, of rnd] multi obtain q p ins log' where
    m: "run_map cl rnd sched xs st = Inr (st\<lparr>mr_queue := q, mr_container := p, mr_inputs := ins\<rparr>)"
      "mr_ok N (st\<lparr>mr_queue := q, mr_container := p, mr_inputs := ins\<rparr>)" "holder p N log'"
      "mset (log_all log') = mset (log_all log) + mset (emits xs)" by blast
  then show ?thesis using first
    by (intro exI [of _ "st\<lparr>mr_queue := q, mr_container := p, mr_inputs := ins\<rparr>"] exI [of _ log']) (simp add: run_mappers_def)
qed

lemma run_chunks_ok:
  assumes "mr_ok N st" and "\<not> once" and "holder (mr_container st) N log" and "\<not> mr_first st"
    and "0 < mr_num_map_tasks st" "mr_num_map_tasks st \<le> N * 16"
    and "\<forall>c \<in> set chunks. length (snd c) < 2 ^ 31 \<and> turns (fst c) N (N * 16)"
    and "\<forall>e \<in> set (emits (concat (map snd chunks))). key_ok (fst e)" and "length (emits (concat (map snd chunks))) \<le> 2 ^ 28"
  shows "\<exists>st' log'. foldE (\<lambda>st c. run_mappers cl rnd (fst c) (snd c) st) st chunks = Inr st' \<and> mr_ok N st' \<and>
    holder (mr_container st') N log' \<and> mset (log_all log') = mset (log_all log) + mset (emits (concat (map snd chunks))) \<and>
    mr_num_reduce_tasks st' = mr_num_reduce_tasks st \<and> mr_final_vals st' = mr_final_vals st"
  using assms
proof (induction chunks arbitrary: st log)
  case Nil
  then show ?case by (intro exI [of _ st] exI [of _ log]) (simp add: emits_def)
next
  case (Cons c chunks)
  obtain sched xs where c: "c = (sched, xs)" by (cases c)
  have e: "emits (concat (map snd (c # chunks))) = emits xs @ emits (concat (map snd chunks))" using c by (simp add: emits_def)
  obtain st1 log1 where 1: "run_mappers cl rnd sched xs st = Inr st1" "mr_ok N st1" "holder (mr_container st1) N log1"
    "mset (log_all log1) = mset (log_all log) + mset (emits xs)" "\<not> mr_first st1" "mr_num_map_tasks st1 = mr_num_map_tasks st"
    "mr_num_reduce_tasks st1 = mr_num_reduce_tasks st" "mr_final_vals st1 = mr_final_vals st"
    using run_mappers_ok [OF Cons.prems(1-6), of xs sched rnd] Cons.prems(7-9) c unfolding e by auto
  obtain st' log' where 2: "foldE (\<lambda>st c. run_mappers cl rnd (fst c) (snd c) st) st1 chunks = Inr st'" "mr_ok N st'"
    "holder (mr_container st') N log'" "mset (log_all log') = mset (log_all log1) + mset (emits (concat (map snd chunks)))"
    "mr_num_reduce_tasks st' = mr_num_reduce_tasks st1" "mr_final_vals st' = mr_final_vals st1"
    using Cons.IH [OF 1(2) Cons.prems(2) 1(3,5)] Cons.prems(5-9) 1(6) unfolding e by auto
  then show ?case using 1 c unfolding e by (intro exI [of _ st'] exI [of _ log']) simp
qed

theorem run_ingest_ok:
  assumes ok: "mr_ok N st" and multi: "\<not> once" and first: "mr_first st" and xs: "xs \<noteq> []"
    and chunks: "\<forall>c \<in> set ((sched, xs) # chunks). length (snd c) < 2 ^ 31 \<and> turns (fst c) N (N * 16)"
    and data: "data = xs @ concat (map snd chunks)"
    and keys: "\<forall>e \<in> set (emits data). key_ok (fst e)" and size: "length (emits data) \<le> 2 ^ 28"
    and reduce: "turns reduce_sched N N" and merge: "merges N merge P"
  shows "\<exists>result st'. bindE (foldE (\<lambda>st c. run_mappers cl rnd (fst c) (snd c) st) st ((sched, xs) # chunks)) (run_reducers merge cl rnd reduce_sched) =
      Inr (result, st') \<and> mset result = results (emits data) \<and> P result"
proof -
  let ?st = "(library_init cl (length xs) st)\<lparr>mr_first := False\<rparr>"
  note L = library_init_ok [OF ok, of "length xs"]
  have N: "0 < N" using ok by (auto simp: mr_ok_def)
  have st: "mr_ok N ?st" "holder (mr_container ?st) N []" "\<not> mr_first ?st" "mr_num_reduce_tasks ?st = N" "mr_final_vals ?st = replicate N []"
    "0 < mr_num_map_tasks ?st" "mr_num_map_tasks ?st \<le> N * 16" using L N xs by (auto simp: mr_ok_def)
  have step: "run_mappers cl rnd sched xs st = run_mappers cl rnd sched xs ?st"
    using first by (simp add: run_mappers_def)
  have all: "concat (map snd ((sched, xs) # chunks)) = data" using data by simp
  obtain st1 log where 1: "foldE (\<lambda>st c. run_mappers cl rnd (fst c) (snd c) st) ?st ((sched, xs) # chunks) = Inr st1" "mr_ok N st1"
    "holder (mr_container st1) N log" "mset (log_all log) = mset (emits data)" "mr_num_reduce_tasks st1 = N" "mr_final_vals st1 = replicate N []"
    using run_chunks_ok [OF st(1) multi st(2,3,6,7) chunks, of rnd] keys size st(4,5) unfolding all by (auto simp: log_all_def)
  have "foldE (\<lambda>st c. run_mappers cl rnd (fst c) (snd c) st) st ((sched, xs) # chunks) = Inr st1" using 1(1) step by simp
  then show ?thesis using reduce_and_merge [OF 1(2,5,6,3,4) keys size reduce merge, of rnd] by simp
qed

end

end
