(* ===== verification/PPSort_Correct.thy ===== *)
theory PPSort_Correct
  imports PPMapReduce_Correct
begin

text \<open>
  The merge phase of \<open>MapReduceSort\<close>: each vector is sorted, then the vectors are merged two by two
  until one is left. Whatever the schedules, the outcome is sorted and has the elements of all.
\<close>

section \<open>Sorting and merging\<close>

text \<open>A comparison that \<open>std::sort\<close> accepts: a strict weak order.\<close>

definition weak_order :: "('e \<Rightarrow> 'e \<Rightarrow> bool) \<Rightarrow> bool" where
  "weak_order lt \<longleftrightarrow> (\<forall>x y. \<not> lt x y \<or> \<not> lt y x) \<and> (\<forall>x y z. \<not> lt y x \<longrightarrow> \<not> lt z y \<longrightarrow> \<not> lt z x)"

definition in_order :: "('e \<Rightarrow> 'e \<Rightarrow> bool) \<Rightarrow> 'e list \<Rightarrow> bool" where
  "in_order lt xs \<longleftrightarrow> sorted_wrt (\<lambda>x y. \<not> lt y x) xs"

lemma in_order_simps [simp]:
  "in_order lt []" "in_order lt (x # xs) \<longleftrightarrow> (\<forall>y \<in> set xs. \<not> lt y x) \<and> in_order lt xs"
  by (simp_all add: in_order_def)

lemma mset_std_insert [simp]: "mset (std_insert lt x xs) = add_mset x (mset xs)"
  by (induction xs) simp_all

lemma set_std_insert [simp]: "set (std_insert lt x xs) = insert x (set xs)"
  by (induction xs) auto

lemma weak_orderD:
  assumes "weak_order lt"
  shows "lt y x \<Longrightarrow> \<not> lt x y" "\<not> lt y x \<Longrightarrow> \<not> lt z y \<Longrightarrow> \<not> lt z x"
  using assms unfolding weak_order_def by blast+

lemma in_order_insert:
  assumes w: "weak_order lt"
  shows "in_order lt xs \<Longrightarrow> in_order lt (std_insert lt x xs)"
proof (induction xs)
  case (Cons y ys)
  show ?case
  proof (cases "lt y x")
    case True
    then show ?thesis using Cons weak_orderD(1) [OF w True] by simp
  next
    case False
    then have "\<forall>z \<in> set ys. \<not> lt z x" using Cons.prems weak_orderD(2) [OF w] by simp
    then show ?thesis using Cons.prems False by simp
  qed
qed simp

lemma mset_std_stable_sort [simp]: "mset (std_stable_sort lt xs) = mset xs"
  unfolding std_stable_sort_def by (induction xs) simp_all

lemma in_order_sort: "weak_order lt \<Longrightarrow> in_order lt (std_stable_sort lt xs)"
  unfolding std_stable_sort_def by (induction xs) (simp_all add: in_order_insert)

lemma mset_std_merge [simp]: "mset (std_merge lt xs ys) = mset xs + mset ys"
  by (induction lt xs ys rule: std_merge.induct) simp_all

lemma set_std_merge [simp]: "set (std_merge lt xs ys) = set xs \<union> set ys"
  by (induction lt xs ys rule: std_merge.induct) auto

lemma in_order_merge: "weak_order lt \<Longrightarrow> in_order lt xs \<Longrightarrow> in_order lt ys \<Longrightarrow> in_order lt (std_merge lt xs ys)"
proof (induction lt xs ys rule: std_merge.induct)
  case (3 lt x xs y ys)
  note w = weak_orderD [OF 3(3)]
  show ?case
  proof (cases "lt y x")
    case True
    then have xy: "\<not> lt x y" by (rule w(1))
    have "\<not> lt z y" if z: "z \<in> set (std_merge lt (x # xs) ys)" for z
    proof -
      consider "z = x" | "z \<in> set xs" | "z \<in> set ys" using z by auto
      then show ?thesis
      proof cases
        case 2
        then have "\<not> lt z x" using 3(4) by simp
        then show ?thesis by (rule w(2) [OF xy])
      qed (use xy 3(5) in simp_all)
    qed
    then show ?thesis using 3 True by simp
  next
    case False
    have "\<not> lt z x" if z: "z \<in> set (std_merge lt xs (y # ys))" for z
    proof -
      consider "z = y" | "z \<in> set xs" | "z \<in> set ys" using z by auto
      then show ?thesis
      proof cases
        case 3
        then have "\<not> lt z y" using \<open>in_order lt (y # ys)\<close> by simp
        then show ?thesis by (rule w(2) [OF False])
      qed (use False \<open>in_order lt (x # xs)\<close> in simp_all)
    qed
    then show ?thesis using 3 False by simp
  qed
qed simp_all

section \<open>A phase of tasks on separate vectors\<close>

text \<open>
  Task \<open>i\<close> of \<open>M\<close> turns vector \<open>i\<close> from \<open>old i\<close> into \<open>new i\<close> as long as \<open>own\<close> holds of what it reads, and
  leaves \<open>own\<close> as it is for the other tasks.
\<close>

definition task_effect ::
  "('e \<Rightarrow> 'e \<Rightarrow> bool) \<Rightarrow> nat \<Rightarrow> (nat \<Rightarrow> pp_task) \<Rightarrow> (nat \<Rightarrow> 'e list) \<Rightarrow> (nat \<Rightarrow> 'e list) \<Rightarrow> ('e list list \<Rightarrow> nat \<Rightarrow> bool) \<Rightarrow> bool" where
  "task_effect lt M mk old new own \<longleftrightarrow>
     (\<forall>i < M. \<forall>fv mv. length fv = M \<longrightarrow> fv ! i = old i \<longrightarrow> own mv i \<longrightarrow>
        (\<exists>mv'. sort_merge_task lt (mk i) (fv, mv) = Inr (fv[i := new i], mv') \<and> (\<forall>j < M. j \<noteq> i \<longrightarrow> own mv j \<longrightarrow> own mv' j)))"

definition tasks_left :: "(nat \<Rightarrow> pp_task) \<Rightarrow> nat \<Rightarrow> (nat \<Rightarrow> 'e list) \<Rightarrow> (nat \<Rightarrow> 'e list) \<Rightarrow> ('e list list \<Rightarrow> nat \<Rightarrow> bool) \<Rightarrow>
   nat set \<Rightarrow> 'e list list \<Rightarrow> 'e list list \<Rightarrow> bool" where
  "tasks_left mk M old new own I fv mv \<longleftrightarrow>
     length fv = M \<and> (\<forall>i < M. fv ! i = (if i \<in> I then old i else new i)) \<and> (\<forall>i \<in> I. own mv i)"

definition sm_inv ::
  "(nat \<Rightarrow> pp_task) \<Rightarrow> nat \<Rightarrow> (nat \<Rightarrow> ('k \<times> 'v) list) \<Rightarrow> (nat \<Rightarrow> ('k \<times> 'v) list) \<Rightarrow> (('k \<times> 'v) list list \<Rightarrow> nat \<Rightarrow> bool) \<Rightarrow>
   ('k, 'v, 'p, 't) pp_state \<Rightarrow> nat \<Rightarrow> worker_pc list \<Rightarrow> ('k, 'v, 'p, 't) pp_state \<Rightarrow> bool" where
  "sm_inv mk M old new own s0 n pcs s \<longleftrightarrow>
     (\<exists>q fv mv I. s = s0\<lparr>mr_queue := q, mr_final_vals := fv, mr_merge_vals := mv\<rparr> \<and> pq_ok q \<and> n = card I \<and>
        I \<subseteq> {..<M} \<and> mset (pq_tasks q) = image_mset mk (mset_set I) \<and> tasks_left mk M old new own I fv mv)"

definition pool_ok :: "nat \<Rightarrow> nat \<Rightarrow> ('k, 'v, 'p, 't) pp_state \<Rightarrow> bool" where
  "pool_ok N nw s0 \<longleftrightarrow> 0 < nw \<and> nw \<le> N \<and> length (mr_locs s0) = N \<and> list_all (\<lambda>loc. 0 \<le> loc_index loc) (mr_locs s0)"

lemma sort_merge_next_ok:
  assumes ph: "pool_ok N nw s0" and eff: "task_effect lt M mk old new own"
    and inv: "sm_inv mk M old new own s0 n pcs s" and i: "i < nw"
  shows "(\<exists>m s'. sort_merge_next lt (worker_thread N nw i) s = Inr (True, s') \<and> m < n \<and> sm_inv mk M old new own s0 m pcs s') \<or>
    (n = 0 \<and> sort_merge_next lt (worker_thread N nw i) s = Inr (False, s) \<and> sm_inv mk M old new own s0 0 (pcs[i := Finished]) s)"
proof -
  let ?w = "worker_thread N nw i"
  obtain q fv mv I where s: "s = s0\<lparr>mr_queue := q, mr_final_vals := fv, mr_merge_vals := mv\<rparr>" "pq_ok q" "n = card I"
    "I \<subseteq> {..<M}" "mset (pq_tasks q) = image_mset mk (mset_set I)" "tasks_left mk M old new own I fv mv"
    using inv by (auto simp: sm_inv_def)
  have fin: "finite I" using s(4) finite_subset by blast
  have w: "?w < N" by (rule worker_thread_less) (use ph i in \<open>auto simp: pool_ok_def\<close>)
  have "length (mr_locs s) = N" "list_all (\<lambda>loc. 0 \<le> loc_index loc) (mr_locs s)" "pq_ok (mr_queue s)"
    using ph s(1,2) by (simp_all add: pool_ok_def)
  from take_task_ok [OF this(1,2) w this(3)] show ?thesis
  proof
    assume "\<exists>task q'. take_task ?w s = Inr (Some task, s\<lparr>mr_queue := q'\<rparr>) \<and> pq_ok q' \<and>
      mset (pq_tasks (mr_queue s)) = add_mset task (mset (pq_tasks q'))"
    then obtain task q' where q': "take_task ?w s = Inr (Some task, s\<lparr>mr_queue := q'\<rparr>)" "pq_ok q'"
      "mset (pq_tasks q) = add_mset task (mset (pq_tasks q'))" using s(1) by auto
    have "task \<in># image_mset mk (mset_set I)" using q'(3) s(5) by (metis union_single_eq_member)
    then obtain k where k: "k \<in> I" "task = mk k" using fin by auto
    have kM: "k < M" using k(1) s(4) by blast
    have "mset_set I = add_mset k (mset_set (I - {k}))" using k(1) fin by (simp add: mset_set.remove)
    then have rest: "mset (pq_tasks q') = image_mset mk (mset_set (I - {k}))" using q'(3) s(5) k(2) by simp
    have left: "length fv = M" "\<And>j. j < M \<Longrightarrow> fv ! j = (if j \<in> I then old j else new j)" "\<And>j. j \<in> I \<Longrightarrow> own mv j"
      using s(6) by (auto simp: tasks_left_def)
    have "fv ! k = old k" using left(2) [OF kM] k(1) by simp
    with eff kM left(1) left(3) [OF k(1)] obtain mv' where
      mv': "sort_merge_task lt (mk k) (fv, mv) = Inr (fv[k := new k], mv')" "\<And>j. j < M \<Longrightarrow> j \<noteq> k \<Longrightarrow> own mv j \<Longrightarrow> own mv' j"
      unfolding task_effect_def by blast
    let ?s' = "s0\<lparr>mr_queue := q', mr_final_vals := fv[k := new k], mr_merge_vals := mv'\<rparr>"
    have "sort_merge_next lt ?w s = Inr (True, ?s')" using q'(1) s(1) mv'(1) k(2) by (simp add: sort_merge_next_def)
    moreover have "fv[k := new k] ! j = (if j \<in> I - {k} then old j else new j)" if "j < M" for j
      using left(1) left(2) [OF that] kM by (cases "j = k") auto
    then have "tasks_left mk M old new own (I - {k}) (fv[k := new k]) mv'"
      using left(1,3) mv'(2) s(4) unfolding tasks_left_def by auto
    then have "sm_inv mk M old new own s0 (card (I - {k})) pcs ?s'"
      unfolding sm_inv_def using q'(2) rest s(4) by blast
    moreover have "card (I - {k}) < n" unfolding s(3) by (rule card_Diff1_less [OF fin k(1)])
    ultimately show ?thesis by blast
  next
    assume e: "take_task ?w s = Inr (None, s) \<and> pq_tasks (mr_queue s) = []"
    then have "image_mset mk (mset_set I) = {#}" using s(1,5) by simp
    then have "I = {}" using fin by (simp add: mset_set_empty_iff)
    then have "n = 0" using s(3) by simp
    moreover have "sort_merge_next lt ?w s = Inr (False, s)" using e by (simp add: sort_merge_next_def)
    moreover have "sm_inv mk M old new own s0 0 (pcs[i := Finished]) s" using inv by (simp only: sm_inv_def \<open>n = 0\<close>)
    ultimately show ?thesis by blast
  qed
qed

lemma sm_phase_ok:
  assumes ph: "pool_ok N nw s0" and eff: "task_effect lt M mk old new own" and q: "pq_ok (mr_queue s0)"
    and tasks: "mset (pq_tasks (mr_queue s0)) = mset (map mk [0..<M])" and fv: "mr_final_vals s0 = map old [0..<M]"
    and own: "\<And>i. i < M \<Longrightarrow> own (mr_merge_vals s0) i" and sched: "\<forall>t < nw. M + 2 \<le> count_list sched t"
  shows "\<exists>q mv. pp_start_workers (\<lambda>_. Inr) (sort_merge_next lt) (\<lambda>_. Inr) N nw sched s0 =
      Inr (s0\<lparr>mr_queue := q, mr_final_vals := map new [0..<M], mr_merge_vals := mv\<rparr>) \<and> pq_ok q \<and> pq_tasks q = []"
proof -
  let ?next = "\<lambda>i. sort_merge_next lt (worker_thread N nw i)"
  have wp: "worker_phase (\<lambda>_. Inr) ?next (\<lambda>_. Inr) nw (sm_inv mk M old new own s0)"
  proof (unfold_locales, goal_cases)
    case (1 n pcs s t)
    then show ?case by (auto simp: sm_inv_def)
  next
    case (2 n pcs s t)
    then show ?case using sort_merge_next_ok [OF ph eff 2(1,3)] by blast
  qed
  have "mset (pq_tasks (mr_queue s0)) = image_mset mk (mset_set {..<M})"
    using tasks by (simp add: lessThan_atLeast0 flip: mset_upt)
  moreover have "tasks_left mk M old new own {..<M} (mr_final_vals s0) (mr_merge_vals s0)"
    using fv own by (simp add: tasks_left_def)
  ultimately have start: "sm_inv mk M old new own s0 M (replicate nw Ready) s0"
    unfolding sm_inv_def using q
    by (intro exI [of _ "mr_queue s0"] exI [of _ "mr_final_vals s0"] exI [of _ "mr_merge_vals s0"] exI [of _ "{..<M}"]) simp
  have nw: "0 < nw" "nw \<le> N" using ph by (simp_all add: pool_ok_def)
  from worker_phase.run_workers_ok [OF wp nw(1) start sched] obtain s' where
    s': "run_workers (worker_step (\<lambda>_. Inr) ?next (\<lambda>_. Inr)) nw sched s0 = Inr s'" "sm_inv mk M old new own s0 0 (replicate nw Finished) s'"
    by blast
  obtain q' fv' mv' I where f: "s' = s0\<lparr>mr_queue := q', mr_final_vals := fv', mr_merge_vals := mv'\<rparr>" "pq_ok q'" "0 = card I"
    "I \<subseteq> {..<M}" "mset (pq_tasks q') = image_mset mk (mset_set I)" "tasks_left mk M old new own I fv' mv'"
    using s'(2) by (auto simp: sm_inv_def)
  have "finite I" using f(4) finite_subset by blast
  then have "I = {}" using f(3) by simp
  then have "fv' = map new [0..<M]" "pq_tasks q' = []" using f(5,6) by (auto simp: tasks_left_def intro!: nth_equalityI)
  then show ?thesis using s'(1) f(1,2) nw by (auto simp: pp_start_workers_def Let_def)
qed

section \<open>Sorting the vectors of the threads\<close>

lemma sm_enqueue:
  assumes q: "pq_ok q" and T: "T < 2 ^ 31" and id: "\<And>i. i < T \<Longrightarrow> unat (pt_id (mk i)) = i" and lgrp: "\<And>i. l i < 2 ^ 31"
  shows "\<exists>q'. foldE (\<lambda>q i. pq_enqueue_seq (rnd i) q (mk i) (int T) (l i)) q [0..<T] = Inr q' \<and> pq_ok q' \<and>
    mset (pq_tasks q') = mset (pq_tasks q) + mset (map mk [0..<T])"
proof -
  let ?P = "\<lambda>m q'. pq_ok q' \<and> mset (pq_tasks q') = mset (pq_tasks q) + mset (map mk [0..<m])"
  have "\<exists>q'. foldE (\<lambda>q i. pq_enqueue_seq (rnd i) q (mk i) (int T) (l i)) q [0..<T] = Inr q' \<and> ?P T q'"
  proof (rule foldE_upt [where P = ?P])
    show "?P 0 q" using q by simp
  next
    fix i q' assume i: "i < T" and P: "?P i q'"
    have "unat (pt_id (mk i)) < T" using id [OF i] i by simp
    from pq_enqueue_seq_ok [OF _ lgrp T this, of q' "rnd i" i] P
    show "\<exists>q''. pq_enqueue_seq (rnd i) q' (mk i) (int T) (l i) = Inr q'' \<and> ?P (Suc i) q''" by auto
  qed
  then show ?thesis by blast
qed

lemma sort_effect:
  assumes "M < 2 ^ 31"
  shows "task_effect lt M sort_task old (\<lambda>i. std_stable_sort lt (old i)) (\<lambda>mv i. True)"
  unfolding task_effect_def
proof (intro allI impI)
  fix i and fv mv :: "'a list list" assume i: "i < M" and fv: "length fv = M" "fv ! i = old i"
  have "uint (word_of_nat i :: 64 word) = int i" using i assms by (simp add: unsigned_of_nat take_bit_nat_eq_self_iff)
  then have "sort_merge_task lt (sort_task i) (fv, mv) = Inr (fv[i := std_stable_sort lt (old i)], mv)"
    using i fv by (simp add: sort_merge_task_def sort_task_def Let_def)
  then show "\<exists>mv'. sort_merge_task lt (sort_task i) (fv, mv) = Inr (fv[i := std_stable_sort lt (old i)], mv') \<and>
    (\<forall>j < M. j \<noteq> i \<longrightarrow> True \<longrightarrow> True)" by blast
qed

lemma sort_queues_ok:
  assumes ok: "mr_ok N st" and fv: "length (mr_final_vals st) = N" and sched: "turns sched N N"
  shows "\<exists>st'. sort_queues lt rnd sched st = Inr st' \<and> mr_ok N st' \<and> mr_final_vals st' = map (std_stable_sort lt) (mr_final_vals st)"
proof -
  have N: "0 < N" "N < 2 ^ 31" "mr_num_threads st = N" "length (mr_locs st) = N" "list_all (\<lambda>loc. 0 \<le> loc_index loc) (mr_locs st)"
    "pq_ok (mr_queue st)" "pq_tasks (mr_queue st) = []" using ok by (auto simp: mr_ok_def)
  have id: "unat (pt_id (sort_task i)) = i" if "i < N" for i using that N(2) by (simp add: sort_task_def unat_nat64)
  obtain q where q: "foldE (\<lambda>q i. pq_enqueue_seq (rnd i) q (sort_task i) (int N) (-1)) (mr_queue st) [0..<N] = Inr q" "pq_ok q"
    "mset (pq_tasks q) = mset (map sort_task [0..<N])"
    using sm_enqueue [OF N(6,2) id, of "\<lambda>_. -1" rnd] N(7) by auto
  let ?s0 = "st\<lparr>mr_queue := q\<rparr>" and ?old = "(!) (mr_final_vals st)"
  have ph: "pool_ok N N ?s0" using N by (simp add: pool_ok_def)
  have fvs: "mr_final_vals ?s0 = map ?old [0..<N]" using fv by (simp add: map_nth flip: fv)
  have qs: "pq_ok (mr_queue ?s0)" "mset (pq_tasks (mr_queue ?s0)) = mset (map sort_task [0..<N])" using q(2,3) by simp_all
  have sc: "\<forall>t < N. N + 2 \<le> count_list sched t" using sched by (simp add: turns_def)
  obtain q' mv where
    run: "pp_start_workers (\<lambda>_. Inr) (sort_merge_next lt) (\<lambda>_. Inr) N N sched ?s0 =
        Inr (?s0\<lparr>mr_queue := q', mr_final_vals := map (\<lambda>i. std_stable_sort lt (?old i)) [0..<N], mr_merge_vals := mv\<rparr>)"
      "pq_ok q'" "pq_tasks q' = []"
    using sm_phase_ok [OF ph sort_effect [OF N(2)] qs fvs TrueI sc] by blast
  have "map (\<lambda>i. std_stable_sort lt (?old i)) [0..<N] = map (std_stable_sort lt) (mr_final_vals st)"
    using fv by (intro nth_equalityI) simp_all
  then show ?thesis using q(1) run N ok by (simp add: sort_queues_def mr_ok_def)
qed

section \<open>Merging in rounds\<close>

definition pair_of :: "('e \<Rightarrow> 'e \<Rightarrow> bool) \<Rightarrow> 'e list list \<Rightarrow> nat \<Rightarrow> 'e list" where
  "pair_of lt fv i = (if 2 * i + 1 < length fv then std_merge lt (fv ! (2 * i)) (fv ! (2 * i + 1)) else fv ! (2 * i))"

definition reads :: "'e list list \<Rightarrow> 'e list list \<Rightarrow> nat \<Rightarrow> bool" where
  "reads fv mv i \<longleftrightarrow> length mv = length fv \<and> mv ! (2 * i) = fv ! (2 * i) \<and> (2 * i + 1 < length fv \<longrightarrow> mv ! (2 * i + 1) = fv ! (2 * i + 1))"

definition round_task :: "(nat \<Rightarrow> int) \<Rightarrow> nat \<Rightarrow> nat \<Rightarrow> pp_task" where
  "round_task l m i = merge_task i (min 2 (m - 2 * i)) (2 * i) (l (2 * i))"

lemma merge_effect:
  fixes fv0 :: "'e list list"
  assumes m: "length fv0 < 2 ^ 26"
  shows "task_effect lt ((length fv0 + 1) div 2) (round_task l (length fv0)) (\<lambda>i. []) (pair_of lt fv0) (reads fv0)"
  unfolding task_effect_def
proof (intro allI impI)
  let ?m = "length fv0" and ?M = "(length fv0 + 1) div 2"
  fix i and fv mv :: "'e list list" assume i: "i < ?M" and fv: "length fv = ?M" "fv ! i = []" and own: "reads fv0 mv i"
  have two: "2 * i < ?m" using i by linarith
  have u: "uint (word_of_nat i :: 64 word) = int i" "uint (word_of_nat (2 * i) :: 64 word) = int (2 * i)"
    using two m by (simp_all add: unsigned_of_nat take_bit_nat_eq_self_iff del: of_nat_mult)
  have mv: "length mv = ?m" "mv ! (2 * i) = fv0 ! (2 * i)" "2 * i + 1 < ?m \<Longrightarrow> mv ! (2 * i + 1) = fv0 ! (2 * i + 1)"
    using own by (auto simp: reads_def)
  show "\<exists>mv'. sort_merge_task lt (round_task l ?m i) (fv, mv) = Inr (fv[i := pair_of lt fv0 i], mv') \<and>
    (\<forall>j < ?M. j \<noteq> i \<longrightarrow> reads fv0 mv j \<longrightarrow> reads fv0 mv' j)"
  proof (cases "2 * i + 1 < ?m")
    case True
    then have "min 2 (?m - 2 * i) = 2" by simp
    moreover have "arr_get mv (int (2 * i) + 1) = Inr (mv ! (2 * i + 1))"
      using arr_get_nth [of "2 * i + 1" mv] True mv(1) by (simp add: ac_simps)
    ultimately have "sort_merge_task lt (round_task l ?m i) (fv, mv) = Inr (fv[i := pair_of lt fv0 i], mv)"
      using True two i fv mv u
      by (simp add: sort_merge_task_def round_task_def merge_task_def Let_def pair_of_def del: of_nat_mult)
    then show ?thesis by blast
  next
    case False
    then have "min 2 (?m - 2 * i) = 1" using two by simp
    then have "sort_merge_task lt (round_task l ?m i) (fv, mv) = Inr (fv[i := pair_of lt fv0 i], mv[2 * i := []])"
      using False two i fv mv u
      by (simp add: sort_merge_task_def round_task_def merge_task_def Let_def pair_of_def del: of_nat_mult)
    moreover have "reads fv0 (mv[2 * i := []]) j" if "j \<noteq> i" "reads fv0 mv j" for j
    proof -
      have "2 * j \<noteq> 2 * i" "2 * j + 1 \<noteq> 2 * i" using that(1) by presburger+
      then show ?thesis using that(2) by (simp add: reads_def)
    qed
    ultimately show ?thesis by blast
  qed
qed

lemma enqueue_round:
  assumes q: "pq_ok q" and m: "m < 2 ^ 26" and lgrp: "\<And>i. l i < 2 ^ 31"
  shows "\<exists>q' j. foldE (enqueue_merge_task l rnd m ((m + 1) div 2)) (q, 0) [0..<(m + 1) div 2] = Inr (q', j) \<and> pq_ok q' \<and>
    mset (pq_tasks q') = mset (pq_tasks q) + mset (map (round_task l m) [0..<(m + 1) div 2])"
proof -
  let ?M = "(m + 1) div 2"
  let ?P = "\<lambda>k (s :: pp_task_queue \<times> nat). pq_ok (fst s) \<and> mset (pq_tasks (fst s)) = mset (pq_tasks q) + mset (map (round_task l m) [0..<k]) \<and>
    (k < ?M \<longrightarrow> snd s = 2 * k)"
  have "\<exists>s. foldE (enqueue_merge_task l rnd m ?M) (q, 0) [0..<?M] = Inr s \<and> ?P ?M s"
  proof (rule foldE_upt [where P = ?P])
    show "?P 0 (q, 0)" using q by simp
  next
    fix i s assume i: "i < ?M" and P: "?P i s"
    obtain q1 where s: "s = (q1, 2 * i)" using P i by (cases s) simp
    have "unat (pt_id (round_task l m i)) < ?M" "?M < 2 ^ 31" using i m by (simp_all add: round_task_def merge_task_def unat_nat64)
    from pq_enqueue_seq_ok [OF _ lgrp this(2,1), of q1 "rnd i" "2 * i"] P s obtain q2 where
      q2: "pq_enqueue_seq (rnd i) q1 (round_task l m i) (int ?M) (l (2 * i)) = Inr q2" "pq_ok q2"
        "mset (pq_tasks q2) = add_mset (round_task l m i) (mset (pq_tasks q1))" by auto
    have "Suc i < ?M \<Longrightarrow> 2 * i + min 2 (m - 2 * i) = 2 * Suc i" by simp
    then have "enqueue_merge_task l rnd m ?M s i = Inr (q2, 2 * i + min 2 (m - 2 * i)) \<and> ?P (Suc i) (q2, 2 * i + min 2 (m - 2 * i))"
      using q2 P s by (simp add: enqueue_merge_task_def Let_def round_task_def)
    then show "\<exists>s'. enqueue_merge_task l rnd m ?M s i = Inr s' \<and> ?P (Suc i) s'" by blast
  qed
  then show ?thesis by auto
qed

lemma sum_pairs:
  fixes M :: nat and h :: "nat \<Rightarrow> 'e multiset"
  shows "(\<Sum>i < M. h (2 * i) + h (2 * i + 1)) = (\<Sum>j < 2 * M. h j)"
  by (induction M) (simp_all add: ac_simps)

lemma mset_concat_nth: "mset (concat xss) = (\<Sum>j < length xss. mset (xss ! j))"
proof (induction xss rule: rev_induct)
  case (snoc xs xss)
  have "(\<Sum>j < length xss. mset ((xss @ [xs]) ! j)) = (\<Sum>j < length xss. mset (xss ! j))"
    by (rule sum.cong) (simp_all add: nth_append)
  then show ?case using snoc by simp
qed simp

lemma mset_pairs: "mset (concat (map (pair_of lt fv) [0..<(length fv + 1) div 2])) = mset (concat fv)"
proof -
  let ?M = "(length fv + 1) div 2"
  let ?h = "\<lambda>j. if j < length fv then mset (fv ! j) else {#}"
  have "mset (concat (map (pair_of lt fv) [0..<?M])) = (\<Sum>i < ?M. mset (pair_of lt fv i))"
    unfolding mset_concat_nth by simp
  also have "\<dots> = (\<Sum>i < ?M. ?h (2 * i) + ?h (2 * i + 1))"
  proof (rule sum.cong [OF refl])
    fix i assume "i \<in> {..<?M}"
    then have "2 * i < length fv" by simp
    then show "mset (pair_of lt fv i) = ?h (2 * i) + ?h (2 * i + 1)" by (simp add: pair_of_def)
  qed
  also have "\<dots> = (\<Sum>j < 2 * ?M. ?h j)" by (rule sum_pairs)
  also have "\<dots> = (\<Sum>j < length fv. ?h j)" by (rule sum.mono_neutral_right) auto
  also have "\<dots> = (\<Sum>j < length fv. mset (fv ! j))" by (rule sum.cong) simp_all
  also have "\<dots> = mset (concat fv)" by (rule mset_concat_nth [symmetric])
  finally show ?thesis .
qed

lemma turns_less:
  assumes "turns sched N T" and "n \<le> N" and "T' \<le> T"
  shows "\<forall>t < n. T' + 2 \<le> count_list sched t"
proof (intro allI impI)
  fix t assume "t < n"
  then have "T + 2 \<le> count_list sched t" using assms(1,2) by (simp add: turns_def)
  then show "T' + 2 \<le> count_list sched t" using assms(3) by simp
qed

lemma in_order_pairs:
  "weak_order lt \<Longrightarrow> \<forall>xs \<in> set fv. in_order lt xs \<Longrightarrow> i < (length fv + 1) div 2 \<Longrightarrow> in_order lt (pair_of lt fv i)"
  unfolding pair_of_def by (auto intro!: in_order_merge)

lemma merge_round_ok:
  assumes ok: "mr_ok N st" and m: "length (mr_final_vals st) = m" "1 < m" "m \<le> N" and lgrp: "\<And>i. l i < 2 ^ 31"
    and sched: "turns sched N N"
  shows "\<exists>st'. merge_round lt l rnd sched m st = Inr st' \<and> mr_ok N st' \<and>
    mr_final_vals st' = map (pair_of lt (mr_final_vals st)) [0..<(m + 1) div 2]"
proof -
  let ?M = "(m + 1) div 2"
  have N: "0 < N" "N < 2 ^ 26" "mr_num_threads st = N" "length (mr_locs st) = N" "list_all (\<lambda>loc. 0 \<le> loc_index loc) (mr_locs st)"
    "pq_ok (mr_queue st)" "pq_tasks (mr_queue st) = []" using ok by (auto simp: mr_ok_def)
  have m26: "m < 2 ^ 26" using m(3) N(2) by simp
  have MN: "0 < ?M" "?M \<le> N" using m by simp_all
  obtain q j where q: "foldE (enqueue_merge_task l rnd m ?M) (mr_queue st, 0) [0..<?M] = Inr (q, j)" "pq_ok q"
    "mset (pq_tasks q) = mset (map (round_task l m) [0..<?M])"
    using enqueue_round [OF N(6) m26, of l rnd] lgrp N(7) by auto
  let ?s0 = "st\<lparr>mr_merge_vals := mr_final_vals st, mr_final_vals := replicate ?M [], mr_queue := q\<rparr>"
  have ph: "pool_ok N (min ?M N) ?s0" using N MN by (simp add: pool_ok_def)
  have fvs: "mr_final_vals ?s0 = map (\<lambda>i. []) [0..<?M]" by (simp add: map_replicate_const)
  have qs: "pq_ok (mr_queue ?s0)" "mset (pq_tasks (mr_queue ?s0)) = mset (map (round_task l m) [0..<?M])" using q(2,3) by simp_all
  have sc: "\<forall>t < min ?M N. ?M + 2 \<le> count_list sched t" by (rule turns_less [OF sched]) (use MN in simp_all)
  have own: "reads (mr_final_vals st) (mr_merge_vals ?s0) i" for i by (simp add: reads_def)
  have eff: "task_effect lt ?M (round_task l m) (\<lambda>i. []) (pair_of lt (mr_final_vals st)) (reads (mr_final_vals st))"
    using merge_effect [of "mr_final_vals st" lt l] m(1) m26 by simp
  obtain q' mv where
    run: "pp_start_workers (\<lambda>_. Inr) (sort_merge_next lt) (\<lambda>_. Inr) N (min ?M N) sched ?s0 =
        Inr (?s0\<lparr>mr_queue := q', mr_final_vals := map (pair_of lt (mr_final_vals st)) [0..<?M], mr_merge_vals := mv\<rparr>)"
      "pq_ok q'" "pq_tasks q' = []"
    using sm_phase_ok [OF ph eff qs fvs own sc] by blast
  show ?thesis using q(1) run N ok by (simp add: merge_round_def Let_def mr_ok_def)
qed

lemma merge_rounds_ok:
  assumes w: "weak_order lt" and lgrp: "\<And>i. l i < 2 ^ 31" and sched: "\<And>r. turns (sched r) N N"
  shows "mr_ok N st \<Longrightarrow> length (mr_final_vals st) = m \<Longrightarrow> 0 < m \<Longrightarrow> m \<le> N \<Longrightarrow> \<forall>xs \<in> set (mr_final_vals st). in_order lt xs \<Longrightarrow>
    \<exists>st' out. merge_until_one lt l rnd sched r m st = Inr st' \<and> mr_final_vals st' = [out] \<and>
      mset out = mset (concat (mr_final_vals st)) \<and> in_order lt out"
proof (induction m arbitrary: r st rule: less_induct)
  case (less m)
  show ?case
  proof (cases "1 < m")
    case False
    then have m: "m = 1" using less.prems(3) by simp
    then obtain out where "mr_final_vals st = [out]" using less.prems(2) by (auto simp: length_Suc_conv)
    then show ?thesis using m less.prems(5) by (simp add: merge_until_one.simps [of lt l rnd sched r "Suc 0"])
  next
    case True
    let ?fv = "mr_final_vals st"
    obtain st1 where st1: "merge_round lt l rnd (sched r) m st = Inr st1" "mr_ok N st1"
      "mr_final_vals st1 = map (pair_of lt ?fv) [0..<(m + 1) div 2]"
      using merge_round_ok [where l = l and sched = "sched r", OF less.prems(1,2) True less.prems(4) lgrp sched] by blast
    have "\<forall>xs \<in> set (mr_final_vals st1). in_order lt xs"
      using in_order_pairs [OF w less.prems(5)] less.prems(2) st1(3) by auto
    moreover have "(m + 1) div 2 < m" "0 < (m + 1) div 2" "(m + 1) div 2 \<le> N" using True less.prems(4) by simp_all
    moreover have "length (mr_final_vals st1) = (m + 1) div 2" using st1(3) by simp
    moreover have "mset (concat (mr_final_vals st1)) = mset (concat ?fv)" using mset_pairs [of lt ?fv] less.prems(2) st1(3) by simp
    ultimately show ?thesis
      using less.IH [of "(m + 1) div 2" st1 "Suc r"] st1(1,2) True by (simp add: merge_until_one.simps [of lt l rnd sched r m])
  qed
qed

theorem run_sort_merge_merges:
  fixes lt :: "'k \<times> 'v \<Rightarrow> 'k \<times> 'v \<Rightarrow> bool"
  assumes w: "weak_order lt" and lgrp: "\<And>i. l i < 2 ^ 31" and sched: "\<And>r. turns (sched r) N N"
  shows "merges N (run_sort_merge lt l rnd sched :: ('k, 'v, 'p, 't) pp_state \<Rightarrow> _) (in_order lt)"
  unfolding merges_def
proof (intro allI impI)
  fix s :: "('k, 'v, 'p, 't) pp_state" assume ok: "mr_ok N s" and fv: "length (mr_final_vals s) = N"
  obtain s1 where s1: "sort_queues lt rnd (sched 0) s = Inr s1" "mr_ok N s1" "mr_final_vals s1 = map (std_stable_sort lt) (mr_final_vals s)"
    using sort_queues_ok [OF ok fv sched] by blast
  have N: "0 < N" "mr_num_threads s = N" using ok by (auto simp: mr_ok_def)
  have "\<forall>xs \<in> set (mr_final_vals s1). in_order lt xs" using s1(3) in_order_sort [OF w] by auto
  then obtain s' out where s': "merge_until_one lt l rnd sched 1 N s1 = Inr s'" "mr_final_vals s' = [out]"
    "mset out = mset (concat (mr_final_vals s1))" "in_order lt out"
    using merge_rounds_ok [where l = l and sched = sched and rnd = rnd and r = 1, OF w lgrp sched s1(2)] s1(3) fv N(1) by auto
  have "mset (concat (mr_final_vals s1)) = mset (concat (mr_final_vals s))"
    unfolding s1(3) mset_concat_nth by simp
  then show "\<exists>s' out. run_sort_merge lt l rnd sched s = Inr s' \<and> mr_final_vals s' = [out] \<and>
      mset out = mset (concat (mr_final_vals s)) \<and> in_order lt out"
    using s1(1) s' N(2) by (intro exI [of _ s'] exI [of _ out]) (simp add: run_sort_merge_def)
qed

end
