(* ===== verification/PPIngest.thy ===== *)
theory PPIngest
  imports PPMapReduce
begin

text \<open>
  Ingest chunks: \<open>read_chunk.h\<close>, which reads the input files piece by piece, and
  \<open>run_ingest_chunks\<close> of \<open>map_reduce.h\<close>, which maps one chunk while the next is being read, both
  under \<open>src/sop1_parallelism/phoenix++/include\<close>. The reading thread writes only to the chunk that
  no mapper uses and is joined before the next step, so its work is done in one step here.
\<close>

section \<open>Files\<close>

text \<open>
  A job reads local files or, with \<open>hdfs\<close>, files of HDFS; both kinds of calls are a record here.
  \<open>fl_data\<close> are the bytes of a file, None if it cannot be opened, and \<open>fl_pread name offset n\<close> is what
  \<open>pread\<close> (\<open>hdfsPread\<close>) of \<open>n\<close> bytes at an offset returns: the number of bytes read, or -1.
\<close>

record files =
  fl_data :: "string \<Rightarrow> char list option"
  fl_pread :: "string \<Rightarrow> nat \<Rightarrow> nat \<Rightarrow> int"

record job_state =
  js_hdfs :: "files option"
  js_path :: string
  js_total_size :: nat
  js_total_nfiles :: int
  js_ingest_files :: int
  js_ingest_bytes :: nat

text \<open>
  A chunk points to its job, which is the same for all and an argument here. The bytes of its buffer
  are None where nothing has been written.
\<close>

record chunk_t =
  ck_id :: int
  ck_fileid :: int
  ck_size :: nat
  ck_data :: "char option list"
  ck_nread :: nat

definition job_files :: "files \<Rightarrow> job_state \<Rightarrow> files" where
  "job_files local job = (case js_hdfs job of None \<Rightarrow> local | Some hdfs \<Rightarrow> hdfs)"

definition initialize_chunk :: "int \<Rightarrow> int \<Rightarrow> nat \<Rightarrow> chunk_t" where
  "initialize_chunk i fileid nread = \<lparr>ck_id = i, ck_fileid = fileid, ck_size = 0, ck_data = [], ck_nread = nread\<rparr>"

text \<open>\<open>sprintf (chunk_id, "%d", file_id)\<close> of a number that is not negative.\<close>

fun decimal :: "nat \<Rightarrow> string" where
  "decimal n = (if n < 10 then [char_of (48 + n)] else decimal (n div 10) @ [char_of (48 + n mod 10)])"

definition sprintf_d :: "int \<Rightarrow> string" where
  "sprintf_d i = (if i < 0 then ''-'' @ decimal (nat (- i)) else decimal (nat i))"

text \<open>\<open>buf_size\<close> is the size of the array that \<open>filename\<close> points to.\<close>

definition construct_filename :: "nat \<Rightarrow> job_state \<Rightarrow> int \<Rightarrow> string res" where
  "construct_filename buf_size job file_id =
     bindE (if file_id < 10 then Inr ''/part-0000''
            else if file_id < 100 then Inr ''/part-000''
            else if file_id < 1000 then Inr ''/part-00''
            else Inl Exit_failure) (\<lambda>part.
     let filename = js_path job @ part @ sprintf_d file_id
     in if length filename < buf_size then Inr filename else Inl Out_of_bounds)"

definition LINE_MAX :: nat where
  "LINE_MAX = 2048"

definition open_file :: "files \<Rightarrow> string \<Rightarrow> char list res" where
  "open_file fl name = (case fl_data fl name of None \<Rightarrow> Inl Check_error | Some bytes \<Rightarrow> Inr bytes)"

definition get_fsize :: "files \<Rightarrow> job_state \<Rightarrow> nat res" where
  "get_fsize local job =
     foldE (\<lambda>input_size i.
       bindE (construct_filename 32 job (int i)) (\<lambda>filename.
       bindE (open_file (job_files local job) filename) (\<lambda>bytes.
       Inr (input_size + length bytes)))) 0 [0..<nat (js_total_nfiles job)]"

section \<open>Reading\<close>

text \<open>
  \<open>r += pread (fd, data + r, n, offset + r)\<close>: \<open>r\<close> is a \<open>uint64_t\<close>, and \<open>data\<close> is written wherever
  the bytes go.
\<close>

definition pread_step ::
  "files \<Rightarrow> string \<Rightarrow> char list \<Rightarrow> nat \<Rightarrow> nat \<Rightarrow> nat \<Rightarrow> nat \<times> char option list \<Rightarrow> (nat \<times> char option list) res" where
  "pread_step fl name bytes base n offset s =
     (case s of (r, data) \<Rightarrow>
        let c = fl_pread fl name (offset + r) n; k = nat c
        in if base + r + k > length data then Inl Out_of_bounds
           else Inr (nat ((int r + c) mod 2 ^ 64),
                     take (base + r) data @ map Some (take k (drop (offset + r) bytes)) @ drop (base + r + k) data))"

text \<open>\<open>while (r < n)\<close>, with a bound on its rounds.\<close>

fun pread_loop ::
  "nat \<Rightarrow> files \<Rightarrow> string \<Rightarrow> char list \<Rightarrow> nat \<Rightarrow> nat \<Rightarrow> nat \<Rightarrow> nat \<times> char option list \<Rightarrow> (nat \<times> char option list) res" where
  "pread_loop 0 fl name bytes base n offset s = Inl No_fuel"
| "pread_loop (Suc fuel) fl name bytes base n offset s =
     (if fst s < n then bindE (pread_step fl name bytes base n offset s) (pread_loop fuel fl name bytes base n offset)
      else Inr s)"

text \<open>Byte by byte to behind the next newline; \<open>split\<close> counts along.\<close>

fun find_newline :: "char list \<Rightarrow> nat \<Rightarrow> nat res" where
  "find_newline [] split = Inl Check_error"
| "find_newline (c # cs) split = (if c = CHR 0x0A then Inr (split + 1) else find_newline cs (split + 1))"

definition read_chunk_bytes :: "nat \<Rightarrow> files \<Rightarrow> job_state \<Rightarrow> chunk_t \<Rightarrow> chunk_t res" where
  "read_chunk_bytes rounds local job chunk =
     (let fl = job_files local job in
      bindE (construct_filename LINE_MAX job (ck_fileid chunk)) (\<lambda>filename.
      bindE (open_file fl filename) (\<lambda>bytes.
      let split = js_ingest_bytes job + ck_nread chunk in
      bindE (if split \<ge> js_total_size job then Inr (js_total_size job + 1, ck_fileid chunk + 1)
             else bindE (find_newline (drop split bytes) split) (\<lambda>split. Inr (split + 1, ck_fileid chunk))) (\<lambda>(split, fileid).
      let sz = nat ((int split - int (ck_nread chunk) - 1) mod 2 ^ 64) in
      bindE (pread_loop rounds fl filename bytes 0 sz (ck_nread chunk) (0, replicate (sz + 1) None)) (\<lambda>(r, data).
      Inr (chunk\<lparr>ck_fileid := fileid, ck_size := sz, ck_data := data, ck_nread := ck_nread chunk + r\<rparr>))))))"

text \<open>\<open>read_chunk\<close>: the next \<open>ingest_files\<close> files, or those that are left; \<open>i\<close> files are to come.\<close>

definition read_file ::
  "nat \<Rightarrow> files \<Rightarrow> job_state \<Rightarrow> nat \<times> chunk_t \<Rightarrow> (nat \<times> chunk_t) res" where
  "read_file rounds local job s =
     (case s of (sz, chunk) \<Rightarrow>
        let fl = job_files local job in
        bindE (construct_filename LINE_MAX job (ck_fileid chunk)) (\<lambda>filename.
        bindE (open_file fl filename) (\<lambda>bytes.
        let fsize = length bytes; data = take (sz + fsize + 1) (ck_data chunk @ replicate (sz + fsize + 1 - length (ck_data chunk)) None) in
        bindE (pread_loop rounds fl filename bytes sz fsize 0 (0, data)) (\<lambda>(r, data).
        Inr (sz + fsize, chunk\<lparr>ck_data := data, ck_nread := 0, ck_fileid := ck_fileid chunk + 1\<rparr>)))))"

fun read_files :: "nat \<Rightarrow> nat \<Rightarrow> files \<Rightarrow> job_state \<Rightarrow> nat \<times> chunk_t \<Rightarrow> chunk_t res" where
  "read_files 0 rounds local job s = Inr ((snd s)\<lparr>ck_size := fst s\<rparr>)"
| "read_files (Suc i) rounds local job s =
     (if ck_fileid (snd s) \<ge> js_total_nfiles job then Inr ((snd s)\<lparr>ck_size := fst s\<rparr>)
      else bindE (read_file rounds local job s) (read_files i rounds local job))"

definition read_chunk :: "nat \<Rightarrow> files \<Rightarrow> job_state \<Rightarrow> chunk_t \<Rightarrow> chunk_t res" where
  "read_chunk rounds local job chunk = read_files (nat (js_ingest_files job)) rounds local job (0, chunk)"

text \<open>\<open>pthread_read\<close>, and the same choice for the first chunk.\<close>

definition pthread_read :: "nat \<Rightarrow> files \<Rightarrow> job_state \<Rightarrow> chunk_t \<Rightarrow> chunk_t res" where
  "pthread_read rounds local job chunk =
     (if js_ingest_bytes job > 0 then read_chunk_bytes rounds local job chunk else read_chunk rounds local job chunk)"

section \<open>\<open>run_ingest_chunks\<close>\<close>

text \<open>
  \<open>run_mappers\<close> on a chunk: \<open>set_data\<close>, then \<open>split\<close> until there is nothing left. \<open>ic_sched n\<close> is the
  schedule of the mappers on chunk \<open>n\<close>.
\<close>

record ('x, 'u) ingest_app =
  ia_set_data :: "char option list \<Rightarrow> nat \<Rightarrow> 'u"
  ia_split :: "'u \<Rightarrow> ('x option \<times> 'u) res"
  ia_rounds :: nat

definition map_chunk ::
  "('x, 'u) ingest_app \<Rightarrow> ('x, 'k, 'v, 'c, 'd, 'p, 't, 'it) mr_class \<Rightarrow> (nat \<Rightarrow> int) \<Rightarrow> nat list \<Rightarrow> chunk_t \<Rightarrow>
   ('k, 'v, 'p, 't) pp_state \<Rightarrow> ('k, 'v, 'p, 't) pp_state res" where
  "map_chunk app cl rnd sched chunk st =
     bindE (split_all (ia_rounds app) (ia_split app) (ia_set_data app (ck_data chunk) (ck_size chunk))) (\<lambda>(data, u).
     run_mappers cl rnd sched data st)"

text \<open>The loop: the chunk after \<open>curr_chunk\<close> is read while \<open>curr_chunk\<close> is mapped; \<open>n\<close> counts the chunks.\<close>

fun ingest_loop ::
  "nat \<Rightarrow> files \<Rightarrow> job_state \<Rightarrow> ('x, 'u) ingest_app \<Rightarrow> ('x, 'k, 'v, 'c, 'd, 'p, 't, 'it) mr_class \<Rightarrow> (nat \<Rightarrow> int) \<Rightarrow> (nat \<Rightarrow> nat list) \<Rightarrow>
   nat \<Rightarrow> chunk_t \<Rightarrow> nat \<Rightarrow> ('k, 'v, 'p, 't) pp_state \<Rightarrow> (nat \<times> chunk_t \<times> ('k, 'v, 'p, 't) pp_state) res" where
  "ingest_loop 0 local job app cl rnd sched nread curr_chunk n st = Inl No_fuel"
| "ingest_loop (Suc fuel) local job app cl rnd sched nread curr_chunk n st =
     (if nread < js_total_size job then
        bindE (map_chunk app cl rnd (sched n) curr_chunk st) (\<lambda>st.
        bindE (pthread_read (ia_rounds app) local job
                 (initialize_chunk (int n) (ck_fileid curr_chunk) (ck_nread curr_chunk))) (\<lambda>next_chunk.
        ingest_loop fuel local job app cl rnd sched (nread + ck_size next_chunk) next_chunk (n + 1) st))
      else Inr (n, curr_chunk, st))"

definition run_ingest_chunks ::
  "(('k, 'v, 'p, 't) pp_state \<Rightarrow> ('k, 'v, 'p, 't) pp_state res) \<Rightarrow> nat \<Rightarrow> files \<Rightarrow> job_state \<Rightarrow> ('x, 'u) ingest_app \<Rightarrow>
   ('x, 'k, 'v, 'c, 'd, 'p, 't, 'it) mr_class \<Rightarrow> (nat \<Rightarrow> int) \<Rightarrow> (nat \<Rightarrow> nat list) \<Rightarrow> nat list \<Rightarrow>
   ('k, 'v, 'p, 't) pp_state \<Rightarrow> (int \<times> ('k \<times> 'v) list) res" where
  "run_ingest_chunks merge fuel local job app cl rnd sched reduce_sched st =
     bindE (get_fsize local job) (\<lambda>total_size.
     let job = job\<lparr>js_total_size := total_size\<rparr>; st = st\<lparr>mr_first := True\<rparr> in
     bindE (pthread_read (ia_rounds app) local job (initialize_chunk 0 0 0)) (\<lambda>curr_chunk.
     bindE (ingest_loop fuel local job app cl rnd sched (ck_size curr_chunk) curr_chunk 1 st) (\<lambda>(nchunks, curr_chunk, st).
     bindE (map_chunk app cl rnd (sched nchunks) curr_chunk st) (\<lambda>st.
     bindE (run_reducers merge cl rnd reduce_sched st) (\<lambda>(result, st).
     Inr (int nchunks, result))))))"

end
