(* ===== verification/PPIngest_Correct.thy ===== *)
theory PPIngest_Correct
  imports PPIngest PPMapReduce_Correct
begin

text \<open>
  Ingest chunks of one file: the chunks are consecutive pieces of it that end at newlines, and
  mapping one after the other gives what mapping the whole file gives. Buffers that the reader
  overruns.
\<close>

section \<open>Reading\<close>

text \<open>A \<open>pread\<close> that reads as much as there is and as was asked for.\<close>

definition full_reads :: "files \<Rightarrow> string \<Rightarrow> char list \<Rightarrow> bool" where
  "full_reads fl name bytes \<longleftrightarrow> fl_data fl name = Some bytes \<and> (\<forall>off n. fl_pread fl name off n = int (min n (length bytes - off)))"

lemma pread_loop_full:
  assumes fl: "full_reads fl name bytes" and "offset + n \<le> length bytes" and "base + n \<le> length data"
    and "n < 2 ^ 63" and rounds: "2 \<le> rounds"
  shows "pread_loop rounds fl name bytes base n offset (0, data) =
    Inr (n, take base data @ map Some (take n (drop offset bytes)) @ drop (base + n) data)"
proof (cases "n = 0")
  case True
  then show ?thesis using rounds by (cases rounds) simp_all
next
  case False
  obtain k where k: "rounds = Suc (Suc k)" using rounds by (metis Suc_le_D numeral_2_eq_2 Suc_le_mono)
  have "fl_pread fl name offset n = int n" using fl assms(2) by (simp add: full_reads_def)
  then have "pread_step fl name bytes base n offset (0, data) =
    Inr (n, take base data @ map Some (take n (drop offset bytes)) @ drop (base + n) data)"
    using assms(3,4) by (simp add: pread_step_def Let_def)
  then show ?thesis using False k by simp
qed

lemma find_newline_ok:
  assumes "s < length bytes" and "last bytes = CHR 0x0A"
  shows "\<exists>e. find_newline (drop s bytes) s = Inr e \<and> s < e \<and> e \<le> length bytes \<and> bytes ! (e - 1) = CHR 0x0A"
  using assms
proof (induction "length bytes - s" arbitrary: s)
  case (Suc n)
  have d: "drop s bytes = bytes ! s # drop (Suc s) bytes" using Suc.prems(1) by (simp add: Cons_nth_drop_Suc)
  show ?case
  proof (cases "bytes ! s = CHR 0x0A")
    case True
    then show ?thesis using d Suc.prems(1) by (intro exI [of _ "s + 1"]) simp
  next
    case False
    have "Suc s < length bytes"
    proof (rule ccontr)
      assume "\<not> Suc s < length bytes"
      then have "s = length bytes - 1" using Suc.prems(1) by simp
      then have "bytes ! s = last bytes" using Suc.prems(1) by (metis last_conv_nth list.size(3) not_less_zero)
      then show False using False Suc.prems(2) by simp
    qed
    moreover have "n = length bytes - Suc s" using Suc.hyps(2) by simp
    ultimately obtain e where "find_newline (drop (Suc s) bytes) (Suc s) = Inr e" "Suc s < e" "e \<le> length bytes" "bytes ! (e - 1) = CHR 0x0A"
      using Suc.hyps(1) [of "Suc s"] Suc.prems(2) by blast
    then show ?thesis using d False by (intro exI [of _ e]) simp
  qed
qed simp

lemma char_of_48: "char_of (48 :: nat) = CHR ''0''"
  by code_simp

text \<open>The names of the first files fit where they are put if the path is short enough.\<close>

lemma construct_filename_first:
  "construct_filename n job 0 =
    (if length (js_path job) + 11 < n then Inr (js_path job @ ''/part-00000'') else Inl Out_of_bounds)"
  by (simp add: construct_filename_def sprintf_d_def Let_def char_of_48)

definition holds_segment :: "char list \<Rightarrow> nat \<Rightarrow> chunk_t \<Rightarrow> char list \<Rightarrow> bool" where
  "holds_segment bytes start chunk seg \<longleftrightarrow>
     seg = take (length seg) (drop start bytes) \<and> start + length seg \<le> length bytes \<and>
     ck_size chunk = length seg \<and> ck_data chunk = map Some seg @ [None] \<and> ck_nread chunk = start + length seg"

lemma replicate_tail: "drop m (x # replicate m x) = [x]"
  by (metis drop_replicate diff_add_inverse2 plus_1_eq_Suc replicate_Suc replicate_0 One_nat_def)

lemma read_chunk_bytes_ok:
  assumes fl: "full_reads (job_files local job) (js_path job @ ''/part-00000'') bytes"
    and path: "length (js_path job) \<le> 20" and len: "length bytes < 2 ^ 62"
    and tot: "js_total_size job = length bytes" and ing: "0 < js_ingest_bytes job"
    and nl: "last bytes = CHR 0x0A" and rounds: "2 \<le> rounds"
    and c: "ck_fileid chunk = 0" "ck_nread chunk < length bytes"
  shows "\<exists>chunk' seg. read_chunk_bytes rounds local job chunk = Inr chunk' \<and> holds_segment bytes (ck_nread chunk) chunk' seg \<and>
    seg \<noteq> [] \<and> last seg = CHR 0x0A \<and> (ck_nread chunk' < length bytes \<longrightarrow> ck_fileid chunk' = 0)"
proof -
  let ?s = "js_ingest_bytes job + ck_nread chunk" and ?n = "ck_nread chunk"
  have name: "construct_filename LINE_MAX job (ck_fileid chunk) = Inr (js_path job @ ''/part-00000'')"
    using path c(1) by (simp add: construct_filename_first LINE_MAX_def)
  have op: "open_file (job_files local job) (js_path job @ ''/part-00000'') = Inr bytes" using fl by (simp add: full_reads_def open_file_def)
  have "\<exists>e f. (if ?s \<ge> js_total_size job then Inr (js_total_size job + 1, ck_fileid chunk + 1)
      else bindE (find_newline (drop ?s bytes) ?s) (\<lambda>split. Inr (split + 1, ck_fileid chunk))) = Inr (e + 1, f) \<and>
    ?n < e \<and> e \<le> length bytes \<and> bytes ! (e - 1) = CHR 0x0A \<and> (e < length bytes \<longrightarrow> f = 0)"
  proof (cases "?s \<ge> js_total_size job")
    case True
    have "bytes ! (length bytes - 1) = CHR 0x0A" using nl c(2) by (metis last_conv_nth list.size(3) not_less_zero)
    then show ?thesis using True tot c(2) by simp
  next
    case False
    then obtain e where "find_newline (drop ?s bytes) ?s = Inr e" "?s < e" "e \<le> length bytes" "bytes ! (e - 1) = CHR 0x0A"
      using find_newline_ok [of ?s bytes] tot nl by auto
    then show ?thesis using False c(1) by simp
  qed
  then obtain e f where e: "(if ?s \<ge> js_total_size job then Inr (js_total_size job + 1, ck_fileid chunk + 1)
      else bindE (find_newline (drop ?s bytes) ?s) (\<lambda>split. Inr (split + 1, ck_fileid chunk))) = Inr (e + 1, f)"
    "?n < e" "e \<le> length bytes" "bytes ! (e - 1) = CHR 0x0A" "e < length bytes \<longrightarrow> f = 0" by blast
  define m where "m = e - ?n"
  have m: "0 < m" "?n + m = e" using e(2) by (simp_all add: m_def)
  have size: "nat ((int (e + 1) - int ?n - 1) mod 2 ^ 64) = m"
  proof -
    have "int (e + 1) - int ?n - 1 = int m" using m by linarith
    moreover have "int m < 2 ^ 64" using m(2) e(3) len by simp
    ultimately show ?thesis by simp
  qed
  have "m < 2 ^ 63" "?n + m \<le> length bytes" using m(2) e(3) len by simp_all
  then have loop: "pread_loop rounds (job_files local job) (js_path job @ ''/part-00000'') bytes 0 m ?n (0, replicate (m + 1) None) =
    Inr (m, map Some (take m (drop ?n bytes)) @ [None])"
    using pread_loop_full [OF fl, of ?n m 0 "replicate (m + 1) None" rounds] rounds replicate_tail by simp
  let ?seg = "take m (drop ?n bytes)"
  let ?c = "chunk\<lparr>ck_fileid := f, ck_size := m, ck_data := map Some ?seg @ [None], ck_nread := ?n + m\<rparr>"
  have len_seg: "length ?seg = m" using m(2) e(3) by simp
  have run: "read_chunk_bytes rounds local job chunk = Inr ?c"
    unfolding read_chunk_bytes_def Let_def name op bindE_simps e(1) prod.case size loop by simp
  have "?seg ! (m - 1) = bytes ! (e - 1)" using m e(3) by simp
  moreover have "?seg \<noteq> []" using len_seg m(1) by force
  ultimately have "last ?seg = CHR 0x0A" using e(4) len_seg by (simp add: last_conv_nth)
  then show ?thesis using run \<open>?seg \<noteq> []\<close> len_seg m(2) e(3,5)
    by (intro exI [of _ ?c] exI [of _ ?seg]) (simp add: holds_segment_def)
qed

text \<open>
  A request is not made smaller by what has been read already. When a first request is answered in
  part, the second one may bring more than the buffer has room for.
\<close>

lemma pread_loop_overruns:
  assumes "fl_pread fl name offset n = int k" and "0 < k" and "k < n" and "k \<le> length data"
    and "fl_pread fl name (offset + k) n = int k'" and "length data < k + k'" and "k < 2 ^ 63" and "offset + n \<le> length bytes"
  shows "pread_loop (Suc (Suc fuel)) fl name bytes 0 n offset (0, data) = Inl Out_of_bounds"
proof -
  have "pread_step fl name bytes 0 n offset (0, data) = Inr (k, map Some (take k (drop offset bytes)) @ drop k data)"
    using assms(1,4,7) by (simp add: pread_step_def Let_def)
  moreover have "length (map Some (take k (drop offset bytes)) @ drop k data) = length data"
    using assms(3,4,8) by simp
  ultimately show ?thesis using assms(2,3,5,6) by (simp add: pread_step_def [where s = "(k, _)"] Let_def)
qed

lemma read_chunk_bytes_overruns:
  assumes name: "construct_filename LINE_MAX job (ck_fileid chunk) = Inr name" and op: "open_file (job_files local job) name = Inr bytes"
    and s: "s = js_ingest_bytes job + ck_nread chunk" "s < js_total_size job" "find_newline (drop s bytes) s = Inr (ck_nread chunk + n)"
    and e: "ck_nread chunk + n \<le> length bytes" "length bytes < 2 ^ 62"
    and p: "fl_pread (job_files local job) name (ck_nread chunk) n = int k" "0 < k" "k < n"
      "fl_pread (job_files local job) name (ck_nread chunk + k) n = int k'" "n + 1 < k + k'"
  shows "read_chunk_bytes (Suc (Suc fuel)) local job chunk = Inl Out_of_bounds"
proof -
  have "int (ck_nread chunk + n + 1) - int (ck_nread chunk) - 1 = int n" by simp
  moreover have "int n < 2 ^ 64" using e by simp
  ultimately have size: "nat ((int (ck_nread chunk + n + 1) - int (ck_nread chunk) - 1) mod 2 ^ 64) = n" by simp
  have "pread_loop (Suc (Suc fuel)) (job_files local job) name bytes 0 n (ck_nread chunk) (0, replicate (n + 1) None) = Inl Out_of_bounds"
    by (rule pread_loop_overruns [OF p(1-3) _ p(4)]) (use p(3,5) e in simp_all)
  then show ?thesis using s unfolding read_chunk_bytes_def Let_def name op bindE_simps
    by (simp only: bindE_simps prod.case size not_less [symmetric] simp_thms if_False s(1) [symmetric])
qed

section \<open>The loop\<close>

text \<open>
  What an application must do for its data to be cut at newlines: \<open>pieces\<close> is what \<open>split\<close> makes of
  the bytes of a chunk.
\<close>

definition splits :: "('x, 'u) ingest_app \<Rightarrow> (char list \<Rightarrow> 'x list) \<Rightarrow> nat \<Rightarrow> bool" where
  "splits app pieces n \<longleftrightarrow> (\<forall>seg. seg \<noteq> [] \<and> last seg = CHR 0x0A \<and> length seg \<le> n \<longrightarrow>
     (\<exists>u. split_all (ia_rounds app) (ia_split app) (ia_set_data app (map Some seg @ [None]) (length seg)) = Inr (pieces seg, u)))"

lemma map_chunk_pieces:
  assumes "splits app pieces (length bytes)" and "holds_segment bytes start chunk seg" and "seg \<noteq> []" and "last seg = CHR 0x0A"
  shows "map_chunk app cl rnd sched chunk st = run_mappers cl rnd sched (pieces seg) st"
proof -
  have "length seg \<le> length bytes" using assms(2) by (simp add: holds_segment_def)
  then obtain u where "split_all (ia_rounds app) (ia_split app) (ia_set_data app (map Some seg @ [None]) (length seg)) = Inr (pieces seg, u)"
    using assms(1,3,4) unfolding splits_def by blast
  then show ?thesis using assms(2) by (simp add: map_chunk_def holds_segment_def)
qed

text \<open>What is mapped in turn, from chunk number \<open>n\<close> on.\<close>

primrec chunk_runs :: "(nat \<Rightarrow> nat list) \<Rightarrow> (char list \<Rightarrow> 'x list) \<Rightarrow> nat \<Rightarrow> char list list \<Rightarrow> (nat list \<times> 'x list) list" where
  "chunk_runs sched pieces n [] = []"
| "chunk_runs sched pieces n (seg # segs) = (sched n, pieces seg) # chunk_runs sched pieces (Suc n) segs"

lemma snd_chunk_runs: "map snd (chunk_runs sched pieces n segs) = map pieces segs"
  by (induction segs arbitrary: n) simp_all

lemma set_chunk_runs: "c \<in> set (chunk_runs sched pieces n segs) \<Longrightarrow> \<exists>i. fst c = sched i \<and> snd c \<in> pieces ` set segs"
  by (induction segs arbitrary: n) auto

definition at_newlines :: "char list list \<Rightarrow> bool" where
  "at_newlines segs \<longleftrightarrow> (\<forall>seg \<in> set segs. seg \<noteq> [] \<and> last seg = CHR 0x0A)"

text \<open>The loop and the last chunk are a run of the mappers over pieces that join to the rest of the file.\<close>

lemma ingest_loop_ok:
  assumes fl: "full_reads (job_files local job) (js_path job @ ''/part-00000'') bytes"
    and path: "length (js_path job) \<le> 20" and len: "length bytes < 2 ^ 62"
    and tot: "js_total_size job = length bytes" and ing: "0 < js_ingest_bytes job"
    and nl: "last bytes = CHR 0x0A" and rounds: "2 \<le> ia_rounds app" and app: "splits app pieces (length bytes)"
    and "holds_segment bytes start chunk seg" and "at_newlines [seg]"
    and "ck_nread chunk < length bytes \<Longrightarrow> ck_fileid chunk = 0" and "length bytes - ck_nread chunk < fuel"
  shows "\<exists>segs. concat (seg # segs) = drop start bytes \<and> at_newlines (seg # segs) \<and>
    (\<forall>st. bindE (ingest_loop fuel local job app cl rnd sched (ck_nread chunk) chunk n st)
        (\<lambda>(k, c, st). bindE (map_chunk app cl rnd (sched k) c st) (\<lambda>st. Inr (k, st))) =
      bindE (foldE (\<lambda>st c. run_mappers cl rnd (fst c) (snd c) st) st (chunk_runs sched pieces n (seg # segs)))
        (\<lambda>st. Inr (n + length segs, st)))"
  using assms(9-12)
proof (induction fuel arbitrary: start chunk seg n)
  case (Suc fuel)
  note h = Suc.prems(1)
  have seg: "seg \<noteq> []" "last seg = CHR 0x0A" using Suc.prems(2) by (simp_all add: at_newlines_def)
  have nread: "ck_nread chunk = start + length seg" "start + length seg \<le> length bytes" using h by (simp_all add: holds_segment_def)
  have seg_eq: "seg = take (length seg) (drop start bytes)" using h by (simp add: holds_segment_def)
  note m = map_chunk_pieces [OF app h seg]
  show ?case
  proof (cases "ck_nread chunk < length bytes")
    case False
    then have "drop start bytes = seg" using nread seg_eq by simp
    then show ?thesis using False tot Suc.prems(2) by (intro exI [of _ "[]"]) (simp add: m bindE_assoc)
  next
    case True
    let ?next = "initialize_chunk (int n) (ck_fileid chunk) (ck_nread chunk)"
    have i: "ck_fileid ?next = 0" "ck_nread ?next < length bytes" "ck_nread ?next = ck_nread chunk"
      using True Suc.prems(3) by (simp_all add: initialize_chunk_def)
    obtain chunk' seg' where r: "read_chunk_bytes (ia_rounds app) local job ?next = Inr chunk'"
      "holds_segment bytes (ck_nread chunk) chunk' seg'" "seg' \<noteq> []" "last seg' = CHR 0x0A" "ck_nread chunk' < length bytes \<longrightarrow> ck_fileid chunk' = 0"
      using read_chunk_bytes_ok [OF fl path len tot ing nl rounds i(1,2)] unfolding i(3) by blast
    have nread': "ck_nread chunk' = ck_nread chunk + ck_size chunk'" "0 < ck_size chunk'" using r(2,3) by (simp_all add: holds_segment_def)
    have at': "at_newlines [seg']" using r(3,4) by (simp add: at_newlines_def)
    have "length bytes - ck_nread chunk' < fuel" using nread' Suc.prems(4) True by linarith
    then obtain segs where segs: "concat (seg' # segs) = drop (ck_nread chunk) bytes" "at_newlines (seg' # segs)"
      "\<And>st. bindE (ingest_loop fuel local job app cl rnd sched (ck_nread chunk') chunk' (Suc n) st)
          (\<lambda>(k, c, st). bindE (map_chunk app cl rnd (sched k) c st) (\<lambda>st. Inr (k, st))) =
        bindE (foldE (\<lambda>st c. run_mappers cl rnd (fst c) (snd c) st) st (chunk_runs sched pieces (Suc n) (seg' # segs)))
          (\<lambda>st. Inr (Suc n + length segs, st))"
      using Suc.IH [OF r(2) at', of "Suc n"] r(5) by blast
    have "drop start bytes = seg @ drop (ck_nread chunk) bytes"
      by (metis append_take_drop_id seg_eq drop_drop nread(1) add.commute)
    moreover have "bindE (ingest_loop (Suc fuel) local job app cl rnd sched (ck_nread chunk) chunk n st)
          (\<lambda>(k, c, st). bindE (map_chunk app cl rnd (sched k) c st) (\<lambda>st. Inr (k, st))) =
        bindE (run_mappers cl rnd (sched n) (pieces seg) st) (\<lambda>st.
          bindE (foldE (\<lambda>st c. run_mappers cl rnd (fst c) (snd c) st) st (chunk_runs sched pieces (Suc n) (seg' # segs)))
            (\<lambda>st. Inr (Suc n + length segs, st)))" for st
      using True tot ing r(1) nread'(1) segs(3)
      by (simp add: m pthread_read_def bindE_assoc del: chunk_runs.simps)
    ultimately show ?thesis using segs(1,2) seg
      by (intro exI [of _ "seg' # segs"]) (simp add: at_newlines_def bindE_assoc)
  qed
qed simp


section \<open>The whole run\<close>

lemma get_fsize_one:
  assumes "full_reads (job_files local job) (js_path job @ ''/part-00000'') bytes" and "length (js_path job) \<le> 20" and "js_total_nfiles job = 1"
  shows "get_fsize local job = Inr (length bytes)"
  using assms by (simp add: get_fsize_def construct_filename_first full_reads_def open_file_def)

text \<open>Cutting at newlines does not change what is emitted.\<close>

definition cuts :: "('x \<Rightarrow> 'e list) \<Rightarrow> (char list \<Rightarrow> 'x list) \<Rightarrow> bool" where
  "cuts mp pieces \<longleftrightarrow> (\<forall>a b. a \<noteq> [] \<and> last a = CHR 0x0A \<longrightarrow>
     pieces a \<noteq> [] \<and> length (pieces a) \<le> length a \<and>
     concat (map mp (pieces (a @ b))) = concat (map mp (pieces a)) @ concat (map mp (pieces b)))"

lemma cuts_concat:
  assumes "cuts mp pieces" and "at_newlines (seg # segs)"
  shows "concat (map mp (pieces (concat (seg # segs)))) = concat (map mp (concat (map pieces (seg # segs))))"
  using assms(2)
proof (induction segs arbitrary: seg)
  case Nil
  then show ?case by simp
next
  case (Cons seg' segs)
  have "at_newlines (seg' # segs)" "seg \<noteq> []" "last seg = CHR 0x0A" using Cons.prems by (simp_all add: at_newlines_def)
  then show ?case using Cons.IH [of seg'] assms(1) by (simp add: cuts_def)
qed

context pp_job
begin

theorem run_ingest_chunks_ok:
  assumes ok: "mr_ok N st" and multi: "\<not> once"
    and fl: "full_reads (job_files local job) (js_path job @ ''/part-00000'') bytes"
    and path: "length (js_path job) \<le> 20" and files: "js_total_nfiles job = 1" and ing: "0 < js_ingest_bytes job"
    and bytes: "bytes \<noteq> []" "last bytes = CHR 0x0A" "length bytes < 2 ^ 31"
    and rounds: "2 \<le> ia_rounds app" and app: "splits app pieces (length bytes)" and cut: "cuts (cl_map cl) pieces"
    and keys: "\<forall>e \<in> set (emits (pieces bytes)). key_ok (fst e)" and size: "length (emits (pieces bytes)) \<le> 2 ^ 28"
    and sched: "\<And>n. turns (sched n) N (N * 16)" and reduce: "turns reduce_sched N N" and merge: "merges N merge P"
    and fuel: "length bytes \<le> fuel"
  shows "\<exists>nchunks result. run_ingest_chunks merge fuel local job app cl rnd sched reduce_sched st = Inr (nchunks, result) \<and>
    mset result = results (emits (pieces bytes)) \<and> P result"
proof -
  let ?job = "job\<lparr>js_total_size := length bytes\<rparr>" and ?st = "st\<lparr>mr_first := True\<rparr>"
  have fl': "full_reads (job_files local ?job) (js_path ?job @ ''/part-00000'') bytes" using fl by (simp add: job_files_def)
  have j: "length (js_path ?job) \<le> 20" "length bytes < 2 ^ 62" "js_total_size ?job = length bytes" "0 < js_ingest_bytes ?job"
    using path bytes(3) ing by simp_all
  have i: "ck_fileid (initialize_chunk 0 0 0) = 0" "ck_nread (initialize_chunk 0 0 0) < length bytes" "ck_nread (initialize_chunk 0 0 0) = 0"
    using bytes(1) by (simp_all add: initialize_chunk_def)
  obtain chunk seg where r: "read_chunk_bytes (ia_rounds app) local ?job (initialize_chunk 0 0 0) = Inr chunk" "holds_segment bytes 0 chunk seg"
    "seg \<noteq> []" "last seg = CHR 0x0A" "ck_nread chunk < length bytes \<longrightarrow> ck_fileid chunk = 0"
    using read_chunk_bytes_ok [OF fl' j bytes(2) rounds i(1,2)] unfolding i(3) by blast
  have chunk: "at_newlines [seg]" "ck_size chunk = ck_nread chunk" "length bytes - ck_nread chunk < fuel"
    using r(2-4) fuel bytes(1) by (simp_all add: at_newlines_def holds_segment_def order_less_le_trans [OF diff_less])
  obtain segs where s: "concat (seg # segs) = bytes" "at_newlines (seg # segs)"
    "\<And>st. bindE (ingest_loop fuel local ?job app cl rnd sched (ck_nread chunk) chunk 1 st)
        (\<lambda>(k, c, st). bindE (map_chunk app cl rnd (sched k) c st) (\<lambda>st. Inr (k, st))) =
      bindE (foldE (\<lambda>st c. run_mappers cl rnd (fst c) (snd c) st) st (chunk_runs sched pieces 1 (seg # segs)))
        (\<lambda>st. Inr (1 + length segs, st))"
    using ingest_loop_ok [OF fl' j bytes(2) rounds app r(2) chunk(1) _ chunk(3), of cl rnd sched 1] r(5) by auto
  let ?data = "pieces seg @ concat (map snd (chunk_runs sched pieces 2 segs))"
  have data: "emits ?data = emits (pieces bytes)"
    using cuts_concat [OF cut s(2)] s(1) by (simp add: emits_def snd_chunk_runs)
  have short: "length (pieces x) < 2 ^ 31" if "x \<in> set (seg # segs)" for x
  proof -
    have "length x \<le> length bytes" using length_in_concat [OF that, of "\<lambda>y. y"] unfolding s(1) [symmetric] by simp
    moreover have "length (pieces x) \<le> length x" using that s(2) cut unfolding cuts_def at_newlines_def by blast
    ultimately show ?thesis using bytes(3) by simp
  qed
  have chunks: "\<forall>c \<in> set ((sched 1, pieces seg) # chunk_runs sched pieces 2 segs). length (snd c) < 2 ^ 31 \<and> turns (fst c) N (N * 16)"
  proof
    fix c assume "c \<in> set ((sched 1, pieces seg) # chunk_runs sched pieces 2 segs)"
    then have "c \<in> set (chunk_runs sched pieces 1 (seg # segs))" by (simp add: numeral_2_eq_2)
    then obtain i x where "fst c = sched i" "snd c = pieces x" "x \<in> set (seg # segs)" by (metis set_chunk_runs imageE)
    then show "length (snd c) < 2 ^ 31 \<and> turns (fst c) N (N * 16)" using short sched by simp
  qed
  have "pieces seg \<noteq> []" using cut r(3,4) by (simp add: cuts_def)
  then obtain result st' where run: "bindE (foldE (\<lambda>st c. run_mappers cl rnd (fst c) (snd c) st) ?st ((sched 1, pieces seg) # chunk_runs sched pieces 2 segs))
      (run_reducers merge cl rnd reduce_sched) = Inr (result, st')" "mset result = results (emits (pieces bytes))" "P result"
    using run_ingest_ok [OF _ multi _ _ chunks refl _ _ reduce merge, of ?st rnd] ok keys size unfolding data by (auto simp: mr_ok_def)
  have "run_ingest_chunks merge fuel local job app cl rnd sched reduce_sched st =
    bindE (bindE (ingest_loop fuel local ?job app cl rnd sched (ck_nread chunk) chunk 1 ?st)
        (\<lambda>(k, c, st). bindE (map_chunk app cl rnd (sched k) c st) (\<lambda>st. Inr (k, st))))
      (\<lambda>(k, st). bindE (run_reducers merge cl rnd reduce_sched st) (\<lambda>(result, st). Inr (int k, result)))"
    using get_fsize_one [OF fl path files] r(1) chunk(2) ing
    by (simp add: run_ingest_chunks_def pthread_read_def bindE_assoc split_def)
  also have "\<dots> = Inr (int (1 + length segs), result)"
    unfolding s(3) bindE_assoc using run(1) by (auto simp: bindE_assoc bindE_Inr_conv numeral_2_eq_2)
  finally show ?thesis using run(2,3) by blast
qed

end

end
