(* ===== verification/PPJobs.thy ===== *)
theory PPJobs
  imports PPSort_Correct PPIngest_Correct
begin

text \<open>
  Jobs as an application puts them together: the container and combiner of its template arguments
  with the default \<open>reduce\<close>. Creating the threads, and the contract of the run for such jobs.
\<close>

section \<open>Creating the threads\<close>

lemma pool_locs_ok:
  assumes "0 < pol_num_cpus policy" and "0 \<le> pol_offset policy"
  shows "\<exists>locs. pool_locs policy (int N) lgrp = Inr locs \<and> length locs = N \<and> list_all (\<lambda>loc. 0 \<le> loc_index loc) locs"
proof -
  let ?cpu = "\<lambda>i. (int i + pol_offset policy) mod pol_num_cpus policy"
  have "pp_thr_to_cpu policy (int i) = Inr (?cpu i)" for i
    using assms by (simp add: pp_thr_to_cpu_def c_rem_pos split: pp_policy_class.split)
  then have "pool_locs policy (int N) lgrp = Inr (map (\<lambda>i. \<lparr>tl_thread = int i, tl_cpu = ?cpu i, tl_lgrp = lgrp i, tl_seed = word_of_nat i\<rparr>) [0..<N])"
    unfolding pool_locs_def by (simp add: mapE_Inr [where g = "\<lambda>i. \<lparr>tl_thread = int i, tl_cpu = ?cpu i, tl_lgrp = lgrp i, tl_seed = word_of_nat i\<rparr>"])
  then show ?thesis using assms(1) by (simp add: list_all_length loc_index_def)
qed

theorem set_threads_ok:
  assumes "0 < pol_num_cpus policy" and "0 \<le> pol_offset policy" and N: "0 < N" "N < 2 ^ 26"
  shows "\<exists>st'. set_threads policy lgrp (int N) st = Inr st' \<and> mr_ok N st'"
proof -
  obtain locs where "pool_locs policy (int N) lgrp = Inr locs" "length locs = N" "list_all (\<lambda>loc. 0 \<le> loc_index loc) locs"
    using pool_locs_ok [OF assms(1,2)] by blast
  moreover have "0 < int N" "int N < 2 ^ 31" using N by simp_all
  then obtain q where "pq_new (int N) (int N) = Inr q" "pq_ok q" "pq_tasks q = []" using pq_new_ok by blast
  ultimately show ?thesis using N by (simp add: set_threads_def mr_ok_def)
qed

corollary mr_new_ok:
  assumes "0 < pp_num_cpus os" and "pp_num_cpus os < 2 ^ 26" and "env < 2 ^ 26"
  shows "\<exists>st'. mr_new os lgrp env st = Inr st' \<and> mr_ok (nat (if env > 0 then env else pp_num_cpus os)) st'"
proof -
  let ?n = "if env > 0 then env else pp_num_cpus os"
  have n: "0 < ?n" "?n < 2 ^ 26" using assms by simp_all
  then have "int (nat ?n) = ?n" "0 < nat ?n" "nat ?n < 2 ^ 26" by (simp_all only: nat_less_iff zero_less_nat_eq nat_0_le order_less_imp_le) simp
  then show ?thesis using set_threads_ok [of "pp_policy_new os Strand_fill 0" "nat ?n" lgrp st] assms(1)
    unfolding mr_new_def by (simp only: pp_policy_new_def pp_policy.select_convs order_refl simp_thms)
qed

context pp_combiner
begin

lemma default_reduce_ok:
  assumes "collects d vss" and "vss_ok vss" and "vss \<noteq> []" and "length (concat vss) \<le> 2 ^ 28"
    and out: "\<And>vs. vs \<noteq> [] \<Longrightarrow> mset (out vs) = Rout (mset vs)"
  shows "\<exists>new. default_reduce (2 ^ 28 + 2) cb key d acc = Inr (acc @ new) \<and> mset new = image_mset (Pair key) (Rout (mset (concat vss)))"
proof -
  have "concat vss \<noteq> []" using assms(2,3) by (cases vss) (auto simp: vss_ok_def)
  moreover have "cd_values (2 ^ 28 + 2) cb d [] = Inr (out (concat vss))"
    using collects_values [OF assms(1-3), of "2 ^ 28 + 2" "[]"] assms(4) by simp
  ultimately show ?thesis
    using out [of "concat vss"] unfolding default_reduce_def
    by (intro exI [of _ "map (Pair key) (out (concat vss))"]) simp
qed

end

section \<open>Hash containers\<close>

text \<open>\<open>lgrp i\<close> is the locality of the memory of piece \<open>i\<close>, an \<open>int\<close>.\<close>

definition hash_class ::
  "('k \<Rightarrow> 64 word) \<Rightarrow> ('v, 'c, 'd) combiner \<Rightarrow> ('k list \<Rightarrow> nat) \<Rightarrow> ('x \<Rightarrow> ('k \<times> 'v) list) \<Rightarrow> (nat \<Rightarrow> int) \<Rightarrow> _" where
  "hash_class kh cb pick mapf lgrp =
     \<lparr>cl_container = hash_container kh cb pick, cl_combiner = cb, cl_map = mapf, cl_reduce = default_reduce (2 ^ 28 + 2) cb,
      cl_lgrp = (\<lambda>i. to_int32 (lgrp i)), cl_rounds = 2 ^ 28 + 1\<rparr>"

lemma to_int32_less: "to_int32 i < 2147483648"
  using signed_take_bit_int_less_exp [of 31 i] by (simp add: to_int32_def)

locale hash_default_job = hash_job cb holds collects out kh pick
  for cb :: "('v, 'c, 'd) combiner" and holds :: "'c \<Rightarrow> 'v list \<Rightarrow> bool" and collects :: "'d \<Rightarrow> 'v list list \<Rightarrow> bool"
    and out :: "'v list \<Rightarrow> 'v list" and kh :: "'k \<Rightarrow> 64 word" and pick :: "'k list \<Rightarrow> nat" +
  fixes mapf :: "'x \<Rightarrow> ('k \<times> 'v) list" and lgrp :: "nat \<Rightarrow> int" and Rout :: "'v multiset \<Rightarrow> 'v multiset"
  assumes out_values: "vs \<noteq> [] \<Longrightarrow> mset (out vs) = Rout (mset vs)"

sublocale hash_default_job \<subseteq> job: pp_job "hash_container kh cb pick" collects "hc_table kh holds" "hc_holder kh holds"
  "\<lambda>n key. unat (kh key) mod n" "\<lambda>_. True" False 0 "hash_class kh cb pick mapf lgrp" "\<lambda>key M. image_mset (Pair key) (Rout M)"
proof (unfold_locales, goal_cases)
  case (3 d vss key acc)
  then show ?case using default_reduce_ok [OF 3 out_values] by (simp add: hash_class_def)
qed (simp_all add: hash_class_def to_int32_less collects_size)

interpretation hash_sum_job: hash_default_job "sum_combiner junk" "ac_holds sum_F (sum_Init junk)" "am_collects sum_F (range sum_Init)"
  "\<lambda>vs. [sum_list vs]" kh pick mapf lgrp "\<lambda>M. {#sum_mset M#}"
  for junk :: "'v :: comm_monoid_add" and kh :: "'k \<Rightarrow> 64 word" and pick and mapf :: "'x \<Rightarrow> ('k \<times> 'v) list" and lgrp
  by (rule hash_default_job.intro, rule hash_sum.hash_job_axioms) (simp add: hash_default_job_axioms_def sum_mset_sum_list)

interpretation hash_buffer_job: hash_default_job buffer_combiner "(=)" bc_collects "\<lambda>vs. vs" kh pick mapf lgrp "\<lambda>M. M"
  for kh :: "'k \<Rightarrow> 64 word" and pick and mapf :: "'x \<Rightarrow> ('k \<times> 'v) list" and lgrp
  by (rule hash_default_job.intro, rule hash_buffer.hash_job_axioms) (simp add: hash_default_job_axioms_def)

section \<open>Array containers\<close>

definition array_class ::
  "nat \<Rightarrow> ('v, 'c, 'd) combiner \<Rightarrow> ('x \<Rightarrow> (int \<times> 'v) list) \<Rightarrow> (nat \<Rightarrow> int) \<Rightarrow> _" where
  "array_class n cb mapf lgrp =
     \<lparr>cl_container = array_container n cb, cl_combiner = cb, cl_map = mapf, cl_reduce = default_reduce (2 ^ 28 + 2) cb,
      cl_lgrp = (\<lambda>i. to_int32 (lgrp i)), cl_rounds = n + 2 ^ 28 + 1\<rparr>"

locale array_default_job = array_job cb holds collects out N
  for cb :: "('v, 'c, 'd) combiner" and holds :: "'c \<Rightarrow> 'v list \<Rightarrow> bool" and collects :: "'d \<Rightarrow> 'v list list \<Rightarrow> bool"
    and out :: "'v list \<Rightarrow> 'v list" and N :: nat +
  fixes mapf :: "'x \<Rightarrow> (int \<times> 'v) list" and lgrp :: "nat \<Rightarrow> int" and Rout :: "'v multiset \<Rightarrow> 'v multiset"
  assumes out_values: "vs \<noteq> [] \<Longrightarrow> mset (out vs) = Rout (mset vs)"

sublocale array_default_job \<subseteq> job: pp_job "array_container N cb" collects "ar_table N holds" "ar_holder N holds"
  "\<lambda>n key. nat key mod n" "\<lambda>key. 0 \<le> key \<and> key < int N" True N "array_class N cb mapf lgrp" "\<lambda>key M. image_mset (Pair key) (Rout M)"
proof (unfold_locales, goal_cases)
  case (3 d vss key acc)
  then show ?case using default_reduce_ok [OF 3 out_values] by (simp add: array_class_def)
qed (simp_all add: array_class_def to_int32_less collects_size)

interpretation array_sum_job: array_default_job "sum_combiner junk" "ac_holds sum_F (sum_Init junk)" "am_collects sum_F (range sum_Init)"
  "\<lambda>vs. [sum_list vs]" N mapf lgrp "\<lambda>M. {#sum_mset M#}"
  for junk :: "'v :: comm_monoid_add" and N and mapf :: "'x \<Rightarrow> (int \<times> 'v) list" and lgrp
  by (rule array_default_job.intro, rule array_sum.array_job_axioms) (simp add: array_default_job_axioms_def sum_mset_sum_list)

section \<open>Sums per key\<close>

text \<open>The result as a map, and all of it.\<close>

definition sums :: "('k \<times> 'v :: comm_monoid_add) list \<Rightarrow> ('k \<times> 'v) multiset" where
  "sums kvs = image_mset (\<lambda>key. (key, sum_list (sel key kvs))) (mset_set (fst ` set kvs))"

lemma sum_singletons: "finite A \<Longrightarrow> (\<Sum>a \<in> A. {#f a#}) = image_mset f (mset_set A)"
  by (induction A rule: finite_induct) simp_all

lemma sums_map:
  assumes "mset result = sums kvs"
  shows "distinct (map fst result)" and "map_of result key = (if key \<in> fst ` set kvs then Some (sum_list (sel key kvs)) else None)"
proof -
  obtain ks where ks: "set ks = fst ` set kvs" "distinct ks" using finite_distinct_list [of "fst ` set kvs"] by auto
  have "mset (map fst result) = image_mset fst (mset result)" by simp
  also have "\<dots> = mset_set (fst ` set kvs)" unfolding assms sums_def by (simp add: multiset.map_comp comp_def)
  also have "\<dots> = mset ks" using ks by (metis mset_set_set)
  finally show d: "distinct (map fst result)" using ks(2) by (metis mset_eq_imp_distinct_iff)
  have s: "set result = (\<lambda>key. (key, sum_list (sel key kvs))) ` fst ` set kvs"
    using arg_cong [OF assms, of set_mset] by (simp add: sums_def)
  show "map_of result key = (if key \<in> fst ` set kvs then Some (sum_list (sel key kvs)) else None)"
  proof (cases "key \<in> fst ` set kvs")
    case True
    then have "(key, sum_list (sel key kvs)) \<in> set result" using s by blast
    then show ?thesis using True d by simp
  next
    case False
    then have "key \<notin> fst ` set result" using s by force
    then show ?thesis using False by (simp add: map_of_eq_None_iff)
  qed
qed

lemma hash_sum_emits: "hash_sum_job.job.emits kh junk pick mapf lgrp xs = concat (map mapf xs)"
  unfolding hash_sum_job.job.emits_def by (simp add: hash_class_def)

lemma hash_sum_results: "hash_sum_job.job.results kvs = sums kvs"
  unfolding hash_sum_job.job.results_def sums_def by (simp add: sum_singletons sum_mset_sum_list)

text \<open>A run, and a run over ingest chunks, with a sum combiner.\<close>

corollary hash_sum_run_ok:
  assumes ok: "mr_ok N st" and xs: "xs \<noteq> []" "length xs < 2 ^ 31" and size: "length (concat (map mapf xs)) \<le> 2 ^ 28"
    and sched: "turns map_sched N (N * 16)" "turns reduce_sched N N" and merge: "merges N merge P"
  shows "\<exists>result st'. pp_run merge (hash_class kh (sum_combiner junk) pick mapf lgrp) rnd map_sched reduce_sched xs st = Inr (0, result, st') \<and>
    mset result = sums (concat (map mapf xs)) \<and> P result"
proof -
  let ?e = "hash_sum_job.job.emits kh junk pick mapf lgrp xs"
  have "\<forall>e \<in> set ?e. True" by simp
  moreover have "length ?e \<le> 2 ^ 28" unfolding hash_sum_emits by (rule size)
  ultimately show ?thesis
    using hash_sum_job.job.run_ok [OF ok xs _ _ sched merge, of kh junk pick mapf lgrp rnd] unfolding hash_sum_emits hash_sum_results by (simp only: simp_thms)
qed

corollary hash_sum_ingest_ok:
  assumes ok: "mr_ok N st"
    and fl: "full_reads (job_files local job) (js_path job @ ''/part-00000'') bytes"
    and path: "length (js_path job) \<le> 20" and files: "js_total_nfiles job = 1" and ing: "0 < js_ingest_bytes job"
    and bytes: "bytes \<noteq> []" "last bytes = CHR 0x0A" "length bytes < 2 ^ 31"
    and rounds: "2 \<le> ia_rounds app" and app: "splits app pieces (length bytes)" and cut: "cuts mapf pieces"
    and size: "length (concat (map mapf (pieces bytes))) \<le> 2 ^ 28"
    and sched: "\<And>n. turns (sched n) N (N * 16)" and reduce: "turns reduce_sched N N" and merge: "merges N merge P"
    and fuel: "length bytes \<le> fuel"
  shows "\<exists>nchunks result.
    run_ingest_chunks merge fuel local job app (hash_class kh (sum_combiner junk) pick mapf lgrp) rnd sched reduce_sched st = Inr (nchunks, result) \<and>
    mset result = sums (concat (map mapf (pieces bytes))) \<and> P result"
proof -
  let ?e = "hash_sum_job.job.emits kh junk pick mapf lgrp (pieces bytes)"
  have "cuts (cl_map (hash_class kh (sum_combiner junk) pick mapf lgrp)) pieces" using cut by (simp add: hash_class_def)
  moreover have "\<forall>e \<in> set ?e. True" by simp
  moreover have "length ?e \<le> 2 ^ 28" unfolding hash_sum_emits by (rule size)
  ultimately show ?thesis
    using hash_sum_job.job.run_ingest_chunks_ok [OF ok _ fl path files ing bytes rounds app _ _ _ sched reduce merge fuel, of kh junk pick mapf lgrp rnd]
    unfolding hash_sum_emits hash_sum_results by (simp only: simp_thms)
qed

end
