(* ===== verification/PPSamples.thy ===== *)
theory PPSamples
  imports PPJobs
begin

text \<open>Small concrete jobs at which the properties of Phoenix++ are instantiated.\<close>

section \<open>Threads and schedules\<close>

definition pp_sample_policy :: pp_policy where
  "pp_sample_policy = \<lparr>pol_class = Strand_fill, pol_num_cpus = 4, pol_num_chips_per_sys = 1, pol_offset = 0\<rparr>"

text \<open>The state before \<open>setThreads\<close>.\<close>

definition pp_sample_state :: "'p \<Rightarrow> ('k, 'v, 'p, 't) pp_state" where
  "pp_sample_state c = \<lparr>mr_num_threads = 0, mr_first = True, mr_locs = [],
     mr_queue = \<lparr>pq_num_queues = 0, pq_num_threads = 0, pq_queues = []\<rparr>, mr_container = c, mr_final_vals = [],
     mr_merge_vals = [], mr_num_map_tasks = 0, mr_num_reduce_tasks = 0, mr_inputs = []\<rparr>"

definition pp_sample_hash :: "('k, 'c) hash_container_t" where
  "pp_sample_hash = \<lparr>hc_vals = [], hc_in_size = 0, hc_out_size = 0\<rparr>"

lemma count_replicate: "count_list (replicate m x) x = m"
  by (induction m) simp_all

lemma turns_replicate: "tasks + 2 \<le> m \<Longrightarrow> turns (replicate m 0) (Suc 0) tasks"
  by (simp add: turns_def count_replicate)

definition int_hash :: "int \<Rightarrow> 64 word" where
  "int_hash k = word_of_int k"

text \<open>Two elements that each emit the pairs they are, ordered by key.\<close>

definition pair_data :: "(int \<times> int) list list" where
  "pair_data = [[(7, 2), (3, 1)], [(7, 5)]]"

definition by_key :: "int \<times> int \<Rightarrow> int \<times> int \<Rightarrow> bool" where
  "by_key x y \<longleftrightarrow> fst x < fst y"

lemma by_key_weak: "weak_order by_key"
  by (auto simp: weak_order_def by_key_def)

section \<open>A file that is counted letter by letter\<close>

definition letters_app :: "(char, char option list) ingest_app" where
  "letters_app = \<lparr>ia_set_data = (\<lambda>data n. take n data),
     ia_split = (\<lambda>u. case u of [] \<Rightarrow> Inr (None, []) | c # cs \<Rightarrow> (case c of None \<Rightarrow> Inl Undefined | Some c \<Rightarrow> Inr (Some c, cs))),
     ia_rounds = 10\<rparr>"

definition letter :: "char \<Rightarrow> (char \<times> int) list" where
  "letter c = (if c = CHR 0x0A then [] else [(c, 1)])"

lemma letters_split: "length seg < n \<Longrightarrow> split_all n (ia_split letters_app) (map Some seg) = Inr (seg, [])"
  by (induction seg arbitrary: n; case_tac n) (simp_all add: letters_app_def)

lemma letters_splits: "n < 10 \<Longrightarrow> splits letters_app (\<lambda>seg. seg) n"
  using letters_split [of _ 10] by (auto simp: splits_def letters_app_def)

lemma letters_cuts: "cuts letter (\<lambda>seg. seg)"
  by (simp add: cuts_def)

text \<open>One local file, and the job that reads it two bytes at a time.\<close>

definition letters_file :: "char list" where
  "letters_file = [CHR ''a'', CHR 0x0A, CHR ''b'', CHR 0x0A, CHR ''a'', CHR 0x0A]"

definition letters_files :: files where
  "letters_files = \<lparr>fl_data = (\<lambda>name. if name = ''d/part-00000'' then Some letters_file else None),
     fl_pread = (\<lambda>name off n. int (min n (length letters_file - off)))\<rparr>"

definition letters_job :: job_state where
  "letters_job = \<lparr>js_hdfs = None, js_path = ''d'', js_total_size = 0, js_total_nfiles = 1, js_ingest_files = 0, js_ingest_bytes = 2\<rparr>"

lemma letters_reads: "full_reads (job_files letters_files letters_job) (js_path letters_job @ ''/part-00000'') letters_file"
  by (simp add: full_reads_def job_files_def letters_job_def letters_files_def)

text \<open>The same file through a \<open>pread\<close> that answers the first request with two bytes.\<close>

definition short_files :: files where
  "short_files = letters_files\<lparr>fl_pread := (\<lambda>name off n. if off = 0 then 2 else int (min n (length letters_file - off)))\<rparr>"

end
