(* ===== verification/Spec2Isabelle.thy ===== *)
theory Spec2Isabelle
  imports Samples ThreadPool_Correct Mcs PPSamples
begin

text \<open>
  A verification development of Phoenix, the shared-memory MapReduce runtime of this repository. It
  models the runtime written in C under \<open>src/sop3_portability\<close> (\<open>P\<close> below) with its word count
  application, and Phoenix++, the C++ template library under \<open>src/sop1_parallelism/phoenix++\<close> (\<open>Q\<close>
  below), which does the same with containers and combiners chosen at compile time and which this
  repository extends by reading its input in chunks.

  \<^bold>\<open>The program.\<close> An application fills \<open>map_reduce_args_t\<close> with its callbacks (splitter, map,
  partition, combiner, reduce, key comparison) and calls \<open>map_reduce\<close>. It sets up an environment
  (\<open>env_init\<close>) and a task queue, runs three phases, and returns the output. \<^emph>\<open>Map\<close>: the splitter is
  called until the data is used up, every piece becomes a task, and workers take tasks and call
  the map function, which emits pairs into a table \<open>intermediate_vals[thread][reduce task]\<close> of sorted
  key arrays; a combiner may shrink the lists of values. \<^emph>\<open>Reduce\<close>: one task per column of the
  table; a worker merges the column's arrays and calls the reduce function once per key with an
  iterator over all its values; what it emits goes to sorted output arrays. \<^emph>\<open>Merge\<close>: rounds of
  k-way merges make one sorted array of them. The workers of a phase are threads of a pool; tasks
  are handed out by queues with work stealing, one per locality group, each behind a lock.

  \<^bold>\<open>Phoenix++.\<close> An application derives from \<open>MapReduce\<close> or \<open>MapReduceSort\<close> and names a container and a
  combiner. In the map phase every thread gets an input of the container (\<open>get\<close>), emits into it
  (\<open>i[k].add (v)\<close>), and hands it back (\<open>add\<close>); a reduce task iterates over the keys of its part of
  the container (\<open>begin\<close>, \<open>next\<close>) and reduces the combined values of each; the vectors of the threads
  are concatenated, or sorted and merged by two in rounds. \<open>run_ingest_chunks\<close> maps one chunk of the
  input files while a thread reads the next one, and reduces at the end.

  \<^bold>\<open>Theories and sources.\<close>
  \<^item> \<open>Prelude\<close>: faults, the result type \<open>res\<close> with \<open>bindE\<close>, loops over lists that may fault, C's
    division, remainder and conversion to \<open>int\<close>, array accesses.
  \<^item> \<open>DList\<close>, \<open>Queue\<close>: \<open>P/src/memory.c\<close>, \<open>list.h\<close>, \<open>queue.h\<close> over an explicit heap (blocks, live
    cells, links). \<open>dll h l xs\<close> says that the list at \<open>l\<close> is \<open>xs\<close>; the locale \<open>fifo\<close> is the contract
    of a queue, with its interpretation on these operations.
  \<^item> \<open>Locks\<close>: \<open>synch.h\<close>, \<open>synch.c\<close>, \<open>pt_mutex.c\<close>; the locale \<open>lock_contract\<close>. \<open>Mcs\<close>: \<open>mcs.c\<close> and the
    atomic operations of \<open>atomic.h\<close>, as steps of threads; the invariant is the queue behind the
    lock.
  \<^item> \<open>EntryQueues\<close>, \<open>TaskQ\<close>, \<open>TaskQ_Correct\<close>, \<open>TaskQ_Life\<close>: \<open>taskQ.c\<close>. Operations on the heap with its
    mutexes; what enqueue and dequeue do to the queues' contents; the whole life of a queue from
    \<open>tq_init\<close> to \<open>tq_finalize\<close> gives back all memory. \<open>TaskBench\<close> is the interface the phases use.
  \<^item> \<open>KeyVals\<close>, \<open>Iter\<close>: \<open>struct.h\<close>, \<open>iterator.c\<close> and the key/value arrays of \<open>map_reduce.c\<close>
    (\<open>insert_keyval_merged\<close>, \<open>insert_keyval\<close>); the invariant of a sorted array with chunked values, and
    its abstraction to a map from keys to bags of values.
  \<^item> \<open>ReduceTask\<close>, \<open>MergeTask\<close>, \<open>MergePhase\<close>: the bodies of a reduce task and of a merge, and the
    rounds of \<open>merge\<close>; both are compared with reference definitions (the values of a key in thread
    order, a stable sort of the concatenation).
  \<^item> \<open>Processor\<close>, \<open>Scheduler\<close>: \<open>processor.c\<close>, \<open>locality.c\<close>, \<open>scheduler.c\<close>; the operating system is a
    record of what its calls answer.
  \<^item> \<open>Env\<close>, \<open>MapTasks\<close>: \<open>map_reduce_args_t\<close>, \<open>mr_env_t\<close>, \<open>env_init\<close>, the default splitter and
    partition, \<open>gen_map_tasks\<close>, \<open>gen_reduce_tasks\<close>.
  \<^item> \<open>Workers\<close>, \<open>MapPhase\<close>, \<open>MapPhase_Correct\<close>, \<open>ReducePhase\<close>, \<open>ReducePhase_Correct\<close>: the workers of a
    phase under an arbitrary schedule. \<open>worker_phase\<close> is the contract of a phase: steps that keep an
    invariant indexed by the tasks left; its theorem is that every schedule with turns enough ends
    the phase with the invariant at zero. \<open>map_job\<close> collects what is asked of an application.
  \<^item> \<open>MapReduce\<close>: \<open>map_reduce\<close> as a whole.
  \<^item> \<open>ThreadPool\<close>, \<open>ThreadPool_Correct\<close>: \<open>tpool.c\<close>. Threads and caller are interleaved at every access
    to shared state (\<open>pool_step\<close>); the barrier, its termination, and two ways it fails.
  \<^item> \<open>WordCount\<close>, \<open>WordCountJob\<close>: \<open>P/tests/word_count/word_count.c\<close> and the proof that it keeps the
    contracts of \<open>map_job\<close>.
  \<^item> \<open>Samples\<close>, \<open>PPSamples\<close>: the concrete values at which the properties are instantiated.
  \<^item> \<open>PPHashTable\<close>, \<open>PPCombiner\<close>, \<open>PPContainer\<close>: \<open>Q/include/container.h\<close> and \<open>combiner.h\<close>. The hash table
    with its invariant (\<open>ht_ok\<close>) and its abstraction to a map (\<open>ht_map\<close>); the locale \<open>pp_combiner\<close> is
    the contract of a combiner, interpreted on the buffer, sum, one and must-reduce combiners.
  \<^item> \<open>PPContainer_Correct\<close>: the locale \<open>pp_container\<close> is the contract of a container: what threads have
    added comes out of the iterators of the partitions, each key in one of them with all its
    values. Hash and array containers keep it for every combiner.
  \<^item> \<open>PPTaskQueue\<close>: \<open>Q/include/processor.h\<close>, \<open>locality.h\<close>, \<open>scheduler.h\<close>, \<open>task_queue.h\<close> and
    \<open>Q/src/task_queue.cpp\<close>.
  \<^item> \<open>PPMapReduce\<close>, \<open>PPMapReduce_Correct\<close>, \<open>PPSort_Correct\<close>: \<open>Q/include/map_reduce.h\<close>. \<open>pp_job\<close> extends
    \<open>pp_container\<close> by what is asked of an application; its theorems are about whole runs.
  \<^item> \<open>PPIngest\<close>, \<open>PPIngest_Correct\<close>: \<open>Q/include/read_chunk.h\<close> and \<open>run_ingest_chunks\<close>. The chunks are
    consecutive pieces of a file that end at newlines; mapping them in turn is mapping the file.
  \<^item> \<open>PPJobs\<close>: jobs with the default \<open>reduce\<close>, for which \<open>pp_job\<close> is interpreted.

  \<^bold>\<open>How the code is modelled.\<close> A C statement that can fail is a function into \<open>res\<close>: failed
  assertions, \<open>CHECK_ERROR\<close>, null and dangling pointers, double frees, indices out of range and
  divisions by zero are faults, so a theorem that gives \<open>Inr\<close> says that none of them happens.
  \<open>int\<close> fields are mathematical integers that are cut to 32 bits (\<open>to_int32\<close>) where the code converts
  or may overflow; sizes and hashes are 64-bit words. The heap, the mutexes and the thread-local
  variables are explicit state. The application's callbacks, \<open>rand\<close>, \<open>rand_r\<close>, the schedules and the
  answers of the operating system are arguments, universally quantified in the theorems. An
  unlimited loop has a fuel argument, and the lemma next to it shows that the fuel given is enough
  (\<open>tq_empty_loop\<close>: the heap's size; \<open>steal\<close>: the number of queues; \<open>gen_map_tasks\<close>: \<open>mr_ready\<close> asks for
  more fuel than there are pieces); the others terminate by a measure. The workers of the map and
  reduce phases interleave at whole tasks: within a task a worker touches only its own row of the
  table, its own output array, or a column no other worker has.

  Phoenix++ runs in the same way: an operation of its task queue is one step, and so is a task. Its
  numbers of tasks and threads, \<open>uint64_t\<close> in the code, are natural numbers; the theorems ask for
  less than \<open>2 ^ 26\<close> threads, less than \<open>2 ^ 31\<close> pieces and at most \<open>2 ^ 28\<close> emitted pairs, under which the
  conversions to \<open>int\<close> in the code are exact (the hash table's iterator takes its size as an \<open>int\<close>).
  Hashes, sizes of hash tables, indices of iterators and the fields of tasks are words. The order
  in which an \<open>unordered_map\<close> is iterated over is a parameter (\<open>pick\<close>). The loops over an iterator
  have \<open>cl_rounds\<close> as their bound, more than there can be keys; the reading loop over \<open>pread\<close> needs
  one round more than there are calls; \<open>run_ingest_chunks\<close> as many as the file has bytes.

  \<^bold>\<open>What is shown\<close> (the properties below, in this order): the word count program counts words;
  \<open>map_reduce\<close> keeps its promise for every application that keeps its contract; Phoenix++ adds up
  what is emitted, ingest chunks do not change the result, and its hash table is a map; the three
  phases of Phoenix each; the data structures below them; the task queue; task generation with its error; defaults;
  iterator, queues and lists; locks; the thread pool with its errors; processors; the empty input;
  the word count's callbacks; and two errors of Phoenix++.

  \<^bold>\<open>Not modelled.\<close> \<open>env_print\<close>, timing and the incremental combiner (switched off in the build); the
  memory of the key/value arrays, whose frees are not tracked; the text \<open>perror\<close> prints. \<open>setenvs_static.c\<close>
  (it runs \<open>lscpu\<close> and parses its output) and the other applications under \<open>P/tests\<close>. Of Phoenix++: the
  applications under \<open>Q/tests\<close>, the branches for Solaris, time stamps, the semaphores and the loop of
  its thread pool (the C one is modelled), \<open>combineinto\<close>, and the libraries for HDFS and for
  unordered maps, which are parameters; vectors of a combiner are copied where the code shares
  them, since nothing writes to them any more. The
  checkpointing tools under \<open>src/sop2_fault-tolerance\<close> (DMTCP and MTCP) are third-party programs
  around system calls; what they do is to the kernel and the C library what those document. The
  OpenMP example and the scripts are glue.
\<close>

section \<open>The whole run\<close>





section \<open>Phoenix++\<close>



text \<open>
  C4: Ingest chunks do not change the result. When \<open>run_ingest_chunks\<close> reads one file of less than
  2 GB whose last line is complete, through a \<open>pread\<close> that reads what it is asked for, for an
  application whose \<open>split\<close> can be cut at newlines, it gives the same keys and sums as one \<open>run\<close> on
  the pieces of the whole file.
\<close>

theorem phoenixpp_ingest_equals_run:
  fixes junk :: "'v :: comm_monoid_add" and mapf :: "'x \<Rightarrow> ('k \<times> 'v) list"
  assumes "0 < pol_num_cpus policy" and "0 \<le> pol_offset policy" and "0 < N" and "N < 2 ^ 26"
    and "set_threads policy home (int N) st0 = Inr st"
    and "full_reads (job_files local job) (js_path job @ ''/part-00000'') bytes"
    and "length (js_path job) \<le> 20" and "js_total_nfiles job = 1" and "0 < js_ingest_bytes job"
    and "bytes \<noteq> []" and "last bytes = CHR 0x0A" and "length bytes < 2 ^ 31"
    and "2 \<le> ia_rounds app" and "splits app pieces (length bytes)" and "cuts mapf pieces"
    and "length (concat (map mapf (pieces bytes))) \<le> 2 ^ 28"
    and "\<And>n. turns (sched n) N (N * 16)" and "turns map_sched N (N * 16)" and "turns reduce_sched N N" and "length bytes \<le> fuel"
  shows "\<exists>nchunks r1 r2 st'.
    run_ingest_chunks run_merge fuel local job app (hash_class kh (sum_combiner junk) pick mapf lgrp) rnd sched reduce_sched st =
      Inr (nchunks, r1) \<and>
    pp_run run_merge (hash_class kh (sum_combiner junk) pick mapf lgrp) rnd map_sched reduce_sched (pieces bytes) st = Inr (0, r2, st') \<and>
    mset r1 = mset r2 \<and> distinct (map fst r1) \<and> map_of r1 = map_of r2"
proof -
  have ok: "mr_ok N st" using set_threads_ok [OF assms(1-4)] assms(5) by (metis Inr_inject)
  have "pieces bytes \<noteq> []" "length (pieces bytes) \<le> length bytes" using assms(10,11,15) unfolding cuts_def by blast+
  then have p: "pieces bytes \<noteq> []" "length (pieces bytes) < 2 ^ 31" using assms(12) by simp_all
  obtain nchunks r1 where 1: "run_ingest_chunks run_merge fuel local job app (hash_class kh (sum_combiner junk) pick mapf lgrp) rnd sched reduce_sched st =
      Inr (nchunks, r1)" "mset r1 = sums (concat (map mapf (pieces bytes)))"
    using hash_sum_ingest_ok [where sched = sched, OF ok assms(6-17,19) run_merge_merges assms(20)] by blast
  obtain r2 st' where 2: "pp_run run_merge (hash_class kh (sum_combiner junk) pick mapf lgrp) rnd map_sched reduce_sched (pieces bytes) st = Inr (0, r2, st')"
    "mset r2 = sums (concat (map mapf (pieces bytes)))"
    using hash_sum_run_ok [OF ok p assms(16,18,19) run_merge_merges] by blast
  have "map_of r1 = map_of r2" by (rule ext) (simp add: sums_map(2) [OF 1(2)] sums_map(2) [OF 2(2)])
  then show ?thesis using 1 2 sums_map(1) [OF 1(2)] by metis
qed

theorem phoenixpp_ingest_equals_run_witness:
  "\<exists>st nchunks r1 r2 st'. set_threads pp_sample_policy (\<lambda>i. -1) 1 (pp_sample_state pp_sample_hash) = Inr st \<and>
    run_ingest_chunks run_merge 6 letters_files letters_job letters_app (hash_class (\<lambda>c. 0) (sum_combiner 0) (\<lambda>ks. 0) letter (\<lambda>i. 0))
      (\<lambda>i. 0) (\<lambda>n. replicate 18 0) (replicate 3 0) st = Inr (nchunks, r1) \<and>
    pp_run run_merge (hash_class (\<lambda>c. 0) (sum_combiner 0) (\<lambda>ks. 0) letter (\<lambda>i. 0)) (\<lambda>i. 0) (replicate 18 0) (replicate 3 0) letters_file st =
      Inr (0, r2, st') \<and> map_of r1 = map_of r2"
proof -
  have p: "0 < pol_num_cpus pp_sample_policy" "0 \<le> pol_offset pp_sample_policy" by (simp_all add: pp_sample_policy_def)
  obtain st :: "(char, int, (char, int assoc) hash_container_t, (char, int assoc) hash_table) pp_state"
    where st: "set_threads pp_sample_policy (\<lambda>i. -1) (int 1) (pp_sample_state pp_sample_hash) = Inr st"
    using set_threads_ok [OF p, of 1 "\<lambda>i. -1" "pp_sample_state pp_sample_hash"] by auto
  have t: "turns (replicate 18 0) 1 (1 * 16)" "turns (replicate 3 0) 1 1" using turns_replicate by simp_all
  have s: "splits letters_app (\<lambda>seg. seg) (length letters_file)" by (rule letters_splits) (simp add: letters_file_def)
  have "length (concat (map letter letters_file)) \<le> 2 ^ 28" by (simp add: letters_file_def letter_def)
  then show ?thesis
    using phoenixpp_ingest_equals_run [OF p _ _ st letters_reads _ _ _ _ _ _ _ s letters_cuts _ t(1) t(1) t(2),
        of 6 "\<lambda>c. 0" 0 "\<lambda>ks. 0" "\<lambda>i. 0" "\<lambda>i. 0"] st
    by (auto simp: letters_job_def letters_file_def letters_app_def)
qed

text \<open>
  C5: A hash table of Phoenix++ is a map from keys to combiners, whatever the hash function: it is
  created empty, \<open>operator[]\<close> inserts a fresh combiner for a new key and gives access to the one there
  is for an old one, growing the table when needed, and an iteration visits every entry of the
  map once.
\<close>

theorem hash_table_refines_map:
  fixes t :: "('k, 'c) hash_table" and kh :: "'k \<Rightarrow> 64 word" and body :: "'s \<Rightarrow> 'k \<times> 'c \<Rightarrow> 's res"
  assumes "ht_ok kh t" and "ht_count t < 2 ^ 29"
  shows "(\<exists>t0 :: ('k, 'c) hash_table. ht_new kh = Inr t0 \<and> ht_ok kh t0 \<and> ht_map t0 = Map.empty) \<and>
    (\<exists>t'. ht_update kh new key f t = Inr t' \<and> ht_ok kh t' \<and>
       ht_map t' = (ht_map t)(key \<mapsto> f (case ht_map t key of None \<Rightarrow> new | Some c \<Rightarrow> c))) \<and>
    (\<exists>es. ht_iterate t body s = foldE body s es \<and> distinct (map fst es) \<and> map_of es = ht_map t \<and> length es = ht_count t)"
proof -
  have room: "ht_count t < 2 ^ 58" using assms(2) by simp
  have dist: "distinct (map fst (ht_list (ht_slots t)))" using assms(1) by (auto simp: ht_ok_def slots_ok_def)
  show ?thesis using room ht_new_ok [of kh] ht_update_ok [OF assms(1), of new key f] ht_iterate_ok [OF assms, of body s] dist
    unfolding ht_map_def [of t] ht_count_def [of t] by blast
qed

theorem hash_table_refines_map_witness:
  "\<exists>t t'. ht_new int_hash = Inr t \<and> ht_update int_hash (0 :: int) 7 (\<lambda>c. c + 2) t = Inr t' \<and> ht_map t' = [7 \<mapsto> 2]"
proof -
  obtain t :: "(int, int) hash_table" where t: "ht_new int_hash = Inr t" "ht_ok int_hash t" "ht_map t = Map.empty" "ht_count t = 0"
    using ht_new_ok by blast
  then show ?thesis using hash_table_refines_map [of int_hash t 0 7 "\<lambda>c. c + 2" "\<lambda>s e. Inr s" "()"] by auto
qed

section \<open>The phases\<close>







section \<open>Keys and values\<close>





text \<open>
  C11: One reduce task calls the reduce function once per distinct key of its column, in key order, with
  all the values that the map threads hold for it in thread order, emits what it emits, leaves no
  key behind and leaves the iterator empty.
\<close>

theorem reduce_task_calls_each_key:
  assumes "key_order key_cmp" and "\<forall>a \<in> set xs. column_ok key_cmp a" and "loaded i []" and "length xs \<le> max_list i"
    and "reducer reduce red" and "keys_left ys = 0"
  shows "\<exists>ks xs' i'. distinct_keys key_cmp (concat (map todo xs)) ks \<and> concat (map todo xs') = [] \<and>
    loaded i' [] \<and> max_list i' = max_list i \<and>
    reduce_task key_cmp reduce out_fn (length xs) (xs @ ys) i out =
      bindE (emit_all out_fn (concat (map (\<lambda>k. red k (values_for key_cmp (map todo xs) k)) ks)) out)
        (\<lambda>out. Inr (xs' @ ys, i', out))"
  by (rule key_order.reduce_task_spec [OF assms])

theorem reduce_task_calls_each_key_witness:
  "\<exists>ks xs' i'. distinct_keys int_cmp [sample_entry 1 [5], sample_entry 2 [6], sample_entry 2 [7, 8]] ks \<and>
     reduce_task int_cmp identity_reduce (\<lambda>k v out. Inr (out @ [(k, v)])) 2
       [sample_row [sample_entry 1 [5], sample_entry 2 [6]], sample_row [sample_entry 2 [7, 8]]] fresh_iterator [] =
       bindE (emit_all (\<lambda>k v out. Inr (out @ [(k, v)]))
           (concat (map (\<lambda>k. map (Pair k) (values_for int_cmp [[sample_entry 1 [5], sample_entry 2 [6]], [sample_entry 2 [7, 8]]] k)) ks)) [])
         (\<lambda>out. Inr (xs', i', out))"
proof -
  have "column_ok int_cmp (sample_row [sample_entry 1 [5], sample_entry 2 [6]])" "column_ok int_cmp (sample_row [sample_entry 2 [7, 8]])"
    by (simp_all add: column_ok_def keyvals_arr_ok_def sample_row_def int_cmp_def)
  then have c: "\<forall>a \<in> set [sample_row [sample_entry 1 [5], sample_entry 2 [6]], sample_row [sample_entry 2 [7, 8]]]. column_ok int_cmp a"
    by simp
  have t: "todo (sample_row es) = es" for es by (simp add: todo_def sample_row_def)
  have k: "keys_left [] = 0" by (simp add: keys_left_def)
  from reduce_task_calls_each_key [OF ic.key_order_axioms c fresh_iterator_loaded(1) _ idr.reducer_axioms k] show ?thesis
    by (fastforce simp: t numeral_2_eq_2 fresh_iterator_loaded(2))
qed



section \<open>Task queue\<close>

text \<open>
  C13: A task queue gives all its memory back. From any well-formed heap with room enough,
  \<open>tq_init\<close>, then any enqueues and dequeues by its threads (blocking, with or without a locality
  group), then \<open>tq_finalize\<close> run without a fault, and exactly the objects that were there before
  are there afterwards: nothing leaks, nothing of anybody else is freed.
\<close>

theorem task_queue_restores_heap:
  assumes "heap_ok h" and "0 < n" and "0 < loc_get_lgrp_size os"
    and "brk h + (tq_words (tq_count os n) n + ENTRY_SIZE * length ops) \<le> mem_limit h"
    and "\<forall>x \<in> set ops. op_tid x < n" and "\<forall>s. 0 \<le> fst (rand_r s)"
  shows "\<exists>h'. tq_session os rand_r n ops h = Inr h' \<and> heap_ok h' \<and> objs h' = objs h"
  by (rule tq_session_restores [OF assms])

theorem task_queue_restores_heap_witness:
  "\<exists>h'. tq_session sample_os rand_r_0 8 [Enqueue task_0 1 0, Enqueue task_0 (-1) 7, Dequeue 1 3, Dequeue (-1) 2] (sample_heap 1000) =
     Inr h' \<and> heap_ok h' \<and> objs h' = (\<lambda>_. None)"
  using task_queue_restores_heap [of "sample_heap 1000" 8 sample_os
      "[Enqueue task_0 1 0, Enqueue task_0 (-1) 7, Dequeue 1 3, Dequeue (-1) 2]" rand_r_0]
  by (simp add: tq_words_def tq_count_def TQ_SIZE_def LOCK_SIZE_def ENTRY_SIZE_def rand_r_0_def)

text \<open>
  C14: \<open>tq_dequeue\<close> finds a task whenever there is one, in whichever queue: it returns 0 only when all
  queues are empty, and otherwise returns 1 with the front task of one queue, which is gone from that
  queue afterwards while all others are as they were.
\<close>

theorem tq_dequeue_finds_task:
  assumes "tq_has h tq tss" and "tid < num_threads tq" and "\<forall>s. 0 \<le> fst (rand_r s)"
  shows "(concat tss = [] \<and> (\<exists>tq'. tq_dequeue rand_r tq lgrp tid h = Inr (0, task_0, tq', h) \<and> tq_has h tq' tss)) \<or>
    (\<exists>j task tq' h'. j < length tss \<and> tss ! j \<noteq> [] \<and> task_key task = hd (tss ! j) \<and>
      tq_dequeue rand_r tq lgrp tid h = Inr (1, task, tq', h') \<and> tq_has h' tq' (tss[j := tl (tss ! j)]))"
  using tq_has_dequeue [OF assms] by blast

theorem tq_dequeue_finds_task_witness:
  "\<exists>tq h tq' h'. tq_init sample_os 1 (sample_heap 1000000) = Inr (Some tq, h) \<and>
     tq_dequeue rand_r_0 tq (-1) 0 h = Inr (0, task_0, tq', h')"
proof -
  obtain tq h where q: "tq_init sample_os 1 (sample_heap 1000000) = Inr (Some tq, h)" "tq_has h tq [[]]" "num_threads tq = 1"
    using sample_queue by blast
  from tq_dequeue_finds_task [OF q(2), of 0 rand_r_0 "-1"] show ?thesis using q by auto
qed

text \<open>
  C15: \<open>tq_enqueue\<close> returns 0 and puts the task at the end of one queue, the one of the locality group
  modulo the number of queues, or a random one when no group is given. The other queues do not change.
\<close>

theorem tq_enqueue_appends:
  assumes "tq_ok h tq qs fs" and "brk h + ENTRY_SIZE \<le> mem_limit h" and "tid < num_threads tq"
    and "r = (if lgrp < 0 then fst (rand_r (seeds tq ! tid)) else lgrp)" and "0 \<le> r"
  shows "\<exists>idx tq' h' e. idx = nat (r mod int (num_queues tq)) \<and> idx < num_queues tq \<and>
    tq_enqueue rand_r tq t lgrp tid h = Inr (0, tq', h') \<and>
    tq_ok h' tq (qs[idx := qs ! idx @ [e]]) fs \<and> same_objs_and_tasks h h' e t"
  using tq_enqueue_ok [where rand_r = rand_r and tid = tid and lgrp = lgrp and r = r, OF assms refl, of t] by blast

theorem tq_enqueue_appends_witness:
  "\<exists>tq h tq' h' e. tq_init sample_os 1 (sample_heap 1000000) = Inr (Some tq, h) \<and>
     tq_enqueue rand_r_0 tq task_0 3 0 h = Inr (0, tq', h') \<and> tq_ok h' tq [[e]] [[]]"
proof -
  obtain tq h where q: "tq_init sample_os 1 (sample_heap 1000000) = Inr (Some tq, h)" "num_threads tq = 1" "num_queues tq = 1"
    "tq_ok h tq [[]] [[]]" "brk h + ENTRY_SIZE \<le> mem_limit h" using sample_queue_ok by blast
  from tq_enqueue_appends [OF q(4,5), of 0 3 3 rand_r_0 task_0] show ?thesis using q by fastforce
qed

section \<open>Generating tasks\<close>



text \<open>
  C17: \<open>gen_reduce_tasks\<close> makes the tasks \<open>0, ..., reduce_count N R M - 1\<close> of \<open>N\<close>, for \<open>R\<close> reduce and
  \<open>M\<close> map threads, and returns 0. When there are at most as many map threads as reduce threads these are all.
\<close>

theorem gen_reduce_tasks_count:
  assumes "tq_has h tq tss" and "e_num_reduce_tasks env = int N" and "e_num_reduce_threads env = int R" and "0 < R"
    and "room h (ENTRY_SIZE * N)" and "\<forall>i. 0 \<le> rnds i" and "concat tss = []"
  shows "\<exists>h' tss'. gen_reduce_tasks rnds t0 env tq h = Inr (0, reduce_count N R (e_num_map_threads env), h') \<and>
    tq_has h' tq tss' \<and> mset (concat tss') = mset (map (reduce_key t0) [0..<reduce_count N R (e_num_map_threads env)]) \<and>
    (e_num_map_threads env \<le> int R \<longrightarrow> reduce_count N R (e_num_map_threads env) = N)"
proof -
  from gen_reduce_tasks_ok [OF assms(1-6) refl] obtain h' where g:
    "gen_reduce_tasks rnds t0 env tq h = Inr (0, reduce_count N R (e_num_map_threads env), h')"
    "tq_has h' tq (put_ids rnds (reduce_key t0) [0..<reduce_count N R (e_num_map_threads env)] tss)" by blast
  have "tss \<noteq> []" using tq_has_length [OF assms(1)] by auto
  then have "mset (concat (put_ids rnds (reduce_key t0) [0..<reduce_count N R (e_num_map_threads env)] tss)) =
      mset (map (reduce_key t0) [0..<reduce_count N R (e_num_map_threads env)])"
    using assms(7) by (simp add: mset_put_ids)
  then show ?thesis using g reduce_count_all [OF assms(4)] by blast
qed

theorem gen_reduce_tasks_count_witness:
  "\<exists>tq h h' tss'. tq_init sample_os 1 (sample_heap 1000000) = Inr (Some tq, h) \<and>
     gen_reduce_tasks (\<lambda>_. 0) task_0 sample_env tq h = Inr (0, 32768, h') \<and>
     tq_has h' tq tss' \<and> mset (concat tss') = mset (map (reduce_key task_0) [0..<32768])"
proof -
  obtain tq h where q: "tq_init sample_os 1 (sample_heap 1000000) = Inr (Some tq, h)" "tq_has h tq [[]]"
    "room h (ENTRY_SIZE * 32768)" using sample_queue by blast
  from gen_reduce_tasks_count [OF q(2), of sample_env 32768 1 "\<lambda>_. 0" task_0] show ?thesis
    using q by (auto simp del: map_upt_Suc)
qed

text \<open>
  C18: With more map threads than reduce threads \<open>gen_reduce_tasks\<close> loses tasks, because it computes
  the remainder with the number of map threads: of 32768 tasks for 3 reduce threads and 4 map threads
  the last two are never enqueued, although it returns 0.
\<close>

theorem gen_reduce_tasks_loses_tasks:
  assumes "tq_has h tq tss" and "concat tss = []" and "e_num_reduce_tasks env = 32768"
    and "e_num_reduce_threads env = 3" and "e_num_map_threads env = 4"
    and "room h (ENTRY_SIZE * 32768)" and "\<forall>i. 0 \<le> rnds i"
  shows "\<exists>h' tss'. gen_reduce_tasks rnds t0 env tq h = Inr (0, 32766, h') \<and> tq_has h' tq tss' \<and>
    reduce_key t0 32766 \<notin> set (concat tss') \<and> reduce_key t0 32767 \<notin> set (concat tss')"
proof -
  have cnt: "32766 = reduce_count 32768 3 (e_num_map_threads env)" using assms(5) by (simp add: reduce_count_def)
  have e: "e_num_reduce_tasks env = int 32768" "e_num_reduce_threads env = int 3" "(0 :: nat) < 3" using assms(3,4) by simp_all
  obtain h' where g: "gen_reduce_tasks rnds t0 env tq h = Inr (0, 32766, h')"
    "tq_has h' tq (put_ids rnds (reduce_key t0) [0..<32766] tss)"
    using gen_reduce_tasks_ok [OF assms(1) e assms(6,7) cnt] by blast
  have ne: "tss \<noteq> []" using tq_has_length [OF assms(1)] by auto
  have set_ids: "set (concat (put_ids rnds (reduce_key t0) [0..<32766] tss)) = reduce_key t0 ` {0..<32766}"
  proof -
    have "mset (concat (put_ids rnds (reduce_key t0) [0..<32766] tss)) = mset (map (reduce_key t0) [0..<32766])"
      using ne assms(2) by (simp add: mset_put_ids)
    then show ?thesis by (metis mset_eq_setD set_map set_upt)
  qed
  have out: "reduce_key t0 r \<notin> reduce_key t0 ` {0..<n}" if "n \<le> r" "r < 2 ^ 64" for n r
  proof
    assume "reduce_key t0 r \<in> reduce_key t0 ` {0..<n}"
    then obtain q where "q < n" "reduce_key t0 r = reduce_key t0 q" by (elim imageE) simp
    then show False using that reduce_key_inj [of r q t0] by simp
  qed
  have "reduce_key t0 32766 \<notin> reduce_key t0 ` {0..<32766}" "reduce_key t0 32767 \<notin> reduce_key t0 ` {0..<32766}"
    by (rule out; simp)+
  then show ?thesis using g set_ids by metis
qed

theorem gen_reduce_tasks_loses_tasks_witness:
  "\<exists>tq h h' tss'. tq_init sample_os 1 (sample_heap 1000000) = Inr (Some tq, h) \<and>
     gen_reduce_tasks (\<lambda>_. 0) task_0 (sample_env\<lparr>e_num_reduce_threads := 3, e_num_map_threads := 4\<rparr>) tq h = Inr (0, 32766, h') \<and>
     tq_has h' tq tss' \<and> reduce_key task_0 32767 \<notin> set (concat tss')"
proof -
  obtain tq h where q: "tq_init sample_os 1 (sample_heap 1000000) = Inr (Some tq, h)" "tq_has h tq [[]]"
    "room h (ENTRY_SIZE * 32768)" using sample_queue by blast
  let ?env = "sample_env\<lparr>e_num_reduce_threads := 3, e_num_map_threads := 4\<rparr>"
  have "\<exists>h' tss'. gen_reduce_tasks (\<lambda>_. 0) task_0 ?env tq h = Inr (0, 32766, h') \<and> tq_has h' tq tss' \<and>
    reduce_key task_0 32766 \<notin> set (concat tss') \<and> reduce_key task_0 32767 \<notin> set (concat tss')"
    by (rule gen_reduce_tasks_loses_tasks [OF q(2) _ _ _ _ q(3)]) simp_all
  then show ?thesis using q(1) by blast
qed

section \<open>Helpers of the runtime\<close>

text \<open>
  C19: The default partition always answers with a reduce task that exists, for any number of tasks
  that fits \<open>int\<close> and any key of at least \<open>key_size\<close> bytes.
\<close>

theorem default_partition_in_range:
  assumes "0 < n" and "n < 2 ^ 31" and "key_size \<le> int (length key)"
  shows "\<exists>r. default_partition n key key_size = Inr r \<and> 0 \<le> r \<and> r < n"
  by (rule default_partition_range [OF assms])

theorem default_partition_in_range_witness:
  "\<exists>r. default_partition 256 [0xe9, 98, 0] 3 = Inr r \<and> 0 \<le> r \<and> r < 256"
  by (rule default_partition_in_range) simp_all

text \<open>
  C20: The array splitter covers the array: from every position it returns 0 at the end, and before
  the end the next piece, and the lengths of the pieces add up to the units that are left.
\<close>

theorem array_splitter_covers:
  assumes "array_ok args n pos"
    and "ps = array_pieces (a_task_data args) (a_unit_size args) n (a_data_size args div a_unit_size args) (uint pos)"
  shows "array_splitter args pos n =
      (case ps of [] \<Rightarrow> Inr (0, None, pos) | p # _ \<Rightarrow> Inr (1, Some p, pos + ma_length p)) \<and>
    sum_list (map (\<lambda>p. uint (ma_length p)) ps) = a_data_size args div a_unit_size args - uint pos"
  using array_splitter_step(1) [OF assms(1)] array_pieces_sum [OF assms(1)] assms(2) by simp

theorem array_splitter_covers_witness:
  "array_splitter (sample_args\<lparr>a_data_size := 53, a_task_data := 64\<rparr>) 8 4 = Inr (1, Some \<lparr>ma_length = 2, ma_data = 104\<rparr>, 10)"
  using array_splitter_covers [of "sample_args\<lparr>a_data_size := 53, a_task_data := 64\<rparr>" 4 8]
  by (simp add: array_ok_def wordcount_args_def array_pieces.simps)

text \<open>
  C21: A reduce or combiner function that loops \<open>while (iter_next (itr, &val))\<close> sees every value of every
  list that was added, in order, and its loop ends: with one round more than there are values it has
  folded its body over all of them, or stopped at the body's first fault.
\<close>

theorem iterator_loop_folds:
  assumes "iter_ok i" and "length (iter_rest i) < fuel"
  shows "case foldE step s (iter_rest i) of
      Inl e \<Rightarrow> while_next iter_next fuel step s i = Inl e
    | Inr s' \<Rightarrow> \<exists>i'. while_next iter_next fuel step s i = Inr (s', i') \<and> iter_ok i' \<and> iter_rest i' = []"
  by (rule itr.while_next_folds [OF assms])

theorem iterator_loop_folds_witness:
  "\<exists>i'. while_next iter_next 4 (\<lambda>s v. Inr (s + v)) 0 sample_iterator = Inr (18, i') \<and> iter_rest i' = []"
  using iterator_loop_folds [OF sample_iterator_ok(1), of 4 "\<lambda>s v. Inr (s + v)" 0] sample_iterator_ok(2) by auto

text \<open>
  C22: \<open>queue_push_back\<close> and \<open>queue_pop_front\<close> are a queue: moving the front of one queue to the back of
  another, as a dequeue does with an entry, takes the oldest element, appends it, keeps all others in
  order, and writes to no cell outside the two queues.
\<close>

theorem queue_transfer:
  fixes h :: "'a heap_scheme"
  assumes "dll h q (x # xs)" and "dll h f ys" and "set (q # x # xs) \<inter> set (f # ys) = {}"
  shows "\<exists>h1 h2. queue_pop_front q e h = Inr (1, x, h1) \<and> queue_push_back f x h1 = Inr h2 \<and>
    dll h2 q xs \<and> dll h2 f (ys @ [x]) \<and> links_only (set (q # x # xs) \<union> set (f # ys)) h h2"
  by (rule qf.transfer [OF assms])

theorem queue_transfer_witness:
  "\<exists>h1 h2. queue_pop_front 10 0 sample_lists = Inr (1, 11, h1) \<and> queue_push_back 20 11 h1 = Inr h2 \<and>
     dll h2 10 [12] \<and> dll h2 20 [21, 11]"
  using queue_transfer [OF sample_lists_dll, of 0] by auto

text \<open>
  C23: Taking out what was put in restores a list: after \<open>list_insert_after\<close> anywhere, \<open>list_remove\<close> of the
  new entry gives the same list again, and the entry's links are null.
\<close>

theorem list_insert_remove:
  fixes h :: "'a heap_scheme"
  assumes "dll h l (xs @ ys)" and "c = last (l # xs)" and "a \<notin> set (l # xs @ ys)" and "a \<noteq> 0" and "live h a"
  shows "\<exists>h1 h2. list_insert_after c a h = Inr h1 \<and> dll h1 l (xs @ a # ys) \<and>
    list_remove a h1 = Inr h2 \<and> dll h2 l (xs @ ys) \<and> li_next h2 a = 0 \<and> li_prev h2 a = 0"
  using dll_insert_after [OF assms] dll_remove by blast

theorem list_insert_remove_witness:
  "\<exists>h1 h2. list_insert_after 11 30 sample_lists = Inr h1 \<and> dll h1 10 [11, 30, 12] \<and>
     list_remove 30 h1 = Inr h2 \<and> dll h2 10 [11, 12]"
  using list_insert_remove [of sample_lists 10 "[11]" "[12]" 11 30] sample_lists_dll(1)
  by (auto simp: sample_lists_def)



section \<open>The thread pool\<close>

text \<open>
  C25: The barrier of a phase. From a pool at rest, let the caller make the calls \<open>tpool_set\<close>,
  \<open>tpool_begin\<close> and \<open>tpool_wait\<close> for \<open>n\<close> workers, no fewer than in the round before. However the
  threads interleave: when \<open>tpool_wait\<close> has returned, it returned 0, the thread function has run
  exactly once for each of the \<open>n\<close> workers on its own argument, in some order, their results are in
  place, and the pool is at rest again.
\<close>

theorem thread_pool_round:
  fixes S S' :: "('f, 'a, 'r, 's) tp_state"
  assumes "pool_idle k S" and "ps_calls S = round_calls n f as" and "k \<le> n" and "0 < n" and "n \<le> length as"
    and "n \<le> length (ps_threads S)" and "(pool_step exec)\<^sup>*\<^sup>* S S'" and "ps_calls S' = []"
  shows "ps_ret S' = 0 \<and> pool_idle n S' \<and>
    (\<exists>ord. distinct ord \<and> set ord = {..<n} \<and> fst (run_in_order exec f as (ps_mem S) ord) = ps_mem S' \<and>
       (\<forall>i < n. snd (run_in_order exec f as (ps_mem S) ord) i \<noteq> None \<and>
          th_ret_val (ps_threads S' ! i) = snd (run_in_order exec f as (ps_mem S) ord) i))"
  using round_result [OF assms] by (simp add: round_done_def)

theorem thread_pool_round_witness:
  "\<exists>S'. pool_run log_exec round_sched (two_threads (round_calls 2 0 [10, 20])) = Inr S' \<and> ps_ret S' = 0 \<and> pool_idle 2 S'"
proof -
  obtain S' where S': "pool_run log_exec round_sched (two_threads (round_calls 2 0 [10, 20])) = Inr S'" "ps_calls S' = []"
    using round_run by blast
  then show ?thesis
    using thread_pool_round [of 0 "two_threads (round_calls 2 0 [10, 20])" 2 0 "[10, 20]" log_exec S'] pool_run_steps [OF S'(1)]
    by simp
qed

text \<open>
  C26: A round always ends. In the setting of the previous property no run is longer than the bound
  \<open>pool_rank\<close>, no step of the caller or of a thread faults (it can only have to wait), and a state in
  which nobody can go on is one in which \<open>tpool_wait\<close> has returned.
\<close>

theorem thread_pool_round_ends:
  fixes S S' :: "('f, 'a, 'r, 's) tp_state"
  assumes "pool_idle k S" and "ps_calls S = round_calls n f as" and "k \<le> n" and "0 < n" and "n \<le> length as"
    and "n \<le> length (ps_threads S)" and "pool_fits S" and "(pool_step exec ^^ steps) S S'"
  shows "steps \<le> pool_rank S \<and>
    (\<forall>e. caller_step S' = Inl e \<longrightarrow> e = Would_block) \<and>
    (\<forall>i < length (ps_threads S'). \<forall>e. thread_step exec i S' = Inl e \<longrightarrow> e = Would_block) \<and>
    ((\<forall>S''. \<not> pool_step exec S' S'') \<longrightarrow> ps_calls S' = [] \<and> ps_caller S' = Idle)"
proof -
  have I: "round_inv exec k n f as (ps_mem S) S'"
    by (rule round_inv_steps [OF relpowp_imp_rtranclp [OF assms(8)] round_start [OF assms(1-6)]])
  have "ps_calls S' = [] \<and> ps_caller S' = Idle" if "\<forall>S''. \<not> pool_step exec S' S''"
  proof -
    have "ps_calls S' = []" using round_inv_progress [OF I] that by blast
    then show ?thesis using round_inv_over [OF I] by (simp add: round_done_def pool_idle_def)
  qed
  then show ?thesis
    using pool_steps_bounded [OF assms(8,7)] round_inv_no_fault [OF I] by auto
qed

theorem thread_pool_round_ends_witness:
  "\<exists>S''. pool_step log_exec (two_threads (round_calls 2 0 [10, 20])) S''"
  using thread_pool_round_ends [where k = 0 and n = 2 and f = 0 and as = "[10, 20]" and exec = log_exec and steps = 0
      and S = "two_threads (round_calls 2 0 [10, 20])" and S' = "two_threads (round_calls 2 0 [10, 20])"] two_threads_fits
  by (auto simp: round_calls_def)

text \<open>
  C27: The barrier can be passed too early. When a round has fewer workers than the one before, a thread
  that counted itself as done in the first round, but has not yet compared, takes its count for the
  last one of the second round: \<open>tpool_wait\<close> returns 0 although the worker of the second round has
  not run, and its result is that of the first round. \<open>merge\<close> halves the number of workers in every
  round.
\<close>

theorem tpool_wait_returns_early:
  "\<exists>S. (pool_step log_exec)\<^sup>*\<^sup>* (two_threads (round_calls 2 0 [10, 20] @ round_calls 1 0 [30])) S \<and>
     ps_caller S = Idle \<and> ps_calls S = [] \<and> ps_ret S = 0 \<and> ps_mem S = [10, 20] \<and>
     th_ret_val (ps_threads S ! 0) = Some 10"
  using shrink_run pool_run_steps by blast

text \<open>
  C28: \<open>tpool_destroy\<close> releases the pool too early: it returns when the last thread has posted, while
  another thread that counted itself before has still to read the number of workers, from memory
  that is released.
\<close>

theorem tpool_destroy_use_after_free:
  "\<exists>S. (pool_step log_exec)\<^sup>*\<^sup>* (two_threads [Destroy]) S \<and>
     ps_caller S = Idle \<and> ps_calls S = [] \<and> ps_ret S = 0 \<and> thread_step log_exec 0 S = Inl Bad_access"
  using destroy_run pool_run_steps by blast

text \<open>
  C29: Creating a pool of \<open>n\<close> threads: with memory enough it gives a pool at rest, ready for rounds of
  up to \<open>n\<close> workers, if all threads start; if the semaphore or a thread cannot be had, it gives NULL
  and leaves the block of the pool allocated for ever.
\<close>

theorem tpool_create_result:
  assumes "create_room n h" and "n < 2 ^ 31"
  shows "((\<forall>i < n. create_ret i = 0) \<longrightarrow>
      (\<exists>(pool :: ('f, 'a) tpool_t) (ths :: ('f, 'a, 'r) tp_thread list) h'.
        tpool_create 0 create_ret (int n) h = Inr (Some (pool, ths), h') \<and> length ths = n \<and>
        pool_idle 0 (new_state (pool, ths) h' (m :: 's) calls) \<and> tp_num_workers pool = int n)) \<and>
    (sem_init_ret \<noteq> 0 \<or> (\<exists>i < n. create_ret i \<noteq> 0) \<longrightarrow>
      (\<exists>h'. (tpool_create sem_init_ret create_ret (int n) h ::
        ((('f, 'a) tpool_t \<times> ('f, 'a, 'r) tp_thread list) option \<times> heap) res) = Inr (None, h') \<and>
      objs h (brk h) = None \<and> objs h' (brk h) = Some TPOOL_SIZE))"
  by (intro conjI impI tpool_create_idle [OF assms] tpool_create_leaks [OF assms(1)])

theorem tpool_create_result_witness:
  "\<exists>h'. (tpool_create 0 (\<lambda>i. if i = 1 then 11 else 0) 2 sample_small_heap ::
      (((nat, nat) tpool_t \<times> (nat, nat, nat) tp_thread list) option \<times> heap) res) = Inr (None, h') \<and>
    objs h' (brk sample_small_heap) = Some TPOOL_SIZE"
proof -
  let ?ret = "\<lambda>i :: nat. if i = 1 then 11 else 0 :: int"
  have "\<exists>i < 2. ?ret i \<noteq> 0" by (intro exI [of _ 1]) simp
  moreover have "(2 :: nat) < 2 ^ 31" by simp
  note tpool_create_result [OF sample_small_room this, where create_ret = ?ret and sem_init_ret = 0 and m = "()" and calls = "[]"
      and ?'f = nat and ?'a = nat and ?'r = nat]
  ultimately show ?thesis by fastforce
qed

section \<open>The queue lock\<close>

text \<open>
  C30: The MCS lock excludes: in no reachable state are two threads inside.
\<close>

theorem mcs_mutual_exclusion:
  assumes "mcs_reach S" and "mcs_pc S p = Inside" and "mcs_pc S p' = Inside"
  shows "p = p'"
  using mcs_reach_inv [OF assms(1)] mcs_inv_exclusive assms(2,3) by blast

theorem mcs_mutual_exclusion_witness:
  "mcs_reach mcs_taken \<and> {p. mcs_pc mcs_taken p = Inside} = {1}"
proof -
  have "mcs_pc mcs_taken 1 = Inside" by (simp add: mcs_taken_def goto_def)
  moreover have "p = 1" if "mcs_pc mcs_taken p = Inside" for p
    using mcs_mutual_exclusion [OF mcs_taken_reach that calculation] .
  ultimately show ?thesis using mcs_taken_reach by blast
qed

text \<open>
  C31: The MCS lock does not deadlock and does not fault: in every reachable state the next step of any
  thread succeeds or waits (so the assertion of \<open>mcs_acquire\<close> holds and \<open>mcs_release\<close> follows no
  null link), and while some thread holds or wants the lock, one of those threads can go on.
\<close>

theorem mcs_progress:
  assumes "mcs_reach S"
  shows "(\<forall>p e. p \<noteq> 0 \<longrightarrow> mcs_step p S = Inl e \<longrightarrow> e = Would_block) \<and>
    (\<forall>p. in_queue S p \<longrightarrow> (\<exists>p' S'. in_queue S p' \<and> mcs_step p' S = Inr S'))"
  using mcs_reach_inv [OF assms] mcs_inv_no_fault mcs_inv_progress by blast

theorem mcs_progress_witness:
  "\<exists>p' S'. in_queue mcs_taken p' \<and> mcs_step p' mcs_taken = Inr S'"
proof -
  have "in_queue mcs_taken 1" by (simp add: mcs_taken_def goto_def in_queue_def)
  then show ?thesis using mcs_progress [OF mcs_taken_reach] by blast
qed

section \<open>Processors\<close>

text \<open>
  C32: Filling a machine core by core is a bijection: with all strands of its chips online, no two
  threads below the number of CPUs get the same strand.
\<close>

theorem map_fill_core_injective:
  assumes "0 < sp_num_chips_per_sys sp"
    and "sp_num_cpus sp = NUM_CORES_PER_CHIP * NUM_STRANDS_PER_CORE * sp_num_chips_per_sys sp"
    and "0 \<le> t" and "t < sp_num_cpus sp" and "0 \<le> u" and "u < sp_num_cpus sp"
    and "map_fill_core_solaris sp t = map_fill_core_solaris sp u"
  shows "t = u"
  by (rule map_fill_core_solaris_inj [OF assms])

theorem map_fill_core_injective_witness:
  "map_fill_core_solaris \<lparr>sp_num_cpus = 128, sp_num_chips_per_sys = 2, sp_map = Map_fill_core\<rparr> 17 \<noteq>
   map_fill_core_solaris \<lparr>sp_num_cpus = 128, sp_num_chips_per_sys = 2, sp_map = Map_fill_core\<rparr> 1"
  using map_fill_core_injective [of "\<lparr>sp_num_cpus = 128, sp_num_chips_per_sys = 2, sp_map = Map_fill_core\<rparr>" 17 1]
  by (auto simp: NUM_CORES_PER_CHIP_def NUM_STRANDS_PER_CORE_def)


text \<open>
  C34: A number in \<open>MAPRED_NPROCESSORS\<close> that is not between 1 and the number of CPUs makes the scheduling
  policy divide by zero for every thread, instead of being ignored.
\<close>

theorem bad_nprocessors_divides_by_zero:
  assumes "mapred_nprocessors os = Some n" and "n < 1 \<or> nprocessors_onln os < n"
    and "sched_policy_get os policy = Inr sp"
  shows "sched_thr_to_cpu sp thr = Inl Div_by_zero"
proof (rule sched_thr_to_cpu_no_cpus)
  have "sp_num_cpus sp = proc_get_num_cpus os" using assms(3) by (auto simp: sched_policy_get_def bindE_Inr_conv)
  then show "sp_num_cpus sp = 0" using proc_get_num_cpus_zero [OF assms(1)] assms(2) by simp
qed

theorem bad_nprocessors_divides_by_zero_witness:
  "\<exists>sp. sched_policy_get (sample_os\<lparr>mapred_nprocessors := Some 5\<rparr>) SCHED_POLICY_STRAND_FILL = Inr sp \<and>
     sched_thr_to_cpu sp 0 = Inl Div_by_zero"
proof -
  obtain sp where sp: "sched_policy_get (sample_os\<lparr>mapred_nprocessors := Some 5\<rparr>) SCHED_POLICY_STRAND_FILL = Inr sp"
    by (simp add: sched_policy_get_strand)
  from bad_nprocessors_divides_by_zero [OF _ _ this, of 5 0] show ?thesis using sp by (simp add: sample_os_def)
qed

text \<open>
  C35: An empty input stops the program: when the splitter has no piece at all, \<open>gen_map_tasks\<close> returns
  -1 and the assertion in \<open>map\<close> fails.
\<close>

theorem empty_input_aborts:
  assumes "value_stream (call_splitter (st_env st) (e_chunk_size (st_env st))) pieces ok"
    and "ok (e_splitter_pos (st_env st), st_app st)" and "pieces (e_splitter_pos (st_env st), st_app st) = []" and "0 < fuel"
    and "tq_has (st_heap st) (st_tq st) tss" and "room (st_heap st) QUEUE_SIZE"
  shows "map_phase fuel os rand_r pool sched st = Inl Assert_failed"
  using gen_map_tasks_no_piece [OF assms, of os] by (auto simp: map_phase_def)

theorem empty_input_aborts_witness:
  "\<exists>tq h. tq_init sample_os 1 (sample_heap 1000000) = Inr (Some tq, h) \<and>
     map_phase 5 sample_os rand_r_0 1 [] ((sample_state [] tq h)\<lparr>st_app := wordcount_data []\<rparr>) = Inl Assert_failed"
proof -
  obtain tq h where q: "tq_init sample_os 1 (sample_heap 1000000) = Inr (Some tq, h)" "tq_has h tq [[]]"
    "room h (QUEUE_SIZE + 2 * ENTRY_SIZE * 1)" using sample_queue by blast
  let ?st = "(sample_state [] tq h)\<lparr>st_app := wordcount_data []\<rparr>"
  have ok: "wc_ok [] 13107 (wordcount_data [])" by (simp add: wc_ok_def wordcount_data_def)
  have "value_stream (call_splitter (st_env ?st) 13107) (\<lambda>(pos, d). wc_pieces 4096 13107 d) (\<lambda>(pos, d). wc_ok [] 13107 d)"
    by (rule wc_stream) (simp add: sample_state_def sample_env_def env_filled_def Let_def)
  moreover have "wc_pieces 4096 13107 (wordcount_data []) = []" using wc_splitter_end(2) [OF ok] by (simp add: wordcount_data_def)
  moreover have "room h QUEUE_SIZE" using q(3) by (simp add: room_def)
  ultimately have "map_phase 5 sample_os rand_r_0 1 [] ?st = Inl Assert_failed"
    using ok q(2) by (intro empty_input_aborts [where ok = "\<lambda>(pos, d). wc_ok [] 13107 d"
          and pieces = "\<lambda>(pos, d). wc_pieces 4096 13107 d"]) (simp_all add: sample_state_def sample_env_fields)
  then show ?thesis using q(1) by blast
qed

section \<open>Word count\<close>

text \<open>
  C36: The word count's splitter cuts the file and loses nothing: its pieces, put together again, are
  the file, and they do not overlap.
\<close>

theorem wordcount_pieces_join:
  assumes "wc_ok input req d" and "wc_fpos d = 0"
  shows "concat (map (wc_bytes base input) (wc_pieces base req d)) = input \<and> wc_apart base (wc_pieces base req d)"
  using wc_pieces_spec [OF assms(1), of base] assms(2) by simp

theorem wordcount_pieces_join_witness:
  "concat (map (wc_bytes 4096 sample_text) (wc_pieces 4096 13107 (wordcount_data sample_text))) = sample_text"
  using wordcount_pieces_join [OF sample_contracts(1), of 4096] by (simp add: wordcount_data_def)

text \<open>
  C37: The map function emits the words of its piece in upper case, each with the length of its string and
  the terminating zero: the maximal runs of letters and apostrophes that begin with a letter and that
  another character follows in the piece.
\<close>

theorem wordcount_map_emits_words:
  assumes "len \<le> length data"
  shows "\<exists>data'. wordcount_map data len = Inr (data', map with_size (chunk_words (map toupper (take len data))))"
  by (rule wordcount_map_words [OF assms])

theorem wordcount_map_emits_words_witness:
  "\<exists>data'. wordcount_map [97, 32, 98, 10] 4 = Inr (data', [([65], 2), ([66], 2)])"
proof -
  have "chunk_words (map toupper [97, 32, 98, 10]) = [[65], [66]]"
    by (simp add: toupper_def chunk_words.simps is_letter_def is_word_char_def)
  then show ?thesis using wordcount_map_emits_words [of 4 "[97, 32, 98, 10]"] by (simp add: with_size_def)
qed

text \<open>
  C38: A word at the very end of a piece is lost, because the code that adds it is commented out: of
  a piece that is one single word the map function emits nothing.
\<close>

theorem wordcount_map_loses_last_word:
  assumes "len \<le> length data" and "\<forall>c \<in> set (take len data). is_word_char (toupper c)"
  shows "\<exists>data'. wordcount_map data len = Inr (data', [])"
  using wordcount_map_words [OF assms(1)] chunk_words_all_chars [of "map toupper (take len data)"] assms(2) by simp

theorem wordcount_map_loses_last_word_witness:
  "\<exists>data'. wordcount_map [104, 101, 121] 3 = Inr (data', [])"
  by (rule wordcount_map_loses_last_word) (simp_all add: is_word_char_def is_letter_def toupper_def)

section \<open>Phoenix++: data that is lost, and a buffer that is overrun\<close>

text \<open>
  C39: An array container keeps only the last array that a thread adds: \<open>add\<close> assigns to the column of
  the thread, so that a second \<open>add\<close>, as for a second ingest chunk, loses what the first one
  stored. The container is then as if the first had not been.
\<close>

theorem array_container_add_overwrites:
  assumes "ar_in_size p = n" and "length (ar_vals p) = N * n" and "i < n" and "length t = N" and "length t' = N"
  shows "\<exists>p'. bindE (ar_add N p i t) (\<lambda>p. ar_add N p i t') = Inr p' \<and> ar_add N p i t' = Inr p'"
  by (rule ar_add_twice [OF assms])

theorem array_container_add_overwrites_witness:
  "bindE (ar_add 2 \<lparr>ar_vals = [0, 0], ar_in_size = 1, ar_out_size = 1\<rparr> 0 [3, 4 :: int]) (\<lambda>p. ar_add 2 p 0 [5, 6]) =
     Inr \<lparr>ar_vals = [5, 6], ar_in_size = 1, ar_out_size = 1\<rparr>"
proof -
  have "ar_add 2 \<lparr>ar_vals = [0, 0], ar_in_size = 1, ar_out_size = 1\<rparr> 0 [5, 6 :: int] = Inr \<lparr>ar_vals = [5, 6], ar_in_size = 1, ar_out_size = 1\<rparr>"
    by code_simp
  then show ?thesis
    using array_container_add_overwrites [of "\<lparr>ar_vals = [0, 0], ar_in_size = 1, ar_out_size = 1\<rparr>" 1 2 0 "[3, 4]" "[5, 6 :: int]"] by auto
qed

text \<open>
  C40: A short read overruns the buffer of a chunk. \<open>read_chunk_bytes\<close> asks for the whole size of the
  chunk again when \<open>pread\<close> has read a part of it; when more of the file follows, the second read
  writes behind the \<open>size + 1\<close> bytes that were allocated.
\<close>

theorem short_read_overruns_chunk:
  assumes "construct_filename LINE_MAX job (ck_fileid chunk) = Inr name" and "open_file (job_files local job) name = Inr bytes"
    and "s = js_ingest_bytes job + ck_nread chunk" and "s < js_total_size job" and "find_newline (drop s bytes) s = Inr (ck_nread chunk + n)"
    and "ck_nread chunk + n \<le> length bytes" and "length bytes < 2 ^ 62"
    and "fl_pread (job_files local job) name (ck_nread chunk) n = int k" and "0 < k" and "k < n"
    and "fl_pread (job_files local job) name (ck_nread chunk + k) n = int k'" and "n + 1 < k + k'"
  shows "read_chunk_bytes (Suc (Suc fuel)) local job chunk = Inl Out_of_bounds"
  by (rule read_chunk_bytes_overruns [OF assms])

theorem short_read_overruns_chunk_witness:
  "read_chunk_bytes 2 short_files (letters_job\<lparr>js_total_size := 6\<rparr>) (initialize_chunk 0 0 0) = Inl Out_of_bounds"
proof -
  have "construct_filename LINE_MAX (letters_job\<lparr>js_total_size := 6\<rparr>) 0 = Inr ''d/part-00000''"
    by (simp add: construct_filename_first letters_job_def LINE_MAX_def)
  then have "read_chunk_bytes (Suc (Suc 0)) short_files (letters_job\<lparr>js_total_size := 6\<rparr>) (initialize_chunk 0 0 0) = Inl Out_of_bounds"
    by (intro short_read_overruns_chunk [where name = "''d/part-00000''" and bytes = letters_file and s = 2 and n = 4 and k = 2 and k' = 4])
      (simp_all add: initialize_chunk_def short_files_def letters_job_def job_files_def open_file_def letters_files_def letters_file_def)
  then show ?thesis by (simp only: numeral_2_eq_2)
qed

end
